(* ===== verification/Prelude.thy ===== *)
theory Prelude
  imports Main "HOL-Library.Word" "HOL-Library.Monad_Syntax"
begin

text \<open>
  Shared vocabulary of the development: the integer types of \<open>kernel/include/stdlib.h\<close>
  for the 32-bit target, the option monad in which an operation that may fail to return is
  written, and the arithmetic facts that move an address computation from 32-bit words to
  natural numbers. Two collections carry the proofs of the other theories: \<open>step_simps\<close> for
  the equations that evaluate one step of an operation and \<open>wordn\<close> for the rules that read
  a word expression that does not wrap as a natural number.
\<close>

section \<open>Integer types\<close>

unbundle bit_operations_syntax

type_synonym u8 = "8 word"
type_synonym u16 = "16 word"
type_synonym u32 = "32 word"

named_theorems step_simps
named_theorems wordn

section \<open>Words that do not wrap\<close>

lemma unat_less_32 [simp]: "unat (x :: u32) < 4294967296"
  using unsigned_less [where ?'a = nat, of x] by simp

lemma unat_add_nowrap [wordn]:
  "unat (a :: u32) + unat b < 2 ^ 32 \<Longrightarrow> unat (a + b) = unat a + unat b"
  by (simp add: unat_word_ariths)

lemma unat_of_nat_small [wordn]:
  "n < 2 ^ 32 \<Longrightarrow> unat (of_nat n :: u32) = n"
  by (simp add: unat_of_nat)

lemma unat_add_of_nat [wordn]:
  "unat (a :: u32) + n < 2 ^ 32 \<Longrightarrow> unat (a + of_nat n) = unat a + n"
  by (subst unat_add_nowrap) (simp_all add: unat_of_nat_small)

lemma unat_diff_nowrap [wordn]:
  "(b :: u32) \<le> a \<Longrightarrow> unat (a - b) = unat a - unat b"
  by (simp add: unat_sub)

lemma unat_mult_nowrap [wordn]:
  "unat (a :: u32) * unat b < 2 ^ 32 \<Longrightarrow> unat (a * b) = unat a * unat b"
  by (simp add: unat_word_ariths)

lemma unat_Suc_less [wordn]: "i < (n :: u32) \<Longrightarrow> unat (i + 1) = Suc (unat i)"
proof -
  assume "i < n"
  then have "unat i < unat n"
    by (simp only: word_less_nat_alt)
  moreover have "unat n \<le> 4294967295"
    using unat_less_32 [of n] by linarith
  ultimately have "unat i + 1 < 4294967296"
    by linarith
  then show ?thesis
    by (subst unat_add_nowrap) (simp, simp)
qed

text \<open>The measure of a loop that counts up to a 32-bit bound.\<close>

lemma count_up_measure: "i < (n :: u32) \<Longrightarrow> unat n - unat (i + 1) < unat n - unat i"
  by (simp add: unat_Suc_less word_less_nat_alt)

lemma unat_add_mod: "unat ((a :: u32) + b) = (unat a + unat b) mod 2 ^ 32"
  by (simp add: unat_word_ariths)

lemma unat_le_32 [simp]: "unat (x :: u32) \<le> 4294967295"
  using unat_less_32 [of x] by linarith

lemma word_eq_unat: "(a :: u32) = b \<longleftrightarrow> unat a = unat b"
  by (rule word_unat_eq_iff)

lemma of_nat_add_cancel [simp]:
  "((a :: u32) + of_nat i = a + of_nat j) \<longleftrightarrow> (of_nat i :: u32) = of_nat j"
  by simp

lemma of_nat_eq_iff_32:
  "i < 2 ^ 32 \<Longrightarrow> j < 2 ^ 32 \<Longrightarrow> (of_nat i :: u32) = of_nat j \<longleftrightarrow> i = j"
  by (metis unat_of_nat_small)

lemma add_of_nat_diff [simp]: "((a :: u32) + of_nat i) - a = of_nat i"
  by simp

lemma eq_of_nat_iff: "n < 2 ^ 32 \<Longrightarrow> (w :: u32) = of_nat n \<longleftrightarrow> unat w = n"
  using unat_of_nat_small [of n] by (auto simp: word_eq_unat)

lemma sub_eq_of_nat_iff:
  assumes "n < 2 ^ 32"
  shows "(x :: u32) = p + of_nat n \<longleftrightarrow> unat (x - p) = n"
proof -
  have "x = p + of_nat n \<longleftrightarrow> x - p = of_nat n"
    by (auto simp: algebra_simps)
  then show ?thesis
    using assms by (simp only: eq_of_nat_iff)
qed

section \<open>Loops with a fixed bound\<close>

text \<open>
  \<open>for (i = 0; i < n; i++) body\<close> with a bound fixed before the loop and no early exit, and the
  same loop counting down from \<open>n - 1\<close> to \<open>0\<close>.
\<close>

definition for_up :: "nat \<Rightarrow> (nat \<Rightarrow> 's \<Rightarrow> 's) \<Rightarrow> 's \<Rightarrow> 's" where
  "for_up n body s = fold body [0..<n] s"

definition for_down :: "nat \<Rightarrow> (nat \<Rightarrow> 's \<Rightarrow> 's) \<Rightarrow> 's \<Rightarrow> 's" where
  "for_down n body s = fold body (rev [0..<n]) s"

lemma for_up_0 [simp]: "for_up 0 body s = s"
  by (simp add: for_up_def)

lemma for_up_Suc [simp]: "for_up (Suc n) body s = body n (for_up n body s)"
  by (simp add: for_up_def)

lemma for_down_0 [simp]: "for_down 0 body s = s"
  by (simp add: for_down_def)

lemma for_down_Suc [simp]: "for_down (Suc n) body s = for_down n body (body n s)"
  by (simp add: for_down_def)

text \<open>The rule for a counting loop: an invariant indexed by the iterations done.\<close>

lemma for_up_rule:
  assumes "P 0 s" and "\<And>i s. i < n \<Longrightarrow> P i s \<Longrightarrow> P (Suc i) (body i s)"
  shows "P n (for_up n body s)"
  using assms(2)
proof (induction n)
  case 0
  then show ?case using assms(1) by simp
next
  case (Suc n)
  then show ?case by simp
qed

lemma for_down_rule:
  assumes "P n s" and "\<And>i s. i < n \<Longrightarrow> P (Suc i) s \<Longrightarrow> P i (body i s)"
  shows "P 0 (for_down n body s)"
  using assms
proof (induction n arbitrary: s)
  case 0
  then show ?case by simp
next
  case (Suc n)
  then show ?case by simp
qed

text \<open>The same loop where the body may fail to return.\<close>

primrec for_opt :: "nat \<Rightarrow> (nat \<Rightarrow> 's \<Rightarrow> 's option) \<Rightarrow> 's \<Rightarrow> 's option" where
  "for_opt 0 body s = Some s"
| "for_opt (Suc n) body s = do { s \<leftarrow> for_opt n body s; body n s }"

lemma for_opt_rule:
  assumes "P 0 s" and "\<And>i s. i < n \<Longrightarrow> P i s \<Longrightarrow> \<exists>t. body i s = Some t \<and> P (Suc i) t"
  shows "\<exists>t. for_opt n body s = Some t \<and> P n t"
  using assms(2)
proof (induction n)
  case 0
  then show ?case using assms(1) by simp
next
  case (Suc n)
  then obtain t where "for_opt n body s = Some t" "P n t"
    by (meson less_Suc_eq)
  with Suc.prems [of n t] show ?case by auto
qed

end
