(* ===== verification/Memory.thy ===== *)
theory Memory
  imports Prelude
begin

text \<open>
  Byte-addressed memory of the 32-bit target, as the code sees it through its pointers:
  a function from addresses to bytes, with little-endian loads and stores of 8, 16 and 32
  bits. A pointer is the \<open>u32\<close> address, pointer arithmetic wraps at \<open>2 ^ 32\<close>. The locale
  \<open>cell_store\<close> states what a load after a store returns; the three access widths are
  instances of it.
\<close>

section \<open>Loads and stores\<close>

type_synonym mem = "u32 \<Rightarrow> u8"

definition NULL :: u32 where "NULL = 0"

definition load8 :: "mem \<Rightarrow> u32 \<Rightarrow> u8" where
  "load8 m p = m p"

definition store8 :: "u32 \<Rightarrow> u8 \<Rightarrow> mem \<Rightarrow> mem" where
  "store8 p v m = m(p := v)"

definition load16 :: "mem \<Rightarrow> u32 \<Rightarrow> u16" where
  "load16 m p = ucast (m p) OR push_bit 8 (ucast (m (p + 1)))"

definition store16 :: "u32 \<Rightarrow> u16 \<Rightarrow> mem \<Rightarrow> mem" where
  "store16 p v m = m(p := ucast v, p + 1 := ucast (drop_bit 8 v))"

definition load32 :: "mem \<Rightarrow> u32 \<Rightarrow> u32" where
  "load32 m p = ucast (m p) OR push_bit 8 (ucast (m (p + 1)))
     OR push_bit 16 (ucast (m (p + 2))) OR push_bit 24 (ucast (m (p + 3)))"

definition store32 :: "u32 \<Rightarrow> u32 \<Rightarrow> mem \<Rightarrow> mem" where
  "store32 p v m = m(p := ucast v, p + 1 := ucast (drop_bit 8 v),
     p + 2 := ucast (drop_bit 16 v), p + 3 := ucast (drop_bit 24 v))"

text \<open>
  The layout of a struct whose fields need no padding: its fields in order, with their sizes in bytes.
\<close>

fun field_offset :: "string \<Rightarrow> (string \<times> nat) list \<Rightarrow> nat" where
  "field_offset f [] = 0"
| "field_offset f ((g, n) # fs) = (if g = f then 0 else n + field_offset f fs)"

definition struct_size :: "(string \<times> nat) list \<Rightarrow> nat" where
  "struct_size fs = sum_list (map snd fs)"

text \<open>The \<open>n\<close> bytes from \<open>p\<close> on, with wrap-around.\<close>

definition bytes_at :: "u32 \<Rightarrow> nat \<Rightarrow> u32 set" where
  "bytes_at p n = {x. unat (x - p) < n}"

lemma bytes_at_I: "unat (x - p) < n \<Longrightarrow> x \<in> bytes_at p n"
  by (simp add: bytes_at_def)

lemma bytes_at_nowrap:
  assumes "unat p + n \<le> 2 ^ 32"
  shows "x \<in> bytes_at p n \<longleftrightarrow> unat p \<le> unat x \<and> unat x < unat p + n"
proof -
  have "unat (x - p) = (if p \<le> x then unat x - unat p else unat x + 2 ^ 32 - unat p)"
    by (simp add: unat_sub_if' word_le_nat_alt)
  then show ?thesis
    using assms unat_less_32 [of p] unat_less_32 [of x]
    by (auto simp: bytes_at_def word_le_nat_alt split: if_splits)
qed

lemma bytes_at_offset:
  assumes "k + w \<le> 2 ^ 32"
  shows "x \<in> bytes_at (d + of_nat k) w \<longleftrightarrow> k \<le> unat (x - d) \<and> unat (x - d) < k + w"
proof (cases "w = 0")
  case True
  then show ?thesis by (auto simp: bytes_at_def)
next
  case False
  then have k: "unat (of_nat k :: u32) = k"
    using assms by (intro unat_of_nat_small) simp
  have "x \<in> bytes_at (d + of_nat k) w \<longleftrightarrow> x - d \<in> bytes_at (of_nat k) w"
    by (simp add: bytes_at_def diff_diff_add)
  then show ?thesis
    using assms by (simp add: bytes_at_nowrap k)
qed

lemma bytes_at_mono: "n \<le> k \<Longrightarrow> bytes_at p n \<subseteq> bytes_at p k"
  by (auto simp: bytes_at_def)

lemma bytes_at_Suc: "n < 2 ^ 32 - 1 \<Longrightarrow> bytes_at (p + 1) n \<subseteq> bytes_at p (Suc n)"
proof
  fix x assume n: "n < 2 ^ 32 - 1" and x: "x \<in> bytes_at (p + 1) n"
  have "unat (x - (p + 1)) + 1 < 2 ^ 32"
    using n x by (simp add: bytes_at_def)
  then have "unat (x - (p + 1) + 1) = unat (x - (p + 1)) + 1"
    by (subst unat_add_nowrap) simp_all
  then show "x \<in> bytes_at p (Suc n)"
    using x by (simp add: bytes_at_def)
qed

lemma bytes_at_sub:
  assumes "k + w \<le> n" "n \<le> 2 ^ 32"
  shows "bytes_at (p + of_nat k) w \<subseteq> bytes_at p n"
proof
  fix x assume "x \<in> bytes_at (p + of_nat k) w"
  then show "x \<in> bytes_at p n"
    using bytes_at_offset [of k w x p] assms by (simp add: bytes_at_def)
qed

lemma bytes_at_disjointI:
  "unat p + n \<le> unat q \<Longrightarrow> unat q + k \<le> 2 ^ 32 \<Longrightarrow> bytes_at p n \<inter> bytes_at q k = {}"
  by (auto simp: bytes_at_nowrap)

lemma store32_apply:
  "store32 p v m x =
     (if x = p then ucast v else if x = p + 1 then ucast (drop_bit 8 v)
      else if x = p + 2 then ucast (drop_bit 16 v)
      else if x = p + 3 then ucast (drop_bit 24 v) else m x)"
  by (simp add: store32_def)

lemma bytes_at_4: "bytes_at p 4 = {p, p + 1, p + 2, p + 3}"
proof -
  have "unat (x - p) < 4 \<longleftrightarrow> x - p = 0 \<or> x - p = 1 \<or> x - p = 2 \<or> x - p = 3" for x
    by (simp add: word_eq_unat) arith
  then show ?thesis
    by (auto simp: bytes_at_def algebra_simps)
qed

lemma bytes_at_2: "bytes_at p 2 = {p, p + 1}"
proof -
  have "unat (x - p) < 2 \<longleftrightarrow> x - p = 0 \<or> x - p = 1" for x
    by (simp add: word_eq_unat) arith
  then show ?thesis
    by (auto simp: bytes_at_def algebra_simps)
qed

lemma bytes_at_1: "bytes_at p 1 = {p}"
  by (auto simp: bytes_at_def unat_0_iff)

lemma add_num_neq [simp]:
  "(p :: u32) + 1 \<noteq> p" "p \<noteq> p + 1" "p + 2 \<noteq> p" "p \<noteq> p + 2" "p + 3 \<noteq> p" "p \<noteq> p + 3"
  by simp_all

text \<open>A word is the concatenation of its bytes.\<close>

lemma word_of_bytes32:
  "ucast (ucast v :: u8) OR push_bit 8 (ucast (ucast (drop_bit 8 v) :: u8))
     OR push_bit 16 (ucast (ucast (drop_bit 16 v) :: u8))
     OR push_bit 24 (ucast (ucast (drop_bit 24 v) :: u8)) = (v :: u32)"
proof (rule bit_word_eqI)
  fix n assume n: "n < LENGTH(32)"
  consider "n < 8" | "8 \<le> n" "n < 16" | "16 \<le> n" "n < 24" | "24 \<le> n" by linarith
  then show "bit (ucast (ucast v :: u8) OR push_bit 8 (ucast (ucast (drop_bit 8 v) :: u8))
     OR push_bit 16 (ucast (ucast (drop_bit 16 v) :: u8))
     OR push_bit 24 (ucast (ucast (drop_bit 24 v) :: u8)) :: u32) n = bit v n"
    using n by cases (simp_all add: bit_simps less_diff_conv2)
qed

lemma word_of_bytes16:
  "ucast (ucast v :: u8) OR push_bit 8 (ucast (ucast (drop_bit 8 v) :: u8)) = (v :: u16)"
proof (rule bit_word_eqI)
  fix n assume n: "n < LENGTH(16)"
  consider "n < 8" | "8 \<le> n" by linarith
  then show "bit (ucast (ucast v :: u8) OR push_bit 8 (ucast (ucast (drop_bit 8 v) :: u8)) :: u16) n
      = bit v n"
    using n by cases (simp_all add: bit_simps less_diff_conv2)
qed

lemma load32_store32_same: "load32 (store32 p v m) p = v"
  by (simp add: load32_def store32_apply word_of_bytes32)

lemma load16_store16_same: "load16 (store16 p v m) p = v"
  by (simp add: load16_def store16_def word_of_bytes16)

text \<open>The bytes of a loaded word are the bytes it was loaded from.\<close>

lemma bit_byte_high [simp]: "8 \<le> n \<Longrightarrow> \<not> bit (w :: u8) n"
  by (auto dest: bit_imp_le_length)

lemma byte_of_load32:
  "ucast (load32 m q) = m q"
  "ucast (drop_bit 8 (load32 m q)) = m (q + 1)"
  "ucast (drop_bit 16 (load32 m q)) = m (q + 2)"
  "ucast (drop_bit 24 (load32 m q)) = m (q + 3)"
  by (rule bit_word_eqI, simp add: load32_def bit_simps)+

text \<open>Copying the \<open>w\<close>-byte cell at \<open>q\<close> to \<open>p\<close>: what a load followed by a store does.\<close>

definition copy_cell :: "nat \<Rightarrow> u32 \<Rightarrow> u32 \<Rightarrow> mem \<Rightarrow> mem" where
  "copy_cell w p q m = (\<lambda>x. if x \<in> bytes_at p w then m (q + (x - p)) else m x)"

lemma store32_load32: "store32 p (load32 m q) m = copy_cell 4 p q m"
  by (rule ext) (auto simp: copy_cell_def bytes_at_4 store32_apply byte_of_load32)

lemma store8_load8: "store8 p (load8 m q) m = copy_cell 1 p q m"
  by (rule ext) (auto simp: copy_cell_def bytes_at_1 [simplified] store8_def load8_def)

section \<open>The contract of a memory cell\<close>

text \<open>
  What every access width promises: a load returns what was stored, it depends on the bytes of
  its cell only, and a store changes those bytes only. An array filled cell by cell then holds
  what was stored in it and nothing else changed; \<open>memset\<close> and \<open>memset_word\<close> are the two
  clients.
\<close>

locale cell_store =
  fixes ld :: "mem \<Rightarrow> u32 \<Rightarrow> 'v"
    and st :: "u32 \<Rightarrow> 'v \<Rightarrow> mem \<Rightarrow> mem"
    and width :: nat
  assumes width_pos: "0 < width"
    and ld_st_same: "ld (st p v m) p = v"
    and st_other: "x \<notin> bytes_at p width \<Longrightarrow> st p v m x = m x"
    and ld_cong: "(\<And>x. x \<in> bytes_at p width \<Longrightarrow> m x = m' x) \<Longrightarrow> ld m p = ld m' p"
begin

lemma ld_st_disjoint:
  assumes "bytes_at q width \<inter> bytes_at p width = {}"
  shows "ld (st p v m) q = ld m q"
proof (rule ld_cong)
  fix x assume "x \<in> bytes_at q width"
  with assms show "st p v m x = m x"
    by (intro st_other) blast
qed

text \<open>Filling \<open>n\<close> consecutive cells that do not run over the end of the address space.\<close>

definition fill :: "u32 \<Rightarrow> (nat \<Rightarrow> 'v) \<Rightarrow> nat \<Rightarrow> mem \<Rightarrow> mem" where
  "fill p f n m = for_up n (\<lambda>i. st (p + of_nat (width * i)) (f i)) m"

lemma cell_unat:
  fixes p :: u32
  assumes "unat p + width * n \<le> 2 ^ 32" and "i < n"
  shows "unat (p + of_nat (width * i)) = unat p + width * i"
    and "unat (p + of_nat (width * i)) + width \<le> 2 ^ 32"
    and "width * Suc i \<le> width * n"
proof -
  show le: "width * Suc i \<le> width * n"
    using assms(2) by (intro mult_le_mono2) simp
  then have "unat p + width * i < 2 ^ 32"
    using assms(1) width_pos by simp
  then show eq: "unat (p + of_nat (width * i)) = unat p + width * i"
    by (rule unat_add_of_nat)
  then show "unat (p + of_nat (width * i)) + width \<le> 2 ^ 32"
    using le assms(1) by simp
qed

lemma fill_other:
  assumes "unat p + width * n \<le> 2 ^ 32"
    and "x \<notin> bytes_at p (width * n)"
  shows "fill p f n m x = m x"
proof -
  have "x \<notin> bytes_at (p + of_nat (width * i)) width" if "i < n" for i
    using assms(2) cell_unat [OF assms(1) that] assms(1)
    by (auto simp: bytes_at_nowrap)
  then show ?thesis
    unfolding fill_def
    by (intro for_up_rule [where P = "\<lambda>i s. s x = m x"]) (auto simp: st_other)
qed

lemma fill_ld:
  assumes "unat p + width * n \<le> 2 ^ 32" and "j < n"
  shows "ld (fill p f n m) (p + of_nat (width * j)) = f j"
proof -
  have disj: "bytes_at (p + of_nat (width * j)) width
      \<inter> bytes_at (p + of_nat (width * i)) width = {}" if "j < i" "i < n" for i
  proof (rule bytes_at_disjointI)
    have "width * Suc j \<le> width * i"
      using that by (intro mult_le_mono2) simp
    then show "unat (p + of_nat (width * j)) + width \<le> unat (p + of_nat (width * i))"
      using cell_unat [OF assms(1)] that assms(2) by simp
    show "unat (p + of_nat (width * i)) + width \<le> 2 ^ 32"
      using cell_unat [OF assms(1)] that by simp
  qed
  have "j < n \<longrightarrow> ld (for_up n (\<lambda>i. st (p + of_nat (width * i)) (f i)) m)
      (p + of_nat (width * j)) = f j"
    using disj
    by (intro for_up_rule [where P = "\<lambda>i s. j < i \<longrightarrow> ld s (p + of_nat (width * j)) = f j"])
      (auto simp: less_Suc_eq ld_st_same ld_st_disjoint)
  with assms(2) show ?thesis
    by (simp add: fill_def)
qed

end

interpretation cell8: cell_store load8 store8 1
  by unfold_locales (simp_all add: load8_def store8_def bytes_at_1 [simplified])

interpretation cell16: cell_store load16 store16 2
proof
  fix p x :: u32 and v :: u16 and m m' :: mem
  show "0 < (2 :: nat)" by simp
  show "load16 (store16 p v m) p = v" by (rule load16_store16_same)
  show "x \<notin> bytes_at p 2 \<Longrightarrow> store16 p v m x = m x"
    by (simp add: bytes_at_2 store16_def)
  show "(\<And>x. x \<in> bytes_at p 2 \<Longrightarrow> m x = m' x) \<Longrightarrow> load16 m p = load16 m' p"
    by (simp add: bytes_at_2 load16_def)
qed

interpretation cell32: cell_store load32 store32 4
proof
  fix p x :: u32 and v :: u32 and m m' :: mem
  show "0 < (4 :: nat)" by simp
  show "load32 (store32 p v m) p = v" by (rule load32_store32_same)
  show "x \<notin> bytes_at p 4 \<Longrightarrow> store32 p v m x = m x"
    by (simp add: bytes_at_4 store32_apply)
  show "(\<And>x. x \<in> bytes_at p 4 \<Longrightarrow> m x = m' x) \<Longrightarrow> load32 m p = load32 m' p"
    by (simp add: bytes_at_4 load32_def)
qed

lemmas load_store_simps [step_simps] =
  cell8.ld_st_same cell16.ld_st_same cell32.ld_st_same

text \<open>A load beside a store, for addresses that are numbers.\<close>

lemma load32_store32_apart:
  "unat p + 4 \<le> unat q \<and> unat q + 4 \<le> 2 ^ 32 \<or> unat q + 4 \<le> unat p \<and> unat p + 4 \<le> 2 ^ 32 \<Longrightarrow>
    load32 (store32 q v m) p = load32 m p"
  using bytes_at_disjointI [of p 4 q 4] bytes_at_disjointI [of q 4 p 4] by (intro cell32.ld_st_disjoint) auto

lemma load32_zero: "load32 (\<lambda>_. 0) p = 0"
  by (simp add: load32_def)

end
