(* ===== verification/Stdlib.thy ===== *)
theory Stdlib
  imports Memory
begin

text \<open>
  The memory and string routines of \<open>kernel/stdlib.c\<close>. The state is the byte memory, passed and
  returned explicitly; \<open>char\<close> is a signed byte, so the comparing routines read it with \<open>sint\<close>.
  A \<open>for\<close> loop with a fixed bound is \<open>for_up\<close>/\<open>for_down\<close>, a loop with an early exit is a
  recursive function, and \<open>strcmp\<close>, whose loop need not end, is a partial function.
  The main results: \<open>memcpy\<close> moves the source bytes whatever the overlap, \<open>memset\<close> and
  \<open>memset_word\<close> fill exactly their range, \<open>memchr\<close>/\<open>strlen\<close> find the first match, and the
  string comparisons and copies are characterised on NUL-terminated strings.
\<close>

section \<open>Definitions\<close>

definition memset :: "u32 \<Rightarrow> u8 \<Rightarrow> u32 \<Rightarrow> mem \<Rightarrow> mem" where
  "memset mem val count m =
     for_up (unat count) (\<lambda>i m. store8 (mem + of_nat i) val m) m"

definition memset_word :: "u32 \<Rightarrow> u16 \<Rightarrow> u32 \<Rightarrow> mem \<Rightarrow> mem" where
  "memset_word mem val count m =
     for_up (unat count) (\<lambda>i m. store16 (mem + of_nat (2 * i)) val m) m"

definition memcpy :: "u32 \<Rightarrow> u32 \<Rightarrow> u32 \<Rightarrow> mem \<Rightarrow> mem" where
  "memcpy dest src count m =
     (let n = unat count div 4;
          word = (\<lambda>i m. store32 (dest + of_nat (4 * i)) (load32 m (src + of_nat (4 * i))) m);
          byte = (\<lambda>i m. store8 (dest + of_nat (4 * n + i)) (load8 m (src + of_nat (4 * n + i))) m)
      in if dest < src
         then for_up (unat count - 4 * n) byte (for_up n word m)
         else for_down n word (for_down (unat count - 4 * n) byte m))"

function memcmp_loop :: "mem \<Rightarrow> u32 \<Rightarrow> u32 \<Rightarrow> nat \<Rightarrow> nat \<Rightarrow> int" where
  "memcmp_loop m mem1 mem2 i count =
     (if i < count then
        if sint (load8 m (mem1 + of_nat i)) > sint (load8 m (mem2 + of_nat i)) then 1
        else if sint (load8 m (mem1 + of_nat i)) < sint (load8 m (mem2 + of_nat i)) then -1
        else memcmp_loop m mem1 mem2 (Suc i) count
      else 0)"
  by pat_completeness auto
termination by (relation "measure (\<lambda>(m, p, q, i, n). n - i)") auto

definition memcmp :: "u32 \<Rightarrow> u32 \<Rightarrow> u32 \<Rightarrow> mem \<Rightarrow> int" where
  "memcmp mem1 mem2 count m = memcmp_loop m mem1 mem2 0 (unat count)"

function memchr_loop :: "mem \<Rightarrow> u32 \<Rightarrow> u8 \<Rightarrow> nat \<Rightarrow> nat \<Rightarrow> u32" where
  "memchr_loop m mem val i count =
     (if i < count then
        if load8 m (mem + of_nat i) = val then mem + of_nat i
        else memchr_loop m mem val (Suc i) count
      else NULL)"
  by pat_completeness auto
termination by (relation "measure (\<lambda>(m, p, v, i, n). n - i)") auto

definition memchr :: "u32 \<Rightarrow> u8 \<Rightarrow> u32 \<Rightarrow> mem \<Rightarrow> u32" where
  "memchr mem val count m = memchr_loop m mem val 0 (unat count)"

declare memcmp_loop.simps [simp del] memchr_loop.simps [simp del]

definition strlen :: "u32 \<Rightarrow> mem \<Rightarrow> u32" where
  "strlen str m = memchr str 0 (- 1) m - str"

definition strcpy :: "u32 \<Rightarrow> u32 \<Rightarrow> mem \<Rightarrow> mem" where
  "strcpy dest src m = memcpy dest src (strlen src m + 1) m"

text \<open>
  \<open>strncpy\<close> evaluates \<open>strlen(src)\<close> in the macro \<open>min\<close> before the copy and again in the loop
  after it.
\<close>

definition strncpy :: "u32 \<Rightarrow> u32 \<Rightarrow> u32 \<Rightarrow> mem \<Rightarrow> mem" where
  "strncpy dest src max_count m =
     (let len = (if max_count - 1 > strlen src m then strlen src m else max_count - 1);
          m = memcpy dest src len m
      in for_up (unat (len + 1) - unat (strlen src m)) (\<lambda>_ m. store8 (dest + len) 0 m) m)"

partial_function (option) strcmp :: "mem \<Rightarrow> u32 \<Rightarrow> u32 \<Rightarrow> int option" where
  "strcmp m str1 str2 =
     (if load8 m str1 \<noteq> 0 \<and> load8 m str2 \<noteq> 0 then
        if sint (load8 m str1) > sint (load8 m str2) then Some 1
        else if sint (load8 m str1) < sint (load8 m str2) then Some (- 1)
        else strcmp m (str1 + 1) (str2 + 1)
      else if load8 m str1 = 0 \<and> load8 m str2 \<noteq> 0 then Some 1
      else if load8 m str1 \<noteq> 0 \<and> load8 m str2 = 0 then Some (- 1)
      else Some 0)"

definition strchr :: "u32 \<Rightarrow> u8 \<Rightarrow> mem \<Rightarrow> u32" where
  "strchr str val m =
     (if val = 0 then str + strlen str m else memchr str val (strlen str m) m)"

section \<open>\<open>memcpy\<close> moves its source whatever the overlap\<close>

text \<open>
  The memory in which the bytes at offsets \<open>lo .. hi - 1\<close> of the destination have got the
  values the source had at the start.
\<close>

definition moved :: "u32 \<Rightarrow> u32 \<Rightarrow> nat \<Rightarrow> nat \<Rightarrow> mem \<Rightarrow> mem" where
  "moved d s lo hi m =
     (\<lambda>x. if lo \<le> unat (x - d) \<and> unat (x - d) < hi then m (s + (x - d)) else m x)"

text \<open>Every address is the destination plus an offset; both sides are compared offset by offset.\<close>

lemma at_offset: "(\<And>j. j < 2 ^ 32 \<Longrightarrow> f (d + of_nat j) = g (d + of_nat j)) \<Longrightarrow> f = (g :: mem)"
proof
  fix x assume "\<And>j. j < 2 ^ 32 \<Longrightarrow> f (d + of_nat j) = g (d + of_nat j)"
  from this [of "unat (x - d)"] show "f x = g x" by simp
qed

lemma moved_at:
  "j < 2 ^ 32 \<Longrightarrow> moved d s lo hi m (d + of_nat j) =
     (if lo \<le> j \<and> j < hi then m (s + of_nat j) else m (d + of_nat j))"
  by (simp add: moved_def unat_of_nat_small)

lemma copy_cell_at:
  assumes "j < 2 ^ 32" "k + w \<le> 2 ^ 32"
  shows "copy_cell w (d + of_nat k) (s + of_nat k) m (d + of_nat j) =
     (if k \<le> j \<and> j < k + w then m (s + of_nat j) else m (d + of_nat j))"
proof -
  have "s + of_nat k + (d + of_nat j - (d + of_nat k)) = s + (of_nat j :: u32)"
    by (simp add: algebra_simps)
  then show ?thesis
    using assms by (simp add: copy_cell_def bytes_at_offset unat_of_nat_small)
qed

lemma moved_empty [simp]: "moved d s k k m = m"
  by (rule ext) (auto simp: moved_def)

lemma moved_dest:
  "i < n \<Longrightarrow> n \<le> 2 ^ 32 \<Longrightarrow> moved d s 0 n m (d + of_nat i) = m (s + of_nat i)"
  by (simp add: moved_at)

lemma moved_other: "x \<notin> bytes_at d n \<Longrightarrow> moved d s 0 n m x = m x"
  by (simp add: moved_def bytes_at_def)

text \<open>
  Copying upwards, the next cell of the source has not been overwritten when the destination is
  below; copying downwards, when it is not below.
\<close>

lemma moved_read_up:
  assumes "d \<le> s" "unat s + j < 2 ^ 32" "k \<le> j"
  shows "moved d s 0 k m (s + of_nat j) = m (s + of_nat j)"
proof -
  have "unat (s + of_nat j) = unat s + j"
    using assms(2) by (rule unat_add_of_nat)
  then have "unat (s + of_nat j - d) = unat s + j - unat d"
    using assms(1) by (subst unat_diff_nowrap) (simp_all add: word_le_nat_alt)
  then have "\<not> unat (s + of_nat j - d) < k"
    using assms by (simp add: word_le_nat_alt)
  then show ?thesis
    by (simp add: moved_def)
qed

lemma moved_read_down:
  assumes "s \<le> d" "unat d + n \<le> 2 ^ 32" "j < k" "k \<le> n"
  shows "moved d s k n m (s + of_nat j) = m (s + of_nat j)"
proof -
  have u: "unat (s + of_nat j) = unat s + j"
    using assms by (intro unat_add_of_nat) (simp add: word_le_nat_alt)
  have "unat (s + of_nat j - d) =
      (if unat d \<le> unat s + j then unat s + j - unat d else unat s + j + 2 ^ 32 - unat d)"
    by (simp add: unat_sub_if' u)
  then have "\<not> (k \<le> unat (s + of_nat j - d) \<and> unat (s + of_nat j - d) < n)"
    using assms unfolding word_le_nat_alt by (simp split: if_splits) arith
  then show ?thesis
    by (simp only: moved_def if_False)
qed

lemma moved_up:
  assumes "d \<le> s" "unat s + n \<le> 2 ^ 32" "w + k \<le> n"
  shows "copy_cell w (d + of_nat k) (s + of_nat k) (moved d s 0 k m) = moved d s 0 (w + k) m"
  using assms by (intro at_offset [where d = d]) (auto simp: copy_cell_at moved_at moved_read_up)

lemma moved_down:
  assumes "s \<le> d" "unat d + n \<le> 2 ^ 32" "w + k \<le> n"
  shows "copy_cell w (d + of_nat k) (s + of_nat k) (moved d s (w + k) n m) = moved d s k n m"
  using assms by (intro at_offset [where d = d]) (auto simp: copy_cell_at moved_at moved_read_down)

lemma memcpy_moved:
  assumes "unat dest + unat count \<le> 2 ^ 32" and "unat src + unat count \<le> 2 ^ 32"
  shows "memcpy dest src count m = moved dest src 0 (unat count) m"
proof -
  define n r where "n = unat count div 4" and "r = unat count - 4 * n"
  have c: "unat count = 4 * n + r"
    by (simp add: n_def r_def)
  define wd where "wd = (\<lambda>i m. store32 (dest + of_nat (4 * i)) (load32 m (src + of_nat (4 * i))) m)"
  define bt where
    "bt = (\<lambda>i m. store8 (dest + of_nat (4 * n + i)) (load8 m (src + of_nat (4 * n + i))) m)"
  have wd: "wd i m = copy_cell 4 (dest + of_nat (4 * i)) (src + of_nat (4 * i)) m" for i m
    unfolding wd_def by (rule store32_load32)
  have bt: "bt i m = copy_cell 1 (dest + of_nat (4 * n + i)) (src + of_nat (4 * n + i)) m" for i m
    unfolding bt_def by (rule store8_load8)
  have loops: "memcpy dest src count m =
      (if dest < src then for_up r bt (for_up n wd m) else for_down n wd (for_down r bt m))"
    unfolding memcpy_def Let_def wd_def bt_def r_def n_def by (rule refl)
  show ?thesis
  proof (cases "dest < src")
    case True
    note up = moved_up [of dest src "unat count"]
    have "for_up n wd m = moved dest src 0 (4 * n) m"
    proof (rule for_up_rule [where P = "\<lambda>i s. s = moved dest src 0 (4 * i) m"])
      fix i s assume "i < n" "s = moved dest src 0 (4 * i) m"
      then show "wd i s = moved dest src 0 (4 * Suc i) m"
        using up [of 4 "4 * i"] assms True c by (simp add: wd)
    qed simp
    moreover have "for_up r bt (moved dest src 0 (4 * n) m) = moved dest src 0 (4 * n + r) m"
    proof (rule for_up_rule [where P = "\<lambda>i s. s = moved dest src 0 (4 * n + i) m"])
      fix i s assume "i < r" "s = moved dest src 0 (4 * n + i) m"
      then show "bt i s = moved dest src 0 (4 * n + Suc i) m"
        using up [of 1 "4 * n + i"] assms True c by (simp add: bt)
    qed simp
    ultimately show ?thesis
      using True c loops by simp
  next
    case False
    note down = moved_down [of src dest "unat count"]
    have "for_down r bt m = moved dest src (4 * n + 0) (unat count) m"
    proof (rule for_down_rule [where P = "\<lambda>i s. s = moved dest src (4 * n + i) (unat count) m"])
      fix i s assume "i < r" "s = moved dest src (4 * n + Suc i) (unat count) m"
      then show "bt i s = moved dest src (4 * n + i) (unat count) m"
        using down [of 1 "4 * n + i"] assms False c by (simp add: bt)
    qed (simp add: c)
    moreover have "for_down n wd (moved dest src (4 * n) (unat count) m)
        = moved dest src (4 * 0) (unat count) m"
    proof (rule for_down_rule [where P = "\<lambda>i s. s = moved dest src (4 * i) (unat count) m"])
      fix i s assume "i < n" "s = moved dest src (4 * Suc i) (unat count) m"
      then show "wd i s = moved dest src (4 * i) (unat count) m"
        using down [of 4 "4 * i"] assms False c by (simp add: wd)
    qed simp
    ultimately show ?thesis
      using False c loops by simp
  qed
qed

section \<open>Filling\<close>

lemma memset_fill: "memset mem val count m = cell8.fill mem (\<lambda>_. val) (unat count) m"
  unfolding memset_def cell8.fill_def by simp

lemma memset_word_fill: "memset_word mem val count m = cell16.fill mem (\<lambda>_. val) (unat count) m"
  unfolding memset_word_def cell16.fill_def by simp

section \<open>Searching\<close>

lemma memchr_loop_found:
  assumes "i \<le> k" "k < n" "\<And>j. i \<le> j \<Longrightarrow> j < k \<Longrightarrow> m (mem + of_nat j) \<noteq> v"
    and "m (mem + of_nat k) = v"
  shows "memchr_loop m mem v i n = mem + of_nat k"
  using assms
proof (induction "k - i" arbitrary: i)
  case 0
  then show ?case by (simp add: memchr_loop.simps [of m mem v i] load8_def)
next
  case (Suc d)
  then have "memchr_loop m mem v (Suc i) n = mem + of_nat k"
    by simp
  moreover have "m (mem + of_nat i) \<noteq> v" and "i < n"
    using Suc.hyps(2) Suc.prems(2,3) by simp_all
  ultimately show ?case
    by (simp add: memchr_loop.simps [of m mem v i] load8_def)
qed

lemma memchr_loop_missing:
  "(\<And>j. i \<le> j \<Longrightarrow> j < n \<Longrightarrow> m (mem + of_nat j) \<noteq> v) \<Longrightarrow> memchr_loop m mem v i n = NULL"
proof (induction "n - i" arbitrary: i)
  case 0
  then show ?case by (simp add: memchr_loop.simps [of m mem v i])
next
  case (Suc d)
  then have "memchr_loop m mem v (Suc i) n = NULL"
    by simp
  moreover have "m (mem + of_nat i) \<noteq> v"
    using Suc.hyps(2) Suc.prems by simp
  ultimately show ?case
    by (simp add: memchr_loop.simps [of m mem v i] load8_def)
qed

lemma memchr_found:
  "k < unat count \<Longrightarrow> (\<And>j. j < k \<Longrightarrow> m (mem + of_nat j) \<noteq> v) \<Longrightarrow> m (mem + of_nat k) = v \<Longrightarrow>
     memchr mem v count m = mem + of_nat k"
  unfolding memchr_def by (rule memchr_loop_found) auto

section \<open>NUL-terminated strings\<close>

text \<open>The bytes of a string of length below \<open>2 ^ 32 - 1\<close>, without its terminator.\<close>

definition cstr :: "mem \<Rightarrow> u32 \<Rightarrow> u8 list \<Rightarrow> bool" where
  "cstr m p xs \<longleftrightarrow> length xs < 2 ^ 32 - 1 \<and> 0 \<notin> set xs
     \<and> (\<forall>i < length xs. m (p + of_nat i) = xs ! i) \<and> m (p + of_nat (length xs)) = 0"

lemma cstr_nonzero: "cstr m p xs \<Longrightarrow> i < length xs \<Longrightarrow> m (p + of_nat i) \<noteq> 0"
  by (auto simp: cstr_def dest: nth_mem)

lemma cstr_Nil: "cstr m p [] \<longleftrightarrow> m p = 0"
  by (simp add: cstr_def)

lemma cstr_Cons:
  "cstr m p (x # xs) \<longleftrightarrow> m p = x \<and> x \<noteq> 0 \<and> length xs < 2 ^ 32 - 2 \<and> cstr m (p + 1) xs"
  by (auto simp: cstr_def add_ac All_less_Suc2)

lemma unat_minus_one_32: "unat (- 1 :: u32) = 2 ^ 32 - 1"
  by (simp add: unsigned_minus_1_eq_mask mask_eq_exp_minus_1)

lemma cstr_strlen:
  assumes "cstr m p xs"
  shows "strlen p m = of_nat (length xs)"
proof -
  have "memchr p 0 (- 1) m = p + of_nat (length xs)"
    unfolding memchr_def
    using assms cstr_nonzero [OF assms]
    by (intro memchr_loop_found) (auto simp: cstr_def unat_minus_one_32)
  then show ?thesis
    by (simp add: strlen_def)
qed

lemma cstr_unat_strlen: "cstr m p xs \<Longrightarrow> unat (strlen p m) = length xs"
  by (simp add: cstr_strlen unat_of_nat_small cstr_def)

section \<open>Copying strings\<close>

lemma moved_cstr:
  assumes "cstr m src xs"
  shows "cstr (moved dest src 0 (Suc (length xs)) m) dest xs"
proof -
  have "moved dest src 0 (Suc (length xs)) m (dest + of_nat i) = m (src + of_nat i)"
    if "i \<le> length xs" for i
    using assms that by (intro moved_dest) (auto simp: cstr_def)
  then show ?thesis
    using assms by (simp add: cstr_def)
qed

lemma strcpy_moved:
  assumes "cstr m src xs"
    and "unat dest + Suc (length xs) \<le> 2 ^ 32" and "unat src + Suc (length xs) \<le> 2 ^ 32"
  shows "strcpy dest src m = moved dest src 0 (Suc (length xs)) m"
proof -
  have "unat (strlen src m + 1) = Suc (length xs)"
    using assms(1) by (subst unat_add_nowrap) (simp_all add: cstr_unat_strlen cstr_def)
  then show ?thesis
    using assms by (simp add: strcpy_def memcpy_moved)
qed

text \<open>A string outside the range a copy writes is still there.\<close>

lemma cstr_frame:
  assumes "cstr m p xs" and "\<And>x. x \<in> bytes_at p (Suc (length xs)) \<Longrightarrow> m' x = m x"
  shows "cstr m' p xs"
proof -
  have "m' (p + of_nat i) = m (p + of_nat i)" if "i \<le> length xs" for i
    using that assms(1) by (intro assms(2)) (simp add: bytes_at_def unat_of_nat_small cstr_def)
  then show ?thesis
    using assms(1) by (simp add: cstr_def)
qed

lemma memcpy_keeps_cstr:
  assumes "cstr m p xs" and "bytes_at p (Suc (length xs)) \<inter> bytes_at dest (unat count) = {}"
    and "unat dest + unat count \<le> 2 ^ 32" and "unat src + unat count \<le> 2 ^ 32"
  shows "cstr (memcpy dest src count m) p xs"
  using assms(1)
proof (rule cstr_frame)
  fix x assume "x \<in> bytes_at p (Suc (length xs))"
  then show "memcpy dest src count m x = m x"
    using assms by (subst memcpy_moved) (auto intro!: moved_other)
qed

section \<open>Comparing\<close>

text \<open>What \<open>strcmp\<close> computes, as a function of the two strings.\<close>

fun strcmp_spec :: "u8 list \<Rightarrow> u8 list \<Rightarrow> int" where
  "strcmp_spec [] [] = 0"
| "strcmp_spec [] (y # ys) = 1"
| "strcmp_spec (x # xs) [] = - 1"
| "strcmp_spec (x # xs) (y # ys) =
     (if sint x > sint y then 1 else if sint x < sint y then - 1 else strcmp_spec xs ys)"

lemma strcmp_cstr:
  "cstr m p xs \<Longrightarrow> cstr m q ys \<Longrightarrow> strcmp m p q = Some (strcmp_spec xs ys)"
proof (induction xs ys arbitrary: p q rule: strcmp_spec.induct)
  case (4 x xs y ys)
  then show ?case
    by (subst strcmp.simps) (auto simp: cstr_Cons load8_def)
qed (subst strcmp.simps, simp add: cstr_Cons cstr_Nil load8_def)+

lemma sint_eq_iff [simp]: "sint (x :: u8) = sint y \<longleftrightarrow> x = y"
  by (auto intro: signed_word_eqI)

lemma strcmp_spec_0_iff: "strcmp_spec xs ys = 0 \<longleftrightarrow> xs = ys"
proof (induction xs ys rule: strcmp_spec.induct)
  case (4 x xs y ys)
  then show ?case
    by (cases "sint x" "sint y" rule: linorder_cases) auto
qed auto

lemma strcmp_spec_swap: "strcmp_spec ys xs = - strcmp_spec xs ys"
  by (induction xs ys rule: strcmp_spec.induct) auto

lemma strcmp_spec_prefix: "strcmp_spec xs (xs @ y # ys) = 1"
  by (induction xs) auto

lemma memcmp_loop_split:
  assumes "i \<le> n"
  shows "(\<forall>j. i \<le> j \<and> j < n \<longrightarrow> m (p + of_nat j) = m (q + of_nat j))
      \<and> memcmp_loop m p q i n = 0
    \<or> (\<exists>k. i \<le> k \<and> k < n \<and> (\<forall>j. i \<le> j \<and> j < k \<longrightarrow> m (p + of_nat j) = m (q + of_nat j))
      \<and> m (p + of_nat k) \<noteq> m (q + of_nat k)
      \<and> memcmp_loop m p q i n = sgn (sint (m (p + of_nat k)) - sint (m (q + of_nat k))))"
  (is "?eq i \<or> ?diff i")
  using assms
proof (induction "n - i" arbitrary: i)
  case 0
  then show ?case by (auto simp: memcmp_loop.simps [of m p q i])
next
  case (Suc d)
  then have i: "i < n" by simp
  show ?case
  proof (cases "m (p + of_nat i) = m (q + of_nat i)")
    case True
    then have step: "memcmp_loop m p q i n = memcmp_loop m p q (Suc i) n"
      using i by (simp add: memcmp_loop.simps [of m p q i] load8_def)
    have ext: "(\<forall>j. i \<le> j \<and> j < k \<longrightarrow> m (p + of_nat j) = m (q + of_nat j))
        \<longleftrightarrow> (\<forall>j. Suc i \<le> j \<and> j < k \<longrightarrow> m (p + of_nat j) = m (q + of_nat j))" for k
      using True by (metis Suc_le_eq le_eq_less_or_eq)
    have "?eq (Suc i) \<or> ?diff (Suc i)"
      using Suc by simp
    then show ?thesis
      unfolding step ext [of n] using ext by (meson Suc_leD)
  next
    case False
    then have "memcmp_loop m p q i n = sgn (sint (m (p + of_nat i)) - sint (m (q + of_nat i)))"
      using i by (auto simp: memcmp_loop.simps [of m p q i] load8_def sgn_if)
    then have "?diff i"
      using False i by (intro exI [of _ i]) auto
    then show ?thesis ..
  qed
qed

section \<open>Bounded copies\<close>

text \<open>
  With the string shorter than the bound the copy and its terminator arrive; with a longer string
  the final loop starts past its bound and writes nothing.
\<close>

lemma strncpy_fits_moved:
  assumes "cstr m src xs" and "length xs < unat max_count"
    and "unat dest + Suc (length xs) \<le> 2 ^ 32" and "unat src + Suc (length xs) \<le> 2 ^ 32"
    and "bytes_at src (Suc (length xs)) \<inter> bytes_at dest (Suc (length xs)) = {}"
  shows "strncpy dest src max_count m
    = (moved dest src 0 (length xs) m)(dest + of_nat (length xs) := 0)"
proof -
  define len :: u32 where "len = of_nat (length xs)"
  have ul: "unat len = length xs"
    using assms(1) by (simp add: len_def unat_of_nat_small cstr_def)
  have "max_count \<noteq> 0"
    using assms(2) by auto
  then have "unat (max_count - 1) = unat max_count - 1"
    by (rule unat_minus_one)
  then have "\<not> max_count - 1 < len"
    using assms(2) ul by (simp add: word_less_nat_alt)
  moreover have "strlen src m = len"
    using assms(1) by (simp add: cstr_strlen len_def)
  ultimately have pick: "(if max_count - 1 > strlen src m then strlen src m else max_count - 1) = len"
    by auto
  have cp: "memcpy dest src len m = moved dest src 0 (length xs) m"
    using assms(3,4) by (simp add: memcpy_moved ul)
  have "bytes_at dest (unat len) \<subseteq> bytes_at dest (Suc (length xs))"
    by (auto simp: bytes_at_def ul)
  then have "cstr (memcpy dest src len m) src xs"
    using assms by (intro memcpy_keeps_cstr) (auto simp: ul)
  then have sl': "strlen src (moved dest src 0 (length xs) m) = len"
    unfolding cp by (simp add: cstr_strlen len_def)
  have "unat (len + 1) = Suc (unat len)"
    using assms(1) ul by (subst unat_add_nowrap) (simp_all add: cstr_def)
  then have "unat (len + 1) - unat len = Suc 0"
    by simp
  then show ?thesis
    unfolding strncpy_def pick Let_def cp sl' by (simp add: store8_def len_def)
qed

lemma strncpy_truncated_moved:
  assumes "cstr m src xs" and "0 < unat max_count" and "unat max_count \<le> length xs"
    and "unat dest + Suc (length xs) \<le> 2 ^ 32" and "unat src + Suc (length xs) \<le> 2 ^ 32"
    and "bytes_at src (Suc (length xs)) \<inter> bytes_at dest (Suc (length xs)) = {}"
  shows "strncpy dest src max_count m = moved dest src 0 (unat max_count - 1) m"
proof -
  have "max_count \<noteq> 0"
    using assms(2) by auto
  then have u: "unat (max_count - 1) = unat max_count - 1"
    by (rule unat_minus_one)
  have ul: "unat (strlen src m) = length xs"
    using assms(1) by (rule cstr_unat_strlen)
  have "max_count - 1 < strlen src m"
    using assms(2,3) u ul by (simp add: word_less_nat_alt)
  then have pick: "(if max_count - 1 > strlen src m then strlen src m else max_count - 1)
      = max_count - 1"
    by auto
  have cp: "memcpy dest src (max_count - 1) m = moved dest src 0 (unat max_count - 1) m"
    using assms(3-5) by (subst memcpy_moved) (simp_all add: u)
  have "bytes_at dest (unat (max_count - 1)) \<subseteq> bytes_at dest (Suc (length xs))"
    using assms(3) by (auto simp: bytes_at_def u)
  then have "cstr (memcpy dest src (max_count - 1) m) src xs"
    using assms by (intro memcpy_keeps_cstr) (auto simp: u)
  then have "unat (strlen src (moved dest src 0 (unat max_count - 1) m)) = length xs"
    unfolding cp by (rule cstr_unat_strlen)
  moreover have "max_count - 1 + 1 = max_count"
    by simp
  ultimately show ?thesis
    using assms(3) unfolding strncpy_def pick Let_def cp by simp
qed

section \<open>Properties\<close>

text \<open>
  C32: \<open>memcpy\<close> copies every byte of the source as it was before the call and changes no other
  byte, whether or not the ranges overlap and in whichever direction.
\<close>

theorem memcpy_is_memmove:
  assumes "unat dest + unat count \<le> 2 ^ 32" and "unat src + unat count \<le> 2 ^ 32"
  shows "(\<forall>i < unat count. memcpy dest src count m (dest + of_nat i) = m (src + of_nat i))
    \<and> (\<forall>x. x \<notin> bytes_at dest (unat count) \<longrightarrow> memcpy dest src count m x = m x)"
  using assms by (simp add: memcpy_moved moved_dest moved_other)

text \<open>An overlapping copy of eleven bytes, one address up.\<close>

theorem memcpy_is_memmove_witness:
  "memcpy 101 100 11 (\<lambda>x. ucast x) (101 + of_nat 4) = 104"
proof -
  have "\<forall>i < unat (11 :: u32). memcpy 101 100 11 (\<lambda>x. ucast x) (101 + of_nat i) = ucast (100 + of_nat i :: u32)"
    using memcpy_is_memmove [of 101 11 100 "\<lambda>x. ucast x"] by simp
  from this [rule_format, of 4] show ?thesis by simp
qed

text \<open>
  \<open>memset\<close> and \<open>memset_word\<close> write the value to every byte, respectively every 16-bit cell,
  of their range and to nothing else.
\<close>

theorem memset_fills_range:
  "unat mem + unat count \<le> 2 ^ 32 \<Longrightarrow>
     (\<forall>i < unat count. memset mem val count m (mem + of_nat i) = val)
     \<and> (\<forall>x. x \<notin> bytes_at mem (unat count) \<longrightarrow> memset mem val count m x = m x)
   \<and> (unat mem + 2 * unat count \<le> 2 ^ 32 \<longrightarrow>
     (\<forall>i < unat count. load16 (memset_word mem w count m) (mem + of_nat (2 * i)) = w)
     \<and> (\<forall>x. x \<notin> bytes_at mem (2 * unat count) \<longrightarrow> memset_word mem w count m x = m x))"
  using cell8.fill_ld [of mem "unat count" _ "\<lambda>_. val" m]
    cell8.fill_other [of mem "unat count" _ "\<lambda>_. val" m]
    cell16.fill_ld [of mem "unat count" _ "\<lambda>_. w" m]
    cell16.fill_other [of mem "unat count" _ "\<lambda>_. w" m]
  by (auto simp: memset_fill memset_word_fill load8_def)

theorem memset_fills_range_witness:
  "memset 0xB8000 7 80 (\<lambda>_. 0) (0xB8000 + of_nat 79) = 7"
proof -
  have "\<forall>i < 80. memset 0xB8000 7 80 (\<lambda>_. 0) (0xB8000 + of_nat i) = 7"
    using memset_fills_range [of "0xB8000" 80 7 "\<lambda>_. 0" 0] by simp
  from this [rule_format, of 79] show ?thesis by simp
qed

text \<open>
  \<open>memchr\<close> returns the address of the first byte equal to the value among the \<open>count\<close> bytes
  searched, and \<open>NULL\<close> when there is none.
\<close>

theorem memchr_first_match:
  "memchr mem val count m =
     (if \<exists>k < unat count. m (mem + of_nat k) = val
      then mem + of_nat (LEAST k. m (mem + of_nat k) = val) else NULL)"
proof (cases "\<exists>k < unat count. m (mem + of_nat k) = val")
  case True
  define k where "k = (LEAST k. m (mem + of_nat k) = val)"
  from True obtain i where i: "i < unat count" "m (mem + of_nat i) = val" by blast
  have "m (mem + of_nat k) = val"
    unfolding k_def by (rule LeastI [of _ i]) (rule i(2))
  moreover have "k \<le> i"
    unfolding k_def by (rule Least_le) (rule i(2))
  moreover have "m (mem + of_nat j) \<noteq> val" if "j < k" for j
    using that unfolding k_def by (rule not_less_Least)
  ultimately have "memchr mem val count m = mem + of_nat k"
    using i(1) by (intro memchr_found) simp_all
  then show ?thesis
    using True by (simp add: memchr_found k_def [symmetric])
next
  case False
  then show ?thesis
    by (auto simp: memchr_def intro: memchr_loop_missing)
qed

text \<open>
  \<open>strcpy\<close> leaves at the destination exactly the string that was at the source, terminator
  included, and writes no byte outside it.
\<close>

theorem strcpy_copies_string:
  assumes "cstr m src xs"
    and "unat dest + Suc (length xs) \<le> 2 ^ 32" and "unat src + Suc (length xs) \<le> 2 ^ 32"
  shows "cstr (strcpy dest src m) dest xs
    \<and> (\<forall>x. x \<notin> bytes_at dest (Suc (length xs)) \<longrightarrow> strcpy dest src m x = m x)"
  using assms by (simp add: strcpy_moved moved_cstr moved_other)

theorem strcpy_copies_string_witness:
  "cstr (strcpy 200 100 ((\<lambda>_. 0)(100 := 104, 101 := 105))) 200 [104, 105]"
  using strcpy_copies_string [of "(\<lambda>_. 0)(100 := 104, 101 := 105)" 100 "[104, 105]" 200]
  by (simp add: cstr_Cons cstr_Nil)

text \<open>
  On NUL-terminated strings \<open>strcmp\<close> terminates, returns 0 exactly on equal strings, and
  negates its result when its arguments are exchanged.
\<close>

theorem strcmp_decides_equality:
  assumes "cstr m p xs" and "cstr m q ys"
  shows "\<exists>r. strcmp m p q = Some r \<and> (r = 0 \<longleftrightarrow> xs = ys) \<and> strcmp m q p = Some (- r)"
  using assms strcmp_cstr [of m p xs q ys] strcmp_cstr [of m q ys p xs]
  by (simp add: strcmp_spec_0_iff strcmp_spec_swap [of ys xs])

theorem strcmp_decides_equality_witness:
  "\<exists>r. strcmp ((\<lambda>_. 0)(100 := 104, 200 := 104)) 100 200 = Some r \<and> r = 0"
  using strcmp_decides_equality [of "(\<lambda>_. 0)(100 := 104, 200 := 104)" 100 "[104]" 200 "[104]"]
  by (auto simp: cstr_Cons cstr_Nil)

text \<open>
  A string that is a proper prefix of the other compares as greater: \<open>strcmp\<close> returns 1 for
  it, where the C library function of that name returns a negative value.
\<close>

theorem strcmp_prefix_is_greater:
  assumes "cstr m p xs" and "cstr m q (xs @ y # ys)"
  shows "strcmp m p q = Some 1"
  using assms strcmp_cstr [of m p xs q "xs @ y # ys"] by (simp add: strcmp_spec_prefix)

theorem strcmp_prefix_is_greater_witness:
  "strcmp ((\<lambda>_. 0)(100 := 104, 200 := 104, 201 := 105)) 100 200 = Some 1"
  using strcmp_prefix_is_greater [of "(\<lambda>_. 0)(100 := 104, 200 := 104, 201 := 105)" 100 "[104]" 200 105 "[]"]
  by (simp add: cstr_Cons cstr_Nil)

text \<open>
  \<open>strncpy\<close> with a bound that the string does not fit under copies \<open>max_count - 1\<close> bytes and
  writes nothing else: the byte that would hold the terminator keeps its old value. When the
  string fits, the whole string and its terminator are written.
\<close>

theorem strncpy_terminates_only_if_fits:
  assumes "cstr m src xs" and "0 < unat max_count"
    and "unat dest + Suc (length xs) \<le> 2 ^ 32" and "unat src + Suc (length xs) \<le> 2 ^ 32"
    and "bytes_at src (Suc (length xs)) \<inter> bytes_at dest (Suc (length xs)) = {}"
  shows "if length xs < unat max_count then cstr (strncpy dest src max_count m) dest xs
    else strncpy dest src max_count m (dest + of_nat (unat max_count - 1))
           = m (dest + of_nat (unat max_count - 1))"
proof (cases "length xs < unat max_count")
  case True
  have "(moved dest src 0 (length xs) m)(dest + of_nat (length xs) := 0)
      = moved dest src 0 (Suc (length xs)) m"
    using assms(1)
    by (intro at_offset [where d = dest]) (auto simp: moved_at of_nat_eq_iff_32 cstr_def)
  with True assms show ?thesis
    by (simp add: strncpy_fits_moved moved_cstr)
next
  case False
  then have "strncpy dest src max_count m = moved dest src 0 (unat max_count - 1) m"
    using assms by (intro strncpy_truncated_moved) auto
  moreover have "unat max_count - 1 < 2 ^ 32"
    by (rule le_less_trans [OF diff_le_self]) simp
  ultimately show ?thesis
    using False moved_at [of "unat max_count - 1" dest src 0 "unat max_count - 1" m] by simp
qed

theorem strncpy_terminates_only_if_fits_witness:
  "strncpy 200 100 2 ((\<lambda>_. 0)(100 := 104, 101 := 105, 201 := 9)) (200 + of_nat (2 - 1)) = 9"
proof -
  let ?m = "(\<lambda>_. 0)(100 := 104, 101 := 105, 201 := 9) :: mem"
  have "cstr ?m 100 [104, 105]"
    by (simp add: cstr_Cons cstr_Nil)
  moreover have "bytes_at 100 (Suc (length [104, 105 :: u8])) \<inter> bytes_at 200 (Suc (length [104, 105 :: u8])) = {}"
    by (rule bytes_at_disjointI) simp_all
  ultimately show ?thesis
    using strncpy_terminates_only_if_fits [of ?m 100 "[104, 105]" 2 200] by simp
qed

end
