(* ===== verification/Machine.thy ===== *)
theory Machine
  imports Stdlib
begin

text \<open>
  The state the kernel works on. The C globals of \<open>memory_manager.c\<close>, \<open>tty.c\<close>, \<open>interrupts.c\<close>,
  \<open>gdt.c\<close> and \<open>ATA.h\<close> are fields of one record, with the structs of the headers as records of
  their own. Memory appears twice, as the code itself uses it:
  \<^item> \<open>phys\<close>: physical memory, reached only through the window \<open>TEMP_PAGE\<close>. The free-list headers
    and the page tables live here, all of them 32-bit cells at 4-aligned addresses, so a cell is
    indexed by its physical address. \<open>temp_pte\<close> is the page table entry that \<open>TEMP_PAGE_INFO\<close>
    points to: it says which frame the window shows.
  \<^item> \<open>mem\<close>: the byte memory at the virtual addresses of the kernel, where the block tables, the
    heap, the strings and the screen buffer live.
  Devices are an environment: \<open>port_in n p\<close> is the byte the \<open>n\<close>-th read of the run finds at port
  \<open>p\<close>, and \<open>out_log\<close> is the list of writes to ports, latest first. The addresses that the linker
  assigns are the record \<open>symbols\<close>; the fixed ones of \<open>script.ld\<close> are constants.
\<close>

section \<open>Constants of the headers and of the linker script\<close>

abbreviation (input) PAGE_SIZE :: u32 where "PAGE_SIZE \<equiv> 0x1000"
abbreviation (input) PAGE_OFFSET_BITS :: nat where "PAGE_OFFSET_BITS \<equiv> 12"
abbreviation (input) PAGE_OFFSET_MASK :: u32 where "PAGE_OFFSET_MASK \<equiv> 0xFFF"
abbreviation (input) PAGE_PRESENT :: u32 where "PAGE_PRESENT \<equiv> 1"
abbreviation (input) PAGE_WRITABLE :: u32 where "PAGE_WRITABLE \<equiv> 2"
abbreviation (input) PAGE_USER :: u32 where "PAGE_USER \<equiv> 4"

abbreviation (input) KERNEL_BASE_LMA :: u32 where "KERNEL_BASE_LMA \<equiv> 0x00100000"
abbreviation (input) KERNEL_BASE_VMA :: u32 where "KERNEL_BASE_VMA \<equiv> 0x80000000"
abbreviation (input) KERNEL_ADDRESS_SPACE_START :: u32 where "KERNEL_ADDRESS_SPACE_START \<equiv> 0x80000000"
abbreviation (input) KERNEL_ADDRESS_SPACE_END :: u32 where "KERNEL_ADDRESS_SPACE_END \<equiv> 0xFFFFFFFF"
abbreviation (input) USER_ADDRESS_SPACE_START :: u32 where "USER_ADDRESS_SPACE_START \<equiv> 0x400000"
abbreviation (input) USER_ADDRESS_SPACE_END :: u32 where "USER_ADDRESS_SPACE_END \<equiv> 0x7FFFF000"

text \<open>\<open>TEMP_PAGE\<close> as \<open>init_memory_manager\<close> computes it from \<open>KERNEL_BASE_VMA\<close>.\<close>

definition TEMP_PAGE :: u32 where
  "TEMP_PAGE = (KERNEL_BASE_VMA AND push_bit (12 + 10) 0x3FF) + push_bit 12 0x3FF"

lemma TEMP_PAGE_value: "TEMP_PAGE = 0x803FF000"
  by (simp add: TEMP_PAGE_def)

record symbols =
  KERNEL_END :: u32
  KERNEL_PAGE_TABLE :: u32
  KERNEL_VIRT_BLOCK_TABLE :: u32
  num_buffer :: u32
  gdt_addr :: u32
  gp_addr :: u32
  tss_addr :: u32
  handler_wrapper_template :: u32
  wrapper_size :: u32
  call_handler_offset :: u32
  call_size :: u32
  default_handler_addr :: u32
  keyboard_int_handler_addr :: u32
  timer_handler_addr :: u32
  commands_addr :: u32
  gen_int :: u32
  usermode_label :: u32

section \<open>The structs\<close>

record VirtMemory =
  v_block_count :: u32
  v_blocks :: u32
  v_table_size :: u32

record DynamicMemory =
  d_block_count :: u32
  d_blocks :: u32
  d_table_size :: u32
  d_heap :: u32
  d_heap_size :: u32

record AddressSpace =
  page_dir :: u32
  as_start :: u32
  as_end :: u32
  virt_memory :: VirtMemory
  dynamic_memory :: DynamicMemory

text \<open>\<open>cur_address_space\<close> points to one of the two global address spaces.\<close>

datatype space = Kernel_Space | User_Space

record tty =
  tty_width :: u32
  tty_height :: u32
  cursor :: u32
  text_attr :: u8
  tty_buffer :: u32
  tty_io_port :: u16

record keyboard =
  key_buffer :: "u8 list"
  key_buffer_head :: u32
  key_buffer_tail :: u32

record gdt_entry =
  limit_low :: u16
  base_low :: u16
  base_middle :: u8
  access :: u8
  granularity :: u8
  base_high :: u8

record gdt_ptr =
  gp_limit :: u16
  gp_base :: u32

record AtaDevice =
  ata_available :: u8
  ata_port :: u32
  ata_slave_bit :: u32
  ata_sector_nubmer :: u32
  ata_is_lba48_supported :: u32

record kernel =
  phys :: "u32 \<Rightarrow> u32"
  temp_pte :: u32
  mem :: mem
  cr3 :: u32
  free_page_count :: u32
  free_phys_memory_pointer :: u32
  kernel_page_dir :: u32
  memory_size :: u32
  cur_address_space :: space
  kernel_address_space :: AddressSpace
  user_address_space :: AddressSpace
  tty_state :: tty
  kbd :: keyboard
  gdt :: "gdt_entry list"
  gp :: gdt_ptr
  gdtr :: gdt_ptr
  seg_cs :: u16
  seg_ds :: u16
  seg_es :: u16
  seg_fs :: u16
  seg_gs :: u16
  seg_ss :: u16
  esp :: u32
  eflags :: u32
  task_register :: u16
  idt :: u32
  idtr :: "u16 \<times> u32"
  ata_devices :: "AtaDevice list"
  port_in :: "nat \<Rightarrow> u16 \<Rightarrow> u8"
  in_count :: nat
  out_log :: "(u16 \<times> u8) list"
  syms :: symbols

section \<open>Ports\<close>

definition outportb :: "u16 \<Rightarrow> u8 \<Rightarrow> kernel \<Rightarrow> kernel" where
  "outportb port val s = s\<lparr>out_log := (port, val) # out_log s\<rparr>"

definition inportb :: "u16 \<Rightarrow> kernel \<Rightarrow> u8 \<times> kernel" where
  "inportb port s = (port_in s (in_count s) port, s\<lparr>in_count := Suc (in_count s)\<rparr>)"

section \<open>The address space in force\<close>

definition address_space :: "space \<Rightarrow> kernel \<Rightarrow> AddressSpace" where
  "address_space sp s =
     (case sp of Kernel_Space \<Rightarrow> kernel_address_space s | User_Space \<Rightarrow> user_address_space s)"

definition set_address_space :: "space \<Rightarrow> AddressSpace \<Rightarrow> kernel \<Rightarrow> kernel" where
  "set_address_space sp a s =
     (case sp of Kernel_Space \<Rightarrow> s\<lparr>kernel_address_space := a\<rparr>
               | User_Space \<Rightarrow> s\<lparr>user_address_space := a\<rparr>)"

abbreviation cur_space :: "kernel \<Rightarrow> AddressSpace" where
  "cur_space s \<equiv> address_space (cur_address_space s) s"

definition set_cur_virt :: "VirtMemory \<Rightarrow> kernel \<Rightarrow> kernel" where
  "set_cur_virt v s =
     set_address_space (cur_address_space s) ((cur_space s)\<lparr>virt_memory := v\<rparr>) s"

definition set_cur_dynamic :: "DynamicMemory \<Rightarrow> kernel \<Rightarrow> kernel" where
  "set_cur_dynamic d s =
     set_address_space (cur_address_space s) ((cur_space s)\<lparr>dynamic_memory := d\<rparr>) s"

lemma address_space_simps [simp]:
  "address_space sp (set_address_space sp a s) = a"
  "sp \<noteq> sp' \<Longrightarrow> address_space sp (set_address_space sp' a s) = address_space sp s"
  "cur_address_space (set_address_space sp a s) = cur_address_space s"
  "mem (set_address_space sp a s) = mem s"
  "phys (set_address_space sp a s) = phys s"
  "temp_pte (set_address_space sp a s) = temp_pte s"
  "free_page_count (set_address_space sp a s) = free_page_count s"
  "free_phys_memory_pointer (set_address_space sp a s) = free_phys_memory_pointer s"
  by (auto simp: address_space_def set_address_space_def split: space.splits)

lemma address_space_frame [simp]:
  "address_space sp (s\<lparr>mem := m\<rparr>) = address_space sp s"
  "address_space sp (s\<lparr>phys := ph\<rparr>) = address_space sp s"
  "address_space sp (s\<lparr>temp_pte := t\<rparr>) = address_space sp s"
  "address_space sp (s\<lparr>free_page_count := n\<rparr>) = address_space sp s"
  "address_space sp (s\<lparr>free_phys_memory_pointer := n\<rparr>) = address_space sp s"
  by (cases sp; simp add: address_space_def)+

lemma set_cur_simps [simp]:
  "address_space sp (set_cur_virt v s) =
     (if sp = cur_address_space s then (address_space sp s)\<lparr>virt_memory := v\<rparr> else address_space sp s)"
  "address_space sp (set_cur_dynamic d s) =
     (if sp = cur_address_space s then (address_space sp s)\<lparr>dynamic_memory := d\<rparr> else address_space sp s)"
  "mem (set_cur_virt v s) = mem s" "mem (set_cur_dynamic d s) = mem s"
  "phys (set_cur_virt v s) = phys s" "phys (set_cur_dynamic d s) = phys s"
  "free_page_count (set_cur_virt v s) = free_page_count s"
  "free_phys_memory_pointer (set_cur_virt v s) = free_phys_memory_pointer s"
  "free_page_count (set_cur_dynamic d s) = free_page_count s"
  "free_phys_memory_pointer (set_cur_dynamic d s) = free_phys_memory_pointer s"
  "cur_address_space (set_cur_virt v s) = cur_address_space s"
  "cur_address_space (set_cur_dynamic d s) = cur_address_space s"
  by (simp_all add: set_cur_virt_def set_cur_dynamic_def)

lemma set_cur_frame [simp]:
  "syms (set_address_space sp a s) = syms s" "idt (set_address_space sp a s) = idt s"
  "tty_state (set_address_space sp a s) = tty_state s" "kbd (set_address_space sp a s) = kbd s"
  "out_log (set_address_space sp a s) = out_log s" "port_in (set_address_space sp a s) = port_in s"
  "in_count (set_address_space sp a s) = in_count s" "gdt (set_address_space sp a s) = gdt s"
  "ata_devices (set_address_space sp a s) = ata_devices s" "cr3 (set_address_space sp a s) = cr3 s"
  "idtr (set_address_space sp a s) = idtr s" "idtr (set_cur_dynamic d s) = idtr s"
  "syms (set_cur_virt v s) = syms s" "idt (set_cur_virt v s) = idt s" "idtr (set_cur_virt v s) = idtr s"
  "tty_state (set_cur_virt v s) = tty_state s" "kbd (set_cur_virt v s) = kbd s"
  "port_in (set_cur_virt v s) = port_in s" "in_count (set_cur_virt v s) = in_count s"
  "out_log (set_cur_virt v s) = out_log s"
  "syms (set_cur_dynamic d s) = syms s" "idt (set_cur_dynamic d s) = idt s"
  "tty_state (set_cur_dynamic d s) = tty_state s" "kbd (set_cur_dynamic d s) = kbd s"
  "out_log (set_cur_dynamic d s) = out_log s" "port_in (set_cur_dynamic d s) = port_in s"
  "in_count (set_cur_dynamic d s) = in_count s" "gdt (set_cur_dynamic d s) = gdt s"
  "ata_devices (set_cur_dynamic d s) = ata_devices s" "cr3 (set_cur_dynamic d s) = cr3 s"
  by (auto simp: set_cur_dynamic_def set_cur_virt_def set_address_space_def split: space.splits)

section \<open>The zeroed state\<close>

text \<open>Every global as the loader leaves the \<open>.bss\<close> section, with empty memories and silent devices.\<close>

definition zero_space :: AddressSpace where
  "zero_space = \<lparr>page_dir = 0, as_start = 0, as_end = 0,
     virt_memory = \<lparr>v_block_count = 0, v_blocks = 0, v_table_size = 0\<rparr>,
     dynamic_memory = \<lparr>d_block_count = 0, d_blocks = 0, d_table_size = 0, d_heap = 0, d_heap_size = 0\<rparr>\<rparr>"

definition zero_kernel :: kernel where
  "zero_kernel = \<lparr>phys = (\<lambda>_. 0), temp_pte = 0, mem = (\<lambda>_. 0), cr3 = 0, free_page_count = 0,
     free_phys_memory_pointer = 0, kernel_page_dir = 0, memory_size = 0,
     cur_address_space = Kernel_Space, kernel_address_space = zero_space,
     user_address_space = zero_space,
     tty_state = \<lparr>tty_width = 0, tty_height = 0, cursor = 0, text_attr = 0, tty_buffer = 0,
       tty_io_port = 0\<rparr>,
     kbd = \<lparr>key_buffer = replicate 16 0, key_buffer_head = 0, key_buffer_tail = 0\<rparr>,
     gdt = replicate 6 \<lparr>limit_low = 0, base_low = 0, base_middle = 0, access = 0, granularity = 0,
       base_high = 0\<rparr>,
     gp = \<lparr>gp_limit = 0, gp_base = 0\<rparr>,
     gdtr = \<lparr>gp_limit = 0, gp_base = 0\<rparr>, seg_cs = 0, seg_ds = 0, seg_es = 0, seg_fs = 0, seg_gs = 0, seg_ss = 0,
     esp = 0x80009000, eflags = 2, task_register = 0, idt = 0, idtr = (0, 0),
     ata_devices = replicate 4 \<lparr>ata_available = 0, ata_port = 0, ata_slave_bit = 0,
       ata_sector_nubmer = 0, ata_is_lba48_supported = 0\<rparr>,
     port_in = (\<lambda>_ _. 0), in_count = 0, out_log = [],
     syms = \<lparr>KERNEL_END = 0x80010000, KERNEL_PAGE_TABLE = 0x8000F000,
       KERNEL_VIRT_BLOCK_TABLE = 0x80010000, num_buffer = 0x80008000, gdt_addr = 0x80008100,
       gp_addr = 0x80008200, tss_addr = 0x80008300,
       handler_wrapper_template = 0x80001000, wrapper_size = 14, call_handler_offset = 1,
       call_size = 5, default_handler_addr = 0x80002000, keyboard_int_handler_addr = 0x80002100,
       timer_handler_addr = 0x80002200, commands_addr = 0x80008400,
       gen_int = 0x80001100, usermode_label = 0x80001200\<rparr>\<rparr>"

end
