(* ===== verification/Allocator.thy ===== *)
theory Allocator
  imports Prelude
begin

text \<open>
  The contract that the allocators of the kernel share: of physical pages, of regions of an address
  space, and of the heap. \<open>alloc n s\<close> answers the start of a granted run of size \<open>n\<close>, or the value
  \<open>fail\<close>. \<open>pool k s F\<close> says that the allocator is sound, that \<open>F\<close> is what it can still grant, and
  that its own tables have room for \<open>k\<close> more requests. The clients' theorem is that the grants of
  any sequence of requests do not overlap.
\<close>

type_synonym run = "u32 \<times> u32"

fun alloc_seq :: "(u32 \<Rightarrow> 's \<Rightarrow> (u32 \<times> 's) option) \<Rightarrow> u32 \<Rightarrow> u32 list \<Rightarrow> 's \<Rightarrow> (run list \<times> 's) option" where
  "alloc_seq alloc fail [] s = Some ([], s)"
| "alloc_seq alloc fail (n # ns) s =
     do {
       (r, s) \<leftarrow> alloc n s;
       (rs, s) \<leftarrow> alloc_seq alloc fail ns s;
       Some (if r = fail then rs else (r, n) # rs, s)
     }"

locale allocator =
  fixes alloc :: "u32 \<Rightarrow> 's \<Rightarrow> (u32 \<times> 's) option"
    and fail :: u32
    and extent :: "run \<Rightarrow> nat set"
    and fits :: "u32 \<Rightarrow> bool"
    and pool :: "nat \<Rightarrow> 's \<Rightarrow> nat set \<Rightarrow> bool"
  assumes alloc_cases: "pool (Suc k) s F \<Longrightarrow> fits n \<Longrightarrow>
      (\<exists>s'. alloc n s = Some (fail, s') \<and> pool k s' F)
    \<or> (\<exists>r s'. alloc n s = Some (r, s') \<and> r \<noteq> fail \<and> extent (r, n) \<subseteq> F
         \<and> pool k s' (F - extent (r, n)))"
begin

definition granted :: "run list \<Rightarrow> nat set" where
  "granted gs = \<Union> (extent ` set gs)"

lemma granted_simps [simp]: "granted [] = {}" "granted (g # gs) = extent g \<union> granted gs"
  by (simp_all add: granted_def)

lemma grants_disjoint:
  assumes "pool (length ns) s F" "\<forall>n \<in> set ns. fits n"
  shows "\<exists>gs s'. alloc_seq alloc fail ns s = Some (gs, s')
    \<and> sorted_wrt (\<lambda>g h. extent g \<inter> extent h = {}) gs
    \<and> granted gs \<subseteq> F \<and> pool 0 s' (F - granted gs)"
  using assms
proof (induction ns arbitrary: s F)
  case (Cons n ns)
  have "pool (Suc (length ns)) s F" "fits n" "\<forall>n \<in> set ns. fits n"
    using Cons.prems by simp_all
  from alloc_cases [OF this(1,2)] show ?case
  proof (elim disjE exE conjE)
    fix s1 assume a: "alloc n s = Some (fail, s1)" "pool (length ns) s1 F"
    from Cons.IH [OF a(2)] Cons.prems(2) a(1) show ?thesis
      by fastforce
  next
    fix r s1 assume a: "alloc n s = Some (r, s1)" "r \<noteq> fail" "extent (r, n) \<subseteq> F"
      "pool (length ns) s1 (F - extent (r, n))"
    obtain gs s' where gs: "alloc_seq alloc fail ns s1 = Some (gs, s')"
        "sorted_wrt (\<lambda>g h. extent g \<inter> extent h = {}) gs"
        "granted gs \<subseteq> F - extent (r, n)" "pool 0 s' (F - extent (r, n) - granted gs)"
      using Cons.IH [OF a(4)] Cons.prems(2) by auto
    have "extent (r, n) \<inter> extent h = {}" if "h \<in> set gs" for h
      using gs(3) that by (auto simp: granted_def)
    then have "sorted_wrt (\<lambda>g h. extent g \<inter> extent h = {}) ((r, n) # gs)"
      using gs(2) by simp
    moreover have "F - extent (r, n) - granted gs = F - granted ((r, n) # gs)"
      "granted ((r, n) # gs) \<subseteq> F"
      using a(3) gs(3) by auto
    moreover have "alloc_seq alloc fail (n # ns) s = Some ((r, n) # gs, s')"
      using a(1,2) gs(1) by simp
    ultimately show ?thesis
      using gs(4) by metis
  qed
qed simp

end

text \<open>
  An allocator that also takes grants back: \<open>live s\<close> are the runs in its books, and \<open>release r\<close>
  answers the size of the run that starts at \<open>r\<close> and puts its extent back into the pool.
\<close>

locale releasing_allocator = allocator +
  fixes release :: "u32 \<Rightarrow> 's \<Rightarrow> u32 \<times> 's"
    and live :: "'s \<Rightarrow> run set"
  assumes alloc_live: "pool (Suc k) s F \<Longrightarrow> fits n \<Longrightarrow> alloc n s = Some (r, s') \<Longrightarrow> r \<noteq> fail \<Longrightarrow>
      (r, n) \<in> live s'"
    and release_cases: "pool k s F \<Longrightarrow> (r, n) \<in> live s \<Longrightarrow>
      \<exists>s'. release r s = (n, s') \<and> pool k s' (F \<union> extent (r, n))"
begin

lemma alloc_release:
  assumes "pool (Suc k) s F" "fits n" "alloc n s = Some (r, s')" "r \<noteq> fail"
  shows "\<exists>s''. release r s' = (n, s'') \<and> pool k s'' F"
proof -
  have "pool k s' (F - extent (r, n))" "extent (r, n) \<subseteq> F"
    using alloc_cases [OF assms(1,2)] assms(3,4) by auto
  then show ?thesis
    using release_cases alloc_live [OF assms] by (metis Diff_partition Un_commute)
qed

end

end
