(* ===== verification/PhysMem.thy ===== *)
theory PhysMem
  imports Machine Allocator
begin

text \<open>
  The physical page allocator of \<open>memory_manager.c\<close>: \<open>temp_map_page\<close>, \<open>alloc_phys_pages\<close> and
  \<open>free_phys_pages\<close>. Free memory is a circular doubly linked list of runs of pages, highest run
  first along \<open>prev\<close>; the header of a run (\<open>next\<close>, \<open>prev\<close>, \<open>size\<close>) is in its own first page, which
  the code sees through the window \<open>TEMP_PAGE\<close>. The two \<open>do\<close> loops walk the list until they are
  back at its head, which on a damaged list may never happen, so they are partial functions.
  The invariant \<open>free_list s bs\<close> relates the cells of physical memory to the list \<open>bs\<close> of runs.
\<close>

section \<open>The window on physical memory\<close>

definition temp_map_page :: "u32 \<Rightarrow> kernel \<Rightarrow> kernel" where
  "temp_map_page page s = s\<lparr>temp_pte := (page AND NOT PAGE_OFFSET_MASK) OR 0xfff\<rparr>"

definition temp_frame :: "kernel \<Rightarrow> u32" where
  "temp_frame s = temp_pte s AND NOT PAGE_OFFSET_MASK"

definition temp_read :: "u32 \<Rightarrow> kernel \<Rightarrow> u32" where
  "temp_read off s = phys s (temp_frame s + off)"

definition temp_write :: "u32 \<Rightarrow> u32 \<Rightarrow> kernel \<Rightarrow> kernel" where
  "temp_write off v s = s\<lparr>phys := (phys s)(temp_frame s + off := v)\<rparr>"

text \<open>The fields of the \<open>PhysMemoryBlock\<close> at the start of the page in the window.\<close>

abbreviation pmb_next :: "kernel \<Rightarrow> u32" where "pmb_next \<equiv> temp_read 0"
abbreviation pmb_prev :: "kernel \<Rightarrow> u32" where "pmb_prev \<equiv> temp_read 4"
abbreviation pmb_size :: "kernel \<Rightarrow> u32" where "pmb_size \<equiv> temp_read 8"
abbreviation set_pmb_next :: "u32 \<Rightarrow> kernel \<Rightarrow> kernel" where "set_pmb_next \<equiv> temp_write 0"
abbreviation set_pmb_prev :: "u32 \<Rightarrow> kernel \<Rightarrow> kernel" where "set_pmb_prev \<equiv> temp_write 4"
abbreviation set_pmb_size :: "u32 \<Rightarrow> kernel \<Rightarrow> kernel" where "set_pmb_size \<equiv> temp_write 8"

text \<open>\<open>size << PAGE_OFFSET_BITS\<close>\<close>

abbreviation page_bytes :: "u32 \<Rightarrow> u32" where "page_bytes n \<equiv> push_bit PAGE_OFFSET_BITS n"

section \<open>Allocation\<close>

definition alloc_take_block :: "u32 \<Rightarrow> kernel \<Rightarrow> kernel" where
  "alloc_take_block cur_block s =
     (let next = pmb_next s;
          prev = pmb_prev s;
          s = temp_map_page next s;
          s = set_pmb_prev prev s;
          s = temp_map_page prev s;
          s = set_pmb_next next s
      in if cur_block = free_phys_memory_pointer s then
           let s = s\<lparr>free_phys_memory_pointer := prev\<rparr>
           in if cur_block = free_phys_memory_pointer s
              then s\<lparr>free_phys_memory_pointer := - 1\<rparr> else s
         else s)"

partial_function (option) alloc_phys_loop ::
    "u32 \<Rightarrow> u32 \<Rightarrow> kernel \<Rightarrow> (u32 \<times> kernel) option" where
  "alloc_phys_loop count cur_block s =
     (let s = temp_map_page cur_block s
      in if pmb_size s = count then Some (cur_block, alloc_take_block cur_block s)
         else if pmb_size s > count then
           let s = set_pmb_size (pmb_size s - count) s
           in Some (cur_block + page_bytes (pmb_size s), s)
         else
           let cur_block = pmb_prev s
           in if cur_block \<noteq> free_phys_memory_pointer s
              then alloc_phys_loop count cur_block s else Some (- 1, s))"

definition alloc_phys_pages :: "u32 \<Rightarrow> kernel \<Rightarrow> (u32 \<times> kernel) option" where
  "alloc_phys_pages count s =
     (if free_page_count s < count then Some (- 1, s)
      else if free_phys_memory_pointer s \<noteq> - 1 then
        do {
          (result, s) \<leftarrow> alloc_phys_loop count (free_phys_memory_pointer s) s;
          Some (result,
            if result \<noteq> - 1 then s\<lparr>free_page_count := free_page_count s - count\<rparr> else s)
        }
      else Some (- 1, s))"

section \<open>Deallocation\<close>

text \<open>The three branches of the loop body of \<open>free_phys_pages\<close>, in the source's order.\<close>

definition free_insert_after :: "u32 \<Rightarrow> u32 \<Rightarrow> u32 \<Rightarrow> kernel \<Rightarrow> kernel" where
  "free_insert_after base count cur_block s =
     (let next = pmb_next s;
          s = set_pmb_next base s;
          s = temp_map_page next s;
          s = set_pmb_prev base s;
          s = temp_map_page base s;
          s = set_pmb_next next s;
          s = set_pmb_prev cur_block s;
          s = set_pmb_size count s
      in if cur_block = free_phys_memory_pointer s
         then s\<lparr>free_phys_memory_pointer := base\<rparr> else s)"

definition free_extend_up :: "u32 \<Rightarrow> u32 \<Rightarrow> u32 \<Rightarrow> kernel \<Rightarrow> kernel" where
  "free_extend_up base count cur_block s =
     (let s = set_pmb_size (pmb_size s + count) s
      in if pmb_next s = base + page_bytes count then
           let next1 = pmb_next s;
               s = temp_map_page next1 s;
               next2 = pmb_next s;
               new_count = pmb_size s;
               s = temp_map_page next2 s;
               s = set_pmb_prev cur_block s;
               s = temp_map_page cur_block s;
               s = set_pmb_next next2 s
           in set_pmb_size (pmb_size s + new_count) s
         else s)"

definition free_extend_down :: "u32 \<Rightarrow> u32 \<Rightarrow> u32 \<Rightarrow> kernel \<Rightarrow> kernel" where
  "free_extend_down base count cur_block s =
     (let prev = pmb_prev s;
          s = temp_map_page prev s
      in if prev + page_bytes (pmb_size s) = base then
           let s = temp_map_page cur_block s;
               next = pmb_next s;
               size = pmb_size s;
               s = temp_map_page prev s;
               s = set_pmb_next next s;
               s = set_pmb_size (pmb_size s + (size + count)) s;
               s = temp_map_page next s;
               s = set_pmb_prev prev s
           in if cur_block = free_phys_memory_pointer s
              then s\<lparr>free_phys_memory_pointer := prev\<rparr> else s
         else
           let s = temp_map_page cur_block s;
               old_count = pmb_size s;
               next = pmb_next s;
               s = temp_map_page next s;
               s = set_pmb_prev base s;
               s = temp_map_page prev s;
               s = set_pmb_next base s;
               s = temp_map_page base s;
               s = set_pmb_next next s;
               s = set_pmb_prev prev s;
               s = set_pmb_size (count + old_count) s
           in if cur_block = free_phys_memory_pointer s
              then s\<lparr>free_phys_memory_pointer := base\<rparr> else s)"

partial_function (option) free_phys_loop ::
    "u32 \<Rightarrow> u32 \<Rightarrow> u32 \<Rightarrow> kernel \<Rightarrow> kernel option" where
  "free_phys_loop base count cur_block s =
     (let s = temp_map_page cur_block s
      in if base > cur_block + page_bytes (pmb_size s) then
           Some (free_insert_after base count cur_block s)
         else if cur_block + page_bytes (pmb_size s) = base then
           Some (free_extend_up base count cur_block s)
         else if base + page_bytes count = cur_block then
           Some (free_extend_down base count cur_block s)
         else
           let cur_block = pmb_prev s
           in if cur_block \<noteq> free_phys_memory_pointer s
              then free_phys_loop base count cur_block s else Some s)"

definition free_first_block :: "u32 \<Rightarrow> u32 \<Rightarrow> kernel \<Rightarrow> kernel" where
  "free_first_block base count s =
     (let s = temp_map_page base s;
          s = set_pmb_next base s;
          s = set_pmb_prev base s;
          s = set_pmb_size count s
      in s\<lparr>free_phys_memory_pointer := base\<rparr>)"

definition free_phys_pages :: "u32 \<Rightarrow> u32 \<Rightarrow> kernel \<Rightarrow> kernel option" where
  "free_phys_pages base count s =
     do {
       s \<leftarrow> (if free_phys_memory_pointer s = - 1 then Some (free_first_block base count s)
            else free_phys_loop base count (free_phys_memory_pointer s) s);
       Some (s\<lparr>free_page_count := free_page_count s + count\<rparr>)
     }"

section \<open>Page-aligned addresses and page counts\<close>

definition page_aligned :: "u32 \<Rightarrow> bool" where
  "page_aligned b \<longleftrightarrow> b AND PAGE_OFFSET_MASK = 0"

lemma page_mask: "PAGE_OFFSET_MASK = mask 12"
  by (simp add: mask_eq_exp_minus_1)

lemma page_aligned_dvd: "page_aligned b \<longleftrightarrow> 4096 dvd unat b"
  unfolding page_aligned_def page_mask and_mask_dvd_nat [symmetric] by simp

lemma and_not_aligned: "page_aligned b \<Longrightarrow> b AND NOT PAGE_OFFSET_MASK = b"
proof -
  have "b = (b AND m) OR (b AND NOT m)" for m
    by (rule bit_word_eqI) (auto simp: bit_simps)
  from this [of PAGE_OFFSET_MASK] show "page_aligned b \<Longrightarrow> ?thesis"
    by (simp add: page_aligned_def)
qed

lemma and_page_mask_aligned [simp]: "page_aligned b \<Longrightarrow> b AND - 4096 = b"
  using and_not_aligned [of b] by simp

lemma or_mask_and_not: "((b AND NOT m) OR m) AND NOT m = b AND NOT (m :: u32)"
  by (rule bit_word_eqI) (auto simp: bit_simps)

lemma temp_frame_map [simp]: "temp_frame (temp_map_page b s) = b AND NOT PAGE_OFFSET_MASK"
  unfolding temp_frame_def temp_map_page_def using or_mask_and_not [of b PAGE_OFFSET_MASK] by simp

lemma unat_page_bytes: "unat (page_bytes n) = unat n * 4096 mod 2 ^ 32"
  by (simp add: push_bit_eq_mult unat_word_ariths)

lemma unat_page_bytes_small [wordn]:
  "unat n * 4096 < 2 ^ 32 \<Longrightarrow> unat (page_bytes n) = unat n * 4096"
  by (simp add: unat_page_bytes)

lemma unat_block_end [wordn]:
  "unat b + unat n * 4096 < 2 ^ 32 \<Longrightarrow> unat (b + page_bytes n) = unat b + unat n * 4096"
  by (subst unat_add_nowrap) (simp_all add: unat_page_bytes_small)

lemma page_aligned_le: "page_aligned b \<Longrightarrow> unat b + 4096 \<le> 2 ^ 32"
proof -
  assume "page_aligned b"
  then obtain k where k: "unat b = 4096 * k"
    by (auto simp: page_aligned_dvd elim!: dvdE)
  then have "4096 * k < 4294967296"
    by (metis unat_less_32)
  with k show ?thesis by simp
qed

lemma unat_in_page: "page_aligned b \<Longrightarrow> i < 4096 \<Longrightarrow> unat (b + of_nat i) = unat b + i"
  using page_aligned_le [of b] by (intro unat_add_of_nat) simp

lemma in_page_inj:
  assumes "page_aligned b" "page_aligned c" "i < 4096" "j < 4096"
  shows "b + of_nat i = c + of_nat j \<longleftrightarrow> b = c \<and> i = j"
proof
  assume eq: "b + of_nat i = c + of_nat j"
  then have "unat b + i = unat c + j"
    using assms by (metis unat_in_page)
  moreover obtain k l where kl: "unat b = 4096 * k" "unat c = 4096 * l"
    using assms by (auto simp: page_aligned_dvd elim!: dvdE)
  ultimately have "4096 * k + i = 4096 * l + j"
    by metis
  moreover have "k = l"
    using arg_cong [OF calculation, of "\<lambda>x. x div 4096"] assms(3,4) by simp
  ultimately have "k = l" "i = j"
    by simp_all
  with kl show "b = c \<and> i = j"
    by (simp add: word_unat_eq_iff del: unsigned_word_eqI)
qed simp

lemma hdr_cells_distinct [simp]:
  assumes "page_aligned b" "page_aligned c"
  shows "b + 4 = c \<longleftrightarrow> False" "b = c + 4 \<longleftrightarrow> False" "b + 8 = c \<longleftrightarrow> False" "b = c + 8 \<longleftrightarrow> False"
    "b + 4 = c + 8 \<longleftrightarrow> False" "b + 8 = c + 4 \<longleftrightarrow> False"
  using in_page_inj [OF assms, of 4 0] in_page_inj [OF assms, of 0 4] in_page_inj [OF assms, of 8 0]
    in_page_inj [OF assms, of 0 8] in_page_inj [OF assms, of 4 8] in_page_inj [OF assms, of 8 4]
  by simp_all

lemma page_aligned_minus_1 [simp]: "\<not> page_aligned (- 1)"
  by (simp add: page_aligned_def)

section \<open>The circular list in the cells of physical memory\<close>

text \<open>The address at the head of a list of runs, and the one at its end, with a default.\<close>

fun hdb :: "run list \<Rightarrow> u32 \<Rightarrow> u32" where
  "hdb [] d = d"
| "hdb ((b, n) # bs) d = b"

fun lastb :: "u32 \<Rightarrow> run list \<Rightarrow> u32" where
  "lastb u [] = u"
| "lastb u ((b, n) # bs) = lastb b bs"

text \<open>
  A segment of the list as it is met along \<open>prev\<close>: \<open>u\<close> is the \<open>next\<close> of its first run and \<open>d\<close> the
  \<open>prev\<close> of its last one.
\<close>

fun dseg :: "(u32 \<Rightarrow> u32) \<Rightarrow> u32 \<Rightarrow> run list \<Rightarrow> u32 \<Rightarrow> bool" where
  "dseg ph u [] d \<longleftrightarrow> True"
| "dseg ph u ((b, n) # bs) d \<longleftrightarrow>
     ph b = u \<and> ph (b + 4) = hdb bs d \<and> ph (b + 8) = n \<and> dseg ph b bs d"

definition circ :: "(u32 \<Rightarrow> u32) \<Rightarrow> run list \<Rightarrow> bool" where
  "circ ph bs \<longleftrightarrow> dseg ph (lastb 0 bs) bs (hdb bs 0)"

definition hdrs_ok :: "run list \<Rightarrow> bool" where
  "hdrs_ok bs \<longleftrightarrow> (\<forall>b \<in> fst ` set bs. page_aligned b) \<and> distinct (map fst bs)"

lemma hdrs_ok_simps [simp]:
  "hdrs_ok []"
  "hdrs_ok ((b, n) # bs) \<longleftrightarrow> page_aligned b \<and> b \<notin> fst ` set bs \<and> hdrs_ok bs"
  by (auto simp: hdrs_ok_def)

lemma hdrs_ok_append:
  "hdrs_ok (xs @ ys) \<longleftrightarrow> hdrs_ok xs \<and> hdrs_ok ys \<and> fst ` set xs \<inter> fst ` set ys = {}"
  by (auto simp: hdrs_ok_def)

lemma hdb_append [simp]: "hdb (xs @ ys) d = hdb xs (hdb ys d)"
  by (cases xs) auto

lemma lastb_append [simp]: "lastb u (xs @ ys) = lastb (lastb u xs) ys"
  by (induction xs arbitrary: u) auto

lemma lastb_default: "bs \<noteq> [] \<Longrightarrow> lastb u bs = lastb v bs"
  by (cases bs) auto

lemma hdb_default: "bs \<noteq> [] \<Longrightarrow> hdb bs u = hdb bs v"
  by (cases bs) auto

lemma hdb_in: "bs \<noteq> [] \<Longrightarrow> hdb bs d \<in> fst ` set bs"
  by (cases bs) auto

lemma lastb_in: "bs \<noteq> [] \<Longrightarrow> lastb u bs \<in> fst ` set bs"
  by (induction bs arbitrary: u) (auto, metis lastb.simps(1))

lemma dseg_append [simp]:
  "dseg ph u (xs @ ys) d \<longleftrightarrow> dseg ph u xs (hdb ys d) \<and> dseg ph (lastb u xs) ys d"
  by (induction xs arbitrary: u) auto

text \<open>The circle can be cut anywhere.\<close>

lemma circ_rotate: "circ ph (xs @ ys) \<longleftrightarrow> circ ph (ys @ xs)"
proof (cases "xs = [] \<or> ys = []")
  case False
  obtain lx ly hx hy where "\<And>u. lastb u xs = lx" "\<And>u. lastb u ys = ly"
    "\<And>d. hdb xs d = hx" "\<And>d. hdb ys d = hy"
    using False lastb_default [of xs] lastb_default [of ys] hdb_default [of xs] hdb_default [of ys]
    by metis
  then show ?thesis
    by (auto simp: circ_def)
qed auto

lemma circ_Cons:
  "circ ph ((b, n) # zs) \<longleftrightarrow>
     ph b = lastb b zs \<and> ph (b + 4) = hdb zs b \<and> ph (b + 8) = n \<and> dseg ph b zs b"
  by (simp add: circ_def)

text \<open>Writes outside the headers, and the two writes that change an end of a segment.\<close>

lemma dseg_frame:
  "\<forall>b \<in> fst ` set bs. a \<noteq> b \<and> a \<noteq> b + 4 \<and> a \<noteq> b + 8 \<Longrightarrow> dseg (ph(a := v)) u bs d = dseg ph u bs d"
  by (induction bs arbitrary: u) auto

lemma dseg_frame_cell [simp]:
  assumes "page_aligned c" "c \<notin> fst ` set bs" "hdrs_ok bs"
  shows "dseg (ph(c := v)) u bs d = dseg ph u bs d"
    "dseg (ph(c + 4 := v)) u bs d = dseg ph u bs d"
    "dseg (ph(c + 8 := v)) u bs d = dseg ph u bs d"
proof -
  have "c \<noteq> b" "page_aligned b" if "b \<in> fst ` set bs" for b
    using assms that by (auto simp: hdrs_ok_def)
  then show "dseg (ph(c := v)) u bs d = dseg ph u bs d"
    "dseg (ph(c + 4 := v)) u bs d = dseg ph u bs d"
    "dseg (ph(c + 8 := v)) u bs d = dseg ph u bs d"
    using assms(1) by (intro dseg_frame; simp)+
qed

lemma dseg_set_up:
  assumes "dseg ph u bs d" "hdrs_ok bs" "bs \<noteq> []"
  shows "dseg (ph(hdb bs a := u')) u' bs d"
  using assms by (cases bs) auto

lemma dseg_set_dn:
  "dseg ph u bs d \<Longrightarrow> hdrs_ok bs \<Longrightarrow> bs \<noteq> [] \<Longrightarrow> dseg (ph(lastb a bs + 4 := d')) u bs d'"
proof (induction bs arbitrary: u a)
  case (Cons r bs)
  obtain b n where r: "r = (b, n)" by (cases r)
  show ?case
  proof (cases "bs = []")
    case True
    with Cons.prems r show ?thesis by simp
  next
    case False
    then have l: "lastb b bs \<in> fst ` set bs" by (rule lastb_in)
    then have "page_aligned (lastb b bs)" "b \<noteq> lastb b bs"
      using Cons.prems(2) r by (auto simp: hdrs_ok_def) (metis fst_conv rev_image_eqI)
    moreover have "hdb bs d = hdb bs d'"
      using False by (rule hdb_default)
    ultimately show ?thesis
      using Cons r False by simp
  qed
qed simp

section \<open>What each branch does to the circle\<close>

lemma circ_unlink:
  assumes "circ ph ((b, n) # zs)" "hdrs_ok ((b, n) # zs)" "zs \<noteq> []"
  shows "circ (ph(lastb b zs + 4 := hdb zs b, hdb zs b := lastb b zs)) zs"
proof -
  have "dseg ph b zs b"
    using assms(1) by (simp add: circ_Cons)
  then have "dseg (ph(lastb b zs + 4 := hdb zs b)) b zs (hdb zs b)"
    using assms by (intro dseg_set_dn) simp_all
  then have "dseg (ph(lastb b zs + 4 := hdb zs b, hdb zs b := lastb b zs)) (lastb b zs) zs (hdb zs b)"
    using assms by (intro dseg_set_up) simp_all
  then show ?thesis
    using assms(3) lastb_default [of zs b 0] hdb_default [of zs b 0] by (simp add: circ_def)
qed

lemma circ_insert:
  assumes "circ ph zs" "hdrs_ok (zs @ [(c, k)])" "zs \<noteq> []"
    and "ph' c = lastb 0 zs" "ph' (c + 4) = hdb zs 0" "ph' (c + 8) = k"
    and "\<And>a. a \<noteq> c \<Longrightarrow> a \<noteq> c + 4 \<Longrightarrow> a \<noteq> c + 8 \<Longrightarrow>
      ph' a = (ph(hdb zs 0 := c, lastb 0 zs + 4 := c)) a"
  shows "circ ph' (zs @ [(c, k)])"
proof -
  have ok: "hdrs_ok zs" "page_aligned c" "c \<notin> fst ` set zs"
    using assms(2) by (auto simp: hdrs_ok_append)
  have "dseg (ph(hdb zs 0 := c, lastb 0 zs + 4 := c)) c zs c"
    using assms(1,3) ok by (intro dseg_set_dn dseg_set_up) (simp_all add: circ_def)
  then have "dseg ((ph(hdb zs 0 := c, lastb 0 zs + 4 := c))
      (c := ph' c, c + 4 := ph' (c + 4), c + 8 := ph' (c + 8))) c zs c"
    using ok by simp
  moreover have "(ph(hdb zs 0 := c, lastb 0 zs + 4 := c))
      (c := ph' c, c + 4 := ph' (c + 4), c + 8 := ph' (c + 8)) = ph'"
    by (rule ext) (auto simp: assms(7))
  ultimately have "dseg ph' c zs c" by simp
  then show ?thesis
    using assms(3-6) lastb_default [of zs c 0] hdb_default [of zs c 0]
    by (cases zs) (auto simp: circ_def)
qed

lemma circ_resize:
  assumes "circ ph (xs @ (b, n) # ys)" "hdrs_ok (xs @ (b, n) # ys)"
  shows "circ (ph(b + 8 := k)) (xs @ (b, k) # ys)"
  using assms unfolding circ_rotate [of _ xs]
  by (auto simp: circ_Cons hdrs_ok_append)

lemma circ_rebase:
  assumes "circ ph ((b, n) # zs)" "hdrs_ok ((b, n) # zs)" "zs \<noteq> []"
    and "page_aligned c" "c \<notin> fst ` set zs"
    and "ph' c = lastb b zs" "ph' (c + 4) = hdb zs b" "ph' (c + 8) = k"
    and "\<And>a. a \<noteq> c \<Longrightarrow> a \<noteq> c + 4 \<Longrightarrow> a \<noteq> c + 8 \<Longrightarrow>
      ph' a = (ph(lastb b zs + 4 := c, hdb zs b := c)) a"
  shows "circ ph' ((c, k) # zs)"
proof -
  have "dseg (ph(lastb b zs + 4 := c, hdb zs b := c)) c zs c"
    using assms(1-3)
    by (intro dseg_set_up [OF dseg_set_dn [where u = b and d = b]]) (simp_all add: circ_Cons)
  then have "dseg ((ph(lastb b zs + 4 := c, hdb zs b := c))
      (c := ph' c, c + 4 := ph' (c + 4), c + 8 := ph' (c + 8))) c zs c"
    using assms by simp
  moreover have "(ph(lastb b zs + 4 := c, hdb zs b := c))
      (c := ph' c, c + 4 := ph' (c + 4), c + 8 := ph' (c + 8)) = ph'"
    by (rule ext) (auto simp: assms(9))
  ultimately have "dseg ph' c zs c" by simp
  then show ?thesis
    using assms(3,6-8) lastb_default [of zs c b] hdb_default [of zs c b]
    by (simp add: circ_Cons)
qed

section \<open>The invariant of the allocator\<close>

text \<open>A run of pages: aligned, not empty, ending below the top of the address space.\<close>

fun run_ok :: "run \<Rightarrow> bool" where
  "run_ok (b, n) \<longleftrightarrow> page_aligned b \<and> 0 < n \<and> unat b + unat n * 4096 < 2 ^ 32"

text \<open>The lower run ends strictly below the higher one: adjacent runs have been merged.\<close>

fun above :: "run \<Rightarrow> run \<Rightarrow> bool" where
  "above (b, n) (c, k) \<longleftrightarrow> unat c + unat k * 4096 < unat b"

definition runs_ok :: "run list \<Rightarrow> bool" where
  "runs_ok bs \<longleftrightarrow> (\<forall>r \<in> set bs. run_ok r) \<and> sorted_wrt above bs"

definition free_list :: "kernel \<Rightarrow> run list \<Rightarrow> bool" where
  "free_list s bs \<longleftrightarrow> runs_ok bs \<and> circ (phys s) bs \<and> free_phys_memory_pointer s = hdb bs (- 1)"

text \<open>The numbers of the pages of a run, and of all free runs.\<close>

definition run_pages :: "run \<Rightarrow> nat set" where
  "run_pages r = {unat (fst r) div 4096 ..< unat (fst r) div 4096 + unat (snd r)}"

definition free_pages :: "run list \<Rightarrow> nat set" where
  "free_pages bs = \<Union> (run_pages ` set bs)"

lemma runs_ok_simps [simp]:
  "runs_ok []"
  "runs_ok (r # bs) \<longleftrightarrow> run_ok r \<and> (\<forall>q \<in> set bs. above r q) \<and> runs_ok bs"
  by (auto simp: runs_ok_def)

lemma runs_ok_append:
  "runs_ok (xs @ ys) \<longleftrightarrow> runs_ok xs \<and> runs_ok ys \<and> (\<forall>r \<in> set xs. \<forall>q \<in> set ys. above r q)"
  by (auto simp: runs_ok_def sorted_wrt_append)

lemma above_neq: "above r q \<Longrightarrow> fst r \<noteq> fst q"
  by (cases r; cases q) auto

lemma runs_hdrs_ok: "runs_ok bs \<Longrightarrow> hdrs_ok bs"
proof (induction bs)
  case (Cons r bs)
  then show ?case
    by (cases r) (auto dest!: above_neq)
qed simp

section \<open>Reading and writing through the window\<close>

lemma temp_simps [simp]:
  "phys (temp_map_page b s) = phys s"
  "free_phys_memory_pointer (temp_map_page b s) = free_phys_memory_pointer s"
  "free_page_count (temp_map_page b s) = free_page_count s"
  "phys (temp_write off v s) = (phys s)(temp_frame s + off := v)"
  "temp_frame (temp_write off v s) = temp_frame s"
  "free_phys_memory_pointer (temp_write off v s) = free_phys_memory_pointer s"
  "free_page_count (temp_write off v s) = free_page_count s"
  "phys (s\<lparr>free_phys_memory_pointer := f\<rparr>) = phys s"
  "temp_frame (s\<lparr>free_phys_memory_pointer := f\<rparr>) = temp_frame s"
  by (simp_all add: temp_map_page_def temp_write_def temp_frame_def)

lemma temp_read_phys: "temp_read off s = phys s (temp_frame s + off)"
  by (rule temp_read_def)

text \<open>
  An operation of the allocator touches physical memory, the window and the two globals of the
  free list, and nothing else of the kernel state.
\<close>

definition phys_only :: "kernel \<Rightarrow> kernel \<Rightarrow> bool" where
  "phys_only s t \<longleftrightarrow> t = s\<lparr>phys := phys t, temp_pte := temp_pte t,
     free_page_count := free_page_count t, free_phys_memory_pointer := free_phys_memory_pointer t\<rparr>"

lemma phys_only_refl [simp]: "phys_only s s"
  by (simp add: phys_only_def)

lemma phys_only_trans: "phys_only s t \<Longrightarrow> phys_only t u \<Longrightarrow> phys_only s u"
  unfolding phys_only_def
  by (cases s; cases t; cases u) simp

lemma phys_only_simps [simp]:
  "phys_only s (temp_map_page b t) \<longleftrightarrow> phys_only s t"
  "phys_only s (temp_write off v t) \<longleftrightarrow> phys_only s t"
  "phys_only s (t\<lparr>free_phys_memory_pointer := f\<rparr>) \<longleftrightarrow> phys_only s t"
  "phys_only s (t\<lparr>free_page_count := c\<rparr>) \<longleftrightarrow> phys_only s t"
  by (cases s; cases t; simp add: phys_only_def temp_map_page_def temp_write_def)+

text \<open>The last step of every branch moves the head of the list when the head itself has changed.\<close>

lemma move_head_simps [simp]:
  "phys (if c then s\<lparr>free_phys_memory_pointer := f\<rparr> else s) = phys s"
  "free_phys_memory_pointer (if c then s\<lparr>free_phys_memory_pointer := f\<rparr> else s)
     = (if c then f else free_phys_memory_pointer s)"
  "free_page_count (if c then s\<lparr>free_phys_memory_pointer := f\<rparr> else s) = free_page_count s"
  "phys_only t (if c then s\<lparr>free_phys_memory_pointer := f\<rparr> else s) \<longleftrightarrow> phys_only t s"
  by simp_all

lemma phys_only_fields:
  assumes "phys_only s t"
  shows "cur_space t = cur_space s" "mem t = mem s" "cur_address_space t = cur_address_space s"
    "address_space sp t = address_space sp s" "cr3 t = cr3 s" "out_log t = out_log s"
    "syms t = syms s" "idt t = idt s" "idtr t = idtr s" "tty_state t = tty_state s" "kbd t = kbd s"
    "port_in t = port_in s" "in_count t = in_count s"
proof -
  obtain p q c f where "t = s\<lparr>phys := p, temp_pte := q, free_page_count := c, free_phys_memory_pointer := f\<rparr>"
    using assms unfolding phys_only_def by blast
  then show "cur_space t = cur_space s" "mem t = mem s" "cur_address_space t = cur_address_space s"
    "address_space sp t = address_space sp s" "cr3 t = cr3 s" "out_log t = out_log s"
    "syms t = syms s" "idt t = idt s" "idtr t = idtr s" "tty_state t = tty_state s" "kbd t = kbd s"
    "port_in t = port_in s" "in_count t = in_count s"
    by simp_all
qed

lemma free_list_temp_map [simp]: "free_list (temp_map_page b s) bs = free_list s bs"
  by (simp add: free_list_def)

section \<open>The allocator as a list operation\<close>

text \<open>First fit from the highest run on; a larger run loses its topmost pages.\<close>

fun first_fit :: "u32 \<Rightarrow> run list \<Rightarrow> (u32 \<times> run list) option" where
  "first_fit count [] = None"
| "first_fit count ((b, n) # bs) =
     (if n = count then Some (b, bs)
      else if n > count then Some (b + page_bytes (n - count), (b, n - count) # bs)
      else map_option (\<lambda>(r, bs). (r, (b, n) # bs)) (first_fit count bs))"

text \<open>A header cell of one of the runs: the only cells the allocator writes.\<close>

definition hdr_cells :: "run list \<Rightarrow> u32 set" where
  "hdr_cells bs = (\<Union>b \<in> fst ` set bs. {b, b + 4, b + 8})"

lemma free_list_head:
  assumes "free_list s (xs @ (b, n) # ys)"
  shows "page_aligned b" "hdrs_ok (xs @ (b, n) # ys)" "hdrs_ok ((b, n) # ys @ xs)"
    "circ (phys s) ((b, n) # ys @ xs)"
    "phys s b = lastb b (ys @ xs)" "phys s (b + 4) = hdb (ys @ xs) b" "phys s (b + 8) = n"
    "free_phys_memory_pointer s = hdb xs b"
proof -
  show ok: "hdrs_ok (xs @ (b, n) # ys)"
    using assms by (auto simp: free_list_def intro: runs_hdrs_ok)
  then show al: "page_aligned b" and "hdrs_ok ((b, n) # ys @ xs)"
    by (auto simp: hdrs_ok_append)
  show c: "circ (phys s) ((b, n) # ys @ xs)"
    using assms circ_rotate [of "phys s" xs "(b, n) # ys"] by (simp add: free_list_def)
  then show "phys s b = lastb b (ys @ xs)" "phys s (b + 4) = hdb (ys @ xs) b" "phys s (b + 8) = n"
    by (simp_all add: circ_Cons)
  show "free_phys_memory_pointer s = hdb xs b"
    using assms by (simp add: free_list_def)
qed

lemma window_read:
  assumes "page_aligned b"
  shows "pmb_next (temp_map_page b s) = phys s b" "pmb_prev (temp_map_page b s) = phys s (b + 4)"
    "pmb_size (temp_map_page b s) = phys s (b + 8)"
  using assms by (simp_all add: temp_read_def)

lemma ring_ends:
  assumes "hdrs_ok zs" "zs \<noteq> []"
  shows "page_aligned (lastb u zs)" "page_aligned (hdb zs d)"
    "lastb u zs \<in> fst ` set zs" "hdb zs d \<in> fst ` set zs"
  using assms lastb_in [OF assms(2), of u] hdb_in [OF assms(2), of d] by (auto simp: hdrs_ok_def)

section \<open>Allocation implements first fit\<close>

lemma alloc_take_block_correct:
  assumes "free_list s (xs @ (b, n) # ys)"
  defines "s' \<equiv> alloc_take_block b (temp_map_page b s)"
  shows "free_list s' (xs @ ys) \<and> free_page_count s' = free_page_count s \<and> phys_only s s'
    \<and> (\<forall>a. a \<notin> hdr_cells (xs @ (b, n) # ys) \<longrightarrow> phys s' a = phys s a)"
proof -
  note h = free_list_head [OF assms(1)]
  have ok: "runs_ok (xs @ ys)"
    using assms(1) by (auto simp: free_list_def runs_ok_append)
  show ?thesis
  proof (cases "ys @ xs = []")
    case True
    then show ?thesis
      using h ok by (simp add: s'_def alloc_take_block_def Let_def window_read free_list_def circ_def)
  next
    case False
    define u p where "u = lastb b (ys @ xs)" and "p = hdb (ys @ xs) b"
    have ends: "page_aligned u" "page_aligned p" "u \<in> fst ` set (ys @ xs)" "p \<in> fst ` set (ys @ xs)"
      using ring_ends [OF _ False] h(3) unfolding u_def p_def by auto
    have neq: "b \<noteq> p"
      using ends(4) h(3) by auto
    have ph: "phys s' = (phys s)(u + 4 := p, p := u)"
      and fp: "free_phys_memory_pointer s' = (if xs = [] then p else free_phys_memory_pointer s)"
      and rest: "free_page_count s' = free_page_count s" "phys_only s s'"
      using h(1-4,8) h(5-7) [folded u_def p_def] ends neq
      by (cases xs; auto simp: s'_def alloc_take_block_def Let_def window_read)+
    have "circ (phys s') (ys @ xs)"
      using circ_unlink [OF h(4,3) False] by (simp only: ph u_def p_def)
    then have "free_list s' (xs @ ys)"
      using ok fp h(8) False hdb_default [of ys]
      unfolding free_list_def circ_rotate [of _ xs ys] p_def by (cases xs; cases ys) auto
    moreover have "phys s' a = phys s a" if "a \<notin> hdr_cells (xs @ (b, n) # ys)" for a
      using that ends by (auto simp: ph hdr_cells_def)
    ultimately show ?thesis
      using rest by blast
  qed
qed

text \<open>A state that differs from \<open>s\<close> in the headers of \<open>bs\<close> and in the window only.\<close>

definition only_hdrs :: "run list \<Rightarrow> kernel \<Rightarrow> kernel \<Rightarrow> bool" where
  "only_hdrs bs s s' \<longleftrightarrow> free_page_count s' = free_page_count s \<and> phys_only s s'
     \<and> (\<forall>a. a \<notin> hdr_cells bs \<longrightarrow> phys s' a = phys s a)"

lemma only_hdrs_temp_map: "only_hdrs bs (temp_map_page b s) s' \<longleftrightarrow> only_hdrs bs s s'"
proof -
  have "phys_only (temp_map_page b s) s' \<longleftrightarrow> phys_only s s'"
    by (cases s; cases s'; simp add: phys_only_def temp_map_page_def)
  then show ?thesis
    by (simp add: only_hdrs_def)
qed

lemma runs_ok_shrink:
  assumes "runs_ok (xs @ (b, n) # ys)" "count < n"
  shows "runs_ok (xs @ (b, n - count) # ys)"
proof -
  have "unat (n - count) \<le> unat n" "0 < n - count"
    using assms(2) by (simp_all add: unat_diff_nowrap order.strict_implies_order word_less_nat_alt)
  then show ?thesis
    using assms(1) by (auto simp: runs_ok_append)
qed

lemma alloc_shrink_correct:
  assumes "free_list s (xs @ (b, n) # ys)" "count < n"
  defines "s' \<equiv> set_pmb_size (n - count) (temp_map_page b s)"
  shows "free_list s' (xs @ (b, n - count) # ys) \<and> only_hdrs (xs @ (b, n) # ys) s s'
    \<and> pmb_size s' = n - count"
proof -
  note h = free_list_head [OF assms(1)]
  have "circ (phys s) (xs @ (b, n) # ys)"
    using assms(1) by (simp add: free_list_def)
  then have "circ ((phys s)(b + 8 := n - count)) (xs @ (b, n - count) # ys)"
    using h(2) by (rule circ_resize)
  then show ?thesis
    using assms(1,2) h(1,8) runs_ok_shrink [of xs b n ys count]
    by (auto simp: s'_def free_list_def only_hdrs_def hdr_cells_def temp_read_def)
qed

definition first_fit_or_none :: "u32 \<Rightarrow> run list \<Rightarrow> u32 \<times> run list" where
  "first_fit_or_none count bs = (case first_fit count bs of None \<Rightarrow> (- 1, bs) | Some x \<Rightarrow> x)"

lemma first_fit_or_none_skip:
  "n < count \<Longrightarrow> first_fit_or_none count ((b, n) # ys) =
     (fst (first_fit_or_none count ys), (b, n) # snd (first_fit_or_none count ys))"
  by (auto simp: first_fit_or_none_def split: option.splits)

lemma free_list_next_lower:
  assumes "free_list s (xs @ (b, n) # (c, k) # ys)"
  shows "pmb_prev (temp_map_page b s) = c" "c \<noteq> free_phys_memory_pointer s"
proof -
  note h = free_list_head [OF assms]
  show "pmb_prev (temp_map_page b s) = c"
    using h(1,6) by (simp add: window_read)
  have "c \<noteq> hdb xs b"
    using h(2) by (cases xs) (auto simp: hdrs_ok_append)
  then show "c \<noteq> free_phys_memory_pointer s"
    using h(8) by simp
qed

lemma free_list_bottom:
  assumes "free_list s (xs @ [(b, n)])"
  shows "pmb_prev (temp_map_page b s) = free_phys_memory_pointer s"
  using free_list_head [OF assms] by (simp add: window_read)

lemma alloc_phys_loop_first_fit:
  assumes "free_list s (xs @ (b, n) # ys)"
  shows "\<exists>s'. alloc_phys_loop count b s = Some (fst (first_fit_or_none count ((b, n) # ys)), s')
    \<and> free_list s' (xs @ snd (first_fit_or_none count ((b, n) # ys)))
    \<and> only_hdrs (xs @ (b, n) # ys) s s'"
  using assms
proof (induction ys arbitrary: xs b n s)
  case (Nil xs b n s)
  note h = free_list_head [OF Nil]
  have size: "pmb_size (temp_map_page b s) = n"
    using h(1,7) by (simp add: window_read)
  consider "n = count" | "count < n" | "n < count" by (meson linorder_less_linear)
  then show ?case
  proof cases
    case 1
    with Nil size alloc_take_block_correct [of s xs b n "[]"] show ?thesis
      by (subst alloc_phys_loop.simps) (simp add: first_fit_or_none_def only_hdrs_def)
  next
    case 2
    with Nil size alloc_shrink_correct [of s xs b n "[]" count] show ?thesis
      by (subst alloc_phys_loop.simps) (auto simp: first_fit_or_none_def)
  next
    case 3
    with Nil size free_list_bottom [OF Nil] show ?thesis
      by (subst alloc_phys_loop.simps)
        (auto simp: first_fit_or_none_def only_hdrs_def dest: less_imp_not_less)
  qed
next
  case (Cons r ys xs b n s)
  obtain c k where r: "r = (c, k)" by (cases r)
  note fl = Cons.prems [unfolded r]
  note h = free_list_head [OF fl]
  have size: "pmb_size (temp_map_page b s) = n"
    using h(1,7) by (simp add: window_read)
  consider "n = count" | "count < n" | "n < count" by (meson linorder_less_linear)
  then show ?case
  proof cases
    case 1
    with fl size alloc_take_block_correct [OF fl] r show ?thesis
      by (subst alloc_phys_loop.simps) (simp add: first_fit_or_none_def only_hdrs_def)
  next
    case 2
    with fl size alloc_shrink_correct [OF fl] r show ?thesis
      by (subst alloc_phys_loop.simps) (auto simp: first_fit_or_none_def)
  next
    case 3
    have "alloc_phys_loop count b s = alloc_phys_loop count c (temp_map_page b s)"
      using 3 size free_list_next_lower [OF fl]
      by (subst alloc_phys_loop.simps) (auto simp: Let_def)
    moreover have "free_list (temp_map_page b s) ((xs @ [(b, n)]) @ (c, k) # ys)"
      using fl by simp
    ultimately show ?thesis
      using Cons.IH [of "temp_map_page b s" "xs @ [(b, n)]" c k] 3 r
      by (simp add: first_fit_or_none_skip only_hdrs_temp_map)
  qed
qed

section \<open>Freeing implements insertion into the sorted list of runs\<close>

text \<open>
  The branches of the loop of \<open>free_phys_pages\<close> on the list of runs. \<open>None\<close>: the walk comes back to
  the head of the list without having found a place.
\<close>

fun insert_run :: "u32 \<Rightarrow> u32 \<Rightarrow> run list \<Rightarrow> run list option" where
  "insert_run base count [] = None"
| "insert_run base count ((b, n) # bs) =
     (if base > b + page_bytes n then Some ((base, count) # (b, n) # bs)
      else if b + page_bytes n = base then Some ((b, n + count) # bs)
      else if base + page_bytes count = b then
        (case bs of
           [] \<Rightarrow> Some [(base, count + n)]
         | (c, k) # bs' \<Rightarrow>
             if c + page_bytes k = base then Some ((c, k + (n + count)) # bs')
             else Some ((base, count + n) # bs))
      else map_option (\<lambda>bs. (b, n) # bs) (insert_run base count bs))"

lemma hdr_cells_simps:
  "a \<in> hdr_cells ((b, n) # bs) \<longleftrightarrow> a = b \<or> a = b + 4 \<or> a = b + 8 \<or> a \<in> hdr_cells bs"
  "a \<in> hdr_cells (xs @ ys) \<longleftrightarrow> a \<in> hdr_cells xs \<or> a \<in> hdr_cells ys"
  by (auto simp: hdr_cells_def)

lemma in_hdr_cells:
  "c \<in> fst ` set bs \<Longrightarrow> c \<in> hdr_cells bs" "c \<in> fst ` set bs \<Longrightarrow> c + 4 \<in> hdr_cells bs"
  "c \<in> fst ` set bs \<Longrightarrow> c + 8 \<in> hdr_cells bs"
  by (auto simp: hdr_cells_def)

lemma free_insert_after_correct:
  assumes fl: "free_list s (xs @ (b, n) # ys)"
    and ok: "runs_ok (xs @ (base, count) # (b, n) # ys)"
  defines "s' \<equiv> free_insert_after base count b (temp_map_page b s)"
  shows "free_list s' (xs @ (base, count) # (b, n) # ys)
    \<and> only_hdrs ((base, count) # xs @ (b, n) # ys) s s'"
proof -
  note h = free_list_head [OF fl]
  define u where "u = lastb b (ys @ xs)"
  have u_in: "u \<in> fst ` set ((b, n) # ys @ xs)"
    using lastb_in [of "(b, n) # ys @ xs" 0] by (simp add: u_def)
  then have u_al: "page_aligned u"
    using h(3) by (auto simp: hdrs_ok_def)
  have "hdrs_ok (xs @ (base, count) # (b, n) # ys)"
    using ok by (rule runs_hdrs_ok)
  then have fresh: "page_aligned base" "base \<notin> fst ` set ((b, n) # ys @ xs)"
      "hdrs_ok (((b, n) # ys @ xs) @ [(base, count)])"
    by (auto simp: hdrs_ok_append)
  have ph: "phys s' = (phys s)(b := base, u + 4 := base, base := u, base + 4 := b, base + 8 := count)"
    and fp: "free_phys_memory_pointer s' =
      (if b = free_phys_memory_pointer s then base else free_phys_memory_pointer s)"
    and rest: "free_page_count s' = free_page_count s" "phys_only s s'"
    using h(1) h(5) [folded u_def] u_al fresh
    by (auto simp: s'_def free_insert_after_def Let_def window_read)
  have "circ (phys s') (((b, n) # ys @ xs) @ [(base, count)])"
    using h(4) fresh u_al by (intro circ_insert [OF _ fresh(3)]) (auto simp: ph u_def)
  then have "circ (phys s') (xs @ (base, count) # (b, n) # ys)"
    using circ_rotate [of "phys s'" xs "(base, count) # (b, n) # ys"]
      circ_rotate [of "phys s'" "[(base, count)]" "(b, n) # ys @ xs"] by simp
  moreover have "b = free_phys_memory_pointer s \<longleftrightarrow> xs = []"
    using h(2,8) by (cases xs) (auto simp: hdrs_ok_append)
  then have "free_phys_memory_pointer s' = hdb (xs @ (base, count) # (b, n) # ys) (- 1)"
    using fp h(8) by (cases xs) auto
  moreover have "phys s' a = phys s a" if "a \<notin> hdr_cells ((base, count) # xs @ (b, n) # ys)" for a
    using that in_hdr_cells [OF u_in] by (auto simp: ph hdr_cells_simps)
  ultimately show ?thesis
    using ok rest by (simp add: free_list_def only_hdrs_def)
qed

lemma free_extend_up_correct:
  assumes fl: "free_list s (xs @ (b, n) # ys)"
    and ok: "runs_ok (xs @ (b, n + count) # ys)" and far: "phys s b \<noteq> base + page_bytes count"
  defines "s' \<equiv> free_extend_up base count b (temp_map_page b s)"
  shows "free_list s' (xs @ (b, n + count) # ys) \<and> only_hdrs ((base, count) # xs @ (b, n) # ys) s s'"
proof -
  note h = free_list_head [OF fl]
  have s': "s' = set_pmb_size (n + count) (temp_map_page b s)"
    using h(1,7) far by (simp add: s'_def free_extend_up_def Let_def temp_read_def)
  have "circ ((phys s)(b + 8 := n + count)) (xs @ (b, n + count) # ys)"
    using fl h(2) by (intro circ_resize) (auto simp: free_list_def)
  then show ?thesis
    using ok h(1,8) by (auto simp: s' free_list_def only_hdrs_def hdr_cells_simps)
qed

lemma free_merge_down_correct:
  assumes fl: "free_list s (xs @ (b, n) # (c, k) # ys)"
    and ok: "runs_ok (xs @ (c, k + (n + count)) # ys)" and adj: "c + page_bytes k = base"
  defines "s' \<equiv> free_extend_down base count b (temp_map_page b s)"
  shows "free_list s' (xs @ (c, k + (n + count)) # ys)
    \<and> only_hdrs ((base, count) # xs @ (b, n) # (c, k) # ys) s s'"
proof -
  note h = free_list_head [OF fl]
  define u where "u = lastb c (ys @ xs)"
  have u_in: "u \<in> fst ` set ((c, k) # ys @ xs)"
    using lastb_in [of "(c, k) # ys @ xs" 0] by (simp add: u_def)
  then have al: "page_aligned u" "page_aligned c" "b \<noteq> u" "b \<noteq> c"
    using h(3) by (auto simp: hdrs_ok_def)
  have kc: "phys s (c + 8) = k"
    using h(4) by (simp add: circ_Cons)
  have nb: "phys s b = u" "phys s (b + 4) = c"
    using h(5,6) by (simp_all add: u_def)
  have ph: "phys s' = (phys s)(c := u, c + 8 := k + (n + count), u + 4 := c)"
    and fp: "free_phys_memory_pointer s' =
      (if b = free_phys_memory_pointer s then c else free_phys_memory_pointer s)"
    and rest: "free_page_count s' = free_page_count s" "phys_only s s'"
    using h(1,7) nb al kc adj
    by (auto simp: s'_def free_extend_down_def Let_def window_read temp_read_def)
  have "circ ((phys s)(u + 4 := c, c := u)) ((c, k) # ys @ xs)"
    using circ_unlink [OF h(4,3)] by (simp add: u_def)
  then have "circ ((phys s)(u + 4 := c, c := u)) (xs @ (c, k) # ys)"
    using circ_rotate [of _ xs "(c, k) # ys"] by simp
  then have "circ ((phys s)(u + 4 := c, c := u, c + 8 := k + (n + count))) (xs @ (c, k + (n + count)) # ys)"
    using h(2) by (intro circ_resize) (auto simp: hdrs_ok_append)
  moreover have "(phys s)(u + 4 := c, c := u, c + 8 := k + (n + count)) = phys s'"
    using al by (auto simp: ph fun_eq_iff)
  ultimately have "circ (phys s') (xs @ (c, k + (n + count)) # ys)"
    by simp
  moreover have "b = free_phys_memory_pointer s \<longleftrightarrow> xs = []"
    using h(2,8) by (cases xs) (auto simp: hdrs_ok_append)
  then have "free_phys_memory_pointer s' = hdb (xs @ (c, k + (n + count)) # ys) (- 1)"
    using fp h(8) by (cases xs) auto
  moreover have "phys s' a = phys s a"
    if "a \<notin> hdr_cells ((base, count) # xs @ (b, n) # (c, k) # ys)" for a
    using that in_hdr_cells [OF u_in] by (auto simp: ph hdr_cells_simps)
  ultimately show ?thesis
    using ok rest by (simp add: free_list_def only_hdrs_def)
qed

lemma free_rebase_correct:
  assumes fl: "free_list s (xs @ (b, n) # ys)" and ne: "ys @ xs \<noteq> []"
    and ok: "runs_ok (xs @ (base, count + n) # ys)"
    and far: "hdb (ys @ xs) b + page_bytes (phys s (hdb (ys @ xs) b + 8)) \<noteq> base"
  defines "s' \<equiv> free_extend_down base count b (temp_map_page b s)"
  shows "free_list s' (xs @ (base, count + n) # ys) \<and> only_hdrs ((base, count) # xs @ (b, n) # ys) s s'"
proof -
  note h = free_list_head [OF fl]
  define u p where "u = lastb b (ys @ xs)" and "p = hdb (ys @ xs) b"
  have ends: "page_aligned u" "page_aligned p" "u \<in> fst ` set (ys @ xs)" "p \<in> fst ` set (ys @ xs)"
    using ring_ends [OF _ ne] h(3) unfolding u_def p_def by auto
  have "hdrs_ok (xs @ (base, count + n) # ys)"
    using ok by (rule runs_hdrs_ok)
  then have fresh: "page_aligned base" "base \<notin> fst ` set (ys @ xs)"
    by (auto simp: hdrs_ok_append)
  have ph: "phys s' = (phys s)(u + 4 := base, p := base, base := u, base + 4 := p, base + 8 := count + n)"
    and fp: "free_phys_memory_pointer s' =
      (if b = free_phys_memory_pointer s then base else free_phys_memory_pointer s)"
    and rest: "free_page_count s' = free_page_count s" "phys_only s s'"
    using h(1) h(5-7) [folded u_def p_def] ends(1,2) fresh(1) far [folded p_def]
    by (simp_all add: s'_def free_extend_down_def Let_def window_read)
  have "circ (phys s') ((base, count + n) # ys @ xs)"
    using fresh(1) by (intro circ_rebase [OF h(4,3) ne fresh, folded u_def p_def]) (simp_all add: ph)
  then have "circ (phys s') (xs @ (base, count + n) # ys)"
    using circ_rotate [of "phys s'" xs "(base, count + n) # ys"] by simp
  moreover have "b = free_phys_memory_pointer s \<longleftrightarrow> xs = []"
    using h(2,8) by (cases xs) (auto simp: hdrs_ok_append)
  then have "free_phys_memory_pointer s' = hdb (xs @ (base, count + n) # ys) (- 1)"
    using fp h(8) by (cases xs) auto
  moreover have "phys s' a = phys s a" if "a \<notin> hdr_cells ((base, count) # xs @ (b, n) # ys)" for a
    using that in_hdr_cells [OF ends(3)] in_hdr_cells [OF ends(4)]
    by (auto simp: ph hdr_cells_simps)
  ultimately show ?thesis
    using ok rest by (simp add: free_list_def only_hdrs_def)
qed

text \<open>The run to be freed shares no page with a free run.\<close>

fun apart :: "run \<Rightarrow> run \<Rightarrow> bool" where
  "apart (b, n) (c, k) \<longleftrightarrow>
     unat b + unat n * 4096 \<le> unat c \<or> unat c + unat k * 4096 \<le> unat b"

lemma run_end_cmp:
  assumes "run_ok (b, n)"
  shows "b + page_bytes n < c \<longleftrightarrow> unat b + unat n * 4096 < unat c"
    and "b + page_bytes n = c \<longleftrightarrow> unat b + unat n * 4096 = unat c"
  using assms by (auto simp: word_less_nat_alt word_unat_eq_iff unat_block_end)

lemma run_join:
  assumes "run_ok (b, n)" "run_ok (c, k)" "unat b + unat n * 4096 = unat c"
  shows "run_ok (b, n + k)" "unat (n + k) = unat n + unat k"
proof -
  show u: "unat (n + k) = unat n + unat k"
    using assms by (intro unat_add_nowrap) auto
  have "0 < unat (n + k)"
    using assms(1) u by (simp add: word_less_nat_alt)
  then have "0 < n + k"
    by (simp add: word_less_nat_alt)
  then show "run_ok (b, n + k)"
    using assms u by (simp add: algebra_simps)
qed

definition insert_or_same :: "u32 \<Rightarrow> u32 \<Rightarrow> run list \<Rightarrow> run list" where
  "insert_or_same base count bs = (case insert_run base count bs of None \<Rightarrow> bs | Some zs \<Rightarrow> zs)"

lemma insert_or_same_skip:
  "\<not> base > b + page_bytes n \<Longrightarrow> b + page_bytes n \<noteq> base \<Longrightarrow> base + page_bytes count \<noteq> b \<Longrightarrow>
     insert_or_same base count ((b, n) # bs) = (b, n) # insert_or_same base count bs"
  by (auto simp: insert_or_same_def split: option.splits)

text \<open>
  What is known when the walk stands at \<open>(b, n)\<close>: the runs passed, \<open>xs\<close>, are all above the run that
  is freed.
\<close>

definition walk_at :: "run \<Rightarrow> run list \<Rightarrow> run list \<Rightarrow> bool" where
  "walk_at r xs zs \<longleftrightarrow> run_ok r \<and> runs_ok (xs @ zs) \<and> (\<forall>q \<in> set xs. above q r) \<and> (\<forall>q \<in> set zs. apart q r)"

lemma walk_at_insert:
  assumes "walk_at (base, count) xs ((b, n) # ys)" "base > b + page_bytes n"
  shows "runs_ok (xs @ (base, count) # (b, n) # ys)"
proof -
  have "above (base, count) q" if "q \<in> set ((b, n) # ys)" for q
    using assms that run_end_cmp(1) [of b n base]
    by (cases q) (auto simp: walk_at_def runs_ok_append)
  then show ?thesis
    using assms(1) by (auto simp: walk_at_def runs_ok_append)
qed

lemma walk_at_extend_up:
  assumes "walk_at (base, count) xs ((b, n) # ys)" "b + page_bytes n = base"
  shows "runs_ok (xs @ (b, n + count) # ys)"
proof -
  have ok: "run_ok (b, n)" "run_ok (base, count)"
    using assms(1) by (auto simp: walk_at_def runs_ok_append)
  then have eq: "unat b + unat n * 4096 = unat base"
    using assms(2) run_end_cmp(2) [of b n base] by simp
  note j = run_join [OF ok eq]
  have "above q (b, n + count)" if "q \<in> set xs" for q
    using assms(1) that eq j(2) by (cases q) (auto simp: walk_at_def algebra_simps)
  moreover have "above (b, n + count) q" if "q \<in> set ys" for q
    using assms(1) that by (cases q) (auto simp: walk_at_def runs_ok_append)
  ultimately show ?thesis
    using assms(1) j(1) by (auto simp: walk_at_def runs_ok_append)
qed

lemma walk_at_merge:
  assumes "walk_at (base, count) xs ((b, n) # (c, k) # ys)"
    and "base + page_bytes count = b" "c + page_bytes k = base"
  shows "runs_ok (xs @ (c, k + (n + count)) # ys)"
proof -
  have ok: "run_ok (b, n)" "run_ok (base, count)" "run_ok (c, k)"
    using assms(1) by (auto simp: walk_at_def runs_ok_append)
  then have eq: "unat base + unat count * 4096 = unat b" "unat c + unat k * 4096 = unat base"
    using assms(2,3) run_end_cmp(2) by auto
  note j = run_join [OF ok(2,1) eq(1)]
  note j' = run_join [OF ok(3) j(1) eq(2)]
  have "above q (c, k + (count + n))" if "q \<in> set xs" for q
    using assms(1) that eq j(2) j'(2) by (cases q) (auto simp: walk_at_def runs_ok_append algebra_simps)
  moreover have "above (c, k + (count + n)) q" if "q \<in> set ys" for q
    using assms(1) that by (cases q) (auto simp: walk_at_def runs_ok_append)
  ultimately show ?thesis
    using assms(1) j'(1) by (auto simp: walk_at_def runs_ok_append add.commute [of n])
qed

lemma walk_at_rebase:
  assumes "walk_at (base, count) xs ((b, n) # ys)"
    and "base + page_bytes count = b"
    and "\<And>c k ys'. ys = (c, k) # ys' \<Longrightarrow> c + page_bytes k \<noteq> base"
  shows "runs_ok (xs @ (base, count + n) # ys)"
proof -
  have ok: "run_ok (b, n)" "run_ok (base, count)"
    using assms(1) by (auto simp: walk_at_def runs_ok_append)
  then have eq: "unat base + unat count * 4096 = unat b"
    using assms(2) run_end_cmp(2) by auto
  note j = run_join [OF ok(2,1) eq]
  have "above q (base, count + n)" if "q \<in> set xs" for q
    using assms(1) that eq j(2) by (cases q) (auto simp: walk_at_def runs_ok_append algebra_simps)
  moreover have "above (base, count + n) q" if "q \<in> set ys" for q
  proof -
    obtain c k ys' where ys: "ys = (c, k) # ys'"
      using \<open>q \<in> set ys\<close> by (cases ys) auto
    have "unat c + unat k * 4096 \<noteq> unat base"
      using assms(1,3) ys run_end_cmp(2) [of c k base] by (auto simp: walk_at_def runs_ok_append)
    moreover have "unat c + unat k * 4096 \<le> unat base"
      using assms(1) ys eq by (auto simp: walk_at_def runs_ok_append)
    ultimately have "above (base, count + n) (c, k)"
      by simp
    then show ?thesis
      using assms(1) that ys by (cases q) (auto simp: walk_at_def runs_ok_append)
  qed
  ultimately show ?thesis
    using assms(1) j(1) by (auto simp: walk_at_def runs_ok_append)
qed

lemma walk_at_step:
  assumes "walk_at (base, count) xs ((b, n) # ys)" "\<not> base > b + page_bytes n"
    and "b + page_bytes n \<noteq> base" "base + page_bytes count \<noteq> b"
  shows "walk_at (base, count) (xs @ [(b, n)]) ys"
proof -
  have ok: "run_ok (b, n)" "run_ok (base, count)" "apart (b, n) (base, count)"
    using assms(1) by (auto simp: walk_at_def runs_ok_append)
  then have "above (b, n) (base, count)"
    using assms(2-4) run_end_cmp [of b n base] run_end_cmp(2) [of base count b] by auto
  then show ?thesis
    using assms(1) by (auto simp: walk_at_def)
qed

lemma walk_at_next_far:
  assumes "walk_at (base, count) xs ((b, n) # ys)" "b + page_bytes n = base"
  shows "lastb b (ys @ xs) \<noteq> base + page_bytes count"
proof
  assume eq: "lastb b (ys @ xs) = base + page_bytes count"
  have ok: "run_ok (b, n)" "run_ok (base, count)"
    using assms(1) by (auto simp: walk_at_def runs_ok_append)
  then have e: "unat (lastb b (ys @ xs)) = unat base + unat count * 4096"
    and b: "unat b + unat n * 4096 = unat base"
    using eq assms(2) run_end_cmp(2) [of b n base] by (auto simp: unat_block_end)
  have "lastb b (ys @ xs) \<in> fst ` set ((b, n) # ys @ xs)"
    using lastb_in [of "(b, n) # ys @ xs" 0] by simp
  then obtain q where q: "q \<in> set ((b, n) # ys @ xs)" "lastb b (ys @ xs) = fst q"
    by blast
  obtain c k where "q = (c, k)" by (cases q)
  with q have c: "lastb b (ys @ xs) = c" "(c, k) \<in> set ((b, n) # ys @ xs)"
    by simp_all
  then consider "(c, k) \<in> set xs" | "(c, k) \<in> set ys" | "c = b" by auto
  then show False
  proof cases
    case 1
    then show False using assms(1) e c(1) by (auto simp: walk_at_def)
  next
    case 2
    then show False using assms(1) e c(1) b by (auto simp: walk_at_def runs_ok_append)
  next
    case 3
    then show False using e c(1) b ok by (auto simp: word_less_nat_alt)
  qed
qed

text \<open>
  One visit of the walk: whichever branch the code takes, the list becomes the one that
  \<open>insert_run\<close> gives, unless the walk goes on.
\<close>

lemma free_visit:
  assumes fl: "free_list s (xs @ (b, n) # ys)" and w: "walk_at (base, count) xs ((b, n) # ys)"
    and single: "ys @ xs = [] \<Longrightarrow> base + page_bytes count \<noteq> b"
    and hit: "base > b + page_bytes n \<or> b + page_bytes n = base \<or> base + page_bytes count = b"
  shows "\<exists>s'. free_phys_loop base count b s = Some s'
    \<and> free_list s' (xs @ insert_or_same base count ((b, n) # ys))
    \<and> only_hdrs ((base, count) # xs @ (b, n) # ys) s s'"
proof -
  note h = free_list_head [OF fl]
  have size: "pmb_size (temp_map_page b s) = n"
    using h(1,7) by (simp add: window_read)
  consider (ins) "base > b + page_bytes n"
    | (up) "\<not> base > b + page_bytes n" "b + page_bytes n = base"
    | (down) "\<not> base > b + page_bytes n" "b + page_bytes n \<noteq> base" "base + page_bytes count = b"
    using hit by blast
  then show ?thesis
  proof cases
    case ins
    then show ?thesis
      using free_insert_after_correct [OF fl walk_at_insert [OF w ins]] size
      by (subst free_phys_loop.simps) (simp add: insert_or_same_def)
  next
    case up
    have "phys s b \<noteq> base + page_bytes count"
      using walk_at_next_far [OF w up(2)] h(5) by simp
    then show ?thesis
      using free_extend_up_correct [OF fl walk_at_extend_up [OF w up(2)]] size up
      by (subst free_phys_loop.simps) (simp add: insert_or_same_def)
  next
    case down
    then have loop: "free_phys_loop base count b s = Some (free_extend_down base count b (temp_map_page b s))"
      using size by (subst free_phys_loop.simps) (simp add: Let_def)
    show ?thesis
    proof (cases "\<exists>c k ys'. ys = (c, k) # ys' \<and> c + page_bytes k = base")
      case True
      then obtain c k ys' where ys: "ys = (c, k) # ys'" "c + page_bytes k = base"
        by blast
      then show ?thesis
        using free_merge_down_correct [OF fl [unfolded ys(1)] walk_at_merge [OF w [unfolded ys(1)] down(3) ys(2)] ys(2)]
          loop down by (simp add: insert_or_same_def)
    next
      case False
      have "hdb (ys @ xs) b + page_bytes (phys s (hdb (ys @ xs) b + 8)) \<noteq> base"
      proof (cases ys)
        case (Cons r ys')
        then show ?thesis
          using False h(4) by (cases r) (auto simp: circ_Cons)
      next
        case Nil
        then obtain c k xs' where xs: "xs = (c, k) # xs'"
          using single down(3) by (cases xs) auto
        have "run_ok (c, k)" "above (c, k) (base, count)"
          using w xs by (auto simp: walk_at_def)
        then have "c + page_bytes k \<noteq> base"
          using run_end_cmp(2) [of c k base] by auto
        then show ?thesis
          using Nil xs h(4) by (auto simp: circ_Cons)
      qed
      moreover have "ys @ xs \<noteq> []"
        using single down(3) by blast
      moreover have "runs_ok (xs @ (base, count + n) # ys)"
        using w down(3) False by (intro walk_at_rebase) auto
      moreover have "insert_or_same base count ((b, n) # ys) = (base, count + n) # ys"
        using down False by (auto simp: insert_or_same_def split: list.splits)
      ultimately show ?thesis
        using free_rebase_correct [OF fl] loop by simp
    qed
  qed
qed

lemma free_phys_loop_insert:
  assumes "free_list s (xs @ (b, n) # ys)" and "walk_at (base, count) xs ((b, n) # ys)"
    and "ys @ xs = [] \<Longrightarrow> base + page_bytes count \<noteq> b"
  shows "\<exists>s'. free_phys_loop base count b s = Some s'
    \<and> free_list s' (xs @ insert_or_same base count ((b, n) # ys))
    \<and> only_hdrs ((base, count) # xs @ (b, n) # ys) s s'"
  using assms
proof (induction ys arbitrary: xs b n s)
  case (Nil xs b n s)
  show ?case
  proof (cases "base > b + page_bytes n \<or> b + page_bytes n = base \<or> base + page_bytes count = b")
    case True
    with Nil show ?thesis by (intro free_visit) auto
  next
    case False
    then have "free_phys_loop base count b s = Some (temp_map_page b s)"
      using free_list_head [OF Nil(1)] free_list_bottom [OF Nil(1)]
      by (subst free_phys_loop.simps) (simp add: Let_def window_read)
    then show ?thesis
      using False Nil(1) by (simp add: insert_or_same_def only_hdrs_def)
  qed
next
  case (Cons r ys xs b n s)
  show ?case
  proof (cases "base > b + page_bytes n \<or> b + page_bytes n = base \<or> base + page_bytes count = b")
    case True
    with Cons.prems show ?thesis by (intro free_visit) auto
  next
    case False
    obtain c k where r: "r = (c, k)" by (cases r)
    note fl = Cons.prems(1) [unfolded r]
    have "free_phys_loop base count b s = free_phys_loop base count c (temp_map_page b s)"
      using False free_list_head [OF fl] free_list_next_lower [OF fl]
      by (subst free_phys_loop.simps) (simp add: Let_def window_read)
    moreover have "free_list (temp_map_page b s) ((xs @ [(b, n)]) @ (c, k) # ys)"
      using fl by simp
    moreover have "walk_at (base, count) (xs @ [(b, n)]) ((c, k) # ys)"
      using Cons.prems(2) False r by (intro walk_at_step) auto
    ultimately show ?thesis
      using Cons.IH [of "temp_map_page b s" "xs @ [(b, n)]" c k] False r
      by (simp add: insert_or_same_skip only_hdrs_temp_map)
  qed
qed

end
