(* ===== verification/PhysAlloc.thy ===== *)
theory PhysAlloc
  imports PhysMem Allocator
begin

text \<open>
  What the clients of the physical allocator rely on. The list of runs is read as a set of page
  numbers and a count; \<open>alloc_phys_pages\<close> takes a run of pages out of the set, \<open>free_phys_pages\<close>
  puts one in, and the global \<open>free_page_count\<close> is the number of pages in it. This makes the
  code an instance of the contract \<open>allocator\<close>.
  The last part gives the two situations in which \<open>free_phys_pages\<close> damages the allocator.
\<close>

section \<open>Pages and counts\<close>

definition run_total :: "run list \<Rightarrow> nat" where
  "run_total bs = (\<Sum>r\<leftarrow>bs. unat (snd r))"

definition phys_inv :: "kernel \<Rightarrow> run list \<Rightarrow> bool" where
  "phys_inv s bs \<longleftrightarrow> free_list s bs \<and> unat (free_page_count s) = run_total bs"

lemma run_total_simps [simp]:
  "run_total [] = 0" "run_total ((b, n) # bs) = unat n + run_total bs"
  "run_total (xs @ ys) = run_total xs + run_total ys"
  by (simp_all add: run_total_def)

lemma free_pages_simps [simp]:
  "free_pages [] = {}" "free_pages (r # bs) = run_pages r \<union> free_pages bs"
  "free_pages (xs @ ys) = free_pages xs \<union> free_pages ys"
  by (auto simp: free_pages_def)

lemma run_pages_simp [simp]:
  "page_aligned b \<Longrightarrow> x \<in> run_pages (b, n) \<longleftrightarrow> unat b \<le> 4096 * x \<and> 4096 * x < unat b + unat n * 4096"
  by (auto simp: run_pages_def page_aligned_dvd elim!: dvdE)

lemma run_total_bound:
  "runs_ok ((b, n) # bs) \<Longrightarrow> run_total ((b, n) # bs) * 4096 \<le> unat b + unat n * 4096"
proof (induction bs arbitrary: b n)
  case (Cons r bs)
  obtain c k where r: "r = (c, k)" by (cases r)
  then have "run_total ((c, k) # bs) * 4096 \<le> unat c + unat k * 4096"
    using Cons by auto
  moreover have "unat c + unat k * 4096 < unat b"
    using Cons.prems r by auto
  ultimately show ?case
    using r by (simp add: algebra_simps)
qed simp

lemma run_total_less: "runs_ok bs \<Longrightarrow> run_total bs * 4096 < 2 ^ 32"
proof (cases bs)
  case (Cons r bs')
  moreover obtain b n where "r = (b, n)" by (cases r)
  moreover assume "runs_ok bs"
  ultimately show ?thesis
    using run_total_bound [of b n bs'] by auto
qed simp

lemma above_disjoint: "run_ok r \<Longrightarrow> run_ok q \<Longrightarrow> above r q \<Longrightarrow> run_pages r \<inter> run_pages q = {}"
  by (cases r; cases q) auto

lemma free_pages_disjoint:
  "run_ok r \<Longrightarrow> runs_ok bs \<Longrightarrow> \<forall>q \<in> set bs. above r q \<Longrightarrow> run_pages r \<inter> free_pages bs = {}"
proof -
  assume "run_ok r" "runs_ok bs" "\<forall>q \<in> set bs. above r q"
  then have "run_pages r \<inter> run_pages q = {}" if "q \<in> set bs" for q
    using that by (intro above_disjoint) (auto simp: runs_ok_def)
  then show ?thesis
    unfolding free_pages_def by blast
qed

text \<open>What first fit returns: the pages of the result are free before and no longer free after.\<close>

lemma split_run:
  assumes "run_ok (b, n)" "0 < count" "count < n"
  shows "run_ok (b + page_bytes (n - count), count)"
    "run_pages (b, n) = run_pages (b + page_bytes (n - count), count) \<union> run_pages (b, n - count)"
    "run_pages (b + page_bytes (n - count), count) \<inter> run_pages (b, n - count) = {}"
    "unat n = unat (n - count) + unat count"
proof -
  have u: "unat (n - count) = unat n - unat count" "unat count < unat n"
    using assms(3) by (simp_all add: unat_diff_nowrap order.strict_implies_order word_less_nat_alt)
  then show "unat n = unat (n - count) + unat count" by simp
  have e: "unat (b + page_bytes (n - count)) = unat b + (unat n - unat count) * 4096"
    using assms(1) u by (subst unat_block_end) auto
  have al: "page_aligned b" "page_aligned (b + page_bytes (n - count))"
    using assms(1) e by (auto simp: page_aligned_dvd)
  then show "run_ok (b + page_bytes (n - count), count)"
    using assms e u by (auto simp: algebra_simps)
  show "run_pages (b, n) = run_pages (b + page_bytes (n - count), count) \<union> run_pages (b, n - count)"
    "run_pages (b + page_bytes (n - count), count) \<inter> run_pages (b, n - count) = {}"
    using al e u by (auto simp: set_eq_iff algebra_simps)
qed

lemma first_fit_Some:
  assumes "first_fit count bs = Some (r, zs)" "runs_ok bs" "0 < count"
  shows "run_ok (r, count) \<and> free_pages bs = run_pages (r, count) \<union> free_pages zs
    \<and> run_pages (r, count) \<inter> free_pages zs = {} \<and> run_total bs = unat count + run_total zs"
  using assms
proof (induction count bs arbitrary: zs rule: first_fit.induct)
  case (2 count b n bs)
  consider "n = count" | "count < n" | "n < count" by (meson linorder_less_linear)
  then show ?case
  proof cases
    case 1
    with 2 show ?thesis
      using free_pages_disjoint [of "(b, n)" bs] by auto
  next
    case lt: 2
    have "run_ok (b, n)" using 2 by simp
    note sp = split_run [OF this \<open>0 < count\<close> lt]
    have "run_pages (b, n) \<inter> free_pages bs = {}"
      using 2 free_pages_disjoint [of "(b, n)" bs] by auto
    moreover have "r = b + page_bytes (n - count)" "zs = (b, n - count) # bs"
      using "2.prems"(1) lt by (auto split: if_splits)
    ultimately show ?thesis
      using sp by (auto simp del: run_ok.simps run_pages_simp)
  next
    case 3
    then obtain zs' where zs: "first_fit count bs = Some (r, zs')" "zs = (b, n) # zs'"
      using 2 by (auto split: if_splits)
    have "run_pages (b, n) \<inter> free_pages bs = {}"
      using 2 free_pages_disjoint [of "(b, n)" bs] by auto
    moreover have IH: "run_ok (r, count) \<and> free_pages bs = run_pages (r, count) \<union> free_pages zs'
        \<and> run_pages (r, count) \<inter> free_pages zs' = {} \<and> run_total bs = unat count + run_total zs'"
      using 2 3 zs by (intro "2.IH") auto
    ultimately show ?thesis
      using zs(2) by (auto simp del: run_ok.simps run_pages_simp)
  qed
qed simp

lemma first_fit_None: "first_fit count bs = None \<longleftrightarrow> (\<forall>(b, n) \<in> set bs. n < count)"
  by (induction count bs rule: first_fit.induct) (auto simp: not_less)

section \<open>Insertion adds the pages of the freed run\<close>

lemma run_pages_join:
  assumes "run_ok (b, n)" "run_ok (c, k)" "unat b + unat n * 4096 = unat c"
  shows "run_pages (b, n + k) = run_pages (b, n) \<union> run_pages (c, k)"
  using assms run_join(2) [OF assms] by (auto simp: algebra_simps)

lemma insert_run_Some:
  assumes "insert_run base count bs = Some zs" "run_ok (base, count)" "runs_ok bs"
  shows "free_pages zs = free_pages bs \<union> run_pages (base, count)
    \<and> run_total zs = run_total bs + unat count"
  using assms
proof (induction base count bs arbitrary: zs rule: insert_run.induct)
  case (2 base count b n bs)
  have ok: "run_ok (b, n)" "run_ok (base, count)" "runs_ok bs"
    using "2.prems" by simp_all
  consider (ins) "base > b + page_bytes n"
    | (up) "\<not> base > b + page_bytes n" "b + page_bytes n = base"
    | (down) "\<not> base > b + page_bytes n" "b + page_bytes n \<noteq> base" "base + page_bytes count = b"
    | (skip) "\<not> base > b + page_bytes n" "b + page_bytes n \<noteq> base" "base + page_bytes count \<noteq> b"
    by blast
  then show ?case
  proof cases
    case ins
    then show ?thesis using "2.prems"(1) by auto
  next
    case up
    then have e: "unat b + unat n * 4096 = unat base"
      using ok run_end_cmp(2) by blast
    have "zs = (b, n + count) # bs"
      using up "2.prems"(1) by simp
    then show ?thesis
      using run_pages_join [OF ok(1,2) e] run_join(2) [OF ok(1,2) e] by auto
  next
    case down
    then have e: "unat base + unat count * 4096 = unat b"
      using ok run_end_cmp(2) by blast
    note j = run_join [OF ok(2,1) e] run_pages_join [OF ok(2,1) e]
    show ?thesis
    proof (cases "\<exists>c k bs'. bs = (c, k) # bs' \<and> c + page_bytes k = base")
      case True
      then obtain c k bs' where bs: "bs = (c, k) # bs'" "c + page_bytes k = base"
        by blast
      then have c: "run_ok (c, k)"
        using ok(3) by simp
      then have e': "unat c + unat k * 4096 = unat base"
        using bs(2) run_end_cmp(2) by blast
      have "zs = (c, k + (count + n)) # bs'"
        using down bs "2.prems"(1) by (auto simp: add.commute)
      then show ?thesis
        using bs(1) run_pages_join [OF c j(1) e'] run_join(2) [OF c j(1) e'] j(2,3) by auto
    next
      case False
      then have "zs = (base, count + n) # bs"
        using down "2.prems"(1) by (auto split: list.splits if_splits)
      then show ?thesis
        using j(2,3) by auto
    qed
  next
    case skip
    then show ?thesis
      using 2 by auto
  qed
qed simp

lemma insert_run_None:
  assumes "insert_run base count bs = None" "run_ok (base, count)" "runs_ok bs"
    and "\<forall>q \<in> set bs. apart q (base, count)"
  shows "\<forall>q \<in> set bs. above q (base, count)"
    and "bs \<noteq> [] \<Longrightarrow> lastb 0 bs \<noteq> base + page_bytes count"
proof -
  have "(\<forall>q \<in> set bs. above q (base, count)) \<and> (bs \<noteq> [] \<longrightarrow> lastb u bs \<noteq> base + page_bytes count)" for u
    using assms
  proof (induction base count bs arbitrary: u rule: insert_run.induct)
    case (2 base count b n bs)
    then have skip: "\<not> base > b + page_bytes n" "b + page_bytes n \<noteq> base" "base + page_bytes count \<noteq> b"
      by (auto split: if_splits list.splits)
    moreover have "run_ok (b, n)" "run_ok (base, count)" "apart (b, n) (base, count)"
      using "2.prems" by simp_all
    ultimately have "above (b, n) (base, count)"
      using run_end_cmp [of b n base] run_end_cmp(2) [of base count b] by auto
    moreover have "insert_run base count bs = None"
      using skip "2.prems"(1) by (simp split: if_splits)
    ultimately show ?case
      using 2 skip by (cases "bs = []") auto
  qed simp
  then show "\<forall>q \<in> set bs. above q (base, count)"
    and "bs \<noteq> [] \<Longrightarrow> lastb 0 bs \<noteq> base + page_bytes count"
    by blast+
qed

section \<open>The operations on the pool of free pages\<close>

text \<open>Only the kernel's allocator state changed, and of physical memory only headers of \<open>bs\<close>.\<close>

definition phys_step :: "run list \<Rightarrow> kernel \<Rightarrow> kernel \<Rightarrow> bool" where
  "phys_step bs s s' \<longleftrightarrow> phys_only s s' \<and> (\<forall>a. a \<notin> hdr_cells bs \<longrightarrow> phys s' a = phys s a)"

lemma free_list_count [simp]: "free_list (s\<lparr>free_page_count := c\<rparr>) bs = free_list s bs"
  by (simp add: free_list_def)

lemma member_le_total: "(b, n) \<in> set bs \<Longrightarrow> unat n \<le> run_total bs"
  by (induction bs) auto

lemma first_fit_or_none_cases:
  assumes "runs_ok bs" "0 < count"
  shows "(fst (first_fit_or_none count bs) = - 1 \<and> snd (first_fit_or_none count bs) = bs
      \<and> (\<forall>(b, n) \<in> set bs. n < count))
    \<or> (\<exists>r zs. first_fit_or_none count bs = (r, zs) \<and> r \<noteq> - 1 \<and> run_ok (r, count)
      \<and> free_pages bs = run_pages (r, count) \<union> free_pages zs
      \<and> run_pages (r, count) \<inter> free_pages zs = {} \<and> run_total bs = unat count + run_total zs)"
proof (cases "first_fit count bs")
  case None
  then have "first_fit_or_none count bs = (- 1, bs)" "\<forall>(b, n) \<in> set bs. n < count"
    by (simp add: first_fit_or_none_def, simp only: first_fit_None)
  then show ?thesis
    by simp
next
  case (Some x)
  obtain r zs where x: "x = (r, zs)" by (cases x)
  from first_fit_Some [OF Some [unfolded x] assms] show ?thesis
    using Some x page_aligned_minus_1 by (auto simp: first_fit_or_none_def)
qed

lemma alloc_phys_pages_first_fit:
  assumes "phys_inv s bs" "0 < count"
  shows "\<exists>s'. alloc_phys_pages count s = Some (fst (first_fit_or_none count bs), s')
    \<and> phys_inv s' (snd (first_fit_or_none count bs)) \<and> phys_step bs s s'"
proof -
  have fl: "free_list s bs" and tot: "unat (free_page_count s) = run_total bs"
    and ok: "runs_ok bs"
    using assms(1) by (auto simp: phys_inv_def free_list_def)
  note ff = first_fit_or_none_cases [OF ok assms(2)]
  have none: "alloc_phys_pages count s = Some (- 1, s) \<Longrightarrow> first_fit_or_none count bs = (- 1, bs) \<Longrightarrow> ?thesis"
    using assms(1) by (simp add: phys_step_def)
  show ?thesis
  proof (cases "free_page_count s < count")
    case True
    then have "n < count" if "(b, n) \<in> set bs" for b n
      using member_le_total [OF that] tot by (simp add: word_less_nat_alt)
    then have "first_fit_or_none count bs = (- 1, bs)"
      using first_fit_None [of count bs] by (auto simp: first_fit_or_none_def)
    with True none show ?thesis
      by (simp add: alloc_phys_pages_def)
  next
    case enough: False
    show ?thesis
    proof (cases bs)
      case Nil
      with enough fl none show ?thesis
        by (simp add: alloc_phys_pages_def free_list_def first_fit_or_none_def)
    next
      case (Cons r ys)
      obtain b n where r: "r = (b, n)" by (cases r)
      have head: "free_phys_memory_pointer s = b" "b \<noteq> - 1"
        using fl ok Cons r page_aligned_minus_1 by (auto simp: free_list_def)
      obtain s1 where s1: "alloc_phys_loop count b s = Some (fst (first_fit_or_none count bs), s1)"
        "free_list s1 (snd (first_fit_or_none count bs))" "only_hdrs bs s s1"
        using alloc_phys_loop_first_fit [of s "[]" b n ys count] fl Cons r by auto
      then have cnt: "free_page_count s1 = free_page_count s"
        by (simp add: only_hdrs_def)
      show ?thesis
        using ff
      proof
        assume "fst (first_fit_or_none count bs) = - 1 \<and> snd (first_fit_or_none count bs) = bs
          \<and> (\<forall>(b, n) \<in> set bs. n < count)"
        then show ?thesis
          using enough head s1 cnt tot
          by (auto simp: alloc_phys_pages_def phys_inv_def phys_step_def only_hdrs_def)
      next
        assume "\<exists>r zs. first_fit_or_none count bs = (r, zs) \<and> r \<noteq> - 1 \<and> run_ok (r, count)
          \<and> free_pages bs = run_pages (r, count) \<union> free_pages zs
          \<and> run_pages (r, count) \<inter> free_pages zs = {} \<and> run_total bs = unat count + run_total zs"
        then obtain a zs where a: "first_fit_or_none count bs = (a, zs)" "a \<noteq> - 1"
          "run_total bs = unat count + run_total zs"
          by blast
        have "unat (free_page_count s - count) = run_total zs"
          using enough a(3) tot by (subst unat_diff_nowrap) auto
        then show ?thesis
          using enough head s1 cnt a
          by (auto simp: alloc_phys_pages_def phys_inv_def phys_step_def only_hdrs_def)
      qed
    qed
  qed
qed

text \<open>Where a run may be freed without being lost: next to a free run or above one.\<close>

definition placeable :: "u32 \<Rightarrow> u32 \<Rightarrow> run list \<Rightarrow> bool" where
  "placeable base count bs \<longleftrightarrow> bs = []
     \<or> (\<exists>(b, n) \<in> set bs. unat b + unat n * 4096 \<le> unat base)
     \<or> (2 \<le> length bs \<and> lastb 0 bs = base + page_bytes count)"

lemma free_first_block_correct:
  assumes "free_list s []" "run_ok (base, count)"
  shows "free_list (free_first_block base count s) [(base, count)]
    \<and> only_hdrs [(base, count)] s (free_first_block base count s)"
  using assms
  by (simp add: free_first_block_def Let_def free_list_def circ_Cons only_hdrs_def hdr_cells_simps)

lemma phys_step_count [simp]: "phys_step bs s (s'\<lparr>free_page_count := c\<rparr>) \<longleftrightarrow> phys_step bs s s'"
  by (simp add: phys_step_def)

lemma only_hdrs_step: "only_hdrs bs s s' \<Longrightarrow> phys_step bs s s'"
  by (simp add: only_hdrs_def phys_step_def)

lemma free_phys_pages_insert:
  assumes inv: "free_list s bs" and run: "run_ok (base, count)"
    and apart: "\<forall>q \<in> set bs. apart q (base, count)"
    and not_below_single: "\<And>b n. bs = [(b, n)] \<Longrightarrow> base + page_bytes count \<noteq> b"
  shows "\<exists>s'. free_phys_pages base count s = Some (s'\<lparr>free_page_count := free_page_count s + count\<rparr>)
    \<and> free_list s' (if bs = [] then [(base, count)] else insert_or_same base count bs)
    \<and> only_hdrs ((base, count) # bs) s s'"
proof (cases bs)
  case Nil
  then have "free_phys_memory_pointer s = - 1"
    using inv by (simp add: free_list_def)
  then show ?thesis
    using free_first_block_correct [of s base count] inv run Nil
    by (auto simp: free_phys_pages_def only_hdrs_def)
next
  case (Cons r ys)
  obtain b n where r: "r = (b, n)" by (cases r)
  have "free_phys_memory_pointer s = b" "page_aligned b"
    using inv Cons r by (auto simp: free_list_def)
  moreover from this have "b \<noteq> - 1"
    using page_aligned_minus_1 by blast
  moreover have "walk_at (base, count) [] ((b, n) # ys)"
    using inv run apart Cons r by (auto simp: walk_at_def free_list_def)
  then have "\<exists>s'. free_phys_loop base count b s = Some s'
      \<and> free_list s' (insert_or_same base count bs) \<and> only_hdrs ((base, count) # bs) s s'"
    using free_phys_loop_insert [of s "[]" b n ys base count] inv Cons r not_below_single by auto
  ultimately show ?thesis
    using Cons by (auto simp: free_phys_pages_def only_hdrs_def)
qed

lemma insert_or_same_pages:
  assumes "runs_ok bs" "run_ok (base, count)" "\<forall>q \<in> set bs. apart q (base, count)"
    and "placeable base count bs" "bs \<noteq> []"
  shows "free_pages (insert_or_same base count bs) = free_pages bs \<union> run_pages (base, count)"
    and "run_total (insert_or_same base count bs) = run_total bs + unat count"
proof -
  have "insert_run base count bs \<noteq> None"
  proof
    assume none: "insert_run base count bs = None"
    note n = insert_run_None [OF none assms(2,1,3)]
    from n(1) have "\<not> (\<exists>(b, n) \<in> set bs. unat b + unat n * 4096 \<le> unat base)"
      by fastforce
    with n(2) assms(4,5) show False
      by (auto simp: placeable_def)
  qed
  then obtain zs where "insert_run base count bs = Some zs" by blast
  with insert_run_Some [OF this assms(2,1)]
  show "free_pages (insert_or_same base count bs) = free_pages bs \<union> run_pages (base, count)"
    and "run_total (insert_or_same base count bs) = run_total bs + unat count"
    by (simp_all add: insert_or_same_def)
qed

lemma free_phys_pages_adds:
  assumes inv: "phys_inv s bs" and run: "run_ok (base, count)"
    and apart: "\<forall>q \<in> set bs. apart q (base, count)" and place: "placeable base count bs"
  shows "\<exists>s' bs'. free_phys_pages base count s = Some s' \<and> phys_inv s' bs'
    \<and> free_pages bs' = free_pages bs \<union> run_pages (base, count)
    \<and> phys_step ((base, count) # bs) s s'"
proof -
  have fl: "free_list s bs" and tot: "unat (free_page_count s) = run_total bs" and ok: "runs_ok bs"
    using inv by (auto simp: phys_inv_def free_list_def)
  define bs' where "bs' = (if bs = [] then [(base, count)] else insert_or_same base count bs)"
  have single: "base + page_bytes count \<noteq> b" if bs: "bs = [(b, n)]" for b n
  proof
    assume eq: "base + page_bytes count = b"
    then have "unat base + unat count * 4096 = unat b"
      using run run_end_cmp(2) by blast
    then show False
      using place run ok bs by (auto simp: placeable_def word_less_nat_alt)
  qed
  obtain s' where s': "free_phys_pages base count s = Some (s'\<lparr>free_page_count := free_page_count s + count\<rparr>)"
    "free_list s' bs'" "only_hdrs ((base, count) # bs) s s'"
    using free_phys_pages_insert [OF fl run apart, folded bs'_def] single by blast
  have pages: "free_pages bs' = free_pages bs \<union> run_pages (base, count)"
    "run_total bs' = run_total bs + unat count"
    using insert_or_same_pages [OF ok run apart place] by (auto simp: bs'_def simp del: run_pages_simp)
  have "runs_ok bs'"
    using s'(2) by (simp add: free_list_def)
  then have "run_total bs' * 4096 < 2 ^ 32"
    by (rule run_total_less)
  then have "unat (free_page_count s + count) = run_total bs'"
    using pages(2) tot by (subst unat_add_nowrap) auto
  then have "phys_inv (s'\<lparr>free_page_count := free_page_count s + count\<rparr>) bs'"
    using s'(2) by (simp add: phys_inv_def)
  then show ?thesis
    using s'(1) pages(1) only_hdrs_step [OF s'(3)] phys_step_count by blast
qed

section \<open>The allocator as an instance of the contract\<close>

definition pool :: "kernel \<Rightarrow> nat set \<Rightarrow> bool" where
  "pool s F \<longleftrightarrow> (\<exists>bs. phys_inv s bs \<and> free_pages bs = F)"

lemma alloc_phys_pages_cases:
  assumes "phys_inv s bs" "0 < count"
  obtains (none) s' where "alloc_phys_pages count s = Some (- 1, s')" "phys_inv s' bs"
      "phys_step bs s s'" "\<forall>(b, n) \<in> set bs. n < count"
    | (run) r s' bs' where "alloc_phys_pages count s = Some (r, s')" "r \<noteq> - 1" "phys_inv s' bs'"
      "phys_step bs s s'" "run_ok (r, count)" "run_pages (r, count) \<subseteq> free_pages bs"
      "free_pages bs' = free_pages bs - run_pages (r, count)"
proof -
  have "runs_ok bs"
    using assms(1) by (simp add: phys_inv_def free_list_def)
  from first_fit_or_none_cases [OF this assms(2)] alloc_phys_pages_first_fit [OF assms]
  show thesis
  proof (elim disjE exE conjE, goal_cases)
    case (1 s')
    then show ?case using none [of s'] by simp
  next
    case (2 s' r zs)
    then have "alloc_phys_pages count s = Some (r, s')" "phys_inv s' zs"
      by simp_all
    moreover have "run_pages (r, count) \<subseteq> free_pages bs"
      "free_pages zs = free_pages bs - run_pages (r, count)"
      using 2 by blast+
    ultimately show ?case
      using 2 run [of r s' zs] by metis
  qed
qed

interpretation phys_pool: allocator alloc_phys_pages "- 1" run_pages "\<lambda>n. 0 < n" "\<lambda>_. pool"
proof
  fix s F n
  assume "pool s F" and n: "(0 :: u32) < n"
  then obtain bs where bs: "phys_inv s bs" "free_pages bs = F"
    by (auto simp: pool_def)
  from bs(1) n show "(\<exists>s'. alloc_phys_pages n s = Some (- 1, s') \<and> pool s' F)
    \<or> (\<exists>r s'. alloc_phys_pages n s = Some (r, s') \<and> r \<noteq> - 1 \<and> run_pages (r, n) \<subseteq> F
         \<and> pool s' (F - run_pages (r, n)))"
    by (rule alloc_phys_pages_cases)
      (use bs(2) in \<open>auto simp: pool_def simp del: run_ok.simps run_pages_simp\<close>)
qed

lemma insert_run_above:
  assumes "runs_ok bs" "run_ok (base, count)" "\<forall>q \<in> set bs. above q (base, count)"
    and "\<And>q. q \<in> set bs \<Longrightarrow> base + page_bytes count \<noteq> fst q"
  shows "insert_run base count bs = None"
  using assms
proof (induction base count bs rule: insert_run.induct)
  case (2 base count b n bs)
  then have "run_ok (b, n)" "above (b, n) (base, count)"
    by simp_all
  then have "\<not> base > b + page_bytes n" "b + page_bytes n \<noteq> base"
    using run_end_cmp [of b n base] by auto
  then show ?case
    using 2 by fastforce
qed simp

lemma low_run_lost:
  assumes "phys_inv s bs" "bs \<noteq> []" "run_ok (base, count)" "\<forall>q \<in> set bs. above q (base, count)"
  shows "\<exists>s'. free_phys_pages base count s = Some s' \<and> free_list s' bs
    \<and> free_page_count s' = free_page_count s + count"
proof -
  have ok: "runs_ok bs" and fl: "free_list s bs"
    using assms(1) by (auto simp: phys_inv_def free_list_def)
  have "base + page_bytes count \<noteq> fst q" if "q \<in> set bs" for q
    using assms(3,4) that run_end_cmp(2) [of base count "fst q"] by (cases q) fastforce
  then have none: "insert_run base count bs = None"
    by (intro insert_run_above) (use ok assms(3,4) in auto)
  have "apart q (base, count)" if "q \<in> set bs" for q
    using assms(4) that by (cases q) fastforce
  moreover have "base + page_bytes count \<noteq> b" if "bs = [(b, n)]" for b n
    using \<open>\<And>q. q \<in> set bs \<Longrightarrow> base + page_bytes count \<noteq> fst q\<close> that by auto
  ultimately show ?thesis
    using free_phys_pages_insert [OF fl assms(3)] assms(2) none
    by (auto simp: insert_or_same_def)
qed

section \<open>Properties of the physical allocator\<close>

text \<open>A state with two free runs, of four pages at \<open>0x300000\<close> and of two at \<open>0x200000\<close>.\<close>

definition two_runs :: kernel where
  "two_runs = zero_kernel\<lparr>
     phys := (\<lambda>_. 0)(0x300000 := 0x200000, 0x300004 := 0x200000, 0x300008 := 4,
                     0x200000 := 0x300000, 0x200004 := 0x300000, 0x200008 := 2),
     free_phys_memory_pointer := 0x300000, free_page_count := 6\<rparr>"

lemma two_runs_inv: "phys_inv two_runs [(0x300000, 4), (0x200000, 2)]"
  by (simp add: phys_inv_def free_list_def two_runs_def zero_kernel_def circ_Cons page_aligned_def)

text \<open>
  C1: on a sound free list an allocation returns. It answers \<open>- 1\<close> and keeps the list only when no
  free run is long enough; otherwise it gives a page-aligned run of exactly \<open>count\<close> free pages and
  removes exactly these from the free pages. It writes only to headers of the free runs.
\<close>

theorem alloc_phys_pages_correct:
  assumes "phys_inv s bs" and "0 < count"
  shows "\<exists>r s' bs'. alloc_phys_pages count s = Some (r, s') \<and> phys_inv s' bs' \<and> phys_step bs s s' \<and>
    (if r = - 1 then bs' = bs \<and> (\<forall>(b, n) \<in> set bs. n < count)
     else run_ok (r, count) \<and> run_pages (r, count) \<subseteq> free_pages bs
       \<and> free_pages bs' = free_pages bs - run_pages (r, count))"
  using assms
proof (cases rule: alloc_phys_pages_cases)
  case (none s')
  then show ?thesis by (intro exI [of _ "- 1"] exI [of _ s'] exI [of _ bs]) simp
next
  case (run r s' bs')
  then show ?thesis
    by (intro exI [of _ r] exI [of _ s'] exI [of _ bs']) (simp del: run_ok.simps run_pages_simp)
qed

theorem alloc_phys_pages_correct_witness:
  "\<exists>r s' bs'. alloc_phys_pages 3 two_runs = Some (r, s') \<and> phys_inv s' bs'"
  using alloc_phys_pages_correct [OF two_runs_inv, of 3] by auto

text \<open>
  C27: the walk over the headers in physical memory computes the first fit of the abstract list of
  runs: the answer and the list after it are those of \<open>first_fit\<close>, which takes an exact run whole
  and cuts a longer one at its top.
\<close>

theorem alloc_phys_pages_refines_first_fit:
  assumes "phys_inv s bs" and "0 < count"
  shows "\<exists>s'. alloc_phys_pages count s = Some (fst (first_fit_or_none count bs), s')
    \<and> phys_inv s' (snd (first_fit_or_none count bs))"
  using alloc_phys_pages_first_fit [OF assms] by blast

theorem alloc_phys_pages_refines_first_fit_witness:
  "\<exists>s'. alloc_phys_pages 3 two_runs = Some (0x301000, s')
    \<and> phys_inv s' [(0x300000, 1), (0x200000, 2)]"
  using alloc_phys_pages_refines_first_fit [OF two_runs_inv, of 3]
  by (simp add: first_fit_or_none_def)

text \<open>
  C2: giving back a run apart from every free run adds exactly its pages, when it lies above some
  free run or touches the lowest of several from below: the list stays sound, with the run merged
  into its neighbours, and \<open>free_page_count\<close> stays the number of free pages.
\<close>

theorem free_phys_pages_correct:
  assumes "phys_inv s bs" and "run_ok (base, count)"
    and "\<forall>q \<in> set bs. apart q (base, count)" and "placeable base count bs"
  shows "\<exists>s' bs'. free_phys_pages base count s = Some s' \<and> phys_inv s' bs'
    \<and> free_pages bs' = free_pages bs \<union> run_pages (base, count)
    \<and> phys_step ((base, count) # bs) s s'"
  using assms by (rule free_phys_pages_adds)

theorem free_phys_pages_correct_witness:
  "\<exists>s' bs'. free_phys_pages 0x202000 0x20 two_runs = Some s' \<and> phys_inv s' bs'"
proof -
  have "run_ok (0x202000, 0x20)"
    "\<forall>q \<in> set [(0x300000, 4), (0x200000, 2)]. apart q (0x202000, 0x20)"
    "placeable 0x202000 0x20 [(0x300000, 4), (0x200000, 2)]"
    by (simp_all add: page_aligned_def placeable_def)
  from free_phys_pages_correct [OF two_runs_inv this] show ?thesis by blast
qed

text \<open>
  C28: any sequence of allocations on a sound free list returns, its grants are pairwise disjoint
  runs of pages that were free, and what is left is the free pages without them.
\<close>

theorem alloc_seq_disjoint:
  assumes "phys_inv s bs" and "\<forall>n \<in> set ns. 0 < n"
  shows "\<exists>gs s' bs'. alloc_seq alloc_phys_pages (- 1) ns s = Some (gs, s')
    \<and> sorted_wrt (\<lambda>g h. run_pages g \<inter> run_pages h = {}) gs
    \<and> free_pages gs \<subseteq> free_pages bs
    \<and> phys_inv s' bs' \<and> free_pages bs' = free_pages bs - free_pages gs"
proof -
  have "pool s (free_pages bs)"
    using assms(1) by (auto simp: pool_def)
  from phys_pool.grants_disjoint [OF this assms(2)] show ?thesis
    unfolding phys_pool.granted_def free_pages_def [symmetric] pool_def by blast
qed

theorem alloc_seq_disjoint_witness:
  "\<exists>gs s'. alloc_seq alloc_phys_pages (- 1) [3, 2, 1, 7] two_runs = Some (gs, s')
    \<and> sorted_wrt (\<lambda>g h. run_pages g \<inter> run_pages h = {}) gs"
  using alloc_seq_disjoint [OF two_runs_inv, of "[3, 2, 1, 7]"] by auto

text \<open>
  A run that lies wholly below the lowest free run, with a gap between, is not linked into the
  list when it is given back: the free list stays as it was and \<open>free_page_count\<close> still grows by
  \<open>count\<close>, so that the counter no longer is the number of free pages.
\<close>

theorem free_phys_pages_loses_low_run:
  assumes "phys_inv s bs" and "bs \<noteq> []" and "run_ok (base, count)"
    and "\<forall>q \<in> set bs. above q (base, count)"
  shows "\<exists>s'. free_phys_pages base count s = Some s' \<and> free_list s' bs
    \<and> free_page_count s' = free_page_count s + count"
  using assms low_run_lost by blast

theorem free_phys_pages_loses_low_run_witness:
  "\<exists>s'. free_phys_pages 0x100000 8 two_runs = Some s'
    \<and> free_list s' [(0x300000, 4), (0x200000, 2)] \<and> free_page_count s' = 14"
  using free_phys_pages_loses_low_run [OF two_runs_inv, of "0x100000" 8]
  by (simp add: page_aligned_def two_runs_def)

section \<open>A run given back just below the single free run\<close>

text \<open>
  The headers in memory, without regard to the invariant: a circle of one run, and the circle that
  the code leaves when the run at \<open>base\<close> is joined to the single run at \<open>b\<close> above it. The branch
  reads \<open>next\<close> and \<open>prev\<close> of the old header, which both were its own address, so the new header leads
  to the old one, inside the run.
\<close>

definition single_hdr :: "u32 \<Rightarrow> u32 \<Rightarrow> kernel \<Rightarrow> bool" where
  "single_hdr b n s \<longleftrightarrow> free_phys_memory_pointer s = b \<and> phys s b = b \<and> phys s (b + 4) = b \<and> phys s (b + 8) = n"

definition damaged :: "u32 \<Rightarrow> u32 \<Rightarrow> u32 \<Rightarrow> u32 \<Rightarrow> kernel \<Rightarrow> bool" where
  "damaged base b k n s \<longleftrightarrow> free_phys_memory_pointer s = base \<and> phys s base = b \<and> phys s (base + 4) = b
     \<and> phys s (base + 8) = k \<and> phys s b = base \<and> phys s (b + 4) = base \<and> phys s (b + 8) = n"

lemma free_below_damages:
  assumes "single_hdr b n s" "run_ok (b, n)" "run_ok (base, count)" "base + page_bytes count = b"
  obtains s' where "free_phys_pages base count s = Some s'" "damaged base b (n + count) n s'"
    "free_page_count s' = free_page_count s + count"
proof -
  have al: "page_aligned b" "page_aligned base"
    using assms(2,3) by simp_all
  have ub: "unat b = unat base + unat count * 4096" "0 < unat count" "unat (b + page_bytes n) = unat b + unat n * 4096"
    using assms(2-4) unat_block_end [of base count] unat_block_end [of b n] by (auto simp: unat_gt_0)
  then have "base < b" "\<not> b + page_bytes n < base" "b + page_bytes n \<noteq> base" "b \<noteq> base"
    by (auto simp: word_less_nat_alt)
  moreover have "b \<noteq> - 1"
    using al page_aligned_minus_1 by blast
  ultimately show thesis
    using that assms(1,4) al
    by (auto simp: free_phys_pages_def free_phys_loop.simps [of base] free_extend_down_def single_hdr_def damaged_def Let_def window_read)
qed

lemma damaged_alloc:
  assumes "damaged base b k n s" "page_aligned base" "page_aligned b" "base \<noteq> b" "m \<le> free_page_count s"
  shows "m < k \<Longrightarrow> base + page_bytes (k - m) \<noteq> - 1 \<Longrightarrow> \<exists>s'. alloc_phys_pages m s = Some (base + page_bytes (k - m), s')
      \<and> damaged base b (k - m) n s' \<and> free_page_count s' = free_page_count s - m"
    and "m = k \<Longrightarrow> \<exists>s'. alloc_phys_pages m s = Some (base, s') \<and> single_hdr b n s' \<and> free_page_count s' = free_page_count s - m"
proof -
  have "base \<noteq> - 1"
    using assms(2) page_aligned_minus_1 by blast
  note n = this assms
  have size_set: "pmb_size (set_pmb_size v t) = v" for v t
    by (simp add: temp_read_def temp_write_def temp_frame_def)
  show "m < k \<Longrightarrow> base + page_bytes (k - m) \<noteq> - 1 \<Longrightarrow> \<exists>s'. alloc_phys_pages m s = Some (base + page_bytes (k - m), s')
      \<and> damaged base b (k - m) n s' \<and> free_page_count s' = free_page_count s - m"
    using n size_set [of _ "temp_map_page base s"]
    by (auto simp: alloc_phys_pages_def alloc_phys_loop.simps [of m] damaged_def Let_def window_read not_less)
  let ?t = "alloc_take_block base (temp_map_page base s)"
  have "single_hdr b n ?t \<and> free_page_count ?t = free_page_count s"
    using assms(1-4) by (simp add: alloc_take_block_def damaged_def single_hdr_def Let_def window_read)
  moreover have "alloc_phys_loop k base s = Some (base, ?t)"
    using assms(1,2) by (subst alloc_phys_loop.simps) (simp add: damaged_def Let_def window_read)
  ultimately show "m = k \<Longrightarrow> \<exists>s'. alloc_phys_pages m s = Some (base, s') \<and> single_hdr b n s' \<and> free_page_count s' = free_page_count s - m"
    using n by (auto simp: alloc_phys_pages_def damaged_def single_hdr_def not_less)
qed

lemma damaged_not_free_list:
  assumes "damaged base b k n s" "base < b"
  shows "\<not> free_list s bs"
proof
  assume l: "free_list s bs"
  have "base \<noteq> - 1"
    using assms(2) word_order.extremum_strict by blast
  then obtain k' ys where bs: "bs = (base, k') # ys"
    using l assms(1) by (cases "(bs, - 1 :: u32)" rule: hdb.cases) (auto simp: free_list_def damaged_def)
  then have "hdb ys base = b"
    using free_list_head(6) [of s "[]" base k' ys] l assms(1) by (simp add: damaged_def)
  then obtain n' zs where "ys = (b, n') # zs"
    using assms(2) by (cases "(ys, base)" rule: hdb.cases) auto
  then show False
    using l assms(2) by (simp add: bs free_list_def word_less_nat_alt)
qed

text \<open>
  C40: let the free list be the single run of \<open>n\<close> pages at \<open>b\<close>, and let the \<open>count\<close> pages just below it
  be given back. The call returns, but what it leaves is no free list of any runs; and when the \<open>n\<close>
  pages and the \<open>count\<close> pages are allocated, the latter given back and \<open>min n count\<close> pages allocated,
  the last call grants pages that were granted by the first one and are still in use.
\<close>

theorem free_below_single_run_double_grant:
  assumes "phys_inv s [(b, n)]" and "run_ok (base, count)" and "base + page_bytes count = b"
  shows "\<exists>s1 s2 s3 s4 s5 c. free_phys_pages base count s = Some s1 \<and> (\<forall>bs. \<not> free_list s1 bs)
    \<and> alloc_phys_pages n s1 = Some (b, s2) \<and> alloc_phys_pages count s2 = Some (base, s3)
    \<and> free_phys_pages base count s3 = Some s4 \<and> alloc_phys_pages (min n count) s4 = Some (c, s5)
    \<and> run_pages (c, min n count) \<noteq> {} \<and> run_pages (c, min n count) \<subseteq> run_pages (b, n)"
proof -
  have ok: "run_ok (b, n)" "run_ok (base, count)" and one: "single_hdr b n s" and c0: "free_page_count s = n"
    using assms(1,2) free_list_head(5-8) [of s "[]" b n "[]"]
    by (simp_all add: phys_inv_def free_list_def single_hdr_def word_unat_eq_iff)
  have al: "page_aligned b" "page_aligned base"
    using ok by simp_all
  have ub: "unat b = unat base + unat count * 4096" "0 < unat count" "0 < unat n" "unat b + unat n * 4096 < 2 ^ 32"
    using ok assms(3) unat_block_end [of base count] by (auto simp: unat_gt_0)
  then have sum: "unat (n + count) = unat n + unat count"
    by (intro unat_add_nowrap) simp
  then have less: "n < n + count" "base < b" "min n count < n + count" "count \<le> n + count" "n \<le> n + count" "base \<noteq> b"
    using ub by (auto simp: word_less_nat_alt word_le_nat_alt)
  obtain s1 where s1: "free_phys_pages base count s = Some s1" "damaged base b (n + count) n s1" "free_page_count s1 = n + count"
    by (rule free_below_damages [OF one ok assms(3)]) (use c0 in simp)
  have "b \<noteq> - 1"
    using al page_aligned_minus_1 by blast
  then obtain s2 where s2: "alloc_phys_pages n s1 = Some (b, s2)" "damaged base b count n s2" "free_page_count s2 = count"
    using damaged_alloc(1) [OF s1(2) al(2,1) less(6), of n] less s1(3) assms(3) by auto
  obtain s3 where s3: "alloc_phys_pages count s2 = Some (base, s3)" "single_hdr b n s3" "free_page_count s3 = 0"
    using damaged_alloc(2) [OF s2(2) al(2,1) less(6), of count] s2(3) by auto
  obtain s4 where s4: "free_phys_pages base count s3 = Some s4" "damaged base b (n + count) n s4" "free_page_count s4 = count"
    by (rule free_below_damages [OF s3(2) ok assms(3)]) (use s3 in simp)
  let ?c = "base + page_bytes (n + count - min n count)"
  have d: "unat (n + count - min n count) = unat n + unat count - min (unat n) (unat count)"
    using less(3) sum by (subst unat_sub) (auto simp: word_less_nat_alt min_def word_le_nat_alt)
  have "unat ?c = unat base + (unat n + unat count - min (unat n) (unat count)) * 4096"
    using ub d by (subst unat_block_end) auto
  moreover have "4096 dvd unat base"
    using al(2) by (simp add: page_aligned_dvd)
  ultimately have c: "page_aligned ?c" "unat ?c div 4096 = unat base div 4096 + (unat n + unat count - min (unat n) (unat count))"
    by (simp_all add: page_aligned_dvd)
  then have "?c \<noteq> - 1"
    using page_aligned_minus_1 by metis
  then obtain s5 where s5: "alloc_phys_pages (min n count) s4 = Some (?c, s5)"
    using damaged_alloc(1) [OF s4(2) al(2,1) less(6), of "min n count"] less(3) s4(3) by auto
  have m: "unat (min n count) = min (unat n) (unat count)"
    by (auto simp: min_def word_le_nat_alt)
  have "unat b div 4096 = unat base div 4096 + unat count"
    using ub(1) by simp
  then have "run_pages (?c, min n count) \<noteq> {}" "run_pages (?c, min n count) \<subseteq> run_pages (b, n)"
    using ub(2,3) by (auto simp: run_pages_def c(2) m)
  then show ?thesis
    using s1(1) damaged_not_free_list [OF s1(2) less(2)] s2(1) s3(1) s4(1) s5 by blast
qed

text \<open>The single run of 4 pages at 3 MB and the two pages below it: the third grant takes pages of the first.\<close>

definition one_run :: kernel where
  "one_run = zero_kernel\<lparr>phys := (\<lambda>_. 0)(0x300000 := 0x300000, 0x300004 := 0x300000, 0x300008 := 4),
     free_phys_memory_pointer := 0x300000, free_page_count := 4\<rparr>"

theorem free_below_single_run_double_grant_witness:
  "\<exists>s1 s2 s3 s4 s5 c. free_phys_pages 0x2FE000 2 one_run = Some s1 \<and> (\<forall>bs. \<not> free_list s1 bs)
    \<and> alloc_phys_pages 4 s1 = Some (0x300000, s2) \<and> alloc_phys_pages 2 s2 = Some (0x2FE000, s3)
    \<and> free_phys_pages 0x2FE000 2 s3 = Some s4 \<and> alloc_phys_pages 2 s4 = Some (c, s5)
    \<and> run_pages (c, 2) \<noteq> {} \<and> run_pages (c, 2) \<subseteq> {0x300 ..< 0x304}"
proof -
  have "phys_inv one_run [(0x300000, 4)]"
    by (simp add: phys_inv_def free_list_def one_run_def circ_Cons page_aligned_def)
  from free_below_single_run_double_grant [OF this, of "0x2FE000" 2] show ?thesis
    by (simp add: page_aligned_def run_pages_def [of "(0x300000, 4)"])
qed

end
