(* ===== verification/Paging.thy ===== *)
theory Paging
  imports PhysAlloc
begin

text \<open>
  The page tables of \<open>memory_manager.c\<close>: \<open>get_physaddr\<close>, \<open>map_pages\<close> and \<open>unmap_pages\<close>, over the
  cells of physical memory seen through the window. \<open>pte\<close> is the walk of the MMU: it reads the
  directory and the table that the directory names. The locale \<open>page_edit\<close> is the contract of one
  step of the loops over a range of pages, from which the effect of the whole loop follows; the
  steps of \<open>map_pages\<close> and \<open>unmap_pages\<close> are its instances.
\<close>

section \<open>The operations\<close>

text \<open>\<open>(size_t)vaddr >> 22\<close> and \<open>(size_t)vaddr >> 12 & 0x3ff\<close>\<close>

definition pd_index :: "u32 \<Rightarrow> u32" where "pd_index vaddr = drop_bit 22 vaddr"
definition pt_index :: "u32 \<Rightarrow> u32" where "pt_index vaddr = drop_bit 12 vaddr AND 0x3FF"

definition get_physaddr :: "u32 \<Rightarrow> kernel \<Rightarrow> u32 \<times> kernel" where
  "get_physaddr vaddr s =
     (let cur_page_dir = page_dir (cur_space s);
          s = temp_map_page cur_page_dir s;
          page_table = temp_read (4 * pd_index vaddr) s;
          s = temp_map_page page_table s
      in ((temp_read (4 * pt_index vaddr) s AND NOT 0xFFF) + (vaddr AND 0xFFF), s))"

text \<open>The part of the loop body of \<open>map_pages\<close> that finds or makes the page table.\<close>

definition map_ensure_table :: "u32 \<Rightarrow> u32 \<Rightarrow> kernel \<Rightarrow> (bool \<times> kernel) option" where
  "map_ensure_table cur_page_dir vaddr s =
     (let s = temp_map_page cur_page_dir s;
          page_table = temp_read (4 * pd_index vaddr) s
      in if page_table AND PAGE_PRESENT = 0 then
           do {
             (addr, s) \<leftarrow> alloc_phys_pages 1 s;
             if addr \<noteq> - 1 then
               let s = temp_map_page cur_page_dir s
               in Some (True, temp_write (4 * pd_index vaddr)
                    (addr OR PAGE_PRESENT OR PAGE_WRITABLE OR PAGE_USER) s)
             else Some (False, s)
           }
         else Some (True, s))"

definition map_set_entry :: "u32 \<Rightarrow> u32 \<Rightarrow> u32 \<Rightarrow> kernel \<Rightarrow> kernel" where
  "map_set_entry vaddr paddr flags s =
     (let s = temp_map_page (temp_read (4 * pd_index vaddr) s) s
      in temp_write (4 * pt_index vaddr) ((paddr AND NOT PAGE_OFFSET_MASK) OR flags) s)"

definition map_page :: "u32 \<Rightarrow> u32 \<Rightarrow> u32 \<times> u32 \<Rightarrow> kernel \<Rightarrow> (bool \<times> kernel) option" where
  "map_page cur_page_dir flags = (\<lambda>(vaddr, paddr) s.
     do {
       (ok, s) \<leftarrow> map_ensure_table cur_page_dir vaddr s;
       Some (if ok then (True, map_set_entry vaddr paddr flags s) else (False, s))
     })"

definition unmap_page :: "u32 \<Rightarrow> u32 \<Rightarrow> kernel \<Rightarrow> (bool \<times> kernel) option" where
  "unmap_page cur_page_dir vaddr s =
     (let s = temp_map_page cur_page_dir s;
          page_table = temp_read (4 * pd_index vaddr) s
      in if page_table AND PAGE_PRESENT = 0 then Some (False, s)
         else
           let s = temp_map_page (temp_read (4 * pd_index vaddr) s) s
           in Some (True, temp_write (4 * pt_index vaddr) 0 s))"

text \<open>The loop \<open>for (; count; count--)\<close> of both functions, left with \<open>false\<close> when a step refuses.\<close>

fun page_loop :: "('a \<Rightarrow> 's \<Rightarrow> (bool \<times> 's) option) \<Rightarrow> ('a \<Rightarrow> 'a) \<Rightarrow> nat \<Rightarrow> 'a \<Rightarrow> 's \<Rightarrow> (bool \<times> 's) option" where
  "page_loop step advance 0 a s = Some (True, s)"
| "page_loop step advance (Suc count) a s =
     do {
       (ok, s) \<leftarrow> step a s;
       if ok then page_loop step advance count (advance a) s else Some (False, s)
     }"

definition next_pages :: "u32 \<times> u32 \<Rightarrow> u32 \<times> u32" where
  "next_pages = (\<lambda>(vaddr, paddr). (vaddr + PAGE_SIZE, paddr + PAGE_SIZE))"

definition map_pages :: "u32 \<Rightarrow> u32 \<Rightarrow> u32 \<Rightarrow> u32 \<Rightarrow> kernel \<Rightarrow> (bool \<times> kernel) option" where
  "map_pages vaddr paddr count flags s =
     (let cur_page_dir = page_dir (cur_space s)
      in page_loop (map_page cur_page_dir flags) next_pages (unat count) (vaddr, paddr) s)"

definition unmap_pages :: "u32 \<Rightarrow> u32 \<Rightarrow> kernel \<Rightarrow> (bool \<times> kernel) option" where
  "unmap_pages vaddr count s =
     (let cur_page_dir = page_dir (cur_space s)
      in page_loop (unmap_page cur_page_dir) (\<lambda>vaddr. vaddr + PAGE_SIZE) (unat count) vaddr s)"

section \<open>Frames and table cells\<close>

definition frame :: "u32 \<Rightarrow> u32" where "frame e = e AND NOT PAGE_OFFSET_MASK"
definition present :: "u32 \<Rightarrow> bool" where "present e \<longleftrightarrow> e AND PAGE_PRESENT \<noteq> 0"
definition page_no :: "u32 \<Rightarrow> nat" where "page_no a = unat a div 4096"

lemma frame_fold [simp]: "e AND - 4096 = frame e"
  by (simp add: frame_def)

lemma frame_aligned [simp]: "page_aligned (frame e)"
proof -
  have "(e AND NOT m) AND m = 0" for m :: u32
    by (rule bit_word_eqI) (auto simp: bit_simps)
  then show ?thesis
    unfolding page_aligned_def frame_def by blast
qed

lemma frame_of_aligned [simp]: "page_aligned b \<Longrightarrow> frame b = b"
  unfolding frame_def by (rule and_not_aligned)

lemma frame_or:
  assumes "flags AND NOT PAGE_OFFSET_MASK = 0"
  shows "frame (frame e OR flags) = frame e"
proof -
  have "((e AND NOT m) OR f) AND NOT m = (e AND NOT m) OR (f AND NOT m)" for m f :: u32
    by (rule bit_word_eqI) (auto simp: bit_simps)
  from this [of PAGE_OFFSET_MASK flags] show ?thesis
    unfolding frame_def assms by simp
qed

lemma present_or: "flags AND PAGE_PRESENT \<noteq> 0 \<Longrightarrow> present (e OR flags)"
  unfolding present_def by (metis bit_0 bit_or_iff and_one_eq even_iff_mod_2_eq_zero)

lemma temp_frame_of [simp]: "temp_frame (temp_map_page b s) = frame b"
  unfolding frame_def by (rule temp_frame_map)

lemma pd_index_less [simp]: "pd_index va < 1024"
proof -
  have "unat (pd_index va) = unat va div 2 ^ 22"
    unfolding pd_index_def unat_drop_bit_eq by (rule drop_bit_eq_div)
  then show ?thesis
    using less_mult_imp_div_less [of "unat va" 1024 "2 ^ 22"] by (simp add: word_less_nat_alt)
qed

lemma pt_index_less [simp]: "pt_index va < 1024"
proof -
  have "pt_index va \<le> 0x3FF"
    unfolding pt_index_def by (rule word_and_le1)
  then show ?thesis
    by (simp add: word_le_nat_alt word_less_nat_alt)
qed

lemma cell_of_nat: "4 * (i :: u32) = of_nat (4 * unat i)"
  by simp

lemma table_cell_eq:
  assumes "page_aligned b" "page_aligned c" "i < 1024" "j < (1024 :: u32)"
  shows "b + 4 * i = c + 4 * j \<longleftrightarrow> b = c \<and> i = j"
  using assms in_page_inj [OF assms(1,2), of "4 * unat i" "4 * unat j"]
  unfolding cell_of_nat by (simp only: word_less_nat_alt word_unat_eq_iff) auto

lemma page_no_in_page:
  assumes "page_aligned b" "i < 4096"
  shows "page_no (b + of_nat i) = page_no b"
proof -
  obtain k where "unat b = 4096 * k"
    using assms(1) by (auto simp: page_aligned_dvd elim!: dvdE)
  then show ?thesis
    unfolding page_no_def unat_in_page [OF assms] using assms(2) by simp
qed

lemma page_no_cell [simp]: "i < 1024 \<Longrightarrow> page_no (frame e + 4 * i) = page_no (frame e)"
  unfolding cell_of_nat by (rule page_no_in_page) (simp_all add: word_less_nat_alt)

lemma page_no_inj: "page_aligned b \<Longrightarrow> page_aligned c \<Longrightarrow> page_no b = page_no c \<longleftrightarrow> b = c"
  by (auto simp: page_no_def page_aligned_dvd word_unat_eq_iff elim!: dvdE)


section \<open>The walk of the page tables and their invariant\<close>

definition pde :: "u32 \<Rightarrow> kernel \<Rightarrow> u32 \<Rightarrow> u32" where
  "pde dir s i = phys s (frame dir + 4 * i)"

text \<open>The table entry for an address, if its table is present, and the translation it gives.\<close>

definition pte :: "u32 \<Rightarrow> kernel \<Rightarrow> u32 \<Rightarrow> u32 option" where
  "pte dir s va =
     (let e = pde dir s (pd_index va)
      in if present e then Some (phys s (frame e + 4 * pt_index va)) else None)"

lemma pte_eq:
  "pte dir s va = (if present (pde dir s (pd_index va))
     then Some (phys s (frame (pde dir s (pd_index va)) + 4 * pt_index va)) else None)"
  by (simp add: pte_def Let_def)

definition translate :: "u32 \<Rightarrow> kernel \<Rightarrow> u32 \<Rightarrow> u32 option" where
  "translate dir s va =
     (case pte dir s va of
        Some e \<Rightarrow> if present e then Some (frame e + (va AND PAGE_OFFSET_MASK)) else None
      | None \<Rightarrow> None)"

text \<open>What the processor reads at an address that shows physical memory; \<open>None\<close> is a page fault.\<close>

definition virtual_cell :: "u32 \<Rightarrow> kernel \<Rightarrow> u32 option" where
  "virtual_cell va s = map_option (phys s) (translate (cr3 s) s va)"

definition virtual_load8 :: "u32 \<Rightarrow> kernel \<Rightarrow> u8 option" where
  "virtual_load8 va s = map_option (\<lambda>w. ucast (drop_bit (8 * unat (va AND 3)) w)) (virtual_cell (va AND NOT 3) s)"

definition virtual_load16 :: "u32 \<Rightarrow> kernel \<Rightarrow> u16 option" where
  "virtual_load16 va s =
     do { lo \<leftarrow> virtual_load8 va s; hi \<leftarrow> virtual_load8 (va + 1) s; Some (ucast lo OR push_bit 8 (ucast hi)) }"

text \<open>
  The directory and its tables are not among the free pages \<open>F\<close>, and each table serves one entry of
  the directory and is not the directory itself.
\<close>

definition tables_ok :: "u32 \<Rightarrow> kernel \<Rightarrow> nat set \<Rightarrow> bool" where
  "tables_ok dir s F \<longleftrightarrow> page_no (frame dir) \<notin> F
     \<and> (\<forall>i < 1024. present (pde dir s i) \<longrightarrow>
          page_no (frame (pde dir s i)) \<notin> F \<and> frame (pde dir s i) \<noteq> frame dir)
     \<and> (\<forall>i < 1024. \<forall>j < 1024. present (pde dir s i) \<longrightarrow> present (pde dir s j) \<longrightarrow>
          frame (pde dir s i) = frame (pde dir s j) \<longrightarrow> i = j)"

definition paging_inv :: "u32 \<Rightarrow> kernel \<Rightarrow> run list \<Rightarrow> bool" where
  "paging_inv dir s bs \<longleftrightarrow> phys_inv s bs \<and> tables_ok dir s (free_pages bs)"

lemma dseg_cong:
  "(\<And>a. a \<in> hdr_cells bs \<Longrightarrow> ph a = ph' a) \<Longrightarrow> dseg ph u bs d = dseg ph' u bs d"
proof (induction bs arbitrary: u)
  case (Cons r bs)
  obtain b n where r: "r = (b, n)" by (cases r)
  have "b \<in> hdr_cells (r # bs)" "b + 4 \<in> hdr_cells (r # bs)" "b + 8 \<in> hdr_cells (r # bs)"
    "hdr_cells bs \<subseteq> hdr_cells (r # bs)"
    by (auto simp: hdr_cells_def r)
  with Cons show ?case
    by (simp add: r subset_iff)
qed simp

lemma phys_inv_frame:
  assumes "phys_inv s bs" "\<And>a. a \<in> hdr_cells bs \<Longrightarrow> phys s' a = phys s a"
    and "free_page_count s' = free_page_count s"
    and "free_phys_memory_pointer s' = free_phys_memory_pointer s"
  shows "phys_inv s' bs"
  using assms dseg_cong [of bs "phys s'" "phys s"]
  by (auto simp: phys_inv_def free_list_def circ_def)

lemma hdr_cell_free:
  assumes "runs_ok bs" "a \<in> hdr_cells bs"
  shows "page_no a \<in> free_pages bs"
proof -
  obtain b n k where bn: "(b, n) \<in> set bs" and k: "a = b + of_nat k" "k < 4096"
  proof -
    from assms(2) obtain b n where "(b, n) \<in> set bs" "a = b \<or> a = b + 4 \<or> a = b + 8"
      by (auto simp: hdr_cells_def)
    then show thesis
      using that [of b n 0] that [of b n 4] that [of b n 8] by auto
  qed
  have "run_ok (b, n)"
    using assms(1) bn by (auto simp: runs_ok_def)
  then have "page_no a = unat b div 4096" "0 < unat n"
    using page_no_in_page [of b k] k by (auto simp: page_no_def word_less_nat_alt)
  then have "page_no a \<in> run_pages (b, n)"
    by (simp add: run_pages_def del: run_pages_simp)
  then show ?thesis
    using bn by (auto simp: free_pages_def simp del: run_pages_simp)
qed

lemma phys_inv_runs_ok: "phys_inv s bs \<Longrightarrow> runs_ok bs"
  by (simp add: phys_inv_def free_list_def)

text \<open>Physical memory outside the free pages is not touched by an allocation.\<close>

lemma phys_step_not_free:
  "phys_step bs s s' \<Longrightarrow> runs_ok bs \<Longrightarrow> page_no a \<notin> free_pages bs \<Longrightarrow> phys s' a = phys s a"
  using hdr_cell_free by (auto simp: phys_step_def)

text \<open>A cell of a frame that is not free can be written under the invariant of the allocator.\<close>

lemma phys_inv_write:
  assumes "phys_inv s bs" "page_no (frame e) \<notin> free_pages bs" "i < 1024"
  shows "phys_inv (s\<lparr>phys := (phys s)(frame e + 4 * i := v), temp_pte := t\<rparr>) bs"
proof (rule phys_inv_frame [OF assms(1)])
  fix a assume "a \<in> hdr_cells bs"
  then have "a \<noteq> frame e + 4 * i"
    using hdr_cell_free [OF phys_inv_runs_ok [OF assms(1)]] assms(2,3) by fastforce
  then show "phys (s\<lparr>phys := (phys s)(frame e + 4 * i := v), temp_pte := t\<rparr>) a = phys s a"
    by simp
qed simp_all

lemma vpage_eq_iff:
  "drop_bit 12 va = drop_bit 12 vb \<longleftrightarrow> pd_index va = pd_index vb \<and> pt_index va = pt_index (vb :: u32)"
proof -
  have pt: "pt_index x = take_bit 10 (drop_bit 12 x)" for x
    unfolding pt_index_def take_bit_eq_mask by (simp add: mask_eq_exp_minus_1)
  have pd: "pd_index x = drop_bit 10 (drop_bit 12 x)" for x
    unfolding pd_index_def by (simp add: drop_bit_drop_bit)
  have "drop_bit 12 x = push_bit 10 (pd_index x) + pt_index x" for x :: u32
    unfolding pt pd by (simp only: bits_ident)
  then show ?thesis
    unfolding pt pd by metis
qed


lemma phys_only_edit [simp]: "phys_only s (s\<lparr>phys := ph, temp_pte := t\<rparr>)"
  by (cases s) (simp add: phys_only_def)

lemma pte_vpage: "drop_bit 12 vb = drop_bit 12 va \<Longrightarrow> pte dir s vb = pte dir s va"
  by (simp add: pte_eq vpage_eq_iff)

section \<open>One entry of a table, one entry of the directory\<close>

definition set_cell :: "u32 \<Rightarrow> u32 \<Rightarrow> u32 \<Rightarrow> u32 \<Rightarrow> kernel \<Rightarrow> kernel" where
  "set_cell e i v t s = s\<lparr>phys := (phys s)(frame e + 4 * i := v), temp_pte := t\<rparr>"

lemma set_cell_phys:
  "i < 1024 \<Longrightarrow> j < 1024 \<Longrightarrow> phys (set_cell e i v t s) (frame f + 4 * j) =
     (if frame f = frame e \<and> j = i then v else phys s (frame f + 4 * j))"
  using table_cell_eq [of "frame f" "frame e" j i] by (auto simp: set_cell_def)

lemma phys_only_set_cell [simp]: "phys_only s (set_cell e i v t s)"
  by (simp add: set_cell_def)

text \<open>Writing one entry of a table that is present.\<close>

lemma set_entry:
  fixes v t :: u32
  assumes inv: "paging_inv dir s bs" and pr: "present (pde dir s (pd_index va))"
  defines "s' \<equiv> set_cell (pde dir s (pd_index va)) (pt_index va) v t s"
  shows "paging_inv dir s' bs" "pte dir s' va = Some v"
    and "drop_bit 12 vb \<noteq> drop_bit 12 va \<Longrightarrow> pte dir s' vb = pte dir s vb"
    and "i < 1024 \<Longrightarrow> pde dir s' i = pde dir s i"
proof -
  have ph: "phys_inv s bs" and tab: "tables_ok dir s (free_pages bs)"
    using inv by (auto simp: paging_inv_def)
  let ?e = "pde dir s (pd_index va)"
  have e: "page_no (frame ?e) \<notin> free_pages bs" "frame ?e \<noteq> frame dir"
    using tab pr by (auto simp: tables_ok_def)
  show pde: "pde dir s' i = pde dir s i" if "i < 1024" for i
    using e(2) that unfolding s'_def by (simp add: pde_def set_cell_phys)
  have "phys_inv s' bs"
    using phys_inv_write [OF ph e(1)] by (simp add: s'_def set_cell_def)
  moreover have "tables_ok dir s' (free_pages bs)"
    using tab pde by (simp add: tables_ok_def)
  ultimately show "paging_inv dir s' bs"
    by (simp add: paging_inv_def)
  show "pte dir s' va = Some v"
    using pr pde [of "pd_index va"] by (simp add: pte_eq s'_def set_cell_phys)
  have inj: "pd_index vb = pd_index va" if "present (pde dir s (pd_index vb))"
      "frame (pde dir s (pd_index vb)) = frame ?e"
    using tab pr that unfolding tables_ok_def by (meson pd_index_less)
  show "pte dir s' vb = pte dir s vb" if "drop_bit 12 vb \<noteq> drop_bit 12 va"
    using that inj pde [of "pd_index vb"]
    by (auto simp: pte_eq s'_def set_cell_phys vpage_eq_iff)
qed

text \<open>Entering a frame that is not free and not yet a table into the directory.\<close>

lemma add_table:
  fixes t :: u32
  assumes inv: "paging_inv dir s bs" and absent: "\<not> present (pde dir s i)" and i: "i < 1024"
    and r: "page_aligned r" "page_no r \<notin> free_pages bs" "r \<noteq> frame dir"
    and fresh: "\<And>j. j < 1024 \<Longrightarrow> present (pde dir s j) \<Longrightarrow> frame (pde dir s j) \<noteq> r"
    and e: "present e" "frame e = r"
  defines "s' \<equiv> set_cell dir i e t s"
  shows "paging_inv dir s' bs" "pde dir s' i = e"
    and "j < 1024 \<Longrightarrow> j \<noteq> i \<Longrightarrow> pde dir s' j = pde dir s j"
    and "pte dir s vb \<noteq> None \<Longrightarrow> pte dir s' vb = pte dir s vb"
proof -
  have ph: "phys_inv s bs" and tab: "tables_ok dir s (free_pages bs)"
    using inv by (auto simp: paging_inv_def)
  have d: "page_no (frame dir) \<notin> free_pages bs"
    using tab by (simp add: tables_ok_def)
  have pde_i: "pde dir s' i = e" and pde_j: "\<And>j. j < 1024 \<Longrightarrow> j \<noteq> i \<Longrightarrow> pde dir s' j = pde dir s j"
    using i unfolding s'_def by (simp_all add: pde_def set_cell_phys)
  show "pde dir s' i = e" "j < 1024 \<Longrightarrow> j \<noteq> i \<Longrightarrow> pde dir s' j = pde dir s j"
    by (fact pde_i, rule pde_j)
  have "phys_inv s' bs"
    using phys_inv_write [OF ph d i] by (simp add: s'_def set_cell_def)
  moreover have "tables_ok dir s' (free_pages bs)"
    unfolding tables_ok_def
  proof (intro conjI allI impI)
    fix j assume j: "j < 1024" "present (pde dir s' j)"
    show "page_no (frame (pde dir s' j)) \<notin> free_pages bs" "frame (pde dir s' j) \<noteq> frame dir"
      using j r e pde_i pde_j [of j] tab by (cases "j = i"; simp add: tables_ok_def)+
    fix k assume k: "k < 1024" "present (pde dir s' k)" "frame (pde dir s' j) = frame (pde dir s' k)"
    show "j = k"
    proof (cases "j = i \<or> k = i")
      case True
      then show ?thesis
        using fresh [of j] fresh [of k] j k e pde_i pde_j [of j] pde_j [of k] by metis
    next
      case False
      then show ?thesis
        using tab j k pde_j [of j] pde_j [of k] unfolding tables_ok_def by metis
    qed
  qed (rule d)
  ultimately show "paging_inv dir s' bs"
    by (simp add: paging_inv_def)
  assume vb: "pte dir s vb \<noteq> None"
  then have prb: "present (pde dir s (pd_index vb))"
    by (auto simp: pte_eq split: if_splits)
  then have "pd_index vb \<noteq> i" "frame (pde dir s (pd_index vb)) \<noteq> frame dir"
    using absent tab by (auto simp: tables_ok_def)
  then show "pte dir s' vb = pte dir s vb"
    using pde_j [of "pd_index vb"] i by (simp add: pte_eq s'_def set_cell_phys)
qed


section \<open>The steps of the loops\<close>

lemma temp_map_simps [simp]:
  "phys (temp_map_page p s) = phys s"
  "free_page_count (temp_map_page p s) = free_page_count s"
  "free_phys_memory_pointer (temp_map_page p s) = free_phys_memory_pointer s"
  "phys_only s (temp_map_page p s)"
  by (simp_all add: temp_map_page_def phys_only_def)

lemma paging_temp_map [simp]:
  "pde dir (temp_map_page p s) i = pde dir s i"
  "pte dir (temp_map_page p s) va = pte dir s va"
  "paging_inv dir (temp_map_page p s) bs = paging_inv dir s bs"
  by (simp_all add: pde_def pte_eq paging_inv_def phys_inv_def free_list_def tables_ok_def)

lemma temp_map_twice [simp]: "temp_map_page p (temp_map_page q s) = temp_map_page p s"
  by (simp add: temp_map_page_def)

lemma temp_read_map: "temp_read off (temp_map_page p s) = phys s (frame p + off)"
  by (simp add: temp_read_def)

lemma temp_write_set_cell:
  "temp_write (4 * i) v s = set_cell (temp_pte s) i v (temp_pte s) s"
  by (simp add: temp_write_def set_cell_def temp_frame_def)

lemma temp_write_map:
  "temp_write (4 * i) v (temp_map_page p s) = set_cell p i v (temp_pte (temp_map_page p s)) s"
  unfolding temp_write_def by (simp add: set_cell_def) (simp add: temp_map_page_def)

text \<open>An allocation does not touch the tables.\<close>

lemma tables_step:
  assumes "paging_inv dir s bs" "phys_step bs s s'"
  shows "i < 1024 \<Longrightarrow> pde dir s' i = pde dir s i" "pte dir s' va = pte dir s va"
    and "phys_inv s' bs' \<Longrightarrow> free_pages bs' \<subseteq> free_pages bs \<Longrightarrow> paging_inv dir s' bs'"
proof -
  have ph: "runs_ok bs" and tab: "tables_ok dir s (free_pages bs)"
    using assms(1) phys_inv_runs_ok by (auto simp: paging_inv_def)
  note keep = phys_step_not_free [OF assms(2) ph]
  show pde: "pde dir s' i = pde dir s i" if "i < 1024" for i
    using tab that keep by (simp add: pde_def tables_ok_def)
  show "pte dir s' va = pte dir s va"
    using tab pde [of "pd_index va"] keep by (simp add: pte_eq tables_ok_def)
  assume "phys_inv s' bs'" "free_pages bs' \<subseteq> free_pages bs"
  then show "paging_inv dir s' bs'"
    using tab pde by (auto simp: paging_inv_def tables_ok_def)
qed

lemma page_no_run: "run_ok (r, n) \<Longrightarrow> page_no r \<in> run_pages (r, n)"
  by (simp add: run_pages_def page_no_def word_less_nat_alt del: run_pages_simp)

lemma ensure_absent:
  assumes inv: "paging_inv dir s bs" and False: "\<not> present (pde dir s (pd_index va))"
  shows "(\<exists>s' bs' r. map_ensure_table dir va s = Some (True, s') \<and> phys_only s s'
      \<and> paging_inv dir s' bs' \<and> free_pages bs' \<subseteq> free_pages bs
      \<and> present (pde dir s' (pd_index va)) \<and> temp_frame s' = frame dir
      \<and> (\<forall>vb. pte dir s vb \<noteq> None \<longrightarrow> pte dir s' vb = pte dir s vb)
      \<and> frame (pde dir s' (pd_index va)) = r \<and> r \<noteq> frame dir \<and> page_no r \<in> free_pages bs
      \<and> (\<forall>a. a \<notin> hdr_cells bs \<longrightarrow> a \<noteq> frame dir + 4 * pd_index va \<longrightarrow> phys s' a = phys s a))
    \<or> (\<exists>s'. map_ensure_table dir va s = Some (False, s') \<and> phys_only s s' \<and> bs = []
      \<and> paging_inv dir s' bs \<and> (\<forall>vb. pte dir s' vb = pte dir s vb))"
proof -
  let ?s0 = "temp_map_page dir s"
  have absent: "map_ensure_table dir va s = do {
      (addr, s) \<leftarrow> alloc_phys_pages 1 ?s0;
      if addr \<noteq> - 1 then
        Some (True, temp_write (4 * pd_index va) (addr OR 1 OR 2 OR 4) (temp_map_page dir s))
      else Some (False, s)}"
    using False unfolding map_ensure_table_def Let_def
    by (simp add: temp_read_map pde_def present_def)
  have inv0: "paging_inv dir ?s0 bs" "phys_inv ?s0 bs"
    using inv by simp_all (simp add: paging_inv_def phys_inv_def free_list_def)
  have one: "(0 :: u32) < 1" by simp
  from inv0(2) one show ?thesis
  proof (cases rule: alloc_phys_pages_cases)
    case (none s')
    have "bs = []"
    proof (rule ccontr)
      assume "bs \<noteq> []"
      then obtain b n where bn: "(b, n) \<in> set bs"
        by (cases bs) auto
      then have "run_ok (b, n)"
        using phys_inv_runs_ok [OF inv0(2)] by (auto simp: runs_ok_def)
      with bn none(4) show False
        by (auto simp: word_less_nat_alt)
    qed
    moreover have "phys_only s s'"
      using none(3) phys_only_trans [of s ?s0 s'] by (simp add: phys_step_def)
    ultimately show ?thesis
      using none tables_step [OF inv0(1) none(3)] absent by auto
  next
    case (run r s1 bs')
    let ?e = "r OR 1 OR 2 OR 4"
    define s' where "s' = set_cell dir (pd_index va) ?e (temp_pte (temp_map_page dir s1)) s1"
    note t = tables_step [OF inv0(1) run(4)]
    have sub: "free_pages bs' \<subseteq> free_pages bs"
      using run(7) by blast
    have inv1: "paging_inv dir s1 bs'"
      using t(3) run(3) sub .
    have r: "page_aligned r" "page_no r \<in> free_pages bs" "page_no r \<notin> free_pages bs'"
      using run(5-7) page_no_run [OF run(5)] by auto
    have tab: "tables_ok dir s (free_pages bs)"
      using inv by (simp add: paging_inv_def)
    have e: "present ?e" "frame ?e = r"
    proof -
      have "frame (frame r OR (1 OR 2 OR 4)) = frame r"
        by (rule frame_or) (simp del: frame_fold)
      then show "frame ?e = r" using r(1) by (simp add: or.assoc)
      show "present ?e" using present_or [of "1 OR 2 OR 4" r] by (simp add: or.assoc)
    qed
    have fresh: "frame (pde dir s1 j) \<noteq> r" if "j < 1024" "present (pde dir s1 j)" for j
      using that tab r(2) t(1) [of j] by (auto simp: tables_ok_def)
    have rd: "r \<noteq> frame dir"
      using tab r(2) by (auto simp: tables_ok_def)
    have "\<not> present (pde dir s1 (pd_index va))"
      using False t(1) by simp
    with rd have res: "paging_inv dir s' bs'" "pde dir s' (pd_index va) = ?e"
      "\<And>vb. pte dir s vb \<noteq> None \<Longrightarrow> pte dir s' vb = pte dir s vb"
      using add_table [OF inv1 _ _ r(1) r(3) _ fresh e] t(2) unfolding s'_def by auto
    have "map_ensure_table dir va s = Some (True, s')"
      using absent run(1,2) by (simp add: s'_def temp_write_map)
    moreover have "phys_only s s'"
      using run(4) phys_only_trans [of s ?s0 s1] phys_only_trans [of s s1 s']
      by (simp add: phys_step_def s'_def)
    moreover have "temp_frame s' = frame dir"
      using temp_frame_of [of dir s1] by (simp add: s'_def temp_frame_def set_cell_def)
    moreover have "phys s' a = phys s a" if "a \<notin> hdr_cells bs" "a \<noteq> frame dir + 4 * pd_index va" for a
      using that run(4) by (simp add: s'_def set_cell_def phys_step_def)
    ultimately show ?thesis
      using res sub e rd r(2) by (intro disjI1 exI [of _ s'] exI [of _ bs'] exI [of _ r]) simp
  qed
qed

lemma ensure_table:
  assumes inv: "paging_inv dir s bs"
  shows "(\<exists>s' bs'. map_ensure_table dir va s = Some (True, s') \<and> phys_only s s'
      \<and> paging_inv dir s' bs' \<and> free_pages bs' \<subseteq> free_pages bs
      \<and> present (pde dir s' (pd_index va)) \<and> temp_frame s' = frame dir
      \<and> (\<forall>vb. pte dir s vb \<noteq> None \<longrightarrow> pte dir s' vb = pte dir s vb))
    \<or> (\<exists>s'. map_ensure_table dir va s = Some (False, s') \<and> phys_only s s' \<and> bs = []
      \<and> paging_inv dir s' bs \<and> (\<forall>vb. pte dir s' vb = pte dir s vb) \<and> pte dir s va = None)"
proof (cases "present (pde dir s (pd_index va))")
  case True
  then show ?thesis
    using inv by (intro disjI1 exI [of _ "temp_map_page dir s"] exI [of _ bs])
      (simp add: map_ensure_table_def temp_read_map pde_def present_def)
next
  case False
  then have "pte dir s va = None"
    by (simp add: pte_eq)
  with ensure_absent [OF inv False] show ?thesis
    by (elim disjE exE conjE) blast+
qed

lemma map_page_step:
  assumes inv: "paging_inv dir s bs"
  shows "(\<exists>s' bs'. map_page dir flags (va, pa) s = Some (True, s') \<and> phys_only s s'
      \<and> paging_inv dir s' bs' \<and> free_pages bs' \<subseteq> free_pages bs
      \<and> pte dir s' va = Some (frame pa OR flags)
      \<and> (\<forall>vb. drop_bit 12 vb \<noteq> drop_bit 12 va \<longrightarrow> pte dir s vb \<noteq> None \<longrightarrow> pte dir s' vb = pte dir s vb))
    \<or> (\<exists>s'. map_page dir flags (va, pa) s = Some (False, s') \<and> phys_only s s' \<and> bs = []
      \<and> paging_inv dir s' bs \<and> (\<forall>vb. pte dir s' vb = pte dir s vb) \<and> pte dir s va = None)"
  using ensure_table [OF inv, of va]
proof (elim disjE exE conjE)
  fix s1 bs'
  assume t: "map_ensure_table dir va s = Some (True, s1)" "phys_only s s1" "paging_inv dir s1 bs'"
    "free_pages bs' \<subseteq> free_pages bs" "present (pde dir s1 (pd_index va))" "temp_frame s1 = frame dir"
    "\<forall>vb. pte dir s vb \<noteq> None \<longrightarrow> pte dir s1 vb = pte dir s vb"
  let ?e = "pde dir s1 (pd_index va)"
  let ?s' = "set_cell ?e (pt_index va) (frame pa OR flags) (temp_pte (temp_map_page ?e s1)) s1"
  have "map_page dir flags (va, pa) s = Some (True, ?s')"
    using t(1,6) by (simp add: map_page_def map_set_entry_def temp_read_def temp_write_map pde_def)
  moreover have "phys_only s ?s'"
    using t(2) phys_only_trans phys_only_set_cell by blast
  moreover note e = set_entry [OF t(3,5), where v = "frame pa OR flags"
      and t = "temp_pte (temp_map_page ?e s1)"]
  have "\<forall>vb. drop_bit 12 vb \<noteq> drop_bit 12 va \<longrightarrow> pte dir s vb \<noteq> None \<longrightarrow> pte dir ?s' vb = pte dir s vb"
    using e(3) t(7) by simp
  ultimately show ?thesis
    using t(4) e(1,2) by blast
qed (auto simp: map_page_def)

lemma unmap_page_step:
  assumes inv: "paging_inv dir s bs"
  shows "\<exists>ok s'. unmap_page dir va s = Some (ok, s') \<and> phys_only s s' \<and> paging_inv dir s' bs
      \<and> (ok \<longleftrightarrow> pte dir s va \<noteq> None)
      \<and> (\<forall>vb. pte dir s' vb = (if ok \<and> drop_bit 12 vb = drop_bit 12 va then Some 0 else pte dir s vb))"
proof (cases "present (pde dir s (pd_index va))")
  case False
  then show ?thesis
    using inv by (intro exI [of _ False] exI [of _ "temp_map_page dir s"])
      (simp add: unmap_page_def temp_read_map pde_def present_def pte_eq)
next
  case True
  let ?e = "pde dir s (pd_index va)"
  let ?s' = "set_cell ?e (pt_index va) 0 (temp_pte (temp_map_page ?e s)) s"
  have "temp_map_page ?e (temp_map_page dir s) = temp_map_page ?e s"
    by (simp add: temp_map_page_def)
  then have "unmap_page dir va s = Some (True, ?s')"
    using True
    by (simp add: unmap_page_def temp_read_map pde_def present_def temp_write_map Let_def)
  moreover note set_entry [OF inv True, where v = 0 and t = "temp_pte (temp_map_page ?e s)"]
  moreover have "pte dir ?s' vb = Some 0" if "drop_bit 12 vb = drop_bit 12 va" for vb
    using pte_vpage [OF that] calculation(3) by simp
  ultimately show ?thesis
    using True by (intro exI [of _ True] exI [of _ ?s']) (auto simp: pte_eq)
qed


section \<open>The loops over a range of pages\<close>

lemma drop_bit_12_unat: "unat (drop_bit 12 (va :: u32)) = unat va div 4096"
  unfolding unat_drop_bit_eq by (simp add: drop_bit_eq_div)

lemma page_no_add:
  assumes "0 < k" "k < 2 ^ 20"
  shows "drop_bit 12 (va + of_nat k * PAGE_SIZE) \<noteq> drop_bit 12 (va :: u32)"
proof
  assume "drop_bit 12 (va + of_nat k * PAGE_SIZE) = drop_bit 12 va"
  then have eq: "unat (va + of_nat k * PAGE_SIZE) div 4096 = unat va div 4096"
    by (metis drop_bit_12_unat)
  have k: "unat (of_nat k * PAGE_SIZE :: u32) = k * 4096"
    using assms(2) by (simp add: unat_word_ariths unat_of_nat)
  have sum: "unat (va + of_nat k * PAGE_SIZE) = (unat va + k * 4096) mod 2 ^ 32"
    unfolding unat_add_mod k ..
  show False
  proof (cases "unat va + k * 4096 < 2 ^ 32")
    case True
    then show ?thesis using eq sum assms(1) by simp
  next
    case False
    moreover have "unat va + k * 4096 - 4294967296 < 4294967296"
    proof -
      have "k * 4096 < 4294967296"
        using assms(2) by simp
      then show ?thesis
        using unat_less_32 [of va] by linarith
    qed
    ultimately have "unat (va + of_nat k * PAGE_SIZE) + 2 ^ 20 * 4096 = unat va + k * 4096"
      using sum by (simp add: le_mod_geq)
    then have "(unat (va + of_nat k * PAGE_SIZE) + 2 ^ 20 * 4096) div 4096 = (unat va + k * 4096) div 4096"
      by (rule arg_cong)
    then have "unat (va + of_nat k * PAGE_SIZE) div 4096 + 2 ^ 20 = unat va div 4096 + k"
      unfolding div_mult_self1 [OF zero_neq_numeral [symmetric]] by simp
    then show ?thesis using eq assms(2) by simp
  qed
qed

locale page_edit =
  fixes step :: "'a \<Rightarrow> 's \<Rightarrow> (bool \<times> 's) option"
    and advance :: "'a \<Rightarrow> 'a"
    and va_of :: "'a \<Rightarrow> u32"
    and inv :: "'s \<Rightarrow> bool"
    and look :: "'s \<Rightarrow> u32 \<Rightarrow> u32 option"
    and entry :: "'a \<Rightarrow> u32"
    and keeps :: "'s \<Rightarrow> 's \<Rightarrow> bool"
    and refuse :: "'a \<Rightarrow> 's \<Rightarrow> 's \<Rightarrow> bool"
  assumes advance_va: "va_of (advance a) = va_of a + PAGE_SIZE"
    and look_page: "drop_bit 12 vb = drop_bit 12 va \<Longrightarrow> look s vb = look s va"
    and keeps_refl: "keeps s s"
    and keeps_trans: "keeps s t \<Longrightarrow> keeps t u \<Longrightarrow> keeps s u"
    and step_returns: "inv s \<Longrightarrow> \<exists>ok s'. step a s = Some (ok, s')"
    and step_inv: "inv s \<Longrightarrow> step a s = Some (ok, s') \<Longrightarrow> inv s' \<and> keeps s s'"
    and step_entry: "inv s \<Longrightarrow> step a s = Some (True, s') \<Longrightarrow> look s' (va_of a) = Some (entry a)"
    and step_other: "inv s \<Longrightarrow> step a s = Some (ok, s') \<Longrightarrow> drop_bit 12 vb \<noteq> drop_bit 12 (va_of a) \<Longrightarrow>
      look s vb \<noteq> None \<Longrightarrow> look s' vb = look s vb"
    and step_refuses: "inv s \<Longrightarrow> step a s = Some (False, s') \<Longrightarrow>
      refuse a s s' \<and> (look s vb \<noteq> None \<longrightarrow> look s' vb = look s vb)"
begin

lemma va_of_advance: "va_of ((advance ^^ i) a) = va_of a + of_nat i * PAGE_SIZE"
  by (induction i) (simp_all add: advance_va algebra_simps)

lemma step_defined:
  assumes "inv s" "step a s = Some (ok, s')" "look s vb \<noteq> None"
  shows "look s' vb \<noteq> None"
proof (cases "ok \<and> drop_bit 12 vb = drop_bit 12 (va_of a)")
  case True
  then show ?thesis
    using step_entry [OF assms(1), of a s'] look_page [of vb "va_of a" s'] assms(2) by simp
next
  case False
  then show ?thesis
    using step_other [OF assms(1,2)] step_refuses [OF assms(1), of a s' vb] assms(2,3)
    by (cases ok) auto
qed

lemma loop_correct:
  assumes "inv s" "n \<le> 2 ^ 20"
  shows "\<exists>ok s'. page_loop step advance n a s = Some (ok, s') \<and> inv s' \<and> keeps s s'
    \<and> (ok \<longrightarrow> (\<forall>i < n. look s' (va_of a + of_nat i * PAGE_SIZE) = Some (entry ((advance ^^ i) a))))
    \<and> (\<forall>vb. (\<forall>i < n. drop_bit 12 vb \<noteq> drop_bit 12 (va_of a + of_nat i * PAGE_SIZE)) \<longrightarrow>
         look s vb \<noteq> None \<longrightarrow> look s' vb = look s vb)
    \<and> (\<not> ok \<longrightarrow> (\<exists>i < n. \<exists>s1. (\<forall>vb. look s vb \<noteq> None \<longrightarrow> look s1 vb \<noteq> None)
         \<and> refuse ((advance ^^ i) a) s1 s'))"
  using assms
proof (induction n arbitrary: a s)
  case 0
  show ?case by (rule exI [of _ True], rule exI [of _ s]) (simp add: keeps_refl 0)
next
  case (Suc n)
  obtain ok s1 where st: "step a s = Some (ok, s1)"
    using step_returns Suc.prems(1) by blast
  note s1 = step_inv [OF Suc.prems(1) st]
  note other = step_other [OF Suc.prems(1) st]
  show ?case
  proof (cases ok)
    case False
    then have st': "step a s = Some (False, s1)"
      using st by simp
    have "refuse ((advance ^^ 0) a) s s1"
      using step_refuses [OF Suc.prems(1) st'] by simp
    then have "\<exists>i < Suc n. \<exists>t. (\<forall>vb. look s vb \<noteq> None \<longrightarrow> look t vb \<noteq> None) \<and> refuse ((advance ^^ i) a) t s1"
      by blast
    with s1 st' show ?thesis
      using step_refuses [OF Suc.prems(1) st'] by auto
  next
    case True
    note e = step_entry [OF Suc.prems(1), of a s1] st True
    obtain ok' s' where l: "page_loop step advance n (advance a) s1 = Some (ok', s')"
        "inv s'" "keeps s1 s'"
        "ok' \<Longrightarrow> \<forall>i < n. look s' (va_of (advance a) + of_nat i * PAGE_SIZE) = Some (entry ((advance ^^ i) (advance a)))"
        "\<And>vb. \<forall>i < n. drop_bit 12 vb \<noteq> drop_bit 12 (va_of (advance a) + of_nat i * PAGE_SIZE) \<Longrightarrow>
          look s1 vb \<noteq> None \<Longrightarrow> look s' vb = look s1 vb"
        "\<not> ok' \<Longrightarrow> \<exists>i < n. \<exists>t. (\<forall>vb. look s1 vb \<noteq> None \<longrightarrow> look t vb \<noteq> None)
          \<and> refuse ((advance ^^ i) (advance a)) t s'"
      using Suc.IH [of s1 "advance a"] s1 Suc.prems(2) by auto
    have shift: "va_of (advance a) + of_nat i * PAGE_SIZE = va_of a + of_nat (Suc i) * PAGE_SIZE" for i
      by (simp add: advance_va algebra_simps)
    have iter: "(advance ^^ i) (advance a) = (advance ^^ Suc i) a" for i
      by (simp add: funpow_swap1)
    have head: "look s' (va_of a) = Some (entry a)"
    proof -
      have "drop_bit 12 (va_of a) \<noteq> drop_bit 12 (va_of (advance a) + of_nat i * PAGE_SIZE)" if "i < n" for i
        using page_no_add [of "Suc i" "va_of a"] that Suc.prems(2) unfolding shift by simp
      then show ?thesis
        using l(5) [of "va_of a"] e by simp
    qed
    have "\<forall>i < Suc n. look s' (va_of a + of_nat i * PAGE_SIZE) = Some (entry ((advance ^^ i) a))" if ok'
    proof (intro allI impI)
      fix i assume "i < Suc n"
      then show "look s' (va_of a + of_nat i * PAGE_SIZE) = Some (entry ((advance ^^ i) a))"
        using head l(4) [OF that] unfolding shift iter by (cases i) auto
    qed
    moreover have "look s' vb = look s vb" if v: "\<forall>i < Suc n. drop_bit 12 vb \<noteq> drop_bit 12 (va_of a + of_nat i * PAGE_SIZE)"
        "look s vb \<noteq> None" for vb
    proof -
      have "drop_bit 12 vb \<noteq> drop_bit 12 (va_of a)"
        using v(1) [rule_format, of 0] by simp
      then have "look s1 vb = look s vb"
        using other v(2) by blast
      moreover have "\<forall>i < n. drop_bit 12 vb \<noteq> drop_bit 12 (va_of (advance a) + of_nat i * PAGE_SIZE)"
        unfolding shift using v(1) by auto
      ultimately show ?thesis
        using l(5) v(2) by metis
    qed
    moreover have "\<exists>i < Suc n. \<exists>t. (\<forall>vb. look s vb \<noteq> None \<longrightarrow> look t vb \<noteq> None)
        \<and> refuse ((advance ^^ i) a) t s'" if "\<not> ok'"
      using l(6) [OF that] step_defined [OF Suc.prems(1) st] unfolding iter by (metis Suc_mono)
    moreover have "page_loop step advance (Suc n) a s = Some (ok', s')"
      using st True l(1) by simp
    moreover have "keeps s s'"
      using keeps_trans s1 l(3) by blast
    ultimately show ?thesis
      using l(2) by (intro exI [of _ ok'] exI [of _ s']) blast
  qed
qed

end


text \<open>What every step of the two loops keeps: only physical memory changes, and free pages only shrink.\<close>

definition paging_keeps :: "u32 \<Rightarrow> kernel \<Rightarrow> kernel \<Rightarrow> bool" where
  "paging_keeps dir s t \<longleftrightarrow> phys_only s t \<and> (\<forall>bs. paging_inv dir s bs \<longrightarrow>
     (\<exists>bs'. paging_inv dir t bs' \<and> free_pages bs' \<subseteq> free_pages bs))"

lemma paging_keeps_refl: "paging_keeps dir s s"
  by (auto simp: paging_keeps_def)

lemma paging_keeps_trans: "paging_keeps dir s t \<Longrightarrow> paging_keeps dir t u \<Longrightarrow> paging_keeps dir s u"
  unfolding paging_keeps_def using phys_only_trans by (meson subset_trans)

lemma paging_keeps_inv:
  "paging_keeps dir s t \<Longrightarrow> paging_inv dir s bs \<Longrightarrow> \<exists>bs. paging_inv dir t bs"
  by (auto simp: paging_keeps_def)

lemma map_page_cases:
  assumes "paging_inv dir s bs"
  obtains (mapped) s' where "map_page dir flags (va, pa) s = Some (True, s')"
      "paging_keeps dir s s'" "pte dir s' va = Some (frame pa OR flags)"
      "\<And>vb. drop_bit 12 vb \<noteq> drop_bit 12 va \<Longrightarrow> pte dir s vb \<noteq> None \<Longrightarrow> pte dir s' vb = pte dir s vb"
    | (full) s' where "map_page dir flags (va, pa) s = Some (False, s')"
      "paging_keeps dir s s'" "pool s' {}" "\<And>vb. pte dir s' vb = pte dir s vb" "pte dir s va = None"
proof -
  have keeps: "paging_keeps dir s s'" if "\<And>bs. paging_inv dir s bs \<Longrightarrow>
    \<exists>bs'. phys_only s s' \<and> paging_inv dir s' bs' \<and> free_pages bs' \<subseteq> free_pages bs" for s'
    using that assms unfolding paging_keeps_def by metis
  from map_page_step [OF assms, of flags va pa] show thesis
  proof (elim disjE exE conjE)
    fix s' bs'
    assume a: "map_page dir flags (va, pa) s = Some (True, s')" "pte dir s' va = Some (frame pa OR flags)"
      "\<forall>vb. drop_bit 12 vb \<noteq> drop_bit 12 va \<longrightarrow> pte dir s vb \<noteq> None \<longrightarrow> pte dir s' vb = pte dir s vb"
    have "paging_keeps dir s s'"
    proof (rule keeps)
      fix cs assume "paging_inv dir s cs"
      from map_page_step [OF this, of flags va pa] a(1)
      show "\<exists>bs'. phys_only s s' \<and> paging_inv dir s' bs' \<and> free_pages bs' \<subseteq> free_pages cs"
        by auto
    qed
    with a show thesis using mapped by blast
  next
    fix s'
    assume a: "map_page dir flags (va, pa) s = Some (False, s')" "bs = []" "paging_inv dir s' bs"
      "\<forall>vb. pte dir s' vb = pte dir s vb" "pte dir s va = None"
    have "paging_keeps dir s s'"
    proof (rule keeps)
      fix cs assume "paging_inv dir s cs"
      from map_page_step [OF this, of flags va pa] a(1)
      show "\<exists>bs'. phys_only s s' \<and> paging_inv dir s' bs' \<and> free_pages bs' \<subseteq> free_pages cs"
        by auto
    qed
    moreover have "pool s' {}"
      using a(2,3) by (auto simp: pool_def paging_inv_def)
    ultimately show thesis using full a by blast
  qed
qed

lemma unmap_page_cases:
  assumes "paging_inv dir s bs"
  obtains ok s' where "unmap_page dir va s = Some (ok, s')" "paging_keeps dir s s'"
    "ok \<longleftrightarrow> pte dir s va \<noteq> None"
    "\<And>vb. pte dir s' vb = (if ok \<and> drop_bit 12 vb = drop_bit 12 va then Some 0 else pte dir s vb)"
proof -
  from unmap_page_step [OF assms, of va] obtain ok s'
    where a: "unmap_page dir va s = Some (ok, s')" "phys_only s s'" "ok \<longleftrightarrow> pte dir s va \<noteq> None"
      "\<forall>vb. pte dir s' vb = (if ok \<and> drop_bit 12 vb = drop_bit 12 va then Some 0 else pte dir s vb)"
    by blast
  have "paging_inv dir s' cs" if "paging_inv dir s cs" for cs
    using unmap_page_step [OF that, of va] a(1) by auto
  then have "paging_keeps dir s s'"
    using a(2) unfolding paging_keeps_def by blast
  with a that show thesis by blast
qed

interpretation mapping: page_edit "map_page dir flags" next_pages fst "\<lambda>s. \<exists>bs. paging_inv dir s bs"
    "pte dir" "\<lambda>a. frame (snd a) OR flags" "paging_keeps dir" "\<lambda>a s s'. pool s' {} \<and> pte dir s (fst a) = None" for dir flags
proof
  fix a :: "u32 \<times> u32" and s s' ok vb
  obtain va pa where a: "a = (va, pa)" by (cases a)
  show "fst (next_pages a) = fst a + PAGE_SIZE"
    by (simp add: a next_pages_def)
  assume "\<exists>bs. paging_inv dir s bs"
  then obtain bs where bs: "paging_inv dir s bs" ..
  note c = map_page_cases [OF bs, where flags = flags and va = va and pa = pa]
  show "\<exists>ok s'. map_page dir flags a s = Some (ok, s')"
    unfolding a by (rule c) blast+
  show "map_page dir flags a s = Some (ok, s') \<Longrightarrow> (\<exists>bs. paging_inv dir s' bs) \<and> paging_keeps dir s s'"
    unfolding a by (rule c) (use bs paging_keeps_inv in auto)
  show "map_page dir flags a s = Some (True, s') \<Longrightarrow> pte dir s' (fst a) = Some (frame (snd a) OR flags)"
    unfolding a by (rule c) auto
  show "map_page dir flags a s = Some (ok, s') \<Longrightarrow> drop_bit 12 vb \<noteq> drop_bit 12 (fst a) \<Longrightarrow>
      pte dir s vb \<noteq> None \<Longrightarrow> pte dir s' vb = pte dir s vb"
    unfolding a by (rule c) auto
  show "map_page dir flags a s = Some (False, s') \<Longrightarrow>
      (pool s' {} \<and> pte dir s (fst a) = None) \<and> (pte dir s vb \<noteq> None \<longrightarrow> pte dir s' vb = pte dir s vb)"
    unfolding a by (rule c) auto
qed (rule pte_vpage paging_keeps_refl paging_keeps_trans; assumption?)+

interpretation unmapping: page_edit "unmap_page dir" "\<lambda>va. va + PAGE_SIZE" "\<lambda>va. va"
    "\<lambda>s. \<exists>bs. paging_inv dir s bs" "pte dir" "\<lambda>_. 0" "paging_keeps dir"
    "\<lambda>va s s'. pte dir s va = None" for dir
proof
  fix va :: u32 and s s' ok vb
  assume "\<exists>bs. paging_inv dir s bs"
  then obtain bs where bs: "paging_inv dir s bs" ..
  note c = unmap_page_cases [OF bs, where va = va]
  show "\<exists>ok s'. unmap_page dir va s = Some (ok, s')"
    by (rule c) blast
  show "unmap_page dir va s = Some (ok, s') \<Longrightarrow> (\<exists>bs. paging_inv dir s' bs) \<and> paging_keeps dir s s'"
    by (rule c) (use bs paging_keeps_inv in auto)
  show "unmap_page dir va s = Some (True, s') \<Longrightarrow> pte dir s' va = Some 0"
    by (rule c) auto
  show "unmap_page dir va s = Some (ok, s') \<Longrightarrow> drop_bit 12 vb \<noteq> drop_bit 12 va \<Longrightarrow>
      pte dir s vb \<noteq> None \<Longrightarrow> pte dir s' vb = pte dir s vb"
    by (rule c) auto
  show "unmap_page dir va s = Some (False, s') \<Longrightarrow>
      pte dir s va = None \<and> (pte dir s vb \<noteq> None \<longrightarrow> pte dir s' vb = pte dir s vb)"
    by (rule c) auto
qed (rule refl pte_vpage paging_keeps_refl paging_keeps_trans; assumption?)+


section \<open>Properties of the paging code\<close>

text \<open>
  A directory at \<open>0x1000\<close> with one table at \<open>0x2000\<close> for the addresses from \<open>0x80000000\<close>, and
  the two free runs of \<open>two_runs\<close>.
\<close>

definition paged :: kernel where
  "paged = two_runs\<lparr>phys := (phys two_runs)(0x1800 := 0x2007),
     kernel_address_space := zero_space\<lparr>page_dir := 0x1000\<rparr>\<rparr>"

lemma paged_dir [simp]: "page_dir (cur_space paged) = 0x1000"
  by (simp add: paged_def two_runs_def zero_kernel_def address_space_def)

lemma paged_pde: "i < 1024 \<Longrightarrow> pde 0x1000 paged i = (if i = 0x200 then 0x2007 else 0)"
proof -
  assume i: "i < 1024"
  have cell: "(0x1000 + 4 * i = c + 4 * j) = (0x1000 = c \<and> i = j)" if "page_aligned c" "j < 1024" for c j
    using table_cell_eq [of "0x1000" c i j] i that by (simp add: page_aligned_def)
  have "frame 0x1000 = 0x1000"
    by (rule frame_of_aligned) (simp add: page_aligned_def)
  then show ?thesis
    using cell [of "0x1000" "0x200"] cell [of "0x300000" 0] cell [of "0x300000" 1]
      cell [of "0x300000" 2] cell [of "0x200000" 0] cell [of "0x200000" 1] cell [of "0x200000" 2]
    by (simp add: pde_def paged_def two_runs_def zero_kernel_def page_aligned_def)
qed

lemma frame_0x2007: "frame 0x2007 = 0x2000"
  using frame_or [of 7 "0x2000"] frame_of_aligned [of "0x2000"] by (simp add: page_aligned_def del: frame_fold)

lemma paged_inv: "paging_inv 0x1000 paged [(0x300000, 4), (0x200000, 2)]"
proof -
  have "phys_inv paged [(0x300000, 4), (0x200000, 2)]"
    by (rule phys_inv_frame [OF two_runs_inv])
      (auto simp: paged_def hdr_cells_def)
  moreover have "tables_ok 0x1000 paged (free_pages [(0x300000, 4), (0x200000, 2)])"
    using frame_of_aligned [of "0x1000"] frame_0x2007
    by (auto simp: tables_ok_def paged_pde page_aligned_def page_no_def present_def split: if_splits)
  ultimately show ?thesis
    by (simp add: paging_inv_def)
qed

lemma next_pages_iterate:
  "(next_pages ^^ i) (va, pa) = (va + of_nat i * PAGE_SIZE, pa + of_nat i * PAGE_SIZE)"
  by (induction i) (simp_all add: next_pages_def algebra_simps)

lemma paged_entry:
  assumes "i < unat (2 :: u32)"
  shows "pte 0x1000 paged (0x80001000 + of_nat i * PAGE_SIZE) \<noteq> None"
proof -
  have "i = 0 \<or> i = 1"
    using assms by auto
  then show ?thesis
    by (elim disjE) (simp_all add: pte_eq pd_index_def paged_pde present_def)
qed

lemma paged_maps: "\<exists>s'. map_pages 0x80001000 0x5000 2 3 paged = Some (True, s')"
proof -
  have "\<exists>bs. paging_inv 0x1000 paged bs" using paged_inv ..
  from mapping.loop_correct [OF this, of "unat (2 :: u32)" 3 "(0x80001000, 0x5000)"]
  obtain ok s' where l: "page_loop (map_page 0x1000 3) next_pages (unat (2 :: u32)) (0x80001000, 0x5000) paged
      = Some (ok, s')"
    "\<not> ok \<longrightarrow> (\<exists>i < unat (2 :: u32). \<exists>s1. (\<forall>vb. pte 0x1000 paged vb \<noteq> None \<longrightarrow> pte 0x1000 s1 vb \<noteq> None)
      \<and> pte 0x1000 s1 (fst ((next_pages ^^ i) (0x80001000, 0x5000))) = None)"
    by auto
  have ok using l(2) paged_entry unfolding next_pages_iterate fst_conv by blast
  with l(1) show ?thesis
    by (auto simp: map_pages_def)
qed

lemma page_aligned_add:
  assumes "page_aligned b"
  shows "page_aligned (b + of_nat i * PAGE_SIZE)"
proof -
  have "unat (of_nat i * PAGE_SIZE :: u32) = (i * 4096) mod 2 ^ 32"
    by (simp add: unat_word_ariths unat_of_nat mod_mult_left_eq)
  then have "4096 dvd unat (of_nat i * PAGE_SIZE :: u32)"
    by (simp add: dvd_mod)
  then show ?thesis
    using assms by (simp add: page_aligned_dvd unat_add_mod dvd_mod)
qed

lemma page_offset:
  assumes "page_aligned b" "off < 4096"
  shows "(b + off) AND PAGE_OFFSET_MASK = off" "drop_bit 12 (b + off) = drop_bit 12 b"
proof -
  have off: "unat off < 4096" "off = of_nat (unat off)"
    using assms(2) by (simp_all add: word_less_nat_alt)
  have "drop_bit 12 (b + of_nat (unat off)) = drop_bit 12 b"
    using page_no_in_page [OF assms(1) off(1)]
    by (simp add: word_unat_eq_iff drop_bit_12_unat page_no_def del: of_nat_unat word_of_nat_eq_iff)
  then show "drop_bit 12 (b + off) = drop_bit 12 b" by simp
  obtain k where k: "unat b = 4096 * k"
    using assms(1) by (auto simp: page_aligned_dvd elim!: dvdE)
  have "unat (b + of_nat (unat off)) = 4096 * k + unat off"
    using unat_in_page [OF assms(1) off(1)] k by simp
  moreover have "unat (take_bit 12 (b + off)) = unat (b + off) mod 4096"
    by (subst unsigned_take_bit_eq) (simp add: take_bit_eq_mod)
  ultimately have "unat (take_bit 12 (b + off)) = unat off"
    using off by simp
  then show "(b + off) AND PAGE_OFFSET_MASK = off"
    unfolding page_mask take_bit_eq_mask [symmetric] by (simp only: word_unat_eq_iff)
qed

lemma get_physaddr_value:
  assumes "translate (page_dir (cur_space s)) s vaddr = Some p"
  shows "\<exists>q. get_physaddr vaddr s = (p, temp_map_page q s)"
  using assms
  by (auto simp: get_physaddr_def temp_read_map translate_def pte_eq pde_def Let_def split: if_splits)

lemma translate_mapped:
  assumes "pte dir s va = Some (frame pa OR flags)" "flags AND PAGE_PRESENT \<noteq> 0"
    and "flags AND NOT PAGE_OFFSET_MASK = 0" "page_aligned va" "off < 4096"
  shows "translate dir s (va + off) = Some (frame pa + off)"
proof -
  have "pte dir s (va + off) = Some (frame pa OR flags)"
    using pte_vpage page_offset(2) [OF assms(4,5)] assms(1) by metis
  then show ?thesis
    using present_or [OF assms(2)] frame_or [OF assms(3)] page_offset(1) [OF assms(4,5)]
    by (simp add: translate_def)
qed

text \<open>
  C34: \<open>get_physaddr\<close> computes the translation of the MMU for every address that is mapped in the
  current address space, and changes nothing but the window.
\<close>

theorem get_physaddr_translates:
  assumes "translate (page_dir (cur_space s)) s vaddr = Some p"
  shows "fst (get_physaddr vaddr s) = p \<and> (\<exists>t. snd (get_physaddr vaddr s) = s\<lparr>temp_pte := t\<rparr>)"
  using get_physaddr_value [OF assms] by (auto simp: temp_map_page_def)

theorem get_physaddr_translates_witness:
  "fst (get_physaddr 0x80000123 (paged\<lparr>phys := (phys paged)(0x2000 := 0x5003)\<rparr>)) = 0x5123"
proof -
  let ?s = "paged\<lparr>phys := (phys paged)(0x2000 := 0x5003)\<rparr>"
  have "frame 0x1000 = 0x1000" "frame 0x5003 = 0x5000"
    using frame_of_aligned [of "0x1000"] frame_or [of 3 "0x5000"] frame_of_aligned [of "0x5000"]
    by (simp_all add: page_aligned_def del: frame_fold)
  then have "translate (page_dir (cur_space ?s)) ?s 0x80000123 = Some 0x5123"
    using frame_0x2007
    by (simp add: translate_def pte_eq pde_def present_def pd_index_def pt_index_def)
      (simp add: paged_def)
  from get_physaddr_translates [OF this] show ?thesis ..
qed

text \<open>
  C5: \<open>map_pages\<close> returns under the paging invariant and keeps it. When it answers true, every page
  of the range has the entry for its frame with the flags given; in both cases every entry outside
  the range that had a table keeps its value, and it answers false only after the last free page
  has been used for a page table, and then some page of the range had no table.
\<close>

theorem map_pages_correct:
  assumes "paging_inv dir s bs" and "page_dir (cur_space s) = dir" and "unat count \<le> 2 ^ 20"
  shows "\<exists>ok s' bs'. map_pages vaddr paddr count flags s = Some (ok, s')
    \<and> phys_only s s' \<and> paging_inv dir s' bs' \<and> free_pages bs' \<subseteq> free_pages bs
    \<and> (ok \<longrightarrow> (\<forall>i < unat count. pte dir s' (vaddr + of_nat i * PAGE_SIZE)
                = Some (frame (paddr + of_nat i * PAGE_SIZE) OR flags)))
    \<and> (\<forall>vb. (\<forall>i < unat count. drop_bit 12 vb \<noteq> drop_bit 12 (vaddr + of_nat i * PAGE_SIZE)) \<longrightarrow>
         pte dir s vb \<noteq> None \<longrightarrow> pte dir s' vb = pte dir s vb)
    \<and> (\<not> ok \<longrightarrow> pool s' {} \<and> (\<exists>i < unat count. pte dir s (vaddr + of_nat i * PAGE_SIZE) = None))"
proof -
  have "\<exists>bs. paging_inv dir s bs" using assms(1) by blast
  from mapping.loop_correct [OF this assms(3), of flags "(vaddr, paddr)"] obtain ok s' where
    l: "page_loop (map_page dir flags) next_pages (unat count) (vaddr, paddr) s = Some (ok, s')"
      "paging_keeps dir s s'"
      "ok \<longrightarrow> (\<forall>i < unat count. pte dir s' (vaddr + of_nat i * PAGE_SIZE)
         = Some (frame (snd ((next_pages ^^ i) (vaddr, paddr))) OR flags))"
      "\<forall>vb. (\<forall>i < unat count. drop_bit 12 vb \<noteq> drop_bit 12 (vaddr + of_nat i * PAGE_SIZE)) \<longrightarrow>
         pte dir s vb \<noteq> None \<longrightarrow> pte dir s' vb = pte dir s vb"
      "\<not> ok \<longrightarrow> (\<exists>i < unat count. \<exists>s1. (\<forall>vb. pte dir s vb \<noteq> None \<longrightarrow> pte dir s1 vb \<noteq> None)
         \<and> pool s' {} \<and> pte dir s1 (fst ((next_pages ^^ i) (vaddr, paddr))) = None)"
    by auto
  have fails: "\<not> ok \<longrightarrow> pool s' {} \<and> (\<exists>i < unat count. pte dir s (vaddr + of_nat i * PAGE_SIZE) = None)"
    using l(5) unfolding next_pages_iterate fst_conv by blast
  have "map_pages vaddr paddr count flags s = Some (ok, s')"
    using l(1) assms(2) by (simp add: map_pages_def)
  moreover obtain bs' where "phys_only s s'" "paging_inv dir s' bs'" "free_pages bs' \<subseteq> free_pages bs"
    using l(2) assms(1) by (auto simp: paging_keeps_def)
  ultimately show ?thesis
    using l(3,4) fails unfolding next_pages_iterate snd_conv by blast
qed

theorem map_pages_correct_witness:
  "\<exists>s'. map_pages 0x80001000 0x5000 2 3 paged = Some (True, s')
    \<and> pte 0x1000 s' 0x80002000 = Some (frame 0x6000 OR 3)"
proof -
  from map_pages_correct [OF paged_inv paged_dir, of 2 "0x80001000" "0x5000" 3] obtain ok s' where
    w: "map_pages 0x80001000 0x5000 2 3 paged = Some (ok, s')"
    "ok \<longrightarrow> (\<forall>i < unat (2 :: u32). pte 0x1000 s' (0x80001000 + of_nat i * PAGE_SIZE)
                = Some (frame (0x5000 + of_nat i * PAGE_SIZE) OR 3))"
    "\<not> ok \<longrightarrow> (\<exists>i < unat (2 :: u32). pte 0x1000 paged (0x80001000 + of_nat i * PAGE_SIZE) = None)"
    by auto
  have ok using w(3) paged_entry by blast
  with w(2) have "pte 0x1000 s' (0x80001000 + of_nat 1 * PAGE_SIZE)
                = Some (frame (0x5000 + of_nat 1 * PAGE_SIZE) OR 3)"
    by (elim impE allE [of _ 1]) simp_all
  with w(1) \<open>ok\<close> show ?thesis
    by (simp del: frame_fold)
qed


text \<open>
  C6: after a successful \<open>map_pages\<close> of page-aligned addresses with the present flag,
  \<open>get_physaddr\<close> answers, for every byte of the range, the byte of the physical range at the same
  distance.
\<close>

theorem map_pages_then_get_physaddr:
  assumes "paging_inv dir s bs" and "page_dir (cur_space s) = dir" and "unat count \<le> 2 ^ 20"
    and "map_pages vaddr paddr count flags s = Some (True, s')"
    and "page_aligned vaddr" and "page_aligned paddr"
    and "flags AND PAGE_PRESENT \<noteq> 0" and "flags AND NOT PAGE_OFFSET_MASK = 0"
    and "i < unat count" and "off < 4096"
  shows "fst (get_physaddr (vaddr + of_nat i * PAGE_SIZE + off) s') = paddr + of_nat i * PAGE_SIZE + off"
proof -
  have "\<exists>bs. paging_inv dir s bs" using assms(1) by blast
  from mapping.loop_correct [OF this assms(3), of flags "(vaddr, paddr)"] assms(2,4,9)
  have e: "pte dir s' (vaddr + of_nat i * PAGE_SIZE)
        = Some (frame (paddr + of_nat i * PAGE_SIZE) OR flags)" and "paging_keeps dir s s'"
    by (auto simp: map_pages_def next_pages_iterate)
  then have "phys_only s s'"
    by (simp add: paging_keeps_def)
  then have "page_dir (cur_space s') = dir"
    using assms(2) phys_only_fields(1) [of s s'] by simp
  then show ?thesis
    using translate_mapped [OF e assms(7,8) page_aligned_add [OF assms(5)] assms(10)]
      page_aligned_add [OF assms(6), of i] get_physaddr_value by fastforce
qed

theorem map_pages_then_get_physaddr_witness:
  "\<exists>s'. map_pages 0x80001000 0x5000 2 3 paged = Some (True, s')
    \<and> fst (get_physaddr 0x80002010 s') = 0x6010"
proof -
  obtain s' where m: "map_pages 0x80001000 0x5000 2 3 paged = Some (True, s')"
    using paged_maps by blast
  from map_pages_then_get_physaddr [OF paged_inv paged_dir _ m, of 1 "0x10"]
  have "fst (get_physaddr 0x80002010 s') = 0x6010"
    by (simp add: page_aligned_def del: frame_fold)
  with m show ?thesis by blast
qed

text \<open>
  C26: \<open>unmap_pages\<close> returns under the paging invariant, keeps it, allocates nothing, and on success
  leaves no page of the range translated; entries outside the range keep their value. It answers
  false only if some page of the range had no page table.
\<close>

theorem unmap_pages_correct:
  assumes "paging_inv dir s bs" and "page_dir (cur_space s) = dir" and "unat count \<le> 2 ^ 20"
  shows "\<exists>ok s' bs'. unmap_pages vaddr count s = Some (ok, s')
    \<and> phys_only s s' \<and> paging_inv dir s' bs' \<and> free_pages bs' \<subseteq> free_pages bs
    \<and> (ok \<longrightarrow> (\<forall>i < unat count. translate dir s' (vaddr + of_nat i * PAGE_SIZE) = None))
    \<and> (\<forall>vb. (\<forall>i < unat count. drop_bit 12 vb \<noteq> drop_bit 12 (vaddr + of_nat i * PAGE_SIZE)) \<longrightarrow>
         pte dir s vb \<noteq> None \<longrightarrow> pte dir s' vb = pte dir s vb)
    \<and> (\<not> ok \<longrightarrow> (\<exists>i < unat count. pte dir s (vaddr + of_nat i * PAGE_SIZE) = None))"
proof -
  have "\<exists>bs. paging_inv dir s bs" using assms(1) by blast
  from unmapping.loop_correct [OF this assms(3), of vaddr]
  obtain ok s' where l: "page_loop (unmap_page dir) (\<lambda>va. va + PAGE_SIZE) (unat count) vaddr s = Some (ok, s')"
      "paging_keeps dir s s'"
      "ok \<longrightarrow> (\<forall>i < unat count. pte dir s' (vaddr + of_nat i * PAGE_SIZE) = Some 0)"
      "\<forall>vb. (\<forall>i < unat count. drop_bit 12 vb \<noteq> drop_bit 12 (vaddr + of_nat i * PAGE_SIZE)) \<longrightarrow>
         pte dir s vb \<noteq> None \<longrightarrow> pte dir s' vb = pte dir s vb"
      "\<not> ok \<longrightarrow> (\<exists>i < unat count. \<exists>s1. (\<forall>vb. pte dir s vb \<noteq> None \<longrightarrow> pte dir s1 vb \<noteq> None)
         \<and> pte dir s1 (((\<lambda>va. va + PAGE_SIZE) ^^ i) vaddr) = None)"
    by auto
  have "unmap_pages vaddr count s = Some (ok, s')"
    using l(1) assms(2) by (simp add: unmap_pages_def)
  moreover obtain bs' where "phys_only s s'" "paging_inv dir s' bs'" "free_pages bs' \<subseteq> free_pages bs"
    using l(2) assms(1) by (auto simp: paging_keeps_def)
  moreover have "ok \<longrightarrow> (\<forall>i < unat count. translate dir s' (vaddr + of_nat i * PAGE_SIZE) = None)"
    using l(3) by (simp add: translate_def present_def)
  moreover have "\<not> ok \<longrightarrow> (\<exists>i < unat count. pte dir s (vaddr + of_nat i * PAGE_SIZE) = None)"
    using l(5) unfolding unmapping.va_of_advance by blast
  ultimately show ?thesis
    using l(4) by blast
qed

theorem unmap_pages_correct_witness:
  "\<exists>ok s'. unmap_pages 0x80001000 1 paged = Some (ok, s') \<and> ok
    \<and> translate 0x1000 s' 0x80001000 = None"
proof -
  have "pte 0x1000 paged 0x80001000 \<noteq> None"
    by (simp add: pte_eq pd_index_def paged_pde present_def)
  then show ?thesis
    using unmap_pages_correct [OF paged_inv paged_dir, of 1 "0x80001000"] by (auto split: if_splits)
qed

text \<open>
  A page table that \<open>map_pages\<close> allocates is not cleared. Every other page of its 4 MB has as
  its entry what the free frame happened to contain before, except in the cells of free-list
  headers, so pages that were never mapped may be translated after the call.
\<close>

theorem map_pages_table_not_cleared:
  assumes "paging_inv dir s bs" and "page_dir (cur_space s) = dir"
    and "\<not> present (pde dir s (pd_index vaddr))" and "bs \<noteq> []"
  shows "\<exists>s' r. map_pages vaddr paddr 1 flags s = Some (True, s') \<and> page_no r \<in> free_pages bs
    \<and> (\<forall>vb. pd_index vb = pd_index vaddr \<longrightarrow> pt_index vb \<noteq> pt_index vaddr \<longrightarrow>
         r + 4 * pt_index vb \<notin> hdr_cells bs \<longrightarrow> pte dir s' vb = Some (phys s (r + 4 * pt_index vb)))"
proof -
  obtain s1 bs1 r where t: "map_ensure_table dir vaddr s = Some (True, s1)" "paging_inv dir s1 bs1"
      "present (pde dir s1 (pd_index vaddr))" "temp_frame s1 = frame dir"
      "frame (pde dir s1 (pd_index vaddr)) = r" "r \<noteq> frame dir" "page_no r \<in> free_pages bs"
      "\<forall>a. a \<notin> hdr_cells bs \<longrightarrow> a \<noteq> frame dir + 4 * pd_index vaddr \<longrightarrow> phys s1 a = phys s a"
    using ensure_absent [OF assms(1,3)] assms(4) by blast
  let ?e = "pde dir s1 (pd_index vaddr)"
  let ?s' = "set_cell ?e (pt_index vaddr) (frame paddr OR flags) (temp_pte (temp_map_page ?e s1)) s1"
  have "map_pages vaddr paddr 1 flags s = Some (True, ?s')"
    using t(1,4) assms(2)
    by (simp add: map_pages_def map_page_def map_set_entry_def temp_read_def temp_write_map pde_def)
  moreover have "pte dir ?s' vb = Some (phys s (r + 4 * pt_index vb))"
    if vb: "pd_index vb = pd_index vaddr" "pt_index vb \<noteq> pt_index vaddr" "r + 4 * pt_index vb \<notin> hdr_cells bs" for vb
  proof -
    have "r + 4 * pt_index vb \<noteq> frame dir + 4 * pd_index vaddr"
      using table_cell_eq [of r "frame dir"] t(5,6) by auto
    moreover have "pte dir ?s' vb = pte dir s1 vb"
      using set_entry(3) [OF t(2,3)] vb(2) by (simp add: vpage_eq_iff)
    ultimately show ?thesis
      using t(3,5,8) vb by (simp add: pte_eq)
  qed
  ultimately show ?thesis
    using t(7) by blast
qed

theorem map_pages_table_not_cleared_witness:
  "\<exists>s' r. map_pages 0x400000 0x5000 1 3 paged = Some (True, s') \<and> page_no r \<in> {0x200 ..< 0x304}"
proof -
  have "\<not> present (pde 0x1000 paged (pd_index 0x400000))"
    by (simp add: pd_index_def paged_pde present_def)
  from map_pages_table_not_cleared [OF paged_inv paged_dir this] obtain s' r where
    "map_pages 0x400000 0x5000 1 3 paged = Some (True, s')"
    "page_no r \<in> free_pages [(0x300000, 4), (0x200000, 2)]"
    by blast
  moreover from this(2) have "page_no r \<in> {0x200 ..< 0x304}"
    by (auto simp: run_pages_def simp del: run_pages_simp)
  ultimately show ?thesis by blast
qed

end
