(* ===== verification/BlockTable.thy ===== *)
theory BlockTable
  imports Machine Allocator
begin

text \<open>
  What \<open>VirtMemory\<close> and \<open>DynamicMemory\<close> have in common: a table of (base, size) entries of eight
  bytes each in memory, kept in ascending order, and the regions that the entries describe. The
  first part relates the table in memory to a list and gives the effect of the two ways in which
  the code edits it, \<open>memcpy\<close> up and a store, and \<open>memcpy\<close> down. The second part is about lists of
  regions that follow one another between two bounds.
\<close>

section \<open>The table in memory\<close>

definition block_ptr :: "u32 \<Rightarrow> u32 \<Rightarrow> u32" where
  "block_ptr blocks i = blocks + 8 * i"

definition block_base :: "u32 \<Rightarrow> mem \<Rightarrow> u32" where "block_base p m = load32 m p"
definition block_size :: "u32 \<Rightarrow> mem \<Rightarrow> u32" where "block_size p m = load32 m (p + 4)"

definition set_block_base :: "u32 \<Rightarrow> u32 \<Rightarrow> mem \<Rightarrow> mem" where "set_block_base p b m = store32 p b m"
definition set_block_size :: "u32 \<Rightarrow> u32 \<Rightarrow> mem \<Rightarrow> mem" where "set_block_size p n m = store32 (p + 4) n m"

text \<open>The address at an offset from the start of a table.\<close>

definition ofs :: "u32 \<Rightarrow> nat \<Rightarrow> u32" where "ofs t a = t + of_nat a"

lemma ofs_simps:
  "ofs t 0 = t" "ofs (ofs t a) b = ofs t (a + b)"
  "ofs t a + 1 = ofs t (a + 1)" "ofs t a + 2 = ofs t (a + 2)" "ofs t a + 3 = ofs t (a + 3)"
  "ofs t a + 4 = ofs t (a + 4)" "ofs t a + 8 = ofs t (a + 8)"
  by (simp_all add: ofs_def algebra_simps)

lemma block_ptr_nat: "block_ptr t (of_nat k) = ofs t (8 * k)"
  by (simp add: block_ptr_def ofs_def)

definition table :: "mem \<Rightarrow> u32 \<Rightarrow> run list \<Rightarrow> bool" where
  "table m t vs \<longleftrightarrow> (\<forall>k < length vs. load32 m (ofs t (8 * k)) = fst (vs ! k)
     \<and> load32 m (ofs t (8 * k + 4)) = snd (vs ! k))"

lemma table_read:
  assumes "table m t (xs @ (b, n) # ys)"
  shows "block_base (block_ptr t (of_nat (length xs))) m = b"
    and "block_size (block_ptr t (of_nat (length xs))) m = n"
  using assms [unfolded table_def, rule_format, of "length xs"]
  unfolding block_base_def block_size_def block_ptr_nat ofs_simps by (simp_all add: nth_append)

text \<open>Reading a cell at an offset of a copied range, or apart from it.\<close>

lemma bytes_at_ofs: "a + w \<le> 2 ^ 32 \<Longrightarrow> x \<in> bytes_at (ofs t a) w \<longleftrightarrow> a \<le> unat (x - t) \<and> unat (x - t) < a + w"
  unfolding ofs_def by (rule bytes_at_offset)

lemma bytes_at_ofs_disjoint:
  assumes "a + w \<le> b \<or> b + v \<le> a" "a + w \<le> 2 ^ 32" "b + v \<le> 2 ^ 32"
  shows "bytes_at (ofs t a) w \<inter> bytes_at (ofs t b) v = {}"
  using assms by (auto simp: bytes_at_ofs)

lemma load32_moved:
  assumes "i + 4 \<le> n" "n \<le> 2 ^ 32"
  shows "load32 (moved d s 0 n m) (ofs d i) = load32 m (ofs s i)"
proof -
  have "moved d s 0 n m (ofs d (i + k)) = m (ofs s (i + k))" if "k < 4" for k
    unfolding ofs_def by (rule moved_dest) (use assms that in auto)
  from this [of 0] this [of 1] this [of 2] this [of 3] show ?thesis
    by (simp add: load32_def ofs_simps)
qed

lemma load32_moved_other:
  assumes "bytes_at p 4 \<inter> bytes_at d n = {}"
  shows "load32 (moved d s 0 n m) p = load32 m p"
proof -
  have "moved d s 0 n m x = m x" if "x \<in> bytes_at p 4" for x
    by (rule moved_other) (use assms that in blast)
  then show ?thesis
    by (simp add: load32_def bytes_at_4)
qed

lemma load32_store32_other:
  "bytes_at q 4 \<inter> bytes_at p 4 = {} \<Longrightarrow> load32 (store32 p v m) q = load32 m q"
  by (rule cell32.ld_st_disjoint)

lemma load32_cong: "(\<And>x. x \<in> bytes_at p 4 \<Longrightarrow> m x = m' x) \<Longrightarrow> load32 m p = load32 m' p"
  by (simp add: load32_def bytes_at_4)

lemma store32_other: "x \<notin> bytes_at p 4 \<Longrightarrow> store32 p v m x = m x"
  unfolding store32_apply bytes_at_4 by auto

lemma table_cong:
  assumes "table m t vs" "8 * length vs \<le> 2 ^ 32" "\<And>x. x \<in> bytes_at t (8 * length vs) \<Longrightarrow> m' x = m x"
  shows "table m' t vs"
  unfolding table_def
proof (intro allI impI conjI)
  fix k assume k: "k < length vs"
  have "bytes_at (ofs t a) 4 \<subseteq> bytes_at t (8 * length vs)" if "a + 4 \<le> 8 * length vs" for a
    using that assms(2) by (auto simp: bytes_at_ofs) (simp add: bytes_at_def)
  then have "load32 m' (ofs t a) = load32 m (ofs t a)" if "a + 4 \<le> 8 * length vs" for a
    using that assms(3) by (intro load32_cong) blast
  then show "load32 m' (ofs t (8 * k)) = fst (vs ! k)" "load32 m' (ofs t (8 * k + 4)) = snd (vs ! k)"
    using assms(1) k unfolding table_def by simp_all
qed

text \<open>
  Making room for an entry at index \<open>j\<close> by copying \<open>c\<close> entries up, at least those that follow, and
  storing the new one.
\<close>

definition put_block :: "u32 \<Rightarrow> u32 \<Rightarrow> u32 \<Rightarrow> mem \<Rightarrow> mem" where
  "put_block p b n m = set_block_size p n (set_block_base p b m)"

lemma unat_ofs: "unat t + a < 2 ^ 32 \<Longrightarrow> unat (ofs t a) = unat t + a"
  unfolding ofs_def by (rule unat_add_of_nat)

lemma put_block_load:
  assumes "8 * (k + 1) \<le> 2 ^ 32" "8 * (j + 1) \<le> 2 ^ 32"
  shows "load32 (put_block (ofs t (8 * j)) b n m) (ofs t (8 * k)) = (if k = j then b else load32 m (ofs t (8 * k)))"
    and "load32 (put_block (ofs t (8 * j)) b n m) (ofs t (8 * k + 4)) = (if k = j then n else load32 m (ofs t (8 * k + 4)))"
proof -
  have dis: "bytes_at (ofs t a) 4 \<inter> bytes_at (ofs t c) 4 = {}" if "a + 4 \<le> c \<or> c + 4 \<le> a"
    "a + 4 \<le> 2 ^ 32" "c + 4 \<le> 2 ^ 32" for a c
    using that by (rule bytes_at_ofs_disjoint)
  show "load32 (put_block (ofs t (8 * j)) b n m) (ofs t (8 * k)) = (if k = j then b else load32 m (ofs t (8 * k)))"
    "load32 (put_block (ofs t (8 * j)) b n m) (ofs t (8 * k + 4)) = (if k = j then n else load32 m (ofs t (8 * k + 4)))"
    unfolding put_block_def set_block_base_def set_block_size_def ofs_simps
    using assms dis [of "8 * k" "8 * j"] dis [of "8 * k" "8 * j + 4"] dis [of "8 * k + 4" "8 * j"]
      dis [of "8 * k + 4" "8 * j + 4"]
    by (cases "k < j"; cases "k = j"; simp add: load32_store32_other load32_store32_same)+
qed

lemma put_block_other:
  "8 * (j + 1) \<le> 2 ^ 32 \<Longrightarrow> x \<notin> bytes_at (ofs t (8 * j)) 8 \<Longrightarrow> put_block (ofs t (8 * j)) b n m x = m x"
proof -
  assume "8 * (j + 1) \<le> 2 ^ 32" "x \<notin> bytes_at (ofs t (8 * j)) 8"
  then have "x \<notin> bytes_at (ofs t (8 * j)) 4" "x \<notin> bytes_at (ofs t (8 * j + 4)) 4"
    by (auto simp: bytes_at_ofs)
  then show ?thesis
    unfolding put_block_def set_block_base_def set_block_size_def ofs_simps by (metis store32_other)
qed

lemma table_insert:
  fixes b n :: u32
  assumes tab: "table m t vs" and j: "j \<le> length vs"
    and room: "unat t + 8 * (length vs + 2) < 2 ^ 32"
    and c: "length vs - j \<le> c" "c \<le> length vs - j + 1"
  defines "m' \<equiv> put_block (ofs t (8 * j)) b n (memcpy (ofs t (8 * j + 8)) (ofs t (8 * j)) (of_nat (8 * c)) m)"
  shows "table m' t (take j vs @ (b, n) # drop j vs)"
    and "x \<notin> bytes_at t (8 * (j + 1 + c)) \<Longrightarrow> m' x = m x"
proof -
  have c': "unat (of_nat (8 * c) :: u32) = 8 * c"
    by (rule unat_of_nat_small) (use c room j in simp)
  have mv: "memcpy (ofs t (8 * j + 8)) (ofs t (8 * j)) (of_nat (8 * c)) m
      = moved (ofs t (8 * j + 8)) (ofs t (8 * j)) 0 (8 * c) m"
    by (subst memcpy_moved, unfold c', (subst unat_ofs; use c room j in simp)+) simp
  let ?m = "moved (ofs t (8 * j + 8)) (ofs t (8 * j)) 0 (8 * c) m"
  have below: "load32 ?m (ofs t a) = load32 m (ofs t a)" if "a + 4 \<le> 8 * j + 8" for a
    by (rule load32_moved_other, rule bytes_at_ofs_disjoint) (use that c room j in auto)
  have above: "load32 ?m (ofs t (a + 8)) = load32 m (ofs t a)" if "8 * j \<le> a" "a + 4 \<le> 8 * length vs" for a
  proof -
    have "load32 ?m (ofs (ofs t (8 * j + 8)) (a - 8 * j)) = load32 m (ofs (ofs t (8 * j)) (a - 8 * j))"
      by (rule load32_moved) (use that c room j in auto)
    then show ?thesis
      using that by (simp add: ofs_simps add.commute)
  qed
  show "table m' t (take j vs @ (b, n) # drop j vs)"
    unfolding table_def m'_def mv
  proof (intro allI impI conjI)
    fix k assume k: "k < length (take j vs @ (b, n) # drop j vs)"
    let ?vs = "take j vs @ (b, n) # drop j vs"
    have small: "8 * (k + 1) \<le> 2 ^ 32" "8 * (j + 1) \<le> 2 ^ 32"
      using k j room by auto
    consider "k < j" | "k = j" | "j < k" by linarith
    then have "load32 (put_block (ofs t (8 * j)) b n ?m) (ofs t (8 * k)) = fst (?vs ! k)
      \<and> load32 (put_block (ofs t (8 * j)) b n ?m) (ofs t (8 * k + 4)) = snd (?vs ! k)"
    proof cases
      case 1
      then show ?thesis
        using tab j below unfolding put_block_load [OF small] by (simp add: table_def nth_append)
    next
      case 2
      then show ?thesis
        unfolding put_block_load [OF small] using j by (simp add: nth_append)
    next
      case 3
      then obtain i where i: "k = Suc i" "j \<le> i" "i < length vs"
        using k by (cases k) auto
      then have "?vs ! k = vs ! i"
        by (simp add: nth_append nth_Cons' min_def)
      moreover have "load32 ?m (ofs t (8 * k)) = load32 m (ofs t (8 * i))"
        "load32 ?m (ofs t (8 * k + 4)) = load32 m (ofs t (8 * i + 4))"
        using above [of "8 * i"] above [of "8 * i + 4"] i by (simp_all add: algebra_simps)
      ultimately show ?thesis
        unfolding put_block_load [OF small] using 3 i tab by (simp add: table_def)
    qed
    then show "load32 (put_block (ofs t (8 * j)) b n ?m) (ofs t (8 * k)) = fst (?vs ! k)"
      "load32 (put_block (ofs t (8 * j)) b n ?m) (ofs t (8 * k + 4)) = snd (?vs ! k)"
      by blast+
  qed
  assume x: "x \<notin> bytes_at t (8 * (j + 1 + c))"
  then have "x \<notin> bytes_at (ofs t (8 * j)) 8" "x \<notin> bytes_at (ofs t (8 * j + 8)) (8 * c)"
    using room j c by (simp_all add: bytes_at_ofs) (simp_all add: bytes_at_def)
  then show "m' x = m x"
    unfolding m'_def mv using put_block_other [of j x] room j by (simp add: moved_other)
qed


text \<open>Removing the entry at index \<open>j\<close> by copying those above it, and the one beyond, down.\<close>

lemma table_delete:
  assumes tab: "table m t vs" and j: "j < length vs" and room: "unat t + 8 * (length vs + 1) < 2 ^ 32"
  defines "m' \<equiv> memcpy (ofs t (8 * j)) (ofs t (8 * j + 8)) (of_nat (8 * (length vs - j))) m"
  shows "table m' t (take j vs @ drop (Suc j) vs)"
    and "x \<notin> bytes_at t (8 * length vs) \<Longrightarrow> m' x = m x"
proof -
  let ?c = "length vs - j"
  have c': "unat (of_nat (8 * ?c) :: u32) = 8 * ?c"
    by (rule unat_of_nat_small) (use room j in simp)
  have mv: "m' = moved (ofs t (8 * j)) (ofs t (8 * j + 8)) 0 (8 * ?c) m"
    unfolding m'_def by (subst memcpy_moved, unfold c', (subst unat_ofs; use room j in simp)+) simp
  let ?m = "moved (ofs t (8 * j)) (ofs t (8 * j + 8)) 0 (8 * ?c) m"
  have below: "load32 ?m (ofs t a) = load32 m (ofs t a)" if "a + 4 \<le> 8 * j" for a
    by (rule load32_moved_other, rule bytes_at_ofs_disjoint) (use that room j in auto)
  have above: "load32 ?m (ofs t a) = load32 m (ofs t (a + 8))" if "8 * j \<le> a" "a + 4 \<le> 8 * length vs" for a
  proof -
    have "load32 ?m (ofs (ofs t (8 * j)) (a - 8 * j)) = load32 m (ofs (ofs t (8 * j + 8)) (a - 8 * j))"
      by (rule load32_moved) (use that room j in auto)
    then show ?thesis
      using that by (simp add: ofs_simps add.commute)
  qed
  show "table m' t (take j vs @ drop (Suc j) vs)"
    unfolding table_def mv
  proof (intro allI impI)
    fix k assume k: "k < length (take j vs @ drop (Suc j) vs)"
    let ?vs = "take j vs @ drop (Suc j) vs"
    show "load32 ?m (ofs t (8 * k)) = fst (?vs ! k) \<and> load32 ?m (ofs t (8 * k + 4)) = snd (?vs ! k)"
    proof (cases "k < j")
      case True
      then show ?thesis
        using tab j below by (simp add: table_def nth_append)
    next
      case False
      then have "?vs ! k = vs ! Suc k" "Suc k < length vs"
        using k j by (auto simp: nth_append min_def)
      moreover have "load32 ?m (ofs t (8 * k)) = load32 m (ofs t (8 * Suc k))"
        "load32 ?m (ofs t (8 * k + 4)) = load32 m (ofs t (8 * Suc k + 4))"
        using above [of "8 * k"] above [of "8 * k + 4"] False calculation(2) by (simp_all add: algebra_simps)
      ultimately show ?thesis
        using tab [unfolded table_def, rule_format, of "Suc k"] by simp
    qed
  qed
  assume "x \<notin> bytes_at t (8 * length vs)"
  then have "x \<notin> bytes_at (ofs t (8 * j)) (8 * ?c)"
    using room j by (simp add: bytes_at_ofs) (simp add: bytes_at_def)
  then show "m' x = m x"
    unfolding mv by (rule moved_other)
qed

section \<open>Regions that follow one another\<close>

text \<open>
  \<open>placed len lo hi vs\<close>: the regions lie between the addresses \<open>lo\<close> and \<open>hi\<close> in ascending order
  without overlap, where a region of size \<open>n\<close> takes \<open>len n\<close> bytes.
\<close>

fun placed :: "(u32 \<Rightarrow> nat) \<Rightarrow> nat \<Rightarrow> nat \<Rightarrow> run list \<Rightarrow> bool" where
  "placed len lo hi [] \<longleftrightarrow> lo \<le> hi"
| "placed len lo hi ((b, n) # vs) \<longleftrightarrow> lo \<le> unat b \<and> placed len (unat b + len n) hi vs"

definition cells :: "(u32 \<Rightarrow> nat) \<Rightarrow> run \<Rightarrow> nat set" where
  "cells len r = {unat (fst r) ..< unat (fst r) + len (snd r)}"

definition occupied :: "(u32 \<Rightarrow> nat) \<Rightarrow> run list \<Rightarrow> nat set" where
  "occupied len vs = \<Union> (cells len ` set vs)"

text \<open>The end of the last region, or the lower bound.\<close>

fun end_of :: "(u32 \<Rightarrow> nat) \<Rightarrow> nat \<Rightarrow> run list \<Rightarrow> nat" where
  "end_of len lo [] = lo"
| "end_of len lo ((b, n) # vs) = end_of len (unat b + len n) vs"

fun start_of :: "run list \<Rightarrow> nat \<Rightarrow> nat" where
  "start_of [] hi = hi"
| "start_of ((b, n) # vs) hi = unat b"

lemma occupied_simps [simp]:
  "occupied len [] = {}" "occupied len (r # vs) = cells len r \<union> occupied len vs"
  "occupied len (xs @ ys) = occupied len xs \<union> occupied len ys"
  by (auto simp: occupied_def)

lemma placed_mono: "placed len lo hi vs \<Longrightarrow> lo' \<le> lo \<Longrightarrow> hi \<le> hi' \<Longrightarrow> placed len lo' hi' vs"
  by (induction len lo hi vs arbitrary: lo' rule: placed.induct) auto

lemma placed_bounds: "placed len lo hi vs \<Longrightarrow> lo \<le> end_of len lo vs \<and> end_of len lo vs \<le> hi"
  by (induction len lo hi vs rule: placed.induct) auto

lemma placed_append:
  "placed len lo hi (xs @ ys) \<longleftrightarrow>
     placed len lo (end_of len lo xs) xs \<and> placed len (end_of len lo xs) hi ys"
  by (induction xs arbitrary: lo) auto

lemma end_of_append [simp]: "end_of len lo (xs @ ys) = end_of len (end_of len lo xs) ys"
  by (induction xs arbitrary: lo) auto

lemma placed_occupied: "placed len lo hi vs \<Longrightarrow> occupied len vs \<subseteq> {lo ..< hi}"
proof (induction len lo hi vs rule: placed.induct)
  case (2 len lo hi b n vs)
  then have "unat b + len n \<le> hi"
    using placed_bounds by (meson le_trans placed.simps(2))
  with 2 show ?case
    by (auto simp: cells_def subset_iff)
qed simp

lemma placed_disjoint:
  "placed len lo hi vs \<Longrightarrow> sorted_wrt (\<lambda>r q. cells len r \<inter> cells len q = {}) vs"
proof (induction len lo hi vs rule: placed.induct)
  case (2 len lo hi b n vs)
  have "cells len q \<subseteq> {unat b + len n ..< hi}" if "q \<in> set vs" for q
    using placed_occupied [of len "unat b + len n" hi vs] 2 that by (auto simp: occupied_def)
  with 2 show ?case
    by (fastforce simp: cells_def)
qed simp

text \<open>A region can be put into any gap that is long enough.\<close>

lemma placed_insert:
  assumes "placed len lo hi (xs @ ys)" "end_of len lo xs \<le> unat b" "unat b + len n \<le> start_of ys hi"
  shows "placed len lo hi (xs @ (b, n) # ys)"
    and "cells len (b, n) \<inter> occupied len (xs @ ys) = {}" "cells len (b, n) \<subseteq> {lo ..< hi}"
proof -
  have xs: "placed len lo (end_of len lo xs) xs" and ys: "placed len (end_of len lo xs) hi ys"
    using assms(1) by (simp_all add: placed_append)
  have ys': "placed len (unat b + len n) hi ys"
  proof (cases ys)
    case Nil
    then show ?thesis using assms(3) by simp
  next
    case (Cons r zs)
    then show ?thesis using ys assms(3) by (cases r) simp
  qed
  then have hi: "unat b + len n \<le> hi"
    using placed_bounds by (meson le_trans)
  show "placed len lo hi (xs @ (b, n) # ys)"
    using xs ys' assms(2) by (simp add: placed_append)
  show "cells len (b, n) \<inter> occupied len (xs @ ys) = {}" "cells len (b, n) \<subseteq> {lo ..< hi}"
    using placed_occupied [OF xs] placed_occupied [OF ys'] placed_bounds [OF xs] assms(2) hi
    by (auto simp: cells_def)
qed

lemma placed_remove:
  assumes "placed len lo hi (xs @ (b, n) # ys)"
  shows "placed len lo hi (xs @ ys)"
proof -
  have "placed len lo (end_of len lo xs) xs" "placed len (unat b + len n) hi ys" "end_of len lo xs \<le> unat b"
    using assms by (simp_all add: placed_append)
  then show ?thesis
    using placed_mono [of len "unat b + len n" hi ys "end_of len lo xs" hi] by (simp add: placed_append)
qed


lemma end_of_mem:
  "placed len lo hi vs \<Longrightarrow> (b, n) \<in> set vs \<Longrightarrow> lo \<le> unat b \<and> unat b + len n \<le> end_of len lo vs"
proof (induction len lo hi vs rule: placed.induct)
  case (2 len lo hi c k vs)
  then show ?case
    using placed_bounds [of len "unat c + len k" hi vs] by fastforce
qed simp

lemma no_wrap_all:
  assumes "placed len lo hi vs" "end_of len lo vs + k < 2 ^ 32" "(b, n) \<in> set vs"
  shows "unat b + len n + k < 2 ^ 32"
  using end_of_mem [OF assms(1,3)] assms(2) by linarith

lemma end_of_remove:
  assumes "placed len lo hi (xs @ (b, n) # ys)"
  shows "end_of len lo (xs @ ys) \<le> end_of len lo (xs @ (b, n) # ys)"
proof -
  have "end_of len lo xs \<le> unat b"
    using assms by (simp add: placed_append)
  then show ?thesis
    by (cases ys) auto
qed

text \<open>Regions of positive length have different bases.\<close>

lemma placed_base_unique:
  assumes "placed len lo hi vs" "\<forall>(b, n) \<in> set vs. 0 < len n" "(b, n) \<in> set vs" "(b, k) \<in> set vs"
  shows "n = k"
  using assms
proof (induction len lo hi vs rule: placed.induct)
  case (2 len lo hi c j vs)
  have later: "unat c < unat d" if "(d, i) \<in> set vs" for d i
    using end_of_mem [of len "unat c + len j" hi vs d i] 2(2,3) that by auto
  then have "n = k" if "(b, n) = (c, j)" "(b, k) \<in> set vs"
    using that by blast
  then show ?case
    using 2 later by fastforce
qed simp

section \<open>The search for a gap\<close>

text \<open>
  The loop that \<open>add_virt_block\<close> and \<open>kmalloc\<close> share up to three details: the bytes that a size
  stands for, whether the upper bound is tested at every block (\<open>strict\<close>) or at the last one only,
  and the global that holds the table. \<open>gap_loop\<close> is the loop on a table in memory, \<open>gap_fit\<close> the
  same on a list.
\<close>

function gap_loop :: "(u32 \<Rightarrow> u32) \<Rightarrow> bool \<Rightarrow> u32 \<Rightarrow> u32 \<Rightarrow> u32 \<Rightarrow> u32 \<Rightarrow> u32 \<Rightarrow> mem \<Rightarrow> (u32 \<times> mem) option" where
  "gap_loop bytes strict hi sz t cnt i m =
     (let nxt = block_ptr t (i + 1);
          b = block_base (block_ptr t i) m;
          n = block_size (block_ptr t i) m
      in if i < cnt - 1 then
           if strict \<and> b + bytes (n + sz) > hi then None
           else if b + bytes (n + sz) \<le> block_base nxt m then
             Some (b + bytes n, put_block nxt (b + bytes n) sz (memcpy (nxt + 8) nxt ((cnt - i) * 8) m))
           else gap_loop bytes strict hi sz t cnt (i + 1) m
         else if b + bytes (n + sz) > hi then None
         else Some (b + bytes n, put_block nxt (b + bytes n) sz m))"
  by pat_completeness auto
termination
  by (relation "measure (\<lambda>(bytes, strict, hi, sz, t, cnt, i, m). unat (cnt - 1) - unat i)")
    (simp_all add: count_up_measure del: One_nat_def)

declare gap_loop.simps [simp del]

fun gap_fit :: "(u32 \<Rightarrow> u32) \<Rightarrow> bool \<Rightarrow> u32 \<Rightarrow> u32 \<Rightarrow> run list \<Rightarrow> (u32 \<times> run list) option" where
  "gap_fit bytes strict hi sz [] = None"
| "gap_fit bytes strict hi sz ((b, n) # vs) =
     (case vs of
        [] \<Rightarrow> if b + bytes (n + sz) > hi then None
              else Some (b + bytes n, [(b, n), (b + bytes n, sz)])
      | (c, k) # _ \<Rightarrow>
          if strict \<and> b + bytes (n + sz) > hi then None
          else if b + bytes (n + sz) \<le> c then Some (b + bytes n, (b, n) # (b + bytes n, sz) # vs)
          else map_option (\<lambda>(r, zs). (r, (b, n) # zs)) (gap_fit bytes strict hi sz vs))"

lemma gap_fit_length: "gap_fit bytes strict hi sz vs = Some (r, zs) \<Longrightarrow> length zs = Suc (length vs)"
proof (induction vs arbitrary: zs)
  case (Cons v vs)
  obtain b n where v: "v = (b, n)" by (cases v)
  show ?case
  proof (cases vs)
    case Nil
    then show ?thesis
      using Cons.prems v by (auto split: if_splits)
  next
    case (Cons q ws)
    obtain c k where q: "q = (c, k)" by (cases q)
    have "zs = (b, n) # (b + bytes n, sz) # vs \<or> (\<exists>zs'. gap_fit bytes strict hi sz vs = Some (r, zs') \<and> zs = (b, n) # zs')"
      using Cons.prems v Cons q by (auto split: if_splits simp del: gap_fit.simps(2) [of _ _ _ _ c])
    then show ?thesis
      using Cons.IH by auto
  qed
qed simp

lemma memcpy_0 [simp]: "memcpy d d' 0 m = m"
  by (simp add: memcpy_def Let_def)

lemma put_block_base [simp]: "block_base p (put_block p b n m) = b"
proof -
  have "bytes_at p 4 \<inter> bytes_at (p + 4) 4 = {}"
    using bytes_at_ofs_disjoint [of 0 4 4 4 p] by (simp add: ofs_def)
  then show ?thesis
    by (simp add: block_base_def put_block_def set_block_base_def set_block_size_def
        load32_store32_other load32_store32_same)
qed

lemma word_of_length:
  assumes "j < 2 ^ 32" "k < 2 ^ 32"
  shows "(of_nat j :: u32) < of_nat k \<longleftrightarrow> j < k"
  using assms by (simp add: word_less_nat_alt unat_of_nat_small)

lemma gap_loop_next:
  assumes tab: "table m t (xs @ (b, n) # (c, k) # ys)" and room: "unat t + 8 * (length xs + length ys + 4) < 2 ^ 32"
    and cnt: "cnt = of_nat (length xs + length ys + 2)"
  shows "gap_loop bytes strict hi sz t cnt (of_nat (length xs)) m =
      (if strict \<and> b + bytes (n + sz) > hi then None
       else if b + bytes (n + sz) \<le> c then
         Some (b + bytes n, put_block (ofs t (8 * Suc (length xs))) (b + bytes n) sz
           (memcpy (ofs t (8 * Suc (length xs) + 8)) (ofs t (8 * Suc (length xs))) (of_nat (8 * (length ys + 2))) m))
       else gap_loop bytes strict hi sz t cnt (of_nat (Suc (length xs))) m)"
proof -
  note rd = table_read [OF tab, unfolded block_ptr_nat]
  have rd2: "block_base (ofs t (8 * Suc (length xs))) m = c"
    using table_read(1) [of m t "xs @ [(b, n)]" c k ys] tab unfolding block_ptr_nat by simp
  have "cnt - 1 = of_nat (length xs + Suc (length ys))"
    using cnt by simp
  then have lt: "of_nat (length xs) < cnt - 1"
    using room word_of_length [of "length xs" "length xs + Suc (length ys)"] by simp
  have cpy: "(cnt - of_nat (length xs)) * 8 = of_nat (8 * (length ys + 2))"
    using cnt by simp
  have nxt: "of_nat (length xs) + 1 = (of_nat (Suc (length xs)) :: u32)"
    by simp
  show ?thesis
    using rd rd2 lt
    by (subst gap_loop.simps) (simp only: Let_def nxt block_ptr_nat cpy ofs_simps if_True)
qed

lemma gap_loop_last:
  assumes tab: "table m t (xs @ [(b, n)])" and cnt: "cnt = of_nat (Suc (length xs))"
  shows "gap_loop bytes strict hi sz t cnt (of_nat (length xs)) m =
      (if b + bytes (n + sz) > hi then None
       else Some (b + bytes n, put_block (ofs t (8 * Suc (length xs))) (b + bytes n) sz m))"
proof -
  have nxt: "of_nat (length xs) + 1 = (of_nat (Suc (length xs)) :: u32)"
    by simp
  have "\<not> of_nat (length xs) < cnt - 1"
    using cnt by simp
  then show ?thesis
    using table_read [OF tab]
    by (subst gap_loop.simps) (simp only: Let_def nxt block_ptr_nat if_False)
qed

text \<open>The loop on memory computes \<open>gap_fit\<close>, and writes only to the table and one entry past it.\<close>

lemma gap_loop_fit:
  assumes "table m t (xs @ (b, n) # ys)" "unat t + 8 * (length xs + length ys + 3) < 2 ^ 32"
    and "cnt = of_nat (length xs + length ys + 1)"
  shows "case gap_fit bytes strict hi sz ((b, n) # ys) of
      None \<Rightarrow> gap_loop bytes strict hi sz t cnt (of_nat (length xs)) m = None
    | Some (r, zs) \<Rightarrow> \<exists>m'. gap_loop bytes strict hi sz t cnt (of_nat (length xs)) m = Some (r, m')
        \<and> table m' t (xs @ zs)
        \<and> (\<forall>x. x \<notin> bytes_at t (8 * (length xs + length ys + 3)) \<longrightarrow> m' x = m x)"
  using assms
proof (induction ys arbitrary: xs b n)
  case (Nil xs b n)
  let ?e = "b + bytes n" and ?p = "ofs t (8 * Suc (length xs))"
  have "table (put_block ?p ?e sz m) t (xs @ [(b, n), (?e, sz)])"
    "\<forall>x. x \<notin> bytes_at t (8 * (length xs + 3)) \<longrightarrow> put_block ?p ?e sz m x = m x"
    using table_insert [OF Nil(1), where j = "Suc (length xs)" and c = 0 and b = ?e and n = sz] Nil(2)
    by (auto simp: bytes_at_def)
  then show ?case
    using gap_loop_last [OF Nil(1), of cnt bytes strict hi sz] Nil(3) by auto
next
  case (Cons q ys xs b n)
  obtain c k where q: "q = (c, k)" by (cases q)
  let ?e = "b + bytes n" and ?p = "ofs t (8 * Suc (length xs))"
  let ?m = "put_block ?p ?e sz (memcpy (ofs t (8 * Suc (length xs) + 8)) ?p (of_nat (8 * (length ys + 2))) m)"
  have tab: "table m t (xs @ (b, n) # (c, k) # ys)" and room: "unat t + 8 * (length xs + length ys + 4) < 2 ^ 32"
    and cnt: "cnt = of_nat (length xs + length ys + 2)"
    using Cons.prems q by (simp_all add: algebra_simps)
  note loop = gap_loop_next [OF tab room cnt, of bytes strict hi sz]
  have "table ?m t (xs @ (b, n) # (?e, sz) # q # ys)"
    "\<forall>x. x \<notin> bytes_at t (8 * (length xs + length ys + 4)) \<longrightarrow> ?m x = m x"
    using table_insert [OF tab, where j = "Suc (length xs)" and c = "length ys + 2" and b = ?e and n = sz] room q
    by (simp_all add: algebra_simps)
  moreover have "case gap_fit bytes strict hi sz (q # ys) of
      None \<Rightarrow> gap_loop bytes strict hi sz t cnt (of_nat (length (xs @ [(b, n)]))) m = None
    | Some (r, zs) \<Rightarrow> \<exists>m'. gap_loop bytes strict hi sz t cnt (of_nat (length (xs @ [(b, n)]))) m = Some (r, m')
        \<and> table m' t ((xs @ [(b, n)]) @ zs)
        \<and> (\<forall>x. x \<notin> bytes_at t (8 * (length (xs @ [(b, n)]) + length ys + 3)) \<longrightarrow> m' x = m x)"
    unfolding q by (rule Cons.IH) (use tab room cnt in \<open>simp_all add: algebra_simps\<close>)
  ultimately show ?case
    using loop unfolding q
    by (cases "gap_fit bytes strict hi sz ((c, k) # ys)") (auto simp: algebra_simps simp del: gap_fit.simps(2) [of _ _ _ _ c])
qed


text \<open>
  First fit as both allocators do it: in front of the first block when the room there is enough, at
  the place that \<open>front\<close> computes from the base of the first block, or else in the first gap.
\<close>

definition region_fit :: "(u32 \<Rightarrow> u32) \<Rightarrow> (u32 \<Rightarrow> u32) \<Rightarrow> bool \<Rightarrow> u32 \<Rightarrow> u32 \<Rightarrow> u32 \<Rightarrow> run list \<Rightarrow> (u32 \<times> run list) option" where
  "region_fit bytes front strict lo hi sz vs =
     (if fst (hd vs) \<ge> lo + bytes sz then Some (front (fst (hd vs)), (front (fst (hd vs)), sz) # vs)
      else gap_fit bytes strict hi sz vs)"

section \<open>First fit keeps the regions apart and misses no place\<close>

text \<open>
  The unit of an allocator: \<open>bytes n\<close> is the length of a region of size \<open>n\<close> as the code computes it,
  a machine word, and \<open>len n\<close> its length as a number.
\<close>

locale region_unit =
  fixes bytes :: "u32 \<Rightarrow> u32" and len :: "u32 \<Rightarrow> nat"
  assumes bytes_end: "unat b + len n < 2 ^ 32 \<Longrightarrow> unat (b + bytes n) = unat b + len n"
    and len_add: "len n + len k < 2 ^ 32 \<Longrightarrow> len (n + k) = len n + len k"
    and len_pos: "0 < n \<Longrightarrow> 0 < len n"
begin

lemma bytes_fit:
  assumes "unat b + len n + len sz < 2 ^ 32"
  shows "unat (b + bytes (n + sz)) = unat b + len n + len sz"
  using bytes_end [of b "n + sz"] len_add [of n sz] assms by simp

lemma gap_fit_Some:
  assumes "gap_fit bytes strict hi sz vs = Some (r, zs)" "placed len lo (unat hi) vs"
    and "\<forall>(b, n) \<in> set vs. unat b + len n + len sz < 2 ^ 32"
  shows "\<exists>xs ys. vs = xs @ ys \<and> zs = xs @ (r, sz) # ys \<and> unat r = end_of len lo xs
    \<and> unat r + len sz \<le> start_of ys (unat hi)"
  using assms
proof (induction vs arbitrary: lo zs)
  case (Cons v vs)
  obtain b n where v: "v = (b, n)" by (cases v)
  have nw: "unat b + len n + len sz < 2 ^ 32"
    using Cons.prems(3) v by simp
  note fit = bytes_fit [OF nw]
  have e: "unat (b + bytes n) = unat b + len n"
    using bytes_end [of b n] nw by simp
  show ?case
  proof (cases vs)
    case Nil
    then have "r = b + bytes n" "zs = [(b, n), (r, sz)]" "\<not> b + bytes (n + sz) > hi"
      using Cons.prems(1) v by (auto split: if_splits)
    then show ?thesis
      using fit e Nil v
      by (intro exI [of _ "[(b, n)]"] exI [of _ "[]"]) (simp add: word_less_nat_alt)
  next
    case (Cons q ws)
    obtain c k where q: "q = (c, k)" by (cases q)
    have strict: "\<not> (strict \<and> b + bytes (n + sz) > hi)"
      using Cons.prems(1) v q Cons by (auto split: if_splits)
    show ?thesis
    proof (cases "b + bytes (n + sz) \<le> c")
      case True
      then have "r = b + bytes n" "zs = (b, n) # (r, sz) # vs"
        using Cons.prems(1) strict Cons v q by auto
      then show ?thesis
        using True fit e Cons q v
        by (intro exI [of _ "[(b, n)]"] exI [of _ vs]) (simp add: word_le_nat_alt)
    next
      case False
      then obtain zs' where zs: "gap_fit bytes strict hi sz vs = Some (r, zs')" "zs = (b, n) # zs'"
        using Cons.prems(1) strict Cons v q by auto
      have "\<exists>xs ys. vs = xs @ ys \<and> zs' = xs @ (r, sz) # ys \<and> unat r = end_of len (unat b + len n) xs
          \<and> unat r + len sz \<le> start_of ys (unat hi)"
        by (rule Cons.IH [OF zs(1)]) (use Cons.prems v in auto)
      then obtain xs ys where "vs = xs @ ys" "zs' = xs @ (r, sz) # ys"
        "unat r = end_of len (unat b + len n) xs" "unat r + len sz \<le> start_of ys (unat hi)"
        by blast
      then show ?thesis
        using zs(2) v by (intro exI [of _ "(b, n) # xs"] exI [of _ ys]) simp
    qed
  qed
qed simp

lemma gap_fit_None:
  assumes "gap_fit bytes strict hi sz vs = None" "placed len lo (unat hi) vs" "vs \<noteq> []" "0 < sz"
    and "\<forall>(b, n) \<in> set vs. 0 < n \<and> unat b + len n + len sz < 2 ^ 32"
    and "unat (fst (hd vs)) \<le> a" "a + len sz \<le> unat hi"
  shows "{a ..< a + len sz} \<inter> occupied len vs \<noteq> {}"
  using assms
proof (induction vs arbitrary: lo)
  case (Cons v vs)
  obtain b n where v: "v = (b, n)" by (cases v)
  have nw: "unat b + len n + len sz < 2 ^ 32" and n: "0 < len n" "0 < len sz"
    using Cons.prems(4,5) v len_pos by auto
  note fit = bytes_fit [OF nw]
  show ?case
  proof (cases "a < unat b + len n")
    case True
    then have "a \<in> cells len (b, n)" "a \<in> {a ..< a + len sz}"
      using Cons.prems(6) n v by (simp_all add: cells_def)
    then show ?thesis
      unfolding v occupied_simps by blast
  next
    case past: False
    then have hi: "\<not> b + bytes (n + sz) > hi"
      using Cons.prems(7) fit by (simp add: word_less_nat_alt)
    then obtain c k ws where vs: "vs = (c, k) # ws" and gap: "\<not> b + bytes (n + sz) \<le> c"
      using Cons.prems(1) v by (auto split: list.splits if_splits)
    then have none: "gap_fit bytes strict hi sz vs = None"
      using Cons.prems(1) hi v by simp
    show ?thesis
    proof (cases "a < unat c")
      case True
      have "0 < len k" "unat c < unat b + len n + len sz"
        using Cons.prems(5) gap fit vs len_pos by (auto simp: word_le_nat_alt)
      then have "unat c \<in> {a ..< a + len sz} \<inter> cells len (c, k)"
        using True past by (simp add: cells_def)
      then show ?thesis
        unfolding vs occupied_simps by blast
    next
      case False
      have "{a ..< a + len sz} \<inter> occupied len vs \<noteq> {}"
        by (rule Cons.IH [OF none, of "unat b + len n"]) (use Cons.prems v vs False in auto)
      then show ?thesis
        unfolding occupied_simps by blast
    qed
  qed
qed simp

lemma region_fit_Some:
  assumes fit: "region_fit bytes front strict lo hi sz vs = Some (r, zs)"
    and pl: "placed len (unat lo) (unat hi) vs" "vs \<noteq> []" and nw: "end_of len (unat lo) vs + len sz < 2 ^ 32"
    and front: "\<And>b. unat lo + len sz \<le> unat b \<Longrightarrow> unat lo \<le> unat (front b) \<and> unat (front b) + len sz \<le> unat b"
  shows "placed len (unat lo) (unat hi) zs" "set zs = insert (r, sz) (set vs)"
    "length zs = Suc (length vs)"
    "cells len (r, sz) \<inter> occupied len vs = {}" "cells len (r, sz) \<subseteq> {unat lo ..< unat hi}"
    "end_of len (unat lo) zs \<le> end_of len (unat lo) vs + len sz"
proof -
  have "\<exists>xs ys. vs = xs @ ys \<and> zs = xs @ (r, sz) # ys \<and> end_of len (unat lo) xs \<le> unat r
    \<and> unat r + len sz \<le> start_of ys (unat hi) \<and> unat r \<le> end_of len (unat lo) vs"
  proof (cases "fst (hd vs) \<ge> lo + bytes sz")
    case True
    obtain b n ws where vs: "vs = (b, n) # ws"
      using pl(2) by (cases vs) auto
    have "unat (lo + bytes sz) = unat lo + len sz"
      using bytes_end [of lo sz] nw placed_bounds [OF pl(1)] by simp
    then have "unat lo \<le> unat r" "unat r + len sz \<le> unat b" "zs = (r, sz) # vs"
      using True fit vs front [of b] by (auto simp: region_fit_def word_le_nat_alt)
    then show ?thesis
      using vs end_of_mem [OF pl(1), of b n]
      by (intro exI [of _ "[] :: run list"] exI [of _ vs] conjI) auto
  next
    case False
    then have "gap_fit bytes strict hi sz vs = Some (r, zs)"
      using fit by (simp add: region_fit_def)
    from gap_fit_Some [OF this pl(1)] no_wrap_all [OF pl(1) nw]
    obtain xs ys where "vs = xs @ ys" "zs = xs @ (r, sz) # ys" "unat r = end_of len (unat lo) xs"
      "unat r + len sz \<le> start_of ys (unat hi)"
      by blast
    moreover from this have "unat r \<le> end_of len (unat lo) vs"
      using pl(1) placed_bounds [of len "end_of len (unat lo) xs" "unat hi" ys]
      by (simp add: placed_append)
    ultimately show ?thesis by auto
  qed
  then obtain xs ys where v: "vs = xs @ ys" "zs = xs @ (r, sz) # ys" "end_of len (unat lo) xs \<le> unat r"
      "unat r + len sz \<le> start_of ys (unat hi)" "unat r \<le> end_of len (unat lo) vs"
    by blast
  show "placed len (unat lo) (unat hi) zs" "cells len (r, sz) \<inter> occupied len vs = {}"
    "cells len (r, sz) \<subseteq> {unat lo ..< unat hi}"
    using placed_insert [OF pl(1) [unfolded v(1)], of r sz] v by simp_all
  show "set zs = insert (r, sz) (set vs)" "length zs = Suc (length vs)"
    using v by auto
  show "end_of len (unat lo) zs \<le> end_of len (unat lo) vs + len sz"
    using v by (cases ys) auto
qed

lemma region_fit_None:
  assumes fit: "region_fit bytes front strict lo hi sz vs = None"
    and pl: "placed len (unat lo) (unat hi) vs" "vs \<noteq> []" and sz: "0 < sz"
    and nw: "end_of len (unat lo) vs + len sz < 2 ^ 32" and pos: "\<forall>(b, n) \<in> set vs. 0 < n"
    and a: "unat lo \<le> a" "a + len sz \<le> unat hi"
  shows "{a ..< a + len sz} \<inter> occupied len vs \<noteq> {}"
proof (cases "unat (fst (hd vs)) \<le> a")
  case True
  have "gap_fit bytes strict hi sz vs = None"
    using fit by (auto simp: region_fit_def split: if_splits)
  from gap_fit_None [OF this pl sz _ True a(2)] show ?thesis
    using no_wrap_all [OF pl(1) nw] pos by blast
next
  case False
  obtain b n ws where vs: "vs = (b, n) # ws"
    using pl(2) by (cases vs) auto
  have "unat (lo + bytes sz) = unat lo + len sz"
    using bytes_end [of lo sz] nw placed_bounds [OF pl(1)] by simp
  moreover have "\<not> b \<ge> lo + bytes sz"
    using fit vs by (auto simp: region_fit_def split: if_splits)
  ultimately have "unat b \<in> {a ..< a + len sz}"
    using False a(1) vs by (simp add: word_le_nat_alt)
  moreover have "unat b \<in> cells len (b, n)"
    using pos vs len_pos by (simp add: cells_def)
  ultimately show ?thesis
    unfolding vs occupied_simps by blast
qed

end

end
