(* ===== verification/VirtTable.thy ===== *)
theory VirtTable
  imports BlockTable PhysMem
begin

text \<open>
  The table of used regions of the current address space: \<open>add_virt_block\<close> and \<open>del_virt_block\<close> of
  \<open>memory_manager.c\<close>. The table is an array of blocks in memory, in ascending order;
  \<open>add_virt_block\<close> is a first fit into the gaps between the blocks. The abstract counterpart is
  \<open>virt_fit\<close> on the list of blocks, and \<open>virt_regions\<close> is the invariant of the table.
\<close>

section \<open>The operations\<close>

text \<open>\<open>p->base = base; p->size = sz; block_count += 1; return p->base\<close>\<close>

definition virt_enter :: "u32 \<Rightarrow> u32 \<Rightarrow> u32 \<Rightarrow> kernel \<Rightarrow> u32 \<times> kernel" where
  "virt_enter p base sz s =
     (let v = virt_memory (cur_space s);
          m = set_block_base p base (mem s);
          m = set_block_size p sz m
      in (block_base p m, set_cur_virt (v\<lparr>v_block_count := v_block_count v + 1\<rparr>) (s\<lparr>mem := m\<rparr>)))"

function add_virt_loop :: "u32 \<Rightarrow> u32 \<Rightarrow> kernel \<Rightarrow> u32 \<times> kernel" where
  "add_virt_loop sz i s =
     (let v = virt_memory (cur_space s);
          cur_block = block_ptr (v_blocks v) i;
          nxt_block = block_ptr (v_blocks v) (i + 1);
          cur_base = block_base cur_block (mem s);
          cur_size = block_size cur_block (mem s)
      in if i < v_block_count v - 1 then
           if cur_base + page_bytes (cur_size + sz) > as_end (cur_space s) then (NULL, s)
           else if cur_base + page_bytes (cur_size + sz) \<le> block_base nxt_block (mem s) then
             let s = s\<lparr>mem := memcpy (nxt_block + 8) nxt_block ((v_block_count v - i) * 8) (mem s)\<rparr>
             in virt_enter nxt_block (cur_base + page_bytes cur_size) sz s
           else add_virt_loop sz (i + 1) s
         else
           if cur_base + page_bytes (cur_size + sz) > as_end (cur_space s) then (NULL, s)
           else virt_enter nxt_block (cur_base + page_bytes cur_size) sz s)"
  by pat_completeness auto
termination
  by (relation "measure (\<lambda>(sz, i, s). unat (v_block_count (virt_memory (cur_space s)) - 1) - unat i)")
    (simp_all add: count_up_measure del: One_nat_def)

declare add_virt_loop.simps [simp del]

definition add_virt_block :: "u32 \<Rightarrow> kernel \<Rightarrow> u32 \<times> kernel" where
  "add_virt_block sz s =
     (let v = virt_memory (cur_space s);
          cur_block = block_ptr (v_blocks v) 0
      in if block_base cur_block (mem s) \<ge> as_start (cur_space s) + page_bytes sz then
           let s = s\<lparr>mem := memcpy (cur_block + 8) cur_block (v_block_count v * 8) (mem s)\<rparr>
           in virt_enter cur_block (as_start (cur_space s)) sz s
         else add_virt_loop sz 0 s)"

function del_virt_loop :: "u32 \<Rightarrow> u32 \<Rightarrow> kernel \<Rightarrow> u32 \<times> kernel" where
  "del_virt_loop base i s =
     (let v = virt_memory (cur_space s)
      in if i < v_block_count v then
           let cur_block = block_ptr (v_blocks v) i
           in if block_base cur_block (mem s) = base then
                let sz = block_size cur_block (mem s);
                    s = s\<lparr>mem := memcpy cur_block (cur_block + 8) ((v_block_count v - i) * 8) (mem s)\<rparr>
                in (sz, set_cur_virt (v\<lparr>v_block_count := v_block_count v - 1\<rparr>) s)
              else del_virt_loop base (i + 1) s
         else (0, s))"
  by pat_completeness auto
termination
  by (relation "measure (\<lambda>(base, i, s). unat (v_block_count (virt_memory (cur_space s))) - unat i)")
    (simp_all add: count_up_measure del: One_nat_def)

declare del_virt_loop.simps [simp del]

definition del_virt_block :: "u32 \<Rightarrow> kernel \<Rightarrow> u32 \<times> kernel" where
  "del_virt_block base s = del_virt_loop base 0 s"

section \<open>First fit on the list of blocks\<close>

text \<open>The length of a region of \<open>n\<close> pages in bytes.\<close>

definition virt_len :: "u32 \<Rightarrow> nat" where "virt_len n = unat n * 4096"

interpretation pages: region_unit page_bytes virt_len
proof
  show "unat b + virt_len n < 2 ^ 32 \<Longrightarrow> unat (b + page_bytes n) = unat b + virt_len n" for b n
    unfolding virt_len_def by (rule unat_block_end)
  fix n k :: u32 assume "virt_len n + virt_len k < 2 ^ 32"
  then have "unat (n + k) = unat n + unat k"
    by (intro unat_add_nowrap) (simp add: virt_len_def)
  then show "virt_len (n + k) = virt_len n + virt_len k"
    by (simp add: virt_len_def algebra_simps)
qed (simp add: virt_len_def word_less_nat_alt)

abbreviation virt_first_fit :: "u32 \<Rightarrow> u32 \<Rightarrow> u32 \<Rightarrow> run list \<Rightarrow> (u32 \<times> run list) option" where
  "virt_first_fit lo \<equiv> region_fit page_bytes (\<lambda>_. lo) True lo"

text \<open>Removal of the first block with a given base.\<close>

fun del_block :: "u32 \<Rightarrow> run list \<Rightarrow> (u32 \<times> run list) option" where
  "del_block base [] = None"
| "del_block base ((b, n) # vs) =
     (if b = base then Some (n, vs) else map_option (\<lambda>(k, zs). (k, (b, n) # zs)) (del_block base vs))"


section \<open>The table and the list\<close>

definition virt_ptr :: "kernel \<Rightarrow> u32" where "virt_ptr s = v_blocks (virt_memory (cur_space s))"

definition virt_table :: "kernel \<Rightarrow> run list \<Rightarrow> bool" where
  "virt_table s vs \<longleftrightarrow> v_block_count (virt_memory (cur_space s)) = of_nat (length vs)
     \<and> table (mem s) (virt_ptr s) vs"

text \<open>The table with \<open>k\<close> entries more does not reach the end of the address range.\<close>

definition virt_room :: "nat \<Rightarrow> kernel \<Rightarrow> run list \<Rightarrow> bool" where
  "virt_room k s vs \<longleftrightarrow> unat (virt_ptr s) + 8 * (length vs + 1 + k) < 2 ^ 32"

text \<open>An operation on a table of \<open>k\<close> entries changes \<open>block_count\<close> and the bytes of the table only.\<close>

definition virt_step :: "nat \<Rightarrow> kernel \<Rightarrow> kernel \<Rightarrow> bool" where
  "virt_step k s s' \<longleftrightarrow> (\<exists>m c. s' = set_cur_virt ((virt_memory (cur_space s))\<lparr>v_block_count := c\<rparr>) (s\<lparr>mem := m\<rparr>)
     \<and> (\<forall>x. x \<notin> bytes_at (virt_ptr s) (8 * k) \<longrightarrow> m x = mem s x))"

lemma virt_step_fields:
  assumes "virt_step k s s'"
  shows "virt_ptr s' = virt_ptr s" "as_start (address_space (cur_address_space s) s') = as_start (cur_space s)"
    "as_end (address_space (cur_address_space s) s') = as_end (cur_space s)" "page_dir (address_space (cur_address_space s) s') = page_dir (cur_space s)"
    "dynamic_memory (address_space (cur_address_space s) s') = dynamic_memory (cur_space s)"
    "v_table_size (virt_memory (address_space (cur_address_space s) s')) = v_table_size (virt_memory (cur_space s))"
    "x \<notin> bytes_at (virt_ptr s) (8 * k) \<Longrightarrow> mem s' x = mem s x"
    "phys s' = phys s" "cur_address_space s' = cur_address_space s"
    "free_page_count s' = free_page_count s" "free_phys_memory_pointer s' = free_phys_memory_pointer s"
    "syms s' = syms s" "idt s' = idt s" "idtr s' = idtr s" "tty_state s' = tty_state s" "kbd s' = kbd s"
    "port_in s' = port_in s" "in_count s' = in_count s" "out_log s' = out_log s"
  using assms by (auto simp: virt_step_def virt_ptr_def)

definition virt_put :: "mem \<Rightarrow> kernel \<Rightarrow> kernel" where
  "virt_put m s = set_cur_virt ((virt_memory (cur_space s))\<lparr>
     v_block_count := v_block_count (virt_memory (cur_space s)) + 1\<rparr>) (s\<lparr>mem := m\<rparr>)"

lemma virt_enter_put: "virt_enter p b sz (s\<lparr>mem := m\<rparr>) = (b, virt_put (put_block p b sz m) s)"
proof -
  have "set_block_size p sz (set_block_base p b m) = put_block p b sz m"
    by (simp add: put_block_def)
  then show ?thesis
    by (simp add: virt_enter_def virt_put_def Let_def)
qed

lemma virt_put_correct:
  assumes "virt_table s vs" "table m (virt_ptr s) zs" "length zs = Suc (length vs)"
    and "\<forall>x. x \<notin> bytes_at (virt_ptr s) (8 * k) \<longrightarrow> m x = mem s x"
  shows "virt_table (virt_put m s) zs" "virt_step k s (virt_put m s)"
proof -
  show "virt_table (virt_put m s) zs"
    using assms(1-3) by (simp add: virt_table_def virt_put_def virt_ptr_def)
  show "virt_step k s (virt_put m s)"
    using assms(4) unfolding virt_step_def virt_put_def by blast
qed

lemma virt_table_read:
  assumes "virt_table s (xs @ (b, n) # ys)"
  shows "block_base (ofs (virt_ptr s) (8 * length xs)) (mem s) = b"
    and "block_size (ofs (virt_ptr s) (8 * length xs)) (mem s) = n"
  using assms table_read [of "mem s" "virt_ptr s" xs b n ys] by (simp_all add: virt_table_def block_ptr_nat)

lemma virt_room_mono: "virt_room k s vs \<Longrightarrow> k' \<le> k \<Longrightarrow> virt_room k' s vs"
  by (simp add: virt_room_def)

lemma virt_step_mono:
  assumes "virt_step k s s'" "k \<le> k'" "8 * k' \<le> 2 ^ 32"
  shows "virt_step k' s s'"
proof -
  have "bytes_at (virt_ptr s) (8 * k) \<subseteq> bytes_at (virt_ptr s) (8 * k')"
    using assms(2) by (auto simp: bytes_at_def)
  then show ?thesis
    using assms(1) unfolding virt_step_def by blast
qed

section \<open>The code is first fit\<close>

lemma add_virt_loop_gap:
  "add_virt_loop sz i s =
     (case gap_loop page_bytes True (as_end (cur_space s)) sz (virt_ptr s)
         (v_block_count (virt_memory (cur_space s))) i (mem s) of
        None \<Rightarrow> (NULL, s) | Some (r, m) \<Rightarrow> (r, virt_put m s))"
proof (induction sz i s rule: add_virt_loop.induct)
  case (1 sz i s)
  show ?case
  proof (cases "i < v_block_count (virt_memory (cur_space s)) - 1")
    case True
    then show ?thesis
      using 1 [OF refl refl refl refl refl True] virt_enter_put
      by (subst add_virt_loop.simps, subst gap_loop.simps)
        (simp add: Let_def virt_ptr_def del: gap_fit.simps)
  next
    case False
    have "s = s\<lparr>mem := mem s\<rparr>" by simp
    with False show ?thesis
      using virt_enter_put [of _ _ sz "mem s" s]
      by (subst add_virt_loop.simps, subst gap_loop.simps) (simp add: Let_def virt_ptr_def)
  qed
qed

lemma add_virt_block_fit:
  assumes "virt_table s vs" "vs \<noteq> []" "virt_room 1 s vs"
  shows "case virt_first_fit (as_start (cur_space s)) (as_end (cur_space s)) sz vs of
      None \<Rightarrow> add_virt_block sz s = (NULL, s)
    | Some (r, zs) \<Rightarrow> \<exists>s'. add_virt_block sz s = (r, s') \<and> virt_table s' zs \<and> virt_step (length vs + 2) s s'"
proof -
  obtain b n ys where vs: "vs = (b, n) # ys"
    using assms(2) by (cases vs) auto
  have tab: "table (mem s) (virt_ptr s) ([] @ (b, n) # ys)"
    and cnt: "v_block_count (virt_memory (cur_space s)) = of_nat (length ([] :: run list) + length ys + 1)"
    and room: "unat (virt_ptr s) + 8 * (length ([] :: run list) + length ys + 3) < 2 ^ 32"
    using assms vs by (simp_all add: virt_table_def virt_room_def)
  have rd: "block_base (block_ptr (virt_ptr s) 0) (mem s) = b"
    using table_read(1) [OF tab] by simp
  have cpy: "v_block_count (virt_memory (cur_space s)) * 8 = of_nat (8 * length vs)"
    using cnt vs by simp
  let ?lo = "as_start (cur_space s)"
  have ptr0: "block_ptr (virt_ptr s) 0 = ofs (virt_ptr s) (8 * 0)" "ofs (virt_ptr s) (8 * 0) + 8 = ofs (virt_ptr s) (8 * 0 + 8)"
    by (simp_all add: block_ptr_def ofs_def)
  let ?m = "put_block (ofs (virt_ptr s) (8 * 0)) ?lo sz (memcpy (ofs (virt_ptr s) (8 * 0 + 8))
      (ofs (virt_ptr s) (8 * 0)) (of_nat (8 * length vs)) (mem s))"
  have add: "add_virt_block sz s = (if b \<ge> ?lo + page_bytes sz
      then (?lo, virt_put ?m s) else add_virt_loop sz (of_nat (length ([] :: run list))) s)"
    using rd unfolding add_virt_block_def Let_def virt_ptr_def [symmetric] ptr0 cpy
    by (simp add: virt_enter_put)
  show ?thesis
  proof (cases "b \<ge> ?lo + page_bytes sz")
    case True
    note ins = table_insert [OF tab, where j = 0 and c = "length vs" and b = ?lo and n = sz]
    have "table ?m (virt_ptr s) ((?lo, sz) # vs)"
      "\<forall>x. x \<notin> bytes_at (virt_ptr s) (8 * (length vs + 2)) \<longrightarrow> ?m x = mem s x"
      using ins room vs by (auto simp: bytes_at_def)
    from virt_put_correct [OF assms(1) this(1) _ this(2)] show ?thesis
      using True add vs by (simp add: region_fit_def)
  next
    case False
    note gap = gap_loop_fit [OF tab room cnt, of page_bytes True "as_end (cur_space s)" sz]
    have fit: "virt_first_fit ?lo (as_end (cur_space s)) sz vs = gap_fit page_bytes True (as_end (cur_space s)) sz vs"
      "add_virt_block sz s = add_virt_loop sz (of_nat (length ([] :: run list))) s"
      using False vs add by (simp_all add: region_fit_def)
    show ?thesis
    proof (cases "gap_fit page_bytes True (as_end (cur_space s)) sz vs")
      case None
      then show ?thesis
        using gap fit vs add_virt_loop_gap [of sz "of_nat (length ([] :: run list))" s] by simp
    next
      case (Some x)
      obtain r zs where x: "x = (r, zs)" by (cases x)
      obtain m' where m': "gap_loop page_bytes True (as_end (cur_space s)) sz (virt_ptr s)
          (v_block_count (virt_memory (cur_space s))) (of_nat (length ([] :: run list))) (mem s) = Some (r, m')"
        "table m' (virt_ptr s) zs"
        "\<forall>x. x \<notin> bytes_at (virt_ptr s) (8 * (length ([] :: run list) + length ys + 3)) \<longrightarrow> m' x = mem s x"
        using gap Some unfolding vs x by (auto simp del: gap_fit.simps)
      have "length ([] :: run list) + length ys + 3 = length vs + 2"
        using vs by simp
      note m'(3) [unfolded this]
      from virt_put_correct [OF assms(1) m'(2) _ this] gap_fit_length [OF Some [unfolded x]] show ?thesis
        using fit Some x m'(1) add_virt_loop_gap [of sz "of_nat (length ([] :: run list))" s] by simp
    qed
  qed
qed

lemma del_virt_loop_fit:
  assumes "virt_table s (xs @ ys)" "virt_room 0 s (xs @ ys)"
  shows "case del_block base ys of
      None \<Rightarrow> del_virt_loop base (of_nat (length xs)) s = (0, s)
    | Some (n, zs) \<Rightarrow> \<exists>s'. del_virt_loop base (of_nat (length xs)) s = (n, s') \<and> virt_table s' (xs @ zs)
        \<and> virt_step (length xs + length ys) s s'"
  using assms
proof (induction ys arbitrary: xs)
  case (Nil xs)
  then have "v_block_count (virt_memory (cur_space s)) = of_nat (length xs)"
    by (simp add: virt_table_def)
  then show ?case
    by (subst del_virt_loop.simps) (simp add: Let_def)
next
  case (Cons q ys xs)
  obtain b n where q: "q = (b, n)" by (cases q)
  note rd = virt_table_read [OF Cons(2) [unfolded q]]
  let ?vs = "xs @ q # ys" and ?v = "virt_memory (cur_space s)"
  have len: "8 * (length ?vs + 1) < 2 ^ 32"
    using Cons(3) by (simp add: virt_room_def)
  have cnt: "v_block_count ?v = of_nat (length ?vs)"
    using Cons(2) by (simp add: virt_table_def)
  have lt: "of_nat (length xs) < v_block_count ?v"
    unfolding cnt by (subst word_of_length) (use len in simp_all)
  have cpy: "(v_block_count ?v - of_nat (length xs)) * 8 = of_nat (8 * (length ?vs - length xs))"
    unfolding cnt by simp
  have nxt: "of_nat (length xs) + 1 = (of_nat (length (xs @ [q])) :: u32)"
    by simp
  let ?m = "memcpy (ofs (virt_ptr s) (8 * length xs)) (ofs (virt_ptr s) (8 * length xs + 8))
      (of_nat (8 * (length ?vs - length xs))) (mem s)"
  let ?s' = "set_cur_virt (?v\<lparr>v_block_count := v_block_count ?v - 1\<rparr>) (s\<lparr>mem := ?m\<rparr>)"
  have loop: "del_virt_loop base (of_nat (length xs)) s =
      (if b = base then (n, ?s') else del_virt_loop base (of_nat (length (xs @ [q]))) s)"
    using rd lt
    by (subst del_virt_loop.simps)
      (simp only: Let_def virt_ptr_def [symmetric] nxt block_ptr_nat cpy ofs_simps if_True)
  show ?case
  proof (cases "b = base")
    case True
    note del = table_delete [of "mem s" "virt_ptr s" ?vs "length xs"]
    have "virt_table ?s' (xs @ ys)"
      using del(1) Cons(2,3) cnt by (simp add: virt_table_def virt_ptr_def virt_room_def)
    moreover have "virt_step (length xs + length (q # ys)) s ?s'"
      using del(2) Cons(2,3) unfolding virt_step_def virt_table_def virt_room_def
      by (intro exI conjI) (rule refl, simp)
    ultimately show ?thesis
      using loop True q by auto
  next
    case False
    have "case del_block base ys of
        None \<Rightarrow> del_virt_loop base (of_nat (length (xs @ [q]))) s = (0, s)
      | Some (n, zs) \<Rightarrow> \<exists>s'. del_virt_loop base (of_nat (length (xs @ [q]))) s = (n, s')
          \<and> virt_table s' ((xs @ [q]) @ zs) \<and> virt_step (length (xs @ [q]) + length ys) s s'"
      by (rule Cons.IH) (use Cons(2,3) in simp_all)
    then show ?thesis
      using loop False q by (cases "del_block base ys") auto
  qed
qed


section \<open>Removal on the list\<close>

lemma del_block_None: "del_block base vs = None \<longleftrightarrow> base \<notin> fst ` set vs"
  by (induction base vs rule: del_block.induct) auto

lemma del_block_Some:
  "del_block base vs = Some (n, zs) \<Longrightarrow> \<exists>xs ys. vs = xs @ (base, n) # ys \<and> zs = xs @ ys"
proof (induction base vs arbitrary: zs rule: del_block.induct)
  case (2 base b k vs)
  show ?case
  proof (cases "b = base")
    case True
    then show ?thesis
      using 2(2) by (metis append_Nil del_block.simps(2) option.inject prod.inject)
  next
    case False
    then obtain zs' where "del_block base vs = Some (n, zs')" "zs = (b, k) # zs'"
      using 2(2) by auto
    with 2(1) [OF False this(1)] show ?thesis
      by (metis append_Cons)
  qed
qed simp

section \<open>The invariant of the table and its instance of the allocator contract\<close>

definition virt_regions :: "kernel \<Rightarrow> run list \<Rightarrow> bool" where
  "virt_regions s vs \<longleftrightarrow> virt_table s vs \<and> vs \<noteq> [] \<and> (\<forall>(b, n) \<in> set vs. 0 < n)
     \<and> placed virt_len (unat (as_start (cur_space s))) (unat (as_end (cur_space s))) vs"

abbreviation virt_end :: "kernel \<Rightarrow> run list \<Rightarrow> nat" where
  "virt_end s vs \<equiv> end_of virt_len (unat (as_start (cur_space s))) vs"

abbreviation virt_range :: "kernel \<Rightarrow> nat set" where
  "virt_range s \<equiv> {unat (as_start (cur_space s)) ..< unat (as_end (cur_space s))}"

lemma add_virt_block_cases:
  assumes "virt_regions s vs" "virt_room 1 s vs" "0 < sz" "virt_end s vs + virt_len sz < 2 ^ 32"
  obtains (full) "add_virt_block sz s = (NULL, s)"
      "\<And>a. unat (as_start (cur_space s)) \<le> a \<Longrightarrow> a + virt_len sz \<le> unat (as_end (cur_space s)) \<Longrightarrow>
        {a ..< a + virt_len sz} \<inter> occupied virt_len vs \<noteq> {}"
    | (added) r s' vs' where "add_virt_block sz s = (r, s')" "virt_regions s' vs'"
      "set vs' = insert (r, sz) (set vs)" "length vs' = Suc (length vs)"
      "virt_end s' vs' \<le> virt_end s vs + virt_len sz"
      "cells virt_len (r, sz) \<inter> occupied virt_len vs = {}"
      "cells virt_len (r, sz) \<subseteq> virt_range s" "virt_step (length vs + 2) s s'"
proof -
  have inv: "virt_table s vs" "vs \<noteq> []" "\<forall>(b, n) \<in> set vs. 0 < n"
    "placed virt_len (unat (as_start (cur_space s))) (unat (as_end (cur_space s))) vs"
    using assms(1) by (auto simp: virt_regions_def)
  note fit = add_virt_block_fit [OF inv(1,2) assms(2), of sz]
  show thesis
  proof (cases "virt_first_fit (as_start (cur_space s)) (as_end (cur_space s)) sz vs")
    case None
    then show thesis
      using fit pages.region_fit_None [OF None inv(4,2) assms(3,4) inv(3)] by (intro full) auto
  next
    case (Some x)
    then obtain r zs where x: "virt_first_fit (as_start (cur_space s)) (as_end (cur_space s)) sz vs = Some (r, zs)"
      by (cases x) auto
    note f = pages.region_fit_Some [OF x inv(4,2) assms(4), simplified]
    obtain s' where s': "add_virt_block sz s = (r, s')" "virt_table s' zs" "virt_step (length vs + 2) s s'"
      using fit x by auto
    note st = virt_step_fields [OF s'(3)]
    have "zs \<noteq> []"
      using f(3) by auto
    then have "virt_regions s' zs"
      using f(1,2) inv(3) s'(2) assms(3) by (auto simp: virt_regions_def st)
    then show thesis
      using f s' by (intro added) (simp_all add: st)
  qed
qed

lemma del_virt_block_cases:
  assumes "virt_regions s vs" "virt_room 0 s vs" "2 \<le> length vs"
  obtains (absent) "del_virt_block base s = (0, s)" "base \<notin> fst ` set vs"
    | (removed) n s' xs ys where "del_virt_block base s = (n, s')" "vs = xs @ (base, n) # ys"
      "virt_regions s' (xs @ ys)" "virt_end s' (xs @ ys) \<le> virt_end s vs" "virt_step (length vs) s s'"
proof -
  have inv: "virt_table s vs" "\<forall>(b, n) \<in> set vs. 0 < n"
    "placed virt_len (unat (as_start (cur_space s))) (unat (as_end (cur_space s))) vs"
    using assms(1) by (auto simp: virt_regions_def)
  have fit: "case del_block base vs of None \<Rightarrow> del_virt_block base s = (0, s)
    | Some (n, zs) \<Rightarrow> \<exists>s'. del_virt_block base s = (n, s') \<and> virt_table s' zs \<and> virt_step (length vs) s s'"
    using del_virt_loop_fit [of s "[]" vs base] inv(1) assms(2)
    by (simp add: del_virt_block_def split: option.splits prod.splits)
  show thesis
  proof (cases "del_block base vs")
    case None
    then show thesis
      using fit None del_block_None [of base vs] by (intro absent) simp_all
  next
    case (Some x)
    then obtain n zs where x: "del_block base vs = Some (n, zs)"
      by (cases x) auto
    then obtain s' where s': "del_virt_block base s = (n, s')" "virt_table s' zs" "virt_step (length vs) s s'"
      using fit by auto
    obtain xs ys where v: "vs = xs @ (base, n) # ys" "zs = xs @ ys"
      using del_block_Some [OF x] by blast
    note st = virt_step_fields [OF s'(3)]
    have "virt_regions s' (xs @ ys)"
      using inv placed_remove [of _ _ _ xs base n ys] s'(2) assms(3) v
      by (auto simp: virt_regions_def st)
    then show thesis
      using removed s' v end_of_remove [OF inv(3) [unfolded v(1)]] by (auto simp: st)
  qed
qed


definition virt_pool :: "nat \<Rightarrow> nat \<Rightarrow> kernel \<Rightarrow> nat set \<Rightarrow> bool" where
  "virt_pool M k s F \<longleftrightarrow> (\<exists>vs. virt_regions s vs \<and> virt_room k s vs \<and> 0 < as_start (cur_space s)
     \<and> virt_end s vs + k * M < 2 ^ 32 \<and> F = virt_range s - occupied virt_len vs)"

definition virt_live :: "kernel \<Rightarrow> run set" where
  "virt_live s = {r. \<exists>vs. virt_regions s vs \<and> r \<in> set vs \<and> 2 \<le> length vs \<and> length vs < 2 ^ 32}"

text \<open>The list of regions is a function of the state.\<close>

lemma table_unique:
  assumes "table m t vs" "table m t ws" "length vs = length ws"
  shows "vs = ws"
  using assms by (auto intro!: nth_equalityI prod_eqI simp: table_def)

lemma virt_regions_unique:
  assumes "virt_regions s vs" "virt_regions s ws" "length vs < 2 ^ 32" "length ws < 2 ^ 32"
  shows "vs = ws"
proof (rule table_unique)
  have "(of_nat (length vs) :: u32) = of_nat (length ws)"
    using assms(1,2) by (simp add: virt_regions_def virt_table_def)
  then show "length vs = length ws"
    using of_nat_eq_iff_32 assms(3,4) by blast
qed (use assms in \<open>auto simp: virt_regions_def virt_table_def\<close>)

interpretation virt_alloc: allocator "\<lambda>n s. Some (add_virt_block n s)" NULL "cells virt_len"
    "\<lambda>n. 0 < n \<and> virt_len n \<le> M" "virt_pool M" for M
proof
  fix k s F n
  assume "virt_pool M (Suc k) s F" and n: "0 < n \<and> virt_len n \<le> M"
  then obtain vs where v: "virt_regions s vs" "virt_room (Suc k) s vs" "0 < as_start (cur_space s)"
      "virt_end s vs + Suc k * M < 2 ^ 32" "F = virt_range s - occupied virt_len vs"
    by (auto simp: virt_pool_def)
  have "virt_room 1 s vs" "0 < n" "virt_end s vs + virt_len n < 2 ^ 32"
    using virt_room_mono [OF v(2), of 1] v(4) n by simp_all
  from v(1) this show "(\<exists>s'. Some (add_virt_block n s) = Some (NULL, s') \<and> virt_pool M k s' F)
    \<or> (\<exists>r s'. Some (add_virt_block n s) = Some (r, s') \<and> r \<noteq> NULL
        \<and> cells virt_len (r, n) \<subseteq> F \<and> virt_pool M k s' (F - cells virt_len (r, n)))"
  proof (cases rule: add_virt_block_cases [of s vs n])
    case full
    have "virt_pool M k s F"
      using v virt_room_mono [OF v(2), of k] unfolding virt_pool_def by (intro exI [of _ vs]) auto
    with full show ?thesis by simp
  next
    case (added r s' vs')
    note st = virt_step_fields [OF added(8)]
    have "r \<noteq> NULL"
    proof
      assume "r = NULL"
      then have "0 \<in> cells virt_len (r, n)"
        using n by (simp add: cells_def NULL_def virt_len_def word_less_nat_alt)
      with added(7) v(3) show False
        by (auto simp: word_less_nat_alt)
    qed
    moreover have "cells virt_len (r, n) \<subseteq> F"
      using added(6,7) v(5) by blast
    moreover have "virt_room k s' vs'"
      using v(2) added(4) by (simp add: virt_room_def st)
    moreover have "virt_end s' vs' + k * M < 2 ^ 32"
      using added(5) v(4) n by simp
    moreover have "F - cells virt_len (r, n) = virt_range s' - occupied virt_len vs'"
      using v(5) added(3) by (auto simp: occupied_def st)
    ultimately show ?thesis
      using added(1,2) v(3) unfolding virt_pool_def by (auto simp: st)
  qed
qed

interpretation virt_release: releasing_allocator "\<lambda>n s. Some (add_virt_block n s)" NULL "cells virt_len"
    "\<lambda>n. 0 < n \<and> virt_len n \<le> M" "virt_pool M" del_virt_block virt_live for M
proof
  fix k s F n r s'
  assume "virt_pool M (Suc k) s F" and n: "0 < n \<and> virt_len n \<le> M"
    and alloc: "Some (add_virt_block n s) = Some (r, s')" "r \<noteq> NULL"
  then obtain vs where v: "virt_regions s vs" "virt_room (Suc k) s vs" "virt_end s vs + Suc k * M < 2 ^ 32"
    by (auto simp: virt_pool_def)
  have "virt_room 1 s vs" "0 < n" "virt_end s vs + virt_len n < 2 ^ 32"
    using virt_room_mono [OF v(2), of 1] v(3) n by simp_all
  from v(1) this show "(r, n) \<in> virt_live s'"
  proof (cases rule: add_virt_block_cases [of s vs n])
    case (added r' t vs')
    moreover have "vs \<noteq> []"
      using v(1) by (simp add: virt_regions_def)
    moreover have "length vs' < 2 ^ 32"
      using v(2) added(4) by (simp add: virt_room_def)
    ultimately show ?thesis
      using alloc by (auto simp: virt_live_def Suc_le_eq)
  qed (use alloc in auto)
next
  fix k s F r n
  assume "virt_pool M k s F" "(r, n) \<in> virt_live s"
  then obtain vs ws where v: "virt_regions s vs" "virt_room k s vs" "0 < as_start (cur_space s)"
      "virt_end s vs + k * M < 2 ^ 32" "F = virt_range s - occupied virt_len vs"
    and w: "virt_regions s ws" "(r, n) \<in> set ws" "2 \<le> length ws" "length ws < 2 ^ 32"
    by (auto simp: virt_pool_def virt_live_def)
  have "vs = ws"
    by (rule virt_regions_unique [OF v(1) w(1) _ w(4)]) (use v(2) in \<open>simp add: virt_room_def\<close>)
  with w have mem: "(r, n) \<in> set vs" and two: "2 \<le> length vs"
    by simp_all
  have inv: "\<forall>(b, n) \<in> set vs. 0 < virt_len n"
    "placed virt_len (unat (as_start (cur_space s))) (unat (as_end (cur_space s))) vs"
    using v(1) by (auto simp: virt_regions_def virt_len_def word_less_nat_alt)
  from v(1) virt_room_mono [OF v(2), of 0, simplified] two
  show "\<exists>s'. del_virt_block r s = (n, s') \<and> virt_pool M k s' (F \<union> cells virt_len (r, n))"
  proof (cases rule: del_virt_block_cases [of s vs r])
    case absent
    with mem show ?thesis by force
  next
    case (removed n' s' xs ys)
    note st = virt_step_fields [OF removed(5)]
    have n': "n' = n"
      by (rule placed_base_unique [OF inv(2,1), of r]) (use removed(2) mem in simp_all)
    have sub: "cells virt_len (r, n) \<subseteq> virt_range s"
      using placed_occupied [OF inv(2)] mem by (auto simp: occupied_def)
    have "cells virt_len (r, n) \<inter> occupied virt_len (xs @ ys) = {}"
      using placed_disjoint [OF inv(2)] removed(2) n'
      by (auto simp: sorted_wrt_append occupied_def)
    then have "F \<union> cells virt_len (r, n) = virt_range s' - occupied virt_len (xs @ ys)"
      using v(5) removed(2) n' sub by (auto simp: st)
    moreover have "virt_room k s' (xs @ ys)" "virt_end s' (xs @ ys) + k * M < 2 ^ 32"
      using v(2,4) removed(2,4) by (simp_all add: virt_room_def st)
    ultimately show ?thesis
      using removed(1,3) v(3) n' unfolding virt_pool_def by (auto simp: st)
  qed
qed


section \<open>Properties of the table of regions\<close>

text \<open>Two regions, of 16 pages at \<open>0x80000000\<close> and of one page at \<open>0x80020000\<close>, table at \<open>0x80010000\<close>.\<close>

definition two_regions :: kernel where
  "two_regions = zero_kernel\<lparr>
     mem := store32 0x8001000C 1 (store32 0x80010008 0x80020000 (store32 0x80010004 16
       (store32 0x80010000 0x80000000 (\<lambda>_. 0)))),
     kernel_address_space := \<lparr>page_dir = 0x1000, as_start = KERNEL_ADDRESS_SPACE_START,
       as_end = KERNEL_ADDRESS_SPACE_END,
       virt_memory = \<lparr>v_block_count = 2, v_blocks = 0x80010000, v_table_size = 1\<rparr>,
       dynamic_memory = dynamic_memory zero_space\<rparr>\<rparr>"

lemma two_regions_simps [simp]:
  "as_start (cur_space two_regions) = 0x80000000" "as_end (cur_space two_regions) = 0xFFFFFFFF"
  "virt_memory (cur_space two_regions) = \<lparr>v_block_count = 2, v_blocks = 0x80010000, v_table_size = 1\<rparr>"
  by (simp_all add: two_regions_def zero_kernel_def address_space_def)

lemma two_regions_ok: "virt_regions two_regions [(0x80000000, 16), (0x80020000, 1)]"
  "virt_room 8 two_regions [(0x80000000, 16), (0x80020000, 1)]"
proof -
  have "load32 (mem two_regions) 0x80010000 = 0x80000000" "load32 (mem two_regions) 0x80010004 = 16"
    "load32 (mem two_regions) 0x80010008 = 0x80020000" "load32 (mem two_regions) 0x8001000C = 1"
    by (simp_all add: two_regions_def load32_def store32_def)
  then have "table (mem two_regions) 0x80010000 [(0x80000000, 16), (0x80020000, 1)]"
    by (simp add: table_def ofs_def nth_Cons split: nat.split)
  then show "virt_regions two_regions [(0x80000000, 16), (0x80020000, 1)]"
    "virt_room 8 two_regions [(0x80000000, 16), (0x80020000, 1)]"
    by (simp_all add: virt_regions_def virt_room_def virt_table_def virt_ptr_def virt_len_def)
qed

text \<open>
  C25: a request of positive size on a sound table with addresses for one entry more, where the end of the
  last region plus the size asked stays below \<open>2^32\<close>: \<open>add_virt_block\<close> either enters a region of the
  size asked, inside the address space and apart from all others, or answers \<open>NULL\<close> and changes
  nothing, and then no place of that size is free. Only \<open>block_count\<close> and bytes of the table (and one
  entry past its new end) change. (A larger request can wrap around, \<open>add_virt_block_wraps\<close>.)
\<close>

theorem add_virt_block_correct:
  assumes "virt_regions s vs" and "virt_room 1 s vs" and "0 < sz"
    and "virt_end s vs + virt_len sz < 2 ^ 32"
  shows "(add_virt_block sz s = (NULL, s)
      \<and> (\<forall>a. unat (as_start (cur_space s)) \<le> a \<and> a + virt_len sz \<le> unat (as_end (cur_space s)) \<longrightarrow>
           {a ..< a + virt_len sz} \<inter> occupied virt_len vs \<noteq> {}))
    \<or> (\<exists>r s' vs'. add_virt_block sz s = (r, s') \<and> virt_regions s' vs'
      \<and> set vs' = insert (r, sz) (set vs) \<and> cells virt_len (r, sz) \<inter> occupied virt_len vs = {}
      \<and> cells virt_len (r, sz) \<subseteq> virt_range s \<and> virt_step (length vs + 2) s s')"
  using assms
proof (cases rule: add_virt_block_cases)
  case full
  then show ?thesis by blast
next
  case (added r s' vs')
  then show ?thesis by blast
qed

theorem add_virt_block_correct_witness:
  "\<exists>r s' vs'. add_virt_block 0x10 two_regions = (r, s') \<and> virt_regions s' vs'
    \<and> set vs' = {(r, 0x10), (0x80000000, 16), (0x80020000, 1)}"
proof -
  have free: "{0x90000000 ..< 0x90000000 + virt_len 0x10}
      \<inter> occupied virt_len [(0x80000000, 16), (0x80020000, 1)] = {}"
    by (auto simp: cells_def virt_len_def)
  have "virt_room 1 two_regions [(0x80000000, 16), (0x80020000, 1)]"
    "0 < (0x10 :: u32)" "virt_end two_regions [(0x80000000, 16), (0x80020000, 1)] + virt_len 0x10 < 2 ^ 32"
    using two_regions_ok(2) by (simp_all add: virt_room_def virt_len_def)
  from add_virt_block_correct [OF two_regions_ok(1) this] show ?thesis
  proof (elim disjE conjE)
    assume "\<forall>a. unat (as_start (cur_space two_regions)) \<le> a \<and>
        a + virt_len 0x10 \<le> unat (as_end (cur_space two_regions)) \<longrightarrow>
        {a ..< a + virt_len 0x10} \<inter> occupied virt_len [(0x80000000, 16), (0x80020000, 1)] \<noteq> {}"
    from this [rule_format, of "0x90000000"] free show ?thesis
      by (simp add: virt_len_def)
  qed auto
qed

text \<open>
  \<open>del_virt_block\<close> on a table with at least two regions removes the region that starts at the
  address and answers its size, or changes nothing and answers 0 when no region starts there.
\<close>

theorem del_virt_block_correct:
  assumes "virt_regions s vs" and "virt_room 0 s vs" and "2 \<le> length vs"
  shows "(del_virt_block base s = (0, s) \<and> base \<notin> fst ` set vs)
    \<or> (\<exists>n s' vs'. del_virt_block base s = (n, s') \<and> (base, n) \<in> set vs \<and> virt_regions s' vs'
      \<and> occupied virt_len vs' = occupied virt_len vs - cells virt_len (base, n)
      \<and> virt_step (length vs) s s')"
  using assms
proof (cases rule: del_virt_block_cases [of s vs base])
  case (removed n s' xs ys)
  have "placed virt_len (unat (as_start (cur_space s))) (unat (as_end (cur_space s))) (xs @ (base, n) # ys)"
    using assms(1) removed(2) by (simp add: virt_regions_def)
  then have "occupied virt_len (xs @ ys) = occupied virt_len vs - cells virt_len (base, n)"
    using placed_disjoint removed(2) by (fastforce simp: sorted_wrt_append occupied_def)
  then show ?thesis
    using removed by (intro disjI2 exI [of _ n] exI [of _ s'] exI [of _ "xs @ ys"]) simp
qed blast

theorem del_virt_block_correct_witness:
  "\<exists>s' vs'. del_virt_block 0x80020000 two_regions = (1, s') \<and> virt_regions s' vs'"
proof -
  have room: "virt_room 0 two_regions [(0x80000000, 16), (0x80020000, 1)]"
    using two_regions_ok(2) by (simp add: virt_room_def)
  have "2 \<le> length [(0x80000000 :: u32, 16 :: u32), (0x80020000, 1)]"
    by simp
  from del_virt_block_correct [OF two_regions_ok(1) room this, of "0x80020000"] show ?thesis
    by auto
qed

text \<open>
  Entering a region and removing it again gives back exactly the free space there was.
\<close>

theorem add_del_virt_block:
  assumes "virt_pool M (Suc k) s F" and "0 < n" and "virt_len n \<le> M"
    and "add_virt_block n s = (r, s')" and "r \<noteq> NULL"
  shows "\<exists>s''. del_virt_block r s' = (n, s'') \<and> virt_pool M k s'' F"
  using virt_release.alloc_release [of M k s F n r s'] assms by simp

lemma two_regions_pool:
  "k \<le> 8 \<Longrightarrow> virt_pool 0x10000 k two_regions ({0x80000000 ..< 0xFFFFFFFF} - occupied virt_len [(0x80000000, 16), (0x80020000, 1)])"
  unfolding virt_pool_def using two_regions_ok virt_room_mono [OF two_regions_ok(2), of k]
  by (intro exI [of _ "[(0x80000000, 16), (0x80020000, 1)]"]) (simp add: virt_len_def)

theorem add_del_virt_block_witness:
  "\<exists>r s' s''. add_virt_block 16 two_regions = (r, s') \<and> (r \<noteq> NULL \<longrightarrow> del_virt_block r s' = (16, s''))"
proof -
  obtain r s' where a: "add_virt_block 16 two_regions = (r, s')"
    by (cases "add_virt_block 16 two_regions")
  have "Suc 3 \<le> 8" "(0 :: u32) < 16" "virt_len 16 \<le> 0x10000"
    by (simp_all add: virt_len_def)
  from add_del_virt_block [OF two_regions_pool [OF this(1)] this(2,3) a]
  have "\<exists>s''. r \<noteq> NULL \<longrightarrow> del_virt_block r s' = (16, s'')"
    by blast
  with a show ?thesis by blast
qed


text \<open>
  The regions that any sequence of requests gets are pairwise disjoint, lie in the free part of
  the address space, and make up what the free part loses.
\<close>

theorem add_virt_block_seq_disjoint:
  assumes "virt_pool M (length ns) s F" and "\<forall>n \<in> set ns. 0 < n \<and> virt_len n \<le> M"
  shows "\<exists>gs s'. alloc_seq (\<lambda>n s. Some (add_virt_block n s)) NULL ns s = Some (gs, s')
    \<and> sorted_wrt (\<lambda>g h. cells virt_len g \<inter> cells virt_len h = {}) gs
    \<and> occupied virt_len gs \<subseteq> F \<and> virt_pool M 0 s' (F - occupied virt_len gs)"
  using virt_alloc.grants_disjoint [OF assms]
  unfolding virt_alloc.granted_def occupied_def [symmetric] .

theorem add_virt_block_seq_disjoint_witness:
  "\<exists>gs s'. alloc_seq (\<lambda>n s. Some (add_virt_block n s)) NULL [1, 16, 2] two_regions = Some (gs, s')
    \<and> sorted_wrt (\<lambda>g h. cells virt_len g \<inter> cells virt_len h = {}) gs"
proof -
  have "length [1, 16, 2 :: u32] \<le> 8" "\<forall>n \<in> set [1, 16, 2]. 0 < n \<and> virt_len n \<le> 0x10000"
    by (simp_all add: virt_len_def)
  from add_virt_block_seq_disjoint [OF two_regions_pool [OF this(1)] this(2)] show ?thesis
    by blast
qed

text \<open>
  A request so large that the end of the candidate region wraps around passes the test against
  the end of the address space: the region is entered although it does not lie in it.
\<close>

theorem add_virt_block_wraps:
  assumes "virt_regions s [(b, n)]" and "virt_room 1 s [(b, n)]"
    and "b < as_start (cur_space s) + page_bytes sz" and "b + page_bytes (n + sz) \<le> as_end (cur_space s)"
    and "unat b + virt_len n + virt_len sz \<ge> 2 ^ 32"
  shows "\<exists>s'. add_virt_block sz s = (b + page_bytes n, s') \<and> virt_table s' [(b, n), (b + page_bytes n, sz)]
    \<and> \<not> cells virt_len (b + page_bytes n, sz) \<subseteq> virt_range s"
proof -
  have tab: "virt_table s [(b, n)]"
    and pl: "placed virt_len (unat (as_start (cur_space s))) (unat (as_end (cur_space s))) [(b, n)]"
    using assms(1) by (simp_all add: virt_regions_def)
  have "virt_first_fit (as_start (cur_space s)) (as_end (cur_space s)) sz [(b, n)]
      = Some (b + page_bytes n, [(b, n), (b + page_bytes n, sz)])"
    using assms(3,4) by (auto simp: region_fit_def dest: leD)
  with add_virt_block_fit [OF tab _ assms(2), of sz]
  have "\<exists>s'. add_virt_block sz s = (b + page_bytes n, s') \<and> virt_table s' [(b, n), (b + page_bytes n, sz)]"
    by auto
  moreover have e: "unat b + virt_len n \<le> unat (as_end (cur_space s))"
    using pl by simp
  then have "unat (b + page_bytes n) = unat b + virt_len n"
    unfolding virt_len_def by (subst unat_block_end) (use unat_le_32 [of "as_end (cur_space s)"] in \<open>simp_all del: unat_le_32\<close>)
  then have "0xFFFFFFFF \<in> cells virt_len (b + page_bytes n, sz)"
    using e assms(5) unat_le_32 [of "as_end (cur_space s)"] by (simp add: cells_def del: unat_le_32)
  moreover have "0xFFFFFFFF \<notin> virt_range s"
    using unat_le_32 [of "as_end (cur_space s)"] by (simp del: unat_le_32)
  ultimately show ?thesis by blast
qed

definition one_region :: kernel where
  "one_region = two_regions\<lparr>kernel_address_space :=
     (kernel_address_space two_regions)\<lparr>virt_memory := \<lparr>v_block_count = 1, v_blocks = 0x80010000, v_table_size = 1\<rparr>\<rparr>\<rparr>"

theorem add_virt_block_wraps_witness:
  "\<exists>s'. add_virt_block 0x7FFFF one_region = (0x80010000, s')"
proof -
  have cur: "as_start (cur_space one_region) = 0x80000000" "as_end (cur_space one_region) = 0xFFFFFFFF"
    "virt_memory (cur_space one_region) = \<lparr>v_block_count = 1, v_blocks = 0x80010000, v_table_size = 1\<rparr>"
    "mem one_region = mem two_regions"
    by (simp_all add: one_region_def two_regions_def zero_kernel_def address_space_def)
  have "table (mem two_regions) 0x80010000 [(0x80000000, 16)]"
    using two_regions_ok(1) by (auto simp: virt_regions_def virt_table_def virt_ptr_def table_def nth_Cons split: nat.splits)
  then have "virt_regions one_region [(0x80000000, 16)]" "virt_room 1 one_region [(0x80000000, 16)]"
    by (simp_all add: virt_regions_def virt_table_def virt_room_def virt_ptr_def virt_len_def cur)
  from add_virt_block_wraps [OF this, of "0x7FFFF"] show ?thesis
    by (simp add: cur virt_len_def) blast
qed

text \<open>What the loop copies when it does not append: the entry past the table goes to the one after it.\<close>

lemma gap_loop_copies:
  assumes "table m t (xs @ (b, n) # ys)" "unat t + 8 * (length xs + length ys + 3) < 2 ^ 32"
    and "cnt = of_nat (length xs + length ys + 1)"
    and "gap_loop bytes strict hi sz t cnt (of_nat (length xs)) m = Some (r, m')"
  shows "r = fst (last ((b, n) # ys)) + bytes (snd (last ((b, n) # ys)))
    \<or> (\<forall>a \<in> {0, 4}. load32 m' (ofs t (8 * (length xs + length ys + 2) + a)) = load32 m (ofs t (8 * (length xs + length ys + 1) + a)))"
  using assms
proof (induction ys arbitrary: xs b n)
  case (Nil xs b n)
  then show ?case
    using gap_loop_last [OF Nil(1), of cnt bytes strict hi sz] by (auto split: if_splits)
next
  case (Cons q ys xs b n)
  obtain c k where q: "q = (c, k)" by (cases q)
  let ?e = "b + bytes n" and ?p = "ofs t (8 * Suc (length xs))" and ?N = "length xs + length ys"
  let ?m = "memcpy (ofs t (8 * Suc (length xs) + 8)) ?p (of_nat (8 * (length ys + 2))) m"
  have tab: "table m t (xs @ (b, n) # (c, k) # ys)" and room: "unat t + 8 * (length xs + length ys + 4) < 2 ^ 32"
    and cnt: "cnt = of_nat (length xs + length ys + 2)"
    using Cons.prems q by (simp_all add: algebra_simps)
  from Cons.prems(4) [unfolded gap_loop_next [OF tab room cnt]]
  consider "m' = put_block ?p ?e sz ?m" | "gap_loop bytes strict hi sz t cnt (of_nat (length (xs @ [(b, n)]))) m = Some (r, m')"
    by (auto split: if_splits)
  then show ?case
  proof cases
    case 1
    have u: "unat (of_nat (8 * (length ys + 2)) :: u32) = 8 * (length ys + 2)"
      by (rule unat_of_nat_small) (use room in simp)
    have "?m = moved (ofs ?p 8) ?p 0 (8 * (length ys + 2)) m"
      unfolding ofs_simps by (subst memcpy_moved, unfold u, (subst unat_ofs; use room in simp)+) simp
    moreover have "load32 (moved (ofs ?p 8) ?p 0 (8 * (length ys + 2)) m) (ofs (ofs ?p 8) (8 * (length ys + 1) + a))
        = load32 m (ofs ?p (8 * (length ys + 1) + a))" if "a \<le> 4" for a
      by (rule load32_moved) (use that room in auto)
    ultimately have "load32 ?m (ofs t (8 * (?N + 3) + a)) = load32 m (ofs t (8 * (?N + 2) + a))" if "a \<le> 4" for a
      using that by (simp add: ofs_simps algebra_simps)
    from this [of 0] this [of 4]
    have "load32 m' (ofs t (8 * (?N + 3))) = load32 m (ofs t (8 * (?N + 2)))"
      "load32 m' (ofs t (8 * (?N + 3) + 4)) = load32 m (ofs t (8 * (?N + 2) + 4))"
      unfolding 1 using room put_block_load [of "?N + 3" "Suc (length xs)" t ?e sz ?m] by auto
    then show ?thesis by (simp add: algebra_simps)
  next
    case 2
    have "r = fst (last ((c, k) # ys)) + bytes (snd (last ((c, k) # ys)))
      \<or> (\<forall>a \<in> {0, 4}. load32 m' (ofs t (8 * (length (xs @ [(b, n)]) + length ys + 2) + a))
        = load32 m (ofs t (8 * (length (xs @ [(b, n)]) + length ys + 1) + a)))"
      by (rule Cons.IH [OF _ _ _ 2]) (use tab room cnt in \<open>simp_all add: algebra_simps\<close>)
    then show ?thesis
      by (simp add: q algebra_simps)
  qed
qed

lemma end_of_last: "vs \<noteq> [] \<Longrightarrow> end_of len lo vs = unat (fst (last vs)) + len (snd (last vs))"
  by (induction vs arbitrary: lo rule: rev_induct) auto

text \<open>
  C39: entering a region between two others of a sound table copies one entry too many. Whatever the
  gap, after the call the table has one entry more, and the two words of the entry past its new end
  have been overwritten with those that were past its old end; when the table fills its pages but
  for one entry, these eight bytes lie outside its memory.
\<close>

theorem add_virt_block_writes_past_table:
  assumes "virt_regions s vs" and "virt_room 1 s vs" and "add_virt_block sz s = (r, s')"
    and "(b, n) \<in> set vs" and "b < r" and "(c, k) \<in> set vs" and "r < c"
  shows "v_block_count (virt_memory (cur_space s')) = of_nat (length vs + 1)
    \<and> load32 (mem s') (ofs (virt_ptr s) (8 * (length vs + 1))) = load32 (mem s) (ofs (virt_ptr s) (8 * length vs))
    \<and> load32 (mem s') (ofs (virt_ptr s) (8 * (length vs + 1) + 4)) = load32 (mem s) (ofs (virt_ptr s) (8 * length vs + 4))"
proof -
  have inv: "virt_table s vs" "vs \<noteq> []" "placed virt_len (unat (as_start (cur_space s))) (unat (as_end (cur_space s))) vs"
    using assms(1) by (auto simp: virt_regions_def)
  obtain b0 n0 ys where vs: "vs = (b0, n0) # ys"
    using inv(2) by (cases vs) auto
  have start: "as_start (cur_space s) < r"
    using end_of_mem [OF inv(3) assms(4)] assms(5) by (simp add: word_less_nat_alt)
  have "block_base (block_ptr (virt_ptr s) 0) (mem s) = b0"
    using virt_table_read(1) [of s "[]" b0 n0 ys] inv(1) vs by (simp add: block_ptr_def ofs_simps)
  then have loop: "add_virt_loop sz 0 s = (r, s')"
    using assms(3) start unfolding add_virt_block_def Let_def virt_ptr_def [symmetric]
    by (auto simp: virt_enter_put split: if_splits)
  have "r \<noteq> NULL"
    using start by (auto simp: NULL_def)
  then obtain m' where m': "gap_loop page_bytes True (as_end (cur_space s)) sz (virt_ptr s)
      (v_block_count (virt_memory (cur_space s))) (of_nat (length ([] :: run list))) (mem s) = Some (r, m')" "s' = virt_put m' s"
    using loop unfolding add_virt_loop_gap by (auto split: option.splits)
  have tab: "table (mem s) (virt_ptr s) ([] @ (b0, n0) # ys)"
    and cnt: "v_block_count (virt_memory (cur_space s)) = of_nat (length ([] :: run list) + length ys + 1)"
    and room: "unat (virt_ptr s) + 8 * (length ([] :: run list) + length ys + 3) < 2 ^ 32"
    using inv(1) assms(2) vs by (simp_all add: virt_table_def virt_room_def)
  have "unat (fst (last vs)) + virt_len (snd (last vs)) \<le> unat (as_end (cur_space s))"
    using placed_bounds [OF inv(3)] end_of_last [OF inv(2)] by simp
  then have "unat (fst (last vs) + page_bytes (snd (last vs))) = end_of virt_len (unat (as_start (cur_space s))) vs"
    using pages.bytes_end [of "fst (last vs)" "snd (last vs)"] unat_less_32 [of "as_end (cur_space s)"] end_of_last [OF inv(2)]
    by simp
  then have "r \<noteq> fst (last vs) + page_bytes (snd (last vs))"
    using end_of_mem [OF inv(3) assms(6)] assms(7) by (auto simp: word_less_nat_alt)
  then have "\<forall>a \<in> {0, 4}. load32 m' (ofs (virt_ptr s) (8 * (length vs + 1) + a)) = load32 (mem s) (ofs (virt_ptr s) (8 * length vs + a))"
    using gap_loop_copies [OF tab room cnt m'(1)] vs by (simp add: algebra_simps)
  moreover have "v_block_count (virt_memory (cur_space s')) = of_nat (length vs + 1)"
    using cnt vs by (simp add: m'(2) virt_put_def)
  ultimately show ?thesis
    by (simp add: m'(2) virt_put_def)
qed

text \<open>
  Three regions of one page, with a gap below the third; the two words past the table are 7 and 9,
  and two entries past its old end there is 0. After the call the words 7 and 9 are there.
\<close>

definition three_regions :: kernel where
  "three_regions = two_regions\<lparr>mem := store32 0x8001001C 9 (store32 0x80010018 7 (store32 0x80010014 1 (store32 0x80010010 0x80020000
     (store32 0x8001000C 1 (store32 0x80010008 0x80001000 (store32 0x80010004 1 (store32 0x80010000 0x80000000 (\<lambda>_. 0))))))))
     ,kernel_address_space := (kernel_address_space two_regions)\<lparr>virt_memory := \<lparr>v_block_count = 3, v_blocks = 0x80010000, v_table_size = 1\<rparr>\<rparr>\<rparr>"

theorem add_virt_block_writes_past_table_witness:
  "load32 (mem three_regions) 0x80010020 = 0 \<and> load32 (mem three_regions) 0x80010024 = 0
    \<and> load32 (mem (snd (add_virt_block 2 three_regions))) 0x80010020 = 7
    \<and> load32 (mem (snd (add_virt_block 2 three_regions))) 0x80010024 = 9"
proof -
  let ?vs = "[(0x80000000, 1), (0x80001000, 1), (0x80020000, 1)] :: run list"
  have c: "as_start (cur_space three_regions) = 0x80000000" "as_end (cur_space three_regions) = 0xFFFFFFFF"
      "virt_memory (cur_space three_regions) = \<lparr>v_block_count = 3, v_blocks = 0x80010000, v_table_size = 1\<rparr>"
    by (simp_all add: three_regions_def two_regions_def zero_kernel_def address_space_def)
  have l: "load32 (mem three_regions) 0x80010000 = 0x80000000" "load32 (mem three_regions) 0x80010004 = 1"
      "load32 (mem three_regions) 0x80010008 = 0x80001000" "load32 (mem three_regions) 0x8001000C = 1"
      "load32 (mem three_regions) 0x80010010 = 0x80020000" "load32 (mem three_regions) 0x80010014 = 1"
      "load32 (mem three_regions) 0x80010018 = 7" "load32 (mem three_regions) 0x8001001C = 9"
      "load32 (mem three_regions) 0x80010020 = 0" "load32 (mem three_regions) 0x80010024 = 0"
    by (simp_all add: three_regions_def load32_def store32_def)
  then have "table (mem three_regions) 0x80010000 ?vs"
    by (simp add: table_def ofs_def nth_Cons split: nat.split)
  then have ok: "virt_regions three_regions ?vs" "virt_room 1 three_regions ?vs"
    by (simp_all add: virt_regions_def virt_room_def virt_table_def virt_ptr_def virt_len_def c)
  have "fst (add_virt_block 2 three_regions) = 0x80002000"
    using add_virt_block_fit [of three_regions ?vs 2] ok by (auto simp: virt_regions_def region_fit_def c)
  then have "add_virt_block 2 three_regions = (0x80002000, snd (add_virt_block 2 three_regions))"
    by (metis prod.collapse)
  from add_virt_block_writes_past_table [OF ok this, of "0x80001000" 1 "0x80020000" 1] show ?thesis
    using l by (simp add: virt_ptr_def c ofs_def)
qed

end
