(* ===== verification/VirtMem.thy ===== *)
theory VirtMem
  imports Paging VirtTable
begin

text \<open>
  \<open>alloc_virt_pages\<close> and \<open>free_virt_pages\<close> of \<open>memory_manager.c\<close>: a region of the current address
  space is entered in the table of regions and its pages are mapped, one \<open>map_pages\<close> call each, to
  a given physical range or to fresh pages. The table itself grows and shrinks by whole pages.
\<close>

section \<open>The operations\<close>

text \<open>\<open>for (i = 0; i < count; i++) map_pages(vaddr + i * PAGE_SIZE, alloc_phys_pages(1), 1, flags)\<close>\<close>

definition map_fresh_pages :: "u32 \<Rightarrow> u32 \<Rightarrow> u32 \<Rightarrow> kernel \<Rightarrow> kernel option" where
  "map_fresh_pages vaddr count flags =
     for_opt (unat count) (\<lambda>i s. do {
       (page, s) \<leftarrow> alloc_phys_pages 1 s;
       (ok, s) \<leftarrow> map_pages (vaddr + of_nat i * PAGE_SIZE) page 1 flags s;
       Some s
     })"

definition map_given_pages :: "u32 \<Rightarrow> u32 \<Rightarrow> u32 \<Rightarrow> u32 \<Rightarrow> kernel \<Rightarrow> kernel option" where
  "map_given_pages vaddr paddr count flags =
     for_opt (unat count) (\<lambda>i s. do {
       (ok, s) \<leftarrow> map_pages (vaddr + of_nat i * PAGE_SIZE) (paddr + of_nat i * PAGE_SIZE) 1 flags s;
       Some s
     })"

text \<open>\<open>for (i = 0; i < count; i++) free_phys_pages(get_physaddr(vaddr + i * PAGE_SIZE), 1)\<close>\<close>

definition free_mapped_pages :: "u32 \<Rightarrow> u32 \<Rightarrow> kernel \<Rightarrow> kernel option" where
  "free_mapped_pages vaddr count =
     for_opt (unat count) (\<lambda>i s.
       let (page, s) = get_physaddr (vaddr + of_nat i * PAGE_SIZE) s
       in free_phys_pages page 1 s)"

definition set_virt_table_size :: "u32 \<Rightarrow> kernel \<Rightarrow> kernel" where
  "set_virt_table_size n s = set_cur_virt ((virt_memory (cur_space s))\<lparr>v_table_size := n\<rparr>) s"

definition set_virt_blocks :: "u32 \<Rightarrow> kernel \<Rightarrow> kernel" where
  "set_virt_blocks p s = set_cur_virt ((virt_memory (cur_space s))\<lparr>v_blocks := p\<rparr>) s"

abbreviation virt_table_size :: "kernel \<Rightarrow> u32" where
  "virt_table_size s \<equiv> v_table_size (virt_memory (cur_space s))"

definition virt_grow_table :: "kernel \<Rightarrow> kernel option" where
  "virt_grow_table s =
     (let old_table = v_blocks (virt_memory (cur_space s));
          (_, s) = del_virt_block old_table s;
          s = set_virt_table_size (virt_table_size s + 1) s;
          (new_table, s) = add_virt_block (virt_table_size s) s
      in do {
        s \<leftarrow> map_fresh_pages new_table (virt_table_size s) 0xfff s;
        let s = s\<lparr>mem := memcpy new_table old_table (page_bytes (virt_table_size s - 1)) (mem s)\<rparr>;
        s \<leftarrow> free_mapped_pages old_table (virt_table_size s - 1) s;
        (_, s) \<leftarrow> unmap_pages old_table (virt_table_size s - 1) s;
        Some (set_virt_blocks new_table s)
      })"

definition alloc_virt_pages :: "u32 \<Rightarrow> u32 \<Rightarrow> u32 \<Rightarrow> u32 \<Rightarrow> kernel \<Rightarrow> (u32 \<times> kernel) option" where
  "alloc_virt_pages vaddr paddr count flags s =
     do {
       s \<leftarrow> (if (v_block_count (virt_memory (cur_space s)) + 1) * 8 > page_bytes (virt_table_size s)
            then virt_grow_table s else Some s);
       let (vaddr, s) = (if vaddr = NULL then add_virt_block count s else (vaddr, s));
       s \<leftarrow> (if paddr = - 1 then map_fresh_pages vaddr count flags s
            else map_given_pages vaddr paddr count flags s);
       Some (vaddr, s)
     }"

text \<open>
  In \<open>blocks + (table_size - 1) * PAGE_SIZE\<close> the pointer is to blocks of eight bytes, so the address
  is \<open>8 * (table_size - 1)\<close> pages above the table.
\<close>

definition virt_shrink_table :: "kernel \<Rightarrow> kernel option" where
  "virt_shrink_table s =
     (let last = block_ptr (v_blocks (virt_memory (cur_space s))) ((virt_table_size s - 1) * PAGE_SIZE);
          (page, s) = get_physaddr last s
      in do {
        s \<leftarrow> free_phys_pages page 1 s;
        (_, s) \<leftarrow> unmap_pages (block_ptr (v_blocks (virt_memory (cur_space s)))
          ((virt_table_size s - 1) * PAGE_SIZE)) 1 s;
        let (_, s) = del_virt_block (v_blocks (virt_memory (cur_space s))) s;
        let s = set_virt_table_size (virt_table_size s - 1) s;
        Some (snd (add_virt_block (virt_table_size s) s))
      })"

definition free_virt_pages :: "u32 \<Rightarrow> kernel \<Rightarrow> (u32 \<times> kernel) option" where
  "free_virt_pages vaddr s =
     do {
       let (count, s) = del_virt_block vaddr s;
       s \<leftarrow> free_mapped_pages vaddr count s;
       (_, s) \<leftarrow> unmap_pages vaddr count s;
       s \<leftarrow> (if page_bytes (virt_table_size s) - v_block_count (virt_memory (cur_space s)) * 8 \<ge> PAGE_SIZE
            then virt_shrink_table s else Some s);
       Some (count, s)
     }"


section \<open>The loops that map page by page\<close>

definition drained :: "u32 \<Rightarrow> kernel \<Rightarrow> bool" where
  "drained dir s \<longleftrightarrow> paging_inv dir s []"

lemma no_pages_no_runs:
  assumes "runs_ok bs" "free_pages bs = {}"
  shows "bs = []"
proof (rule ccontr)
  assume "bs \<noteq> []"
  then obtain b n where bn: "(b, n) \<in> set bs"
    by (cases bs) auto
  then have "run_ok (b, n)"
    using assms(1) by (auto simp: runs_ok_def)
  from page_no_run [OF this] show False
    using bn assms(2) by (auto simp: free_pages_def simp del: run_pages_simp)
qed

lemma paging_inv_no_pages: "paging_inv dir s bs \<Longrightarrow> free_pages bs = {} \<Longrightarrow> drained dir s"
  using no_pages_no_runs phys_inv_runs_ok by (auto simp: drained_def paging_inv_def)

lemma map_one:
  assumes "paging_inv dir s bs" "page_dir (cur_space s) = dir"
  shows "(\<exists>s' bs'. map_pages va pa 1 flags s = Some (True, s') \<and> phys_only s s'
      \<and> paging_inv dir s' bs' \<and> free_pages bs' \<subseteq> free_pages bs
      \<and> pte dir s' va = Some (frame pa OR flags)
      \<and> (\<forall>vb. drop_bit 12 vb \<noteq> drop_bit 12 va \<longrightarrow> pte dir s vb \<noteq> None \<longrightarrow> pte dir s' vb = pte dir s vb))
    \<or> (\<exists>s'. map_pages va pa 1 flags s = Some (False, s') \<and> phys_only s s' \<and> bs = []
      \<and> paging_inv dir s' bs \<and> (\<forall>vb. pte dir s' vb = pte dir s vb))"
  using map_page_step [OF assms(1), of flags va pa] assms(2)
  by (elim disjE exE conjE) (auto simp: map_pages_def)

text \<open>
  After the first \<open>i\<close> pages: entry \<open>j\<close> is for page \<open>ps ! j\<close>, unless free memory has run out; entries
  outside the range are as they were.
\<close>

definition mapped_upto :: "u32 \<Rightarrow> u32 \<Rightarrow> u32 \<Rightarrow> u32 list \<Rightarrow> kernel \<Rightarrow> nat \<Rightarrow> kernel \<Rightarrow> run list \<Rightarrow> bool" where
  "mapped_upto dir va flags ps s i t bs \<longleftrightarrow> phys_only s t \<and> paging_inv dir t bs
     \<and> (bs = [] \<or> (\<forall>j < i. pte dir t (va + of_nat j * PAGE_SIZE) = Some (frame (ps ! j) OR flags)))
     \<and> (\<forall>vb. (\<forall>j < i. drop_bit 12 vb \<noteq> drop_bit 12 (va + of_nat j * PAGE_SIZE)) \<longrightarrow>
          pte dir s vb \<noteq> None \<longrightarrow> pte dir t vb = pte dir s vb)"

lemma page_distinct:
  assumes "j < i" "i < 2 ^ 20"
  shows "drop_bit 12 (va + of_nat j * PAGE_SIZE) \<noteq> drop_bit 12 (va + of_nat i * PAGE_SIZE :: u32)"
proof -
  have "va + of_nat i * PAGE_SIZE = va + of_nat j * PAGE_SIZE + of_nat (i - j) * PAGE_SIZE"
    using assms(1) by (simp add: of_nat_diff algebra_simps)
  moreover have "0 < i - j" "i - j < 2 ^ 20"
    using assms by simp_all
  ultimately show ?thesis
    using page_no_add [of "i - j" "va + of_nat j * PAGE_SIZE"] by simp
qed

lemma mapped_upto_Suc:
  assumes up: "mapped_upto dir va flags ps s i t bs" and i: "i < 2 ^ 20"
    and dir: "page_dir (cur_space s) = dir" and pa: "pa = ps ! i"
  shows "\<exists>ok t' bs'. map_pages (va + of_nat i * PAGE_SIZE) pa 1 flags t = Some (ok, t')
    \<and> mapped_upto dir va flags ps s (Suc i) t' bs' \<and> free_pages bs' \<subseteq> free_pages bs"
proof -
  have inv: "paging_inv dir t bs" and po: "phys_only s t"
    using up by (simp_all add: mapped_upto_def)
  have "page_dir (cur_space t) = dir"
    using dir phys_only_fields(1) [OF po] by simp
  from map_one [OF inv this, of "va + of_nat i * PAGE_SIZE" pa flags] show ?thesis
  proof (elim disjE exE conjE)
    fix t' bs'
    assume m: "map_pages (va + of_nat i * PAGE_SIZE) pa 1 flags t = Some (True, t')" "phys_only t t'"
      "paging_inv dir t' bs'" "free_pages bs' \<subseteq> free_pages bs"
      "pte dir t' (va + of_nat i * PAGE_SIZE) = Some (frame pa OR flags)"
      "\<forall>vb. drop_bit 12 vb \<noteq> drop_bit 12 (va + of_nat i * PAGE_SIZE) \<longrightarrow> pte dir t vb \<noteq> None \<longrightarrow>
        pte dir t' vb = pte dir t vb"
    have "bs' = [] \<or> (\<forall>j < Suc i. pte dir t' (va + of_nat j * PAGE_SIZE) = Some (frame (ps ! j) OR flags))"
    proof (cases "bs = []")
      case True
      then have "free_pages bs' = {}" using m(4) by simp
      then show ?thesis
        using no_pages_no_runs m(3) phys_inv_runs_ok by (auto simp: paging_inv_def)
    next
      case False
      then have "pte dir t (va + of_nat j * PAGE_SIZE) = Some (frame (ps ! j) OR flags)" if "j < i" for j
        using up that by (simp add: mapped_upto_def)
      then show ?thesis
        using m(5,6) pa page_distinct [OF _ i] by (auto simp: less_Suc_eq)
    qed
    moreover have "\<forall>vb. (\<forall>j < Suc i. drop_bit 12 vb \<noteq> drop_bit 12 (va + of_nat j * PAGE_SIZE)) \<longrightarrow>
          pte dir s vb \<noteq> None \<longrightarrow> pte dir t' vb = pte dir s vb"
      using up m(6) unfolding mapped_upto_def by (metis less_Suc_eq)
    ultimately show ?thesis
      using m(1-4) phys_only_trans [OF po] unfolding mapped_upto_def by blast
  next
    fix t'
    assume m: "map_pages (va + of_nat i * PAGE_SIZE) pa 1 flags t = Some (False, t')" "phys_only t t'"
      "bs = []" "paging_inv dir t' bs" "\<forall>vb. pte dir t' vb = pte dir t vb"
    then have "mapped_upto dir va flags ps s (Suc i) t' bs"
      using up phys_only_trans [OF po] unfolding mapped_upto_def by (metis less_Suc_eq)
    with m(1) show ?thesis by blast
  qed
qed

lemma mapped_upto_0: "paging_inv dir s bs \<Longrightarrow> mapped_upto dir va flags ps s 0 s bs"
  by (simp add: mapped_upto_def)

lemma map_given_pages_correct:
  assumes "paging_inv dir s bs" "page_dir (cur_space s) = dir" "unat count \<le> 2 ^ 20"
  shows "\<exists>t bs'. map_given_pages va pa count flags s = Some t
    \<and> mapped_upto dir va flags (map (\<lambda>j. pa + of_nat j * PAGE_SIZE) [0..<unat count]) s (unat count) t bs'
    \<and> free_pages bs' \<subseteq> free_pages bs"
proof -
  let ?ps = "map (\<lambda>j. pa + of_nat j * PAGE_SIZE) [0..<unat count]"
  let ?P = "\<lambda>i t. \<exists>bs'. mapped_upto dir va flags ?ps s i t bs' \<and> free_pages bs' \<subseteq> free_pages bs"
  have "\<exists>t. for_opt (unat count) (\<lambda>i s. do {
       (ok, s) \<leftarrow> map_pages (va + of_nat i * PAGE_SIZE) (pa + of_nat i * PAGE_SIZE) 1 flags s;
       Some s }) s = Some t \<and> ?P (unat count) t"
  proof (rule for_opt_rule [where P = ?P])
    show "?P 0 s"
      using mapped_upto_0 [OF assms(1)] by blast
    fix i t assume i: "i < unat count" and "?P i t"
    then obtain bs1 where bs1: "mapped_upto dir va flags ?ps s i t bs1" "free_pages bs1 \<subseteq> free_pages bs"
      by blast
    have "pa + of_nat i * PAGE_SIZE = ?ps ! i"
      using i by simp
    from mapped_upto_Suc [OF bs1(1) _ assms(2) this] i assms(3)
    obtain ok t' bs2 where "map_pages (va + of_nat i * PAGE_SIZE) (pa + of_nat i * PAGE_SIZE) 1 flags t = Some (ok, t')"
      "mapped_upto dir va flags ?ps s (Suc i) t' bs2" "free_pages bs2 \<subseteq> free_pages bs1"
      by auto
    with bs1(2) show "\<exists>t'. do { (ok, s) \<leftarrow> map_pages (va + of_nat i * PAGE_SIZE) (pa + of_nat i * PAGE_SIZE) 1 flags t;
       Some s } = Some t' \<and> ?P (Suc i) t'"
      by auto
  qed
  then show ?thesis
    by (auto simp: map_given_pages_def)
qed


lemma mapped_upto_alloc:
  assumes "mapped_upto dir va flags ps s i t bs" "phys_step bs t t'" "phys_inv t' bs'"
    and "free_pages bs' \<subseteq> free_pages bs"
  shows "mapped_upto dir va flags ps s i t' bs'"
proof -
  have inv: "paging_inv dir t bs" and po: "phys_only s t" "phys_only t t'"
    using assms(1,2) by (simp_all add: mapped_upto_def phys_step_def)
  note st = tables_step [OF inv assms(2)]
  have "paging_inv dir t' bs'"
    using st(3) assms(3,4) by blast
  moreover have "bs' = []" if "bs = []"
    using no_pages_no_runs phys_inv_runs_ok assms(3,4) that by auto
  ultimately show ?thesis
    using assms(1) st(2) phys_only_trans [OF po] by (auto simp: mapped_upto_def)
qed

lemma mapped_upto_extend:
  "length ps = i \<Longrightarrow> mapped_upto dir va flags ps s i t bs \<Longrightarrow> mapped_upto dir va flags (ps @ [p]) s i t bs"
  by (auto simp: mapped_upto_def nth_append)

text \<open>The pages \<open>ps\<close> were taken out of the free pages \<open>F\<close>, one by one.\<close>

definition fresh_pages :: "u32 list \<Rightarrow> nat set \<Rightarrow> run list \<Rightarrow> bool" where
  "fresh_pages ps F bs \<longleftrightarrow> bs = [] \<or> (distinct (map page_no ps) \<and> (\<forall>p \<in> set ps. page_aligned p)
     \<and> page_no ` set ps \<subseteq> F - free_pages bs)"

lemma map_fresh_step:
  assumes up: "mapped_upto dir va flags ps s i t bs1" and len: "length ps = i" and i: "i < 2 ^ 20"
    and fr: "fresh_pages ps F bs1" and sub: "free_pages bs1 \<subseteq> F" and dir: "page_dir (cur_space s) = dir"
  shows "\<exists>t' p bs2. do { (page, s) \<leftarrow> alloc_phys_pages 1 t;
      (ok, s) \<leftarrow> map_pages (va + of_nat i * PAGE_SIZE) page 1 flags s; Some s } = Some t'
    \<and> mapped_upto dir va flags (ps @ [p]) s (Suc i) t' bs2 \<and> fresh_pages (ps @ [p]) F bs2
    \<and> free_pages bs2 \<subseteq> free_pages bs1"
proof -
  have inv: "paging_inv dir t bs1" and ph: "phys_inv t bs1"
    using up by (simp_all add: mapped_upto_def paging_inv_def)
  have one: "(0 :: u32) < 1" by simp
  have "\<exists>p t1 bs'. alloc_phys_pages 1 t = Some (p, t1) \<and> mapped_upto dir va flags ps s i t1 bs'
      \<and> free_pages bs' \<subseteq> free_pages bs1 \<and> (bs' = [] \<or> (page_aligned p \<and> page_no p \<in> free_pages bs1 - free_pages bs'))"
    using ph one
  proof (cases rule: alloc_phys_pages_cases)
    case (none t1)
    have "n = 0" if "(b, n) \<in> set bs1" for b n
      using none(4) that by fastforce
    then have "bs1 = []"
      using phys_inv_runs_ok [OF ph] by (cases bs1) fastforce+
    then show ?thesis
      using none mapped_upto_alloc [OF up none(3,2)] by blast
  next
    case (run p t1 bs')
    have "free_pages bs' \<subseteq> free_pages bs1" "page_no p \<in> free_pages bs1 - free_pages bs'"
      using run(6,7) page_no_run [OF run(5)] by blast+
    moreover have "page_aligned p"
      using run(5) by simp
    ultimately show ?thesis
      using run(1) mapped_upto_alloc [OF up run(4,3)] by blast
  qed
  then obtain p t1 bs' where p: "alloc_phys_pages 1 t = Some (p, t1)" "mapped_upto dir va flags ps s i t1 bs'"
      "free_pages bs' \<subseteq> free_pages bs1" "bs' = [] \<or> (page_aligned p \<and> page_no p \<in> free_pages bs1 - free_pages bs')"
    by blast
  have "p = (ps @ [p]) ! i"
    using len by (simp add: nth_append)
  from mapped_upto_Suc [OF mapped_upto_extend [OF len p(2)] i dir this]
  obtain ok t' bs2 where m: "map_pages (va + of_nat i * PAGE_SIZE) p 1 flags t1 = Some (ok, t')"
      "mapped_upto dir va flags (ps @ [p]) s (Suc i) t' bs2" "free_pages bs2 \<subseteq> free_pages bs'"
    by blast
  have "fresh_pages (ps @ [p]) F bs2"
  proof (cases "bs' = [] \<or> bs1 = []")
    case True
    then have "free_pages bs2 = {}" using m(3) p(3) by auto
    then have "bs2 = []"
      using m(2) no_pages_no_runs phys_inv_runs_ok by (auto simp: mapped_upto_def paging_inv_def)
    then show ?thesis by (simp add: fresh_pages_def)
  next
    case False
    then have "page_no ` set ps \<subseteq> F - free_pages bs1" "distinct (map page_no ps)"
      "\<forall>p \<in> set ps. page_aligned p" "page_aligned p" "page_no p \<in> free_pages bs1 - free_pages bs'"
      using fr p(4) by (auto simp: fresh_pages_def)
    then show ?thesis
      using m(3) p(3) sub unfolding fresh_pages_def by (intro disjI2) auto
  qed
  then show ?thesis
    using p(1,3) m by auto
qed

lemma map_fresh_pages_correct:
  assumes "paging_inv dir s bs" "page_dir (cur_space s) = dir" "unat count \<le> 2 ^ 20"
  shows "\<exists>t ps bs'. map_fresh_pages va count flags s = Some t \<and> length ps = unat count
    \<and> mapped_upto dir va flags ps s (unat count) t bs' \<and> fresh_pages ps (free_pages bs) bs'
    \<and> free_pages bs' \<subseteq> free_pages bs"
proof -
  let ?P = "\<lambda>i t. \<exists>ps bs'. length ps = i \<and> mapped_upto dir va flags ps s i t bs'
    \<and> fresh_pages ps (free_pages bs) bs' \<and> free_pages bs' \<subseteq> free_pages bs"
  have "\<exists>t. for_opt (unat count) (\<lambda>i s. do { (page, s) \<leftarrow> alloc_phys_pages 1 s;
      (ok, s) \<leftarrow> map_pages (va + of_nat i * PAGE_SIZE) page 1 flags s; Some s }) s = Some t \<and> ?P (unat count) t"
  proof (rule for_opt_rule [where P = ?P])
    show "?P 0 s"
      using mapped_upto_0 [OF assms(1)] by (auto simp: fresh_pages_def intro: exI [of _ "[]"] exI [of _ bs])
    fix i t assume i: "i < unat count" and "?P i t"
    then obtain ps bs1 where bs1: "length ps = i" "mapped_upto dir va flags ps s i t bs1"
        "fresh_pages ps (free_pages bs) bs1" "free_pages bs1 \<subseteq> free_pages bs"
      by blast
    from map_fresh_step [OF bs1(2,1) _ bs1(3,4) assms(2)] i assms(3) obtain t' p bs2 where
      t: "do { (page, s) \<leftarrow> alloc_phys_pages 1 t;
        (ok, s) \<leftarrow> map_pages (va + of_nat i * PAGE_SIZE) page 1 flags s; Some s } = Some t'"
      "mapped_upto dir va flags (ps @ [p]) s (Suc i) t' bs2" "fresh_pages (ps @ [p]) (free_pages bs) bs2"
      "free_pages bs2 \<subseteq> free_pages bs1"
      by auto
    moreover have "length (ps @ [p]) = Suc i" "free_pages bs2 \<subseteq> free_pages bs"
      using bs1(1,4) t(4) by auto
    ultimately show "\<exists>t'. do { (page, s) \<leftarrow> alloc_phys_pages 1 t;
        (ok, s) \<leftarrow> map_pages (va + of_nat i * PAGE_SIZE) page 1 flags s; Some s } = Some t' \<and> ?P (Suc i) t'"
      by blast
  qed
  then show ?thesis
    by (auto simp: map_fresh_pages_def)
qed


section \<open>The table of regions and the page tables do not meet\<close>

lemma paging_inv_cong:
  assumes "phys s' = phys s" "free_page_count s' = free_page_count s"
    and "free_phys_memory_pointer s' = free_phys_memory_pointer s"
  shows "paging_inv dir s' bs = paging_inv dir s bs" "pte dir s' va = pte dir s va"
proof -
  have pde: "pde dir s' i = pde dir s i" for i
    using assms by (simp add: pde_def)
  have "phys_inv s' bs = phys_inv s bs"
    using assms by (simp add: phys_inv_def free_list_def)
  then show "paging_inv dir s' bs = paging_inv dir s bs" "pte dir s' va = pte dir s va"
    using assms by (simp_all add: paging_inv_def tables_ok_def pte_eq pde)
qed

lemma virt_step_paging:
  assumes "virt_step k s s'"
  shows "paging_inv dir s' bs = paging_inv dir s bs" "pte dir s' va = pte dir s va"
  using paging_inv_cong [of s' s] virt_step_fields [OF assms] by simp_all

lemma phys_only_virt:
  assumes "phys_only s t"
  shows "virt_regions t vs = virt_regions s vs" "virt_room k t vs = virt_room k s vs"
  using phys_only_fields [OF assms]
  by (simp_all add: virt_regions_def virt_room_def virt_table_def virt_ptr_def)

lemma add_virt_block_paging:
  assumes "virt_regions s vs" "virt_room 1 s vs" "0 < sz" "virt_end s vs + virt_len sz < 2 ^ 32"
    and "add_virt_block sz s = (r, s1)"
  shows "paging_inv dir s1 bs = paging_inv dir s bs" "pte dir s1 va = pte dir s va"
    "page_dir (cur_space s1) = page_dir (cur_space s)"
  using assms(1-4)
  by (rule add_virt_block_cases; use assms(5) virt_step_paging virt_step_fields in force)+

text \<open>The condition under which \<open>alloc_virt_pages\<close> does not grow the table first.\<close>

definition virt_table_full :: "kernel \<Rightarrow> bool" where
  "virt_table_full s \<longleftrightarrow> (v_block_count (virt_memory (cur_space s)) + 1) * 8 > page_bytes (virt_table_size s)"

lemma alloc_virt_pages_no_growth:
  assumes "\<not> virt_table_full s" "add_virt_block count s = (r, s1)"
  shows "alloc_virt_pages NULL paddr count flags s =
    do { s' \<leftarrow> (if paddr = - 1 then map_fresh_pages r count flags s1 else map_given_pages r paddr count flags s1);
         Some (r, s') }"
  using assms by (simp add: alloc_virt_pages_def virt_table_full_def)

text \<open>The page tables of \<open>paged\<close> with the regions of \<open>two_regions\<close>.\<close>

definition booted :: kernel where
  "booted = paged\<lparr>mem := mem two_regions, kernel_address_space := kernel_address_space two_regions\<rparr>"

lemma booted_space: "cur_space booted = cur_space two_regions" "mem booted = mem two_regions"
  "phys booted = phys paged" "free_page_count booted = free_page_count paged"
  "free_phys_memory_pointer booted = free_phys_memory_pointer paged"
  by (simp_all add: booted_def address_space_def two_regions_def paged_def two_runs_def zero_kernel_def)

lemma booted_ok:
  "paging_inv 0x1000 booted [(0x300000, 4), (0x200000, 2)]" "page_dir (cur_space booted) = 0x1000"
  "virt_regions booted [(0x80000000, 16), (0x80020000, 1)]" "virt_room 1 booted [(0x80000000, 16), (0x80020000, 1)]"
  "\<not> virt_table_full booted"
proof -
  show "paging_inv 0x1000 booted [(0x300000, 4), (0x200000, 2)]"
    using paged_inv paging_inv_cong(1) [OF booted_space(3-5)] by blast
  show "page_dir (cur_space booted) = 0x1000"
    unfolding booted_space by (simp add: two_regions_def zero_kernel_def address_space_def)
  show "virt_regions booted [(0x80000000, 16), (0x80020000, 1)]" "virt_room 1 booted [(0x80000000, 16), (0x80020000, 1)]"
    using two_regions_ok unfolding virt_regions_def virt_room_def virt_table_def virt_ptr_def booted_space
    by simp_all
  show "\<not> virt_table_full booted"
    unfolding virt_table_full_def booted_space by simp
qed

text \<open>A region of fresh pages, for the callers that need the state and not the pages.\<close>

lemma alloc_virt_pages_step:
  assumes "paging_inv dir s bs" "page_dir (cur_space s) = dir"
    and "virt_regions s vs" "virt_room 1 s vs" "\<not> virt_table_full s"
    and "0 < count" "unat count \<le> 2 ^ 20" "virt_end s vs + virt_len count < 2 ^ 32"
    and "add_virt_block count s = (r, s1)"
  shows "\<exists>s' bs'. alloc_virt_pages NULL (- 1) count flags s = Some (r, s') \<and> phys_only s1 s' \<and> paging_inv dir s' bs'"
proof -
  note p = add_virt_block_paging [OF assms(3,4,6,8,9)]
  have "paging_inv dir s1 bs" "page_dir (cur_space s1) = dir"
    using assms(1,2) p by simp_all
  from map_fresh_pages_correct [OF this assms(7), of r flags] obtain t ps bs' where
    "map_fresh_pages r count flags s1 = Some t" "mapped_upto dir r flags ps s1 (unat count) t bs'"
    by blast
  then show ?thesis
    using alloc_virt_pages_no_growth [OF assms(5,9)] unfolding mapped_upto_def by auto
qed

section \<open>Properties of \<open>alloc_virt_pages\<close>\<close>

text \<open>
  \<open>alloc_virt_pages\<close> of fresh pages, with room in the table, returns the region that
  \<open>add_virt_block\<close> enters and maps it, page by page, to distinct pages taken out of free memory, as
  long as free memory does not run out; the invariants of the table of regions, of the page tables
  and of the free list are kept.
\<close>

theorem alloc_virt_pages_maps_fresh:
  assumes inv: "paging_inv dir s bs" "page_dir (cur_space s) = dir"
    and reg: "virt_regions s vs" "virt_room 1 s vs" "\<not> virt_table_full s"
    and cnt: "0 < count" "unat count \<le> 2 ^ 20" "virt_end s vs + virt_len count < 2 ^ 32"
    and add: "add_virt_block count s = (r, s1)"
  shows "\<exists>s' bs' ps. alloc_virt_pages NULL (- 1) count flags s = Some (r, s') \<and> phys_only s1 s'
    \<and> paging_inv dir s' bs' \<and> free_pages bs' \<subseteq> free_pages bs
    \<and> (bs' \<noteq> [] \<longrightarrow> length ps = unat count \<and> distinct (map page_no ps)
         \<and> page_no ` set ps \<subseteq> free_pages bs - free_pages bs'
         \<and> (\<forall>i < unat count. pte dir s' (r + of_nat i * PAGE_SIZE) = Some (frame (ps ! i) OR flags)))"
proof -
  note p = add_virt_block_paging [OF reg(1,2) cnt(1,3) add]
  have "paging_inv dir s1 bs" "page_dir (cur_space s1) = dir"
    using inv p by simp_all
  from map_fresh_pages_correct [OF this cnt(2), of r flags] obtain t ps bs' where
    t: "map_fresh_pages r count flags s1 = Some t" "length ps = unat count"
      "mapped_upto dir r flags ps s1 (unat count) t bs'" "fresh_pages ps (free_pages bs) bs'"
      "free_pages bs' \<subseteq> free_pages bs"
    by blast
  then have "alloc_virt_pages NULL (- 1) count flags s = Some (r, t)"
    using alloc_virt_pages_no_growth [OF reg(3) add] by simp
  then show ?thesis
    using t unfolding mapped_upto_def fresh_pages_def
    by (intro exI [of _ t] exI [of _ bs'] exI [of _ ps]) auto
qed

theorem alloc_virt_pages_maps_fresh_witness:
  "\<exists>r s'. alloc_virt_pages NULL (- 1) 2 3 booted = Some (r, s')"
proof -
  obtain r s1 where "add_virt_block 2 booted = (r, s1)"
    by (cases "add_virt_block 2 booted")
  from alloc_virt_pages_maps_fresh [OF booted_ok _ _ _ this, of 3] show ?thesis
    unfolding booted_space by (simp add: virt_len_def) blast
qed

text \<open>
  \<open>alloc_virt_pages\<close> of a given physical range, with room in the table, maps the region that
  \<open>add_virt_block\<close> enters to the range page by page, unless free memory runs out, keeps every other
  entry of the page tables, and keeps the invariants.
\<close>

theorem alloc_virt_pages_given:
  assumes inv: "paging_inv dir s bs" "page_dir (cur_space s) = dir"
    and reg: "virt_regions s vs" "virt_room 1 s vs" "\<not> virt_table_full s"
    and cnt: "0 < count" "unat count \<le> 2 ^ 20" "virt_end s vs + virt_len count < 2 ^ 32"
    and add: "add_virt_block count s = (r, s1)" and pa: "paddr \<noteq> - 1"
  shows "\<exists>s' bs'. alloc_virt_pages NULL paddr count flags s = Some (r, s') \<and> phys_only s1 s'
    \<and> paging_inv dir s' bs' \<and> free_pages bs' \<subseteq> free_pages bs
    \<and> (bs' \<noteq> [] \<longrightarrow> (\<forall>i < unat count. pte dir s' (r + of_nat i * PAGE_SIZE)
         = Some (frame (paddr + of_nat i * PAGE_SIZE) OR flags)))
    \<and> (\<forall>vb. (\<forall>i < unat count. drop_bit 12 vb \<noteq> drop_bit 12 (r + of_nat i * PAGE_SIZE)) \<longrightarrow>
         pte dir s vb \<noteq> None \<longrightarrow> pte dir s' vb = pte dir s vb)"
proof -
  note p = add_virt_block_paging [OF reg(1,2) cnt(1,3) add]
  have "paging_inv dir s1 bs" "page_dir (cur_space s1) = dir"
    using inv p by simp_all
  from map_given_pages_correct [OF this cnt(2), of r paddr flags] obtain t bs' where
    t: "map_given_pages r paddr count flags s1 = Some t"
      "mapped_upto dir r flags (map (\<lambda>j. paddr + of_nat j * PAGE_SIZE) [0..<unat count]) s1 (unat count) t bs'"
      "free_pages bs' \<subseteq> free_pages bs"
    by blast
  then have "alloc_virt_pages NULL paddr count flags s = Some (r, t)"
    using alloc_virt_pages_no_growth [OF reg(3) add] pa by simp
  then show ?thesis
    using t p(2) unfolding mapped_upto_def by (intro exI [of _ t] exI [of _ bs']) auto
qed

theorem alloc_virt_pages_given_witness:
  "\<exists>r s'. alloc_virt_pages NULL 0xB8000 1 0xFFF booted = Some (r, s')"
proof -
  obtain r s1 where "add_virt_block 1 booted = (r, s1)"
    by (cases "add_virt_block 1 booted")
  from alloc_virt_pages_given [OF booted_ok _ _ _ this, of "0xB8000" "0xFFF"] show ?thesis
    unfolding booted_space by (simp add: virt_len_def) blast
qed

text \<open>
  When the address space has no place for the region, \<open>alloc_virt_pages\<close> answers \<open>NULL\<close> but has
  mapped pages all the same: unless free memory ran out, the page at address 0 is mapped to a page
  that was free.
\<close>

theorem alloc_virt_pages_maps_null_page:
  assumes inv: "paging_inv dir s bs" "page_dir (cur_space s) = dir"
    and reg: "\<not> virt_table_full s" "add_virt_block count s = (NULL, s)"
    and cnt: "0 < count" "unat count \<le> 2 ^ 20"
  shows "\<exists>s' bs' page. alloc_virt_pages NULL (- 1) count flags s = Some (NULL, s') \<and> paging_inv dir s' bs'
    \<and> (bs' \<noteq> [] \<longrightarrow> page_no page \<in> free_pages bs \<and> pte dir s' 0 = Some (frame page OR flags))"
proof -
  from map_fresh_pages_correct [OF inv cnt(2), of NULL flags] obtain t ps bs' where
    t: "map_fresh_pages NULL count flags s = Some t" "length ps = unat count"
      "mapped_upto dir NULL flags ps s (unat count) t bs'" "fresh_pages ps (free_pages bs) bs'"
    by blast
  have "0 < unat count"
    using cnt(1) by (simp add: word_less_nat_alt)
  have "bs' \<noteq> [] \<longrightarrow> page_no (ps ! 0) \<in> free_pages bs"
  proof -
    have "page_no (ps ! 0) \<in> page_no ` set ps"
      by (rule imageI, rule nth_mem) (use t(2) \<open>0 < unat count\<close> in simp)
    then show ?thesis
      using t(4) unfolding fresh_pages_def by blast
  qed
  moreover have "bs' \<noteq> [] \<longrightarrow> pte dir t (NULL + of_nat 0 * PAGE_SIZE) = Some (frame (ps ! 0) OR flags)"
    using t(3) \<open>0 < unat count\<close> unfolding mapped_upto_def by blast
  then have "bs' \<noteq> [] \<longrightarrow> pte dir t 0 = Some (frame (ps ! 0) OR flags)"
    by (simp add: NULL_def)
  moreover have "alloc_virt_pages NULL (- 1) count flags s = Some (NULL, t)"
    using alloc_virt_pages_no_growth [OF reg] t(1) by simp
  ultimately show ?thesis
    using t(3) unfolding mapped_upto_def by (intro exI [of _ t] exI [of _ bs'] exI [of _ "ps ! 0"]) simp
qed

text \<open>An address space that one region fills.\<close>

definition full_space :: kernel where
  "full_space = booted\<lparr>
     mem := store32 0x80010004 0x7FBFF (store32 0x80010000 0x400000 (\<lambda>_. 0)),
     kernel_address_space := (kernel_address_space two_regions)\<lparr>as_start := USER_ADDRESS_SPACE_START,
       as_end := USER_ADDRESS_SPACE_END,
       virt_memory := \<lparr>v_block_count = 1, v_blocks = 0x80010000, v_table_size = 1\<rparr>\<rparr>\<rparr>"

lemma full_space_simps:
  "cur_space full_space = (cur_space two_regions)\<lparr>as_start := USER_ADDRESS_SPACE_START,
     as_end := USER_ADDRESS_SPACE_END,
     virt_memory := \<lparr>v_block_count = 1, v_blocks = 0x80010000, v_table_size = 1\<rparr>\<rparr>"
  "phys full_space = phys booted" "free_page_count full_space = free_page_count booted"
  "free_phys_memory_pointer full_space = free_phys_memory_pointer booted"
  by (simp_all add: full_space_def booted_def paged_def two_runs_def two_regions_def zero_kernel_def address_space_def)

lemma full_space_ok: "paging_inv 0x1000 full_space [(0x300000, 4), (0x200000, 2)]"
  "add_virt_block 1 full_space = (NULL, full_space)"
proof -
  show "paging_inv 0x1000 full_space [(0x300000, 4), (0x200000, 2)]"
    using booted_ok(1) paging_inv_cong(1) [OF full_space_simps(2-4)] by blast
  have "load32 (mem full_space) 0x80010000 = 0x400000" "load32 (mem full_space) 0x80010004 = 0x7FBFF"
    by (simp_all add: full_space_def load32_def store32_def)
  then have "table (mem full_space) 0x80010000 [(0x400000, 0x7FBFF)]"
    by (simp add: table_def ofs_def)
  then have "virt_table full_space [(0x400000, 0x7FBFF)]" "virt_room 1 full_space [(0x400000, 0x7FBFF)]"
    unfolding virt_table_def virt_room_def virt_ptr_def full_space_simps by simp_all
  from add_virt_block_fit [OF this(1) _ this(2), of 1]
  show "add_virt_block 1 full_space = (NULL, full_space)"
    unfolding full_space_simps by (simp add: region_fit_def)
qed

theorem alloc_virt_pages_maps_null_page_witness:
  "\<exists>s'. alloc_virt_pages NULL (- 1) 1 3 full_space = Some (NULL, s')"
proof -
  have "page_dir (cur_space full_space) = 0x1000" "\<not> virt_table_full full_space"
    unfolding virt_table_full_def full_space_simps
    by (simp_all add: two_regions_def zero_kernel_def address_space_def)
  from alloc_virt_pages_maps_null_page [OF full_space_ok(1) this full_space_ok(2), of 3] show ?thesis
    by simp blast
qed

end
