(* ===== verification/Heap.thy ===== *)
theory Heap
  imports VirtMem
begin

text \<open>
  The kernel heap: \<open>kmalloc\<close> and \<open>kfree\<close> of \<open>memory_manager.c\<close>. The table of blocks has the layout
  of the table of regions, with sizes in bytes, and \<open>kmalloc\<close> makes the same first-fit search.
  \<open>heap_regions\<close> is its invariant, and \<open>kmalloc\<close> an instance of the contract \<open>allocator\<close>.
\<close>

section \<open>The operations\<close>

abbreviation heap_state :: "kernel \<Rightarrow> DynamicMemory" where
  "heap_state s \<equiv> dynamic_memory (cur_space s)"

text \<open>\<open>p->base = base; p->size = size; block_count += 1; return p->base\<close>\<close>

definition heap_enter :: "u32 \<Rightarrow> u32 \<Rightarrow> u32 \<Rightarrow> kernel \<Rightarrow> u32 \<times> kernel" where
  "heap_enter p base sz s =
     (let d = heap_state s;
          m = set_block_base p base (mem s);
          m = set_block_size p sz m
      in (block_base p m, set_cur_dynamic (d\<lparr>d_block_count := d_block_count d + 1\<rparr>) (s\<lparr>mem := m\<rparr>)))"

function kmalloc_loop :: "u32 \<Rightarrow> u32 \<Rightarrow> kernel \<Rightarrow> u32 \<times> kernel" where
  "kmalloc_loop sz i s =
     (let d = heap_state s;
          cur_block = block_ptr (d_blocks d) i;
          nxt_block = block_ptr (d_blocks d) (i + 1);
          cur_base = block_base cur_block (mem s);
          cur_size = block_size cur_block (mem s)
      in if i < d_block_count d - 1 then
           if cur_base + cur_size + sz \<le> block_base nxt_block (mem s) then
             let s = s\<lparr>mem := memcpy (nxt_block + 8) nxt_block ((d_block_count d - i) * 8) (mem s)\<rparr>
             in heap_enter nxt_block (cur_base + cur_size) sz s
           else kmalloc_loop sz (i + 1) s
         else
           if cur_base + (cur_size + sz) > d_heap d + page_bytes (d_heap_size d) then (NULL, s)
           else heap_enter nxt_block (cur_base + cur_size) sz s)"
  by pat_completeness auto
termination
  by (relation "measure (\<lambda>(sz, i, s). unat (d_block_count (heap_state s) - 1) - unat i)")
    (simp_all add: count_up_measure del: One_nat_def)

declare kmalloc_loop.simps [simp del]

text \<open>\<open>kmalloc\<close> after its table has been grown, if need be.\<close>

definition kmalloc_place :: "u32 \<Rightarrow> kernel \<Rightarrow> u32 \<times> kernel" where
  "kmalloc_place sz s =
     (let d = heap_state s;
          cur_block = block_ptr (d_blocks d) 0
      in if d_block_count d = 0 then heap_enter cur_block (d_heap d) sz s
         else if block_base cur_block (mem s) \<ge> d_heap d + sz then
           let s = s\<lparr>mem := memcpy (cur_block + 8) cur_block (d_block_count d * 8) (mem s)\<rparr>
           in heap_enter cur_block (block_base cur_block (mem s) - sz) sz s
         else kmalloc_loop sz 0 s)"

text \<open>The growth of the table; \<open>False\<close> is the early return of \<open>NULL\<close>.\<close>

definition heap_grow_table :: "kernel \<Rightarrow> (bool \<times> kernel) option" where
  "heap_grow_table s =
     (let old_table_size = d_table_size (heap_state s);
          old_table = d_blocks (heap_state s)
      in do {
        (new_table, s) \<leftarrow> alloc_virt_pages NULL (- 1) (old_table_size + 1) 0xfff s;
        if new_table = NULL then Some (False, s)
        else do {
          let s = s\<lparr>mem := memcpy new_table old_table (page_bytes old_table_size) (mem s)\<rparr>;
          let s = set_cur_dynamic ((heap_state s)\<lparr>d_blocks := new_table, d_table_size := old_table_size + 1\<rparr>) s;
          (_, s) \<leftarrow> free_virt_pages old_table s;
          Some (True, s)
        }
      })"

definition kmalloc :: "u32 \<Rightarrow> kernel \<Rightarrow> (u32 \<times> kernel) option" where
  "kmalloc sz s =
     do {
       (ok, s) \<leftarrow> (if (d_block_count (heap_state s) + 1) * 8 > page_bytes (d_table_size (heap_state s))
                  then heap_grow_table s else Some (True, s));
       Some (if ok then kmalloc_place sz s else (NULL, s))
     }"

text \<open>The loop of \<open>kfree\<close> advances \<open>i\<close> but not \<open>cur_block\<close>, which stays at the first block.\<close>

function kfree_loop :: "u32 \<Rightarrow> u32 \<Rightarrow> u32 \<Rightarrow> kernel \<Rightarrow> bool \<times> kernel" where
  "kfree_loop cur_block ptr i s =
     (let d = heap_state s
      in if i < d_block_count d then
           if block_base cur_block (mem s) = ptr then
             let s = s\<lparr>mem := memcpy cur_block (cur_block + 8) ((d_block_count d - i) * 8) (mem s)\<rparr>
             in (True, set_cur_dynamic (d\<lparr>d_block_count := d_block_count d - 1\<rparr>) s)
           else kfree_loop cur_block ptr (i + 1) s
         else (False, s))"
  by pat_completeness auto
termination
  by (relation "measure (\<lambda>(p, ptr, i, s). unat (d_block_count (heap_state s)) - unat i)")
    (simp_all add: count_up_measure del: One_nat_def)

declare kfree_loop.simps [simp del]

definition kfree :: "u32 \<Rightarrow> kernel \<Rightarrow> bool \<times> kernel" where
  "kfree ptr s = kfree_loop (block_ptr (d_blocks (heap_state s)) 0) ptr 0 s"

section \<open>The table and the list\<close>

interpretation bytes_unit: region_unit "\<lambda>n. n" unat
  by unfold_locales (simp_all add: unat_add_nowrap word_less_nat_alt)

definition heap_ptr :: "kernel \<Rightarrow> u32" where "heap_ptr s = d_blocks (heap_state s)"

definition heap_end :: "kernel \<Rightarrow> u32" where
  "heap_end s = d_heap (heap_state s) + page_bytes (d_heap_size (heap_state s))"

definition heap_table :: "kernel \<Rightarrow> run list \<Rightarrow> bool" where
  "heap_table s vs \<longleftrightarrow> d_block_count (heap_state s) = of_nat (length vs) \<and> table (mem s) (heap_ptr s) vs"

definition heap_room :: "nat \<Rightarrow> kernel \<Rightarrow> run list \<Rightarrow> bool" where
  "heap_room k s vs \<longleftrightarrow> unat (heap_ptr s) + 8 * (length vs + 1 + k) < 2 ^ 32"

definition heap_put :: "mem \<Rightarrow> kernel \<Rightarrow> kernel" where
  "heap_put m s = set_cur_dynamic ((heap_state s)\<lparr>d_block_count := d_block_count (heap_state s) + 1\<rparr>) (s\<lparr>mem := m\<rparr>)"

definition heap_step :: "nat \<Rightarrow> kernel \<Rightarrow> kernel \<Rightarrow> bool" where
  "heap_step k s s' \<longleftrightarrow> (\<exists>m c. s' = set_cur_dynamic ((heap_state s)\<lparr>d_block_count := c\<rparr>) (s\<lparr>mem := m\<rparr>)
     \<and> (\<forall>x. x \<notin> bytes_at (heap_ptr s) (8 * k) \<longrightarrow> m x = mem s x))"

lemma heap_step_fields:
  assumes "heap_step k s s'"
  shows "heap_ptr s' = heap_ptr s" "heap_end s' = heap_end s"
    "d_heap (dynamic_memory (address_space (cur_address_space s) s')) = d_heap (heap_state s)"
    "d_heap_size (dynamic_memory (address_space (cur_address_space s) s')) = d_heap_size (heap_state s)"
    "d_table_size (dynamic_memory (address_space (cur_address_space s) s')) = d_table_size (heap_state s)"
    "virt_memory (address_space (cur_address_space s) s') = virt_memory (cur_space s)"
    "x \<notin> bytes_at (heap_ptr s) (8 * k) \<Longrightarrow> mem s' x = mem s x"
    "phys s' = phys s" "cur_address_space s' = cur_address_space s"
    "syms s' = syms s" "idt s' = idt s" "tty_state s' = tty_state s" "kbd s' = kbd s"
    "port_in s' = port_in s" "in_count s' = in_count s" "out_log s' = out_log s"
    "ata_devices s' = ata_devices s" "idtr s' = idtr s"
  using assms by (auto simp: heap_step_def heap_ptr_def heap_end_def)

lemma heap_step_refl: "heap_step k s s"
proof -
  have "s = set_cur_dynamic ((heap_state s)\<lparr>d_block_count := d_block_count (heap_state s)\<rparr>) (s\<lparr>mem := mem s\<rparr>)"
    by (simp add: set_cur_dynamic_def set_address_space_def address_space_def split: space.split)
  then show ?thesis
    unfolding heap_step_def by blast
qed

lemma heap_enter_put: "heap_enter p b sz (s\<lparr>mem := m\<rparr>) = (b, heap_put (put_block p b sz m) s)"
proof -
  have "set_block_size p sz (set_block_base p b m) = put_block p b sz m"
    by (simp add: put_block_def)
  then show ?thesis
    by (simp add: heap_enter_def heap_put_def Let_def)
qed

lemma heap_put_correct:
  assumes "heap_table s vs" "table m (heap_ptr s) zs" "length zs = Suc (length vs)"
    and "\<forall>x. x \<notin> bytes_at (heap_ptr s) (8 * k) \<longrightarrow> m x = mem s x"
  shows "heap_table (heap_put m s) zs" "heap_step k s (heap_put m s)"
proof -
  show "heap_table (heap_put m s) zs"
    using assms(1-3) by (simp add: heap_table_def heap_put_def heap_ptr_def)
  show "heap_step k s (heap_put m s)"
    using assms(4) unfolding heap_step_def heap_put_def by blast
qed

lemma kmalloc_loop_gap:
  "kmalloc_loop sz i s =
     (case gap_loop (\<lambda>n. n) False (heap_end s) sz (heap_ptr s) (d_block_count (heap_state s)) i (mem s) of
        None \<Rightarrow> (NULL, s) | Some (r, m) \<Rightarrow> (r, heap_put m s))"
proof (induction sz i s rule: kmalloc_loop.induct)
  case (1 sz i s)
  show ?case
  proof (cases "i < d_block_count (heap_state s) - 1")
    case True
    then show ?thesis
      using 1 [OF refl refl refl refl refl True] heap_enter_put
      by (subst kmalloc_loop.simps, subst gap_loop.simps) (simp add: Let_def heap_ptr_def add.assoc)
  next
    case False
    then show ?thesis
      using heap_enter_put [of _ _ sz "mem s" s]
      by (subst kmalloc_loop.simps, subst gap_loop.simps) (simp add: Let_def heap_ptr_def heap_end_def)
  qed
qed


abbreviation heap_first_fit :: "u32 \<Rightarrow> u32 \<Rightarrow> u32 \<Rightarrow> run list \<Rightarrow> (u32 \<times> run list) option" where
  "heap_first_fit lo hi sz \<equiv> region_fit (\<lambda>n. n) (\<lambda>b. b - sz) False lo hi sz"

lemma kmalloc_place_fit:
  assumes "heap_table s vs" "vs \<noteq> []" "heap_room 1 s vs"
  shows "case heap_first_fit (d_heap (heap_state s)) (heap_end s) sz vs of
      None \<Rightarrow> kmalloc_place sz s = (NULL, s)
    | Some (r, zs) \<Rightarrow> \<exists>s'. kmalloc_place sz s = (r, s') \<and> heap_table s' zs \<and> heap_step (length vs + 2) s s'"
proof -
  obtain b n ys where vs: "vs = (b, n) # ys"
    using assms(2) by (cases vs) auto
  let ?zero = "of_nat (length ([] :: run list)) :: u32" and ?t = "heap_ptr s"
  have tab: "table (mem s) ?t ([] @ (b, n) # ys)"
    and cnt: "d_block_count (heap_state s) = of_nat (length ([] :: run list) + length ys + 1)"
    and room: "unat ?t + 8 * (length ([] :: run list) + length ys + 3) < 2 ^ 32"
    using assms vs by (simp_all add: heap_table_def heap_room_def)
  have cnt0: "d_block_count (heap_state s) \<noteq> 0"
    using cnt room word_of_length [of 0 "length ys + 1"] by auto
  have rd: "block_base (block_ptr ?t 0) (mem s) = b"
    using table_read(1) [OF tab] by simp
  have cpy: "d_block_count (heap_state s) * 8 = of_nat (8 * length vs)"
    using cnt vs by simp
  let ?lo = "d_heap (heap_state s)"
  have ptr0: "block_ptr ?t 0 = ofs ?t (8 * 0)" "ofs ?t (8 * 0) + 8 = ofs ?t (8 * 0 + 8)"
    by (simp_all add: block_ptr_def ofs_def)
  let ?up = "memcpy (ofs ?t (8 * 0 + 8)) (ofs ?t (8 * 0)) (of_nat (8 * length vs)) (mem s)"
  let ?m = "put_block (ofs ?t (8 * 0)) (b - sz) sz ?up"
  have up: "block_base (ofs ?t (8 * 0)) ?up = b"
  proof -
    have c: "unat (of_nat (8 * length vs) :: u32) = 8 * length vs"
      by (rule unat_of_nat_small) (use room vs in simp)
    have mv: "?up = moved (ofs ?t (8 * 0 + 8)) (ofs ?t (8 * 0)) 0 (8 * length vs) (mem s)"
      by (subst memcpy_moved, unfold c, (subst unat_ofs; use room vs in simp)+) simp
    have "load32 ?up (ofs ?t (8 * 0)) = load32 (mem s) (ofs ?t (8 * 0))"
      unfolding mv by (rule load32_moved_other, rule bytes_at_ofs_disjoint) (use room vs in auto)
    then show ?thesis
      using rd by (simp add: block_base_def ptr0)
  qed
  have add: "kmalloc_place sz s = (if b \<ge> ?lo + sz
      then (b - sz, heap_put ?m s) else kmalloc_loop sz ?zero s)"
    using rd cnt0 up unfolding kmalloc_place_def Let_def heap_ptr_def [symmetric] ptr0 cpy
    by (simp add: heap_enter_put)
  show ?thesis
  proof (cases "b \<ge> ?lo + sz")
    case True
    note ins = table_insert [OF tab, where j = 0 and c = "length vs" and b = "b - sz" and n = sz]
    have "table ?m ?t ((b - sz, sz) # vs)" "\<forall>x. x \<notin> bytes_at ?t (8 * (length vs + 2)) \<longrightarrow> ?m x = mem s x"
      using ins room vs by (auto simp: bytes_at_def)
    from heap_put_correct [OF assms(1) this(1) _ this(2)] show ?thesis
      using True add vs by (simp add: region_fit_def)
  next
    case False
    note gap = gap_loop_fit [OF tab room cnt, of "\<lambda>n. n" False "heap_end s" sz]
    have fit: "heap_first_fit ?lo (heap_end s) sz vs = gap_fit (\<lambda>n. n) False (heap_end s) sz vs"
      "kmalloc_place sz s = kmalloc_loop sz ?zero s"
      using False vs add by (simp_all add: region_fit_def)
    show ?thesis
    proof (cases "gap_fit (\<lambda>n. n) False (heap_end s) sz vs")
      case None
      then show ?thesis
        using gap fit vs kmalloc_loop_gap [of sz ?zero s] by simp
    next
      case (Some x)
      obtain r zs where x: "x = (r, zs)" by (cases x)
      obtain m' where m': "gap_loop (\<lambda>n. n) False (heap_end s) sz ?t (d_block_count (heap_state s)) ?zero (mem s) = Some (r, m')"
        "table m' ?t zs" "\<forall>x. x \<notin> bytes_at ?t (8 * (length ([] :: run list) + length ys + 3)) \<longrightarrow> m' x = mem s x"
        using gap Some unfolding vs x by (auto simp del: gap_fit.simps)
      have "length ([] :: run list) + length ys + 3 = length vs + 2"
        using vs by simp
      note m'(3) [unfolded this]
      from heap_put_correct [OF assms(1) m'(2) _ this] gap_fit_length [OF Some [unfolded x]] show ?thesis
        using fit Some x m'(1) kmalloc_loop_gap [of sz ?zero s] by simp
    qed
  qed
qed

section \<open>The invariant of the heap and its instance of the allocator contract\<close>

definition heap_regions :: "kernel \<Rightarrow> run list \<Rightarrow> bool" where
  "heap_regions s vs \<longleftrightarrow> heap_table s vs \<and> (\<forall>(b, n) \<in> set vs. 0 < n)
     \<and> placed unat (unat (d_heap (heap_state s))) (unat (heap_end s)) vs"

abbreviation heap_top :: "kernel \<Rightarrow> run list \<Rightarrow> nat" where
  "heap_top s vs \<equiv> end_of unat (unat (d_heap (heap_state s))) vs"

abbreviation heap_range :: "kernel \<Rightarrow> nat set" where
  "heap_range s \<equiv> {unat (d_heap (heap_state s)) ..< unat (heap_end s)}"

definition heap_full :: "kernel \<Rightarrow> bool" where
  "heap_full s \<longleftrightarrow> (d_block_count (heap_state s) + 1) * 8 > page_bytes (d_table_size (heap_state s))"

lemma kmalloc_no_growth: "\<not> heap_full s \<Longrightarrow> kmalloc sz s = Some (kmalloc_place sz s)"
  by (simp add: kmalloc_def heap_full_def)

lemma kmalloc_cases:
  assumes inv: "heap_regions s vs" "heap_room 1 s vs" "\<not> heap_full s"
    and sz: "0 < sz" "heap_top s vs + unat sz < 2 ^ 32"
    and first: "vs = [] \<longrightarrow> unat (d_heap (heap_state s)) + unat sz \<le> unat (heap_end s)"
  obtains (full) "kmalloc sz s = Some (NULL, s)"
      "\<And>a. unat (d_heap (heap_state s)) \<le> a \<Longrightarrow> a + unat sz \<le> unat (heap_end s) \<Longrightarrow>
        {a ..< a + unat sz} \<inter> occupied unat vs \<noteq> {}"
    | (added) r s' vs' where "kmalloc sz s = Some (r, s')" "heap_regions s' vs'"
      "set vs' = insert (r, sz) (set vs)" "length vs' = Suc (length vs)"
      "heap_top s' vs' \<le> heap_top s vs + unat sz"
      "cells unat (r, sz) \<inter> occupied unat vs = {}" "cells unat (r, sz) \<subseteq> heap_range s"
      "heap_step (length vs + 2) s s'"
proof (cases "vs = []")
  case True
  let ?t = "heap_ptr s" and ?lo = "d_heap (heap_state s)"
  have tab: "table (mem s) ?t []" and room: "unat ?t + 8 * 2 < 2 ^ 32" and cnt: "d_block_count (heap_state s) = 0"
    using inv True by (simp_all add: heap_regions_def heap_table_def heap_room_def)
  let ?p = "ofs ?t (8 * 0)"
  let ?m = "put_block ?p ?lo sz (mem s)"
  have ptr0: "block_ptr ?t 0 = ?p"
    by (simp add: block_ptr_def ofs_def)
  have "kmalloc_place sz s = (?lo, heap_put ?m s)"
    using cnt heap_enter_put [of ?p ?lo sz "mem s" s] ptr0
    by (simp add: kmalloc_place_def Let_def heap_ptr_def)
  then have k: "kmalloc sz s = Some (?lo, heap_put ?m s)"
    using kmalloc_no_growth inv(3) by simp
  have "table ?m ?t [(?lo, sz)]" "\<forall>x. x \<notin> bytes_at ?t (8 * (length vs + 2)) \<longrightarrow> ?m x = mem s x"
    using table_insert [OF tab, where j = 0 and c = 0 and b = ?lo and n = sz] room True
    by (auto simp: bytes_at_def)
  note put = heap_put_correct [of s "[]" ?m "[(?lo, sz)]" "length vs + 2", OF _ this(1) _ this(2)]
  define s' where "s' = heap_put ?m s"
  have st: "heap_step (length vs + 2) s s'" and ht: "heap_table s' [(?lo, sz)]"
    using put inv(1) True by (simp_all add: heap_regions_def s'_def)
  note f = heap_step_fields [OF st]
  show thesis
  proof (rule added [OF k [folded s'_def] _ _ _ _ _ _ st])
    show "heap_regions s' [(?lo, sz)]"
      using ht first [rule_format, OF True] sz(1) by (simp add: heap_regions_def f)
    show "cells unat (?lo, sz) \<subseteq> heap_range s"
      using first [rule_format, OF True] by (auto simp: cells_def)
    show "heap_top s' [(?lo, sz)] \<le> heap_top s vs + unat sz"
      using True by (simp add: f)
  qed (use True in simp_all)
next
  case False
  have i: "heap_table s vs" "\<forall>(b, n) \<in> set vs. 0 < n"
    "placed unat (unat (d_heap (heap_state s))) (unat (heap_end s)) vs"
    using inv(1) by (auto simp: heap_regions_def)
  note fit = kmalloc_place_fit [OF i(1) False inv(2), of sz]
  note k = kmalloc_no_growth [OF inv(3), of sz]
  show thesis
  proof (cases "heap_first_fit (d_heap (heap_state s)) (heap_end s) sz vs")
    case None
    then show thesis
      using fit k bytes_unit.region_fit_None [OF None i(3) False sz i(2)] by (intro full) auto
  next
    case (Some x)
    then obtain r zs where x: "heap_first_fit (d_heap (heap_state s)) (heap_end s) sz vs = Some (r, zs)"
      by (cases x) auto
    have front: "unat (d_heap (heap_state s)) \<le> unat (b - sz) \<and> unat (b - sz) + unat sz \<le> unat b"
      if "unat (d_heap (heap_state s)) + unat sz \<le> unat b" for b
    proof -
      have "unat (b - sz) = unat b - unat sz"
        by (rule unat_diff_nowrap) (use that in \<open>simp add: word_le_nat_alt\<close>)
      then show ?thesis using that by simp
    qed
    note f = bytes_unit.region_fit_Some [OF x i(3) False sz(2) front]
    obtain s' where s': "kmalloc_place sz s = (r, s')" "heap_table s' zs" "heap_step (length vs + 2) s s'"
      using fit x by auto
    note st = heap_step_fields [OF s'(3)]
    have "heap_regions s' zs"
      using f(1,2) i(2) s'(2) sz(1) by (auto simp: heap_regions_def st)
    then show thesis
      using f s' k by (intro added) (simp_all add: st)
  qed
qed


definition heap_pool :: "nat \<Rightarrow> nat \<Rightarrow> kernel \<Rightarrow> nat set \<Rightarrow> bool" where
  "heap_pool M k s F \<longleftrightarrow> (\<exists>vs. heap_regions s vs \<and> heap_room k s vs \<and> 0 < d_heap (heap_state s)
     \<and> unat (d_heap (heap_state s)) + M \<le> unat (heap_end s) \<and> heap_top s vs + k * M < 2 ^ 32
     \<and> 8 * (length vs + k) \<le> unat (page_bytes (d_table_size (heap_state s)))
     \<and> F = heap_range s - occupied unat vs)"

lemma not_heap_full:
  assumes "heap_table s vs" "8 * (length vs + 1) < 2 ^ 32"
    and "8 * (length vs + 1) \<le> unat (page_bytes (d_table_size (heap_state s)))"
  shows "\<not> heap_full s"
proof -
  have "(d_block_count (heap_state s) + 1) * 8 = of_nat (8 * (length vs + 1))"
    using assms(1) by (simp add: heap_table_def)
  moreover have "unat (of_nat (8 * (length vs + 1)) :: u32) = 8 * (length vs + 1)"
    using assms(2) by (rule unat_of_nat_small)
  ultimately show ?thesis
    using assms(3) unfolding heap_full_def by (metis linorder_not_less word_le_nat_alt)
qed

interpretation heap_alloc: allocator kmalloc NULL "cells unat" "\<lambda>n. 0 < n \<and> unat n \<le> M" "heap_pool M" for M
proof
  fix k F and s :: kernel and n :: u32
  assume "heap_pool M (Suc k) s F" and n: "0 < n \<and> unat n \<le> M"
  then obtain vs where v: "heap_regions s vs" "heap_room (Suc k) s vs" "0 < d_heap (heap_state s)"
      "unat (d_heap (heap_state s)) + M \<le> unat (heap_end s)" "heap_top s vs + Suc k * M < 2 ^ 32"
      "8 * (length vs + Suc k) \<le> unat (page_bytes (d_table_size (heap_state s)))"
      "F = heap_range s - occupied unat vs"
    by (auto simp: heap_pool_def)
  have nf: "\<not> heap_full s"
    by (rule not_heap_full [of s vs]) (use v(1,2,6) in \<open>simp_all add: heap_regions_def heap_room_def\<close>)
  have p: "heap_room 1 s vs" "0 < n" "heap_top s vs + unat n < 2 ^ 32"
    "vs = [] \<longrightarrow> unat (d_heap (heap_state s)) + unat n \<le> unat (heap_end s)"
    using v(2,4,5) n by (simp_all add: heap_room_def)
  from v(1) p(1) nf p(2-4) show "(\<exists>s'. kmalloc n s = Some (NULL, s') \<and> heap_pool M k s' F)
    \<or> (\<exists>r s'. kmalloc n s = Some (r, s') \<and> r \<noteq> NULL
        \<and> cells unat (r, n) \<subseteq> F \<and> heap_pool M k s' (F - cells unat (r, n)))"
  proof (cases rule: kmalloc_cases [of s vs n])
    case full
    have "heap_pool M k s F"
      using v unfolding heap_pool_def by (intro exI [of _ vs]) (auto simp: heap_room_def)
    with full show ?thesis by blast
  next
    case (added r s' vs')
    note st = heap_step_fields [OF added(8)]
    have "r \<noteq> NULL"
    proof
      assume "r = NULL"
      then have "0 \<in> cells unat (r, n)"
        using n by (simp add: cells_def NULL_def word_less_nat_alt)
      with added(7) v(3) show False
        by (auto simp: word_less_nat_alt)
    qed
    moreover have "cells unat (r, n) \<subseteq> F"
      using added(6,7) v(7) by blast
    moreover have "heap_room k s' vs'" "8 * (length vs' + k) \<le> unat (page_bytes (d_table_size (heap_state s')))"
      using v(2,6) added(4) by (simp_all add: heap_room_def st)
    moreover have "heap_top s' vs' + k * M < 2 ^ 32"
      using added(5) v(5) n by simp
    moreover have "F - cells unat (r, n) = heap_range s' - occupied unat vs'"
      using v(7) added(3) by (auto simp: occupied_def st)
    ultimately show ?thesis
      using added(1,2) v(3,4) unfolding heap_pool_def by (auto simp: st)
  qed
qed

text \<open>With room behind the last block a request is always granted.\<close>

lemma kmalloc_grants:
  assumes inv: "heap_regions s vs" "heap_room 1 s vs" "\<not> heap_full s"
    and sz: "0 < sz" "heap_top s vs + unat sz \<le> unat (heap_end s)"
  obtains r s' vs' where "kmalloc sz s = Some (r, s')" "heap_regions s' vs'"
      "set vs' = insert (r, sz) (set vs)" "length vs' = Suc (length vs)"
      "heap_top s' vs' \<le> heap_top s vs + unat sz"
      "cells unat (r, sz) \<inter> occupied unat vs = {}" "cells unat (r, sz) \<subseteq> heap_range s"
      "heap_step (length vs + 2) s s'"
proof -
  have "placed unat (unat (d_heap (heap_state s))) (unat (heap_end s)) (vs @ [])"
    using inv(1) by (simp add: heap_regions_def)
  then have pl: "placed unat (unat (d_heap (heap_state s))) (heap_top s vs) vs"
    unfolding placed_append by (rule conjunct1)
  note lo = conjunct1 [OF placed_bounds [OF pl]]
  have top: "heap_top s vs + unat sz < 2 ^ 32"
    using order_le_less_trans [OF sz(2) unat_less_32] by simp
  have first: "vs = [] \<longrightarrow> unat (d_heap (heap_state s)) + unat sz \<le> unat (heap_end s)"
    using sz(2) by (cases vs) simp_all
  from inv sz(1) top first show thesis
  proof (cases rule: kmalloc_cases [of s vs sz])
    case full
    have "{heap_top s vs ..< heap_top s vs + unat sz} \<inter> occupied unat vs = {}"
      using placed_occupied [OF pl] by auto
    with full(2) [OF lo sz(2)] show ?thesis by blast
  qed (rule that)
qed

text \<open>Memory outside the table can change without harm to the heap.\<close>

lemma heap_regions_frame:
  assumes "heap_regions s vs" "8 * length vs \<le> 2 ^ 32"
    and "\<And>x. x \<in> bytes_at (heap_ptr s) (8 * length vs) \<Longrightarrow> m x = mem s x"
  shows "heap_regions (s\<lparr>mem := m\<rparr>) vs"
  using assms table_cong [of "mem s" "heap_ptr s" vs m]
  by (simp add: heap_regions_def heap_table_def heap_ptr_def heap_end_def)

section \<open>Freeing\<close>

lemma kfree_loop_absent:
  "block_base cur_block (mem s) \<noteq> ptr \<Longrightarrow> kfree_loop cur_block ptr i s = (False, s)"
proof (induction cur_block ptr i s rule: kfree_loop.induct)
  case (1 cur_block ptr i s)
  then show ?case by (subst kfree_loop.simps) (simp add: Let_def)
qed

lemma kfree_absent:
  assumes "heap_regions s ((a, n) # vs)" "p \<noteq> a"
  shows "kfree p s = (False, s)"
proof -
  have "block_base (block_ptr (heap_ptr s) 0) (mem s) = a"
    using assms(1) table_read(1) [of "mem s" "heap_ptr s" "[]" a n vs]
    by (simp add: heap_regions_def heap_table_def block_ptr_def ofs_def)
  with assms(2) show ?thesis
    using kfree_loop_absent [of "block_ptr (heap_ptr s) 0" s p 0] by (simp add: kfree_def heap_ptr_def)
qed

lemma kfree_first:
  assumes "heap_regions s ((b, n) # vs)" "heap_room 0 s ((b, n) # vs)"
  shows "\<exists>s'. kfree b s = (True, s') \<and> heap_regions s' vs \<and> heap_step (length vs + 1) s s'"
proof -
  let ?ws = "(b, n) # vs"
  have tab: "table (mem s) (heap_ptr s) ?ws" and cnt: "d_block_count (heap_state s) = of_nat (length ?ws)"
    and room: "unat (heap_ptr s) + 8 * (length ?ws + 1) < 2 ^ 32"
    using assms by (simp_all add: heap_regions_def heap_table_def heap_room_def)
  let ?p = "ofs (heap_ptr s) (8 * 0)"
  let ?m = "memcpy ?p (ofs (heap_ptr s) (8 * 0 + 8)) (of_nat (8 * (length ?ws - 0))) (mem s)"
  let ?s = "set_cur_dynamic ((heap_state s)\<lparr>d_block_count := of_nat (length vs)\<rparr>) (s\<lparr>mem := ?m\<rparr>)"
  have ptr: "block_ptr (heap_ptr s) 0 = ?p" "ofs (heap_ptr s) (8 * 0 + 8) = ?p + 8"
    by (simp_all add: block_ptr_def ofs_def)
  have rd: "block_base ?p (mem s) = b"
    using table_read(1) [of "mem s" "heap_ptr s" "[]" b n vs] tab by (simp add: ptr)
  have pos: "0 < d_block_count (heap_state s)"
    using word_of_length [of 0 "length ?ws"] cnt room by (simp add: word_neq_0_conv [symmetric] del: word_neq_0_conv)
  have "kfree b s = (True, ?s)"
    unfolding kfree_def heap_ptr_def [symmetric] ptr
    by (subst kfree_loop.simps) (use pos rd cnt in \<open>simp add: Let_def mult.commute\<close>)
  moreover have del: "table ?m (heap_ptr s) vs" "\<forall>x. x \<notin> bytes_at (heap_ptr s) (8 * (length vs + 1)) \<longrightarrow> ?m x = mem s x"
    using table_delete [OF tab, of 0] room by simp_all
  have st: "heap_step (length vs + 1) s ?s"
    unfolding heap_step_def using del(2) by blast
  have "placed unat (unat (d_heap (heap_state s))) (unat (heap_end s)) vs"
    by (rule placed_mono [of unat "unat b + unat n" "unat (heap_end s)"])
      (use assms(1) in \<open>simp_all add: heap_regions_def\<close>)
  then have "heap_regions ?s vs"
    using assms(1) del(1) by (simp add: heap_regions_def heap_table_def heap_step_fields [OF st] heap_ptr_def heap_end_def)
  with st calculation show ?thesis by blast
qed

section \<open>Bytes of the heap\<close>

abbreviation heap_table_bytes :: "nat \<Rightarrow> kernel \<Rightarrow> u32 set" where
  "heap_table_bytes n s \<equiv> bytes_at (heap_ptr s) (8 * (n + 2))"
abbreviation heap_bytes :: "kernel \<Rightarrow> u32 set" where "heap_bytes s \<equiv> {x. unat x \<in> heap_range s}"

abbreviation block_bytes :: "run \<Rightarrow> u32 set" where "block_bytes r \<equiv> {x. unat x \<in> cells unat r}"

lemma block_bytes_eq:
  assumes "unat b + unat n \<le> 2 ^ 32"
  shows "block_bytes (b, n) = bytes_at b (unat n)"
  using bytes_at_nowrap [OF assms] by (auto simp: cells_def)

lemma block_in_heap:
  assumes "heap_regions s vs" "(b, n) \<in> set vs"
  shows "block_bytes (b, n) \<subseteq> heap_bytes s" "unat b + unat n \<le> unat (heap_end s)" "unat b + unat n < 2 ^ 32"
proof -
  have pl: "placed unat (unat (d_heap (heap_state s))) (unat (heap_end s)) vs"
    using assms(1) by (simp add: heap_regions_def)
  have "cells unat (b, n) \<subseteq> occupied unat vs"
    using assms(2) by (auto simp: occupied_def)
  with placed_occupied [OF pl] show "block_bytes (b, n) \<subseteq> heap_bytes s" by auto
  obtain xs ys where "vs = xs @ (b, n) # ys"
    using split_list [OF assms(2)] by blast
  with pl have "placed unat (unat b + unat n) (unat (heap_end s)) ys"
    by (simp add: placed_append)
  then show le: "unat b + unat n \<le> unat (heap_end s)"
    using placed_bounds by (meson le_trans)
  show "unat b + unat n < 2 ^ 32"
    using order_le_less_trans [OF le unat_less_32] by simp
qed

lemma blocks_disjoint:
  assumes "heap_regions s vs" "u \<in> set vs" "v \<in> set vs" "u \<noteq> v"
  shows "block_bytes u \<inter> block_bytes v = {}"
proof -
  have "sorted_wrt (\<lambda>r q. cells unat r \<inter> cells unat q = {}) vs"
    using assms(1) by (intro placed_disjoint) (auto simp: heap_regions_def)
  then have "cells unat (vs ! i) \<inter> cells unat (vs ! j) = {}" if "i < j" "j < length vs" for i j
    using that by (simp add: sorted_wrt_iff_nth_less)
  then have "cells unat u \<inter> cells unat v = {}"
    using assms(2-4) by (metis Int_commute in_set_conv_nth linorder_neqE_nat)
  then show ?thesis by blast
qed

text \<open>
  A request for \<open>n\<close> bytes that fits behind the last block, seen from the memory: the bytes granted lie
  in the heap, apart from every other block, and no byte of the heap changes.
\<close>

lemma kmalloc_block:
  fixes n :: nat and s :: kernel
  assumes inv: "heap_regions s vs" "heap_room 1 s vs" "8 * (length vs + 1) \<le> unat (page_bytes (d_table_size (heap_state s)))"
    and n: "0 < n" "heap_top s vs + n \<le> unat (heap_end s)"
    and apart: "heap_table_bytes k s \<inter> heap_bytes s = {}" "length vs \<le> k"
  obtains r s' vs' where "kmalloc (of_nat n) s = Some (r, s')" "heap_regions s' vs'"
      "set vs' = insert (r, of_nat n) (set vs)" "length vs' = Suc (length vs)"
      "heap_top s' vs' \<le> heap_top s vs + n" "unat r + n < 2 ^ 32" "bytes_at r n \<subseteq> heap_bytes s"
      "\<forall>v \<in> set vs. bytes_at r n \<inter> block_bytes v = {}"
      "heap_step (length vs + 2) s s'" "\<forall>x. x \<notin> heap_table_bytes k s \<longrightarrow> mem s' x = mem s x"
proof -
  have "n < 2 ^ 32"
  proof -
    have "n \<le> unat (heap_end s)" using n(2) by simp
    then show ?thesis
      using order_le_less_trans [OF _ unat_less_32] by simp
  qed
  then have un: "unat (of_nat n :: u32) = n"
    by (intro unat_of_nat_small)
  then have pos: "0 < (of_nat n :: u32)"
    using n(1) by (simp add: word_less_nat_alt)
  have nf: "\<not> heap_full s"
    by (rule not_heap_full [of s vs]) (use inv in \<open>simp_all add: heap_regions_def heap_room_def\<close>)
  obtain r s' vs' where k: "kmalloc (of_nat n) s = Some (r, s')" "heap_regions s' vs'"
      "set vs' = insert (r, of_nat n) (set vs)" "length vs' = Suc (length vs)"
      "heap_top s' vs' \<le> heap_top s vs + unat (of_nat n :: u32)"
      "cells unat (r, of_nat n) \<inter> occupied unat vs = {}" "cells unat (r, of_nat n) \<subseteq> heap_range s"
      "heap_step (length vs + 2) s s'"
    using kmalloc_grants [OF inv(1,2) nf pos] n(2) un by metis
  have r: "unat r + n < 2 ^ 32"
    using block_in_heap(3) [OF k(2), of r "of_nat n"] k(3) un by simp
  then have b: "bytes_at r n = block_bytes (r, of_nat n)"
    using block_bytes_eq [of r "of_nat n"] un by simp
  show thesis
  proof (rule that [OF k(1-4)])
    show "heap_top s' vs' \<le> heap_top s vs + n" using k(5) un by simp
    show "bytes_at r n \<subseteq> heap_bytes s" unfolding b using k(7) by auto
    show "\<forall>v \<in> set vs. bytes_at r n \<inter> block_bytes v = {}"
      unfolding b using k(6) by (auto simp: occupied_def)
    have "bytes_at (heap_ptr s) (8 * (length vs + 2)) \<subseteq> heap_table_bytes k s"
      using apart(2) by (intro bytes_at_mono) simp
    then show "\<forall>x. x \<notin> heap_table_bytes k s \<longrightarrow> mem s' x = mem s x"
      using heap_step_fields(7) [OF k(8)] by blast
  qed (use r k(8) in simp_all)
qed

text \<open>Whatever \<open>kfree\<close> finds, it changes bytes of the table only.\<close>

lemma kfree_keeps_memory:
  assumes "heap_regions s (v # vs)" "heap_room 0 s (v # vs)" "length vs \<le> k" "x \<notin> heap_table_bytes k s"
  shows "mem (snd (kfree p s)) x = mem s x"
proof -
  obtain b n where v: "v = (b, n)" by (cases v)
  show ?thesis
  proof (cases "p = b")
    case True
    have "bytes_at (heap_ptr s) (8 * (length vs + 1)) \<subseteq> heap_table_bytes k s"
      using assms(3) by (intro bytes_at_mono) simp
    then have x: "x \<notin> bytes_at (heap_ptr s) (8 * (length vs + 1))"
      using assms(4) by blast
    obtain s' where s': "kfree b s = (True, s')" "heap_step (length vs + 1) s s'"
      using kfree_first [of s b n vs] assms(1,2) unfolding v by blast
    from heap_step_fields(7) [OF s'(2) x] show ?thesis
      unfolding True s'(1) by simp
  next
    case False
    with kfree_absent [of s b n vs p] assms(1) show ?thesis
      by (simp add: v)
  qed
qed

lemma block_base_unique:
  assumes "heap_regions s vs" "(q, l) \<in> set vs" "(q, z) \<in> set vs"
  shows "l = z" "q \<in> block_bytes (q, l)"
proof -
  have pos: "0 < unat l" "0 < unat z"
    using assms by (auto simp: heap_regions_def word_less_nat_alt)
  then have "q \<in> block_bytes (q, l)" "q \<in> block_bytes (q, z)"
    by (simp_all add: cells_def)
  then show "l = z" "q \<in> block_bytes (q, l)"
    using blocks_disjoint [OF assms] by blast+
qed

section \<open>A heap with room for some blocks\<close>

text \<open>
  Room for \<open>k\<close> more blocks of \<open>n\<close> bytes altogether behind the last block, and a table that does not
  overlap the heap. A request uses up one block; writing to bytes of the heap does no harm.
\<close>

definition heap_space :: "nat \<Rightarrow> nat \<Rightarrow> kernel \<Rightarrow> run list \<Rightarrow> bool" where
  "heap_space k n s vs \<longleftrightarrow> heap_regions s vs \<and> heap_room k s vs
     \<and> 8 * (length vs + k) \<le> unat (page_bytes (d_table_size (heap_state s)))
     \<and> heap_top s vs + n \<le> unat (heap_end s) \<and> heap_table_bytes (length vs + k) s \<inter> heap_bytes s = {}"

lemma heap_space_alloc:
  fixes n :: nat and s :: kernel
  assumes "heap_space (Suc k) (n + rest) s vs" "0 < n"
  obtains r s' vs' where "kmalloc (of_nat n) s = Some (r, s')" "heap_space k rest s' vs'"
      "set vs' = insert (r, of_nat n) (set vs)" "unat r + n < 2 ^ 32" "bytes_at r n \<subseteq> heap_bytes s"
      "\<forall>v \<in> set vs. bytes_at r n \<inter> block_bytes v = {}" "heap_bytes s' = heap_bytes s"
      "\<forall>x \<in> heap_bytes s. mem s' x = mem s x"
      "\<forall>x. x \<notin> heap_table_bytes (length vs + Suc k) s \<longrightarrow> mem s' x = mem s x"
      "length vs' = Suc (length vs)" "heap_step (length vs + 2) s s'"
proof -
  note sp = assms(1) [unfolded heap_space_def]
  have pre: "heap_regions s vs" "heap_room 1 s vs" "8 * (length vs + 1) \<le> unat (page_bytes (d_table_size (heap_state s)))"
    "heap_top s vs + n \<le> unat (heap_end s)" "heap_table_bytes (length vs + Suc k) s \<inter> heap_bytes s = {}"
    using sp by (simp_all add: heap_room_def)
  obtain r s' vs' where k: "kmalloc (of_nat n) s = Some (r, s')" "heap_regions s' vs'"
      "set vs' = insert (r, of_nat n) (set vs)" "length vs' = Suc (length vs)"
      "heap_top s' vs' \<le> heap_top s vs + n" "unat r + n < 2 ^ 32" "bytes_at r n \<subseteq> heap_bytes s"
      "\<forall>v \<in> set vs. bytes_at r n \<inter> block_bytes v = {}"
      "heap_step (length vs + 2) s s'" "\<forall>x. x \<notin> heap_table_bytes (length vs + Suc k) s \<longrightarrow> mem s' x = mem s x"
    using kmalloc_block [OF pre(1-3) assms(2) pre(4,5)] by auto
  note st = heap_step_fields [OF k(9)]
  have eq: "heap_bytes s' = heap_bytes s" by (simp add: st)
  have "heap_space k rest s' vs'"
    unfolding heap_space_def
    using sp k(2,4,5) by (simp add: heap_room_def st)
  then show thesis
    using that [OF k(1) _ k(3,6,7,8) eq _ k(10,4,9)] k(10) pre(5) by blast
qed

lemma heap_space_write:
  assumes "heap_space k n s vs" "\<forall>x. x \<notin> heap_bytes s \<longrightarrow> m x = mem s x"
  shows "heap_space k n (s\<lparr>mem := m\<rparr>) vs" "heap_bytes (s\<lparr>mem := m\<rparr>) = heap_bytes s"
proof -
  note sp = assms(1) [unfolded heap_space_def]
  have sub: "bytes_at (heap_ptr s) (8 * length vs) \<subseteq> heap_table_bytes (length vs + k) s"
    by (intro bytes_at_mono) simp
  have "heap_regions (s\<lparr>mem := m\<rparr>) vs"
  proof (rule heap_regions_frame)
    show "heap_regions s vs" "8 * length vs \<le> 2 ^ 32"
      using sp by (simp_all add: heap_room_def)
    fix x assume "x \<in> bytes_at (heap_ptr s) (8 * length vs)"
    then show "m x = mem s x"
      using sub sp assms(2) by blast
  qed
  then show "heap_space k n (s\<lparr>mem := m\<rparr>) vs" "heap_bytes (s\<lparr>mem := m\<rparr>) = heap_bytes s"
    using sp by (simp_all add: heap_space_def heap_room_def heap_ptr_def heap_end_def)
qed

lemma heap_space_mono:
  assumes "heap_space (i + k) (j + n) s vs"
  shows "heap_space k n s vs"
proof -
  have "heap_table_bytes (length vs + k) s \<subseteq> heap_table_bytes (length vs + (i + k)) s"
    by (rule bytes_at_mono) simp
  then show ?thesis
    using assms unfolding heap_space_def heap_room_def by auto
qed

text \<open>After a \<open>kfree\<close> at most the block that was freed is gone, and the bytes of the heap are as before.\<close>

lemma heap_space_free:
  assumes "heap_space k n s vs" "vs \<noteq> []"
  obtains b s' vs' where "kfree p s = (b, s')" "heap_space k n s' vs'" "set vs' \<subseteq> set vs"
    "\<forall>(q, l) \<in> set vs. q \<noteq> p \<longrightarrow> (q, l) \<in> set vs'" "heap_bytes s' = heap_bytes s"
    "\<forall>x \<in> heap_bytes s. mem s' x = mem s x" "length vs' \<le> length vs" "heap_step (length vs) s s'"
proof -
  obtain a c ys where vs: "vs = (a, c) # ys"
    using assms(2) by (cases vs) auto
  note sp = assms(1) [unfolded heap_space_def vs]
  have room: "heap_regions s ((a, c) # ys)" "heap_room 0 s ((a, c) # ys)"
    using sp by (simp_all add: heap_room_def)
  have kept: "mem (snd (kfree p s)) x = mem s x" if "x \<in> heap_bytes s" for x
    using kfree_keeps_memory [OF room, of "length ((a, c) # ys) + k" x p] sp that by auto
  show thesis
  proof (cases "p = a")
    case False
    with kfree_absent [OF room(1)] have "kfree p s = (False, s)" by simp
    then show thesis
      using that [of False s vs] assms(1) heap_step_refl by auto
  next
    case True
    obtain s' where s': "kfree a s = (True, s')" "heap_regions s' ys" "heap_step (length ys + 1) s s'"
      using kfree_first [OF room] by blast
    note st = heap_step_fields [OF s'(3)]
    have top: "heap_top s' ys \<le> heap_top s ((a, c) # ys)"
    proof -
      have "unat (d_heap (heap_state s)) \<le> unat a + unat c"
        using sp by (simp add: heap_regions_def)
      then show ?thesis
        by (cases ys) (auto simp: st)
    qed
    have "heap_table_bytes (length ys + k) s \<subseteq> heap_table_bytes (length ((a, c) # ys) + k) s"
      by (rule bytes_at_mono) simp
    then have "heap_space k n s' ys"
      unfolding heap_space_def using sp s'(2) top by (auto simp: heap_room_def st)
    then show thesis
      using that [of True s' ys] s'(1,3) kept True vs by (auto simp: st)
  qed
qed

text \<open>A heap with room depends only on its description and its table.\<close>

lemma heap_space_cong:
  assumes "heap_space k n s vs" "heap_state s' = heap_state s"
    and "\<forall>x \<in> bytes_at (heap_ptr s) (8 * length vs). mem s' x = mem s x"
  shows "heap_space k n s' vs" "heap_bytes s' = heap_bytes s" "heap_ptr s' = heap_ptr s"
proof -
  note sp = assms(1) [unfolded heap_space_def heap_regions_def heap_table_def]
  have e: "heap_ptr s' = heap_ptr s" "heap_end s' = heap_end s"
    using assms(2) by (simp_all add: heap_ptr_def heap_end_def)
  then have "table (mem s') (heap_ptr s') vs"
    using table_cong [of "mem s" "heap_ptr s" vs "mem s'"] sp assms(3) by (simp add: heap_room_def)
  then show "heap_space k n s' vs" "heap_bytes s' = heap_bytes s" "heap_ptr s' = heap_ptr s"
    using sp e assms(2) by (simp_all add: heap_space_def heap_regions_def heap_table_def heap_room_def)
qed

section \<open>Properties of the heap\<close>

text \<open>A heap of 10 pages at \<open>0x80020000\<close> with two blocks, of 16 and 4 bytes; its table at \<open>0x80010000\<close>.\<close>

definition two_blocks :: kernel where
  "two_blocks = zero_kernel\<lparr>
     mem := store32 0x8001000C 4 (store32 0x80010008 0x80020100 (store32 0x80010004 16
       (store32 0x80010000 0x80020000 (\<lambda>_. 0)))),
     kernel_address_space := zero_space\<lparr>dynamic_memory := \<lparr>d_block_count = 2, d_blocks = 0x80010000,
       d_table_size = 1, d_heap = 0x80020000, d_heap_size = 10\<rparr>\<rparr>\<rparr>"

abbreviation the_two_blocks :: "run list" where
  "the_two_blocks \<equiv> [(0x80020000, 16), (0x80020100, 4)]"

lemma two_blocks_simps [simp]:
  "heap_state two_blocks = \<lparr>d_block_count = 2, d_blocks = 0x80010000,
     d_table_size = 1, d_heap = 0x80020000, d_heap_size = 10\<rparr>"
  "heap_end two_blocks = 0x8002A000" "\<not> heap_full two_blocks"
  by (simp_all add: two_blocks_def zero_kernel_def address_space_def heap_end_def heap_full_def)

lemma two_blocks_ok: "heap_regions two_blocks the_two_blocks" "heap_room 8 two_blocks the_two_blocks"
proof -
  have "load32 (mem two_blocks) 0x80010000 = 0x80020000" "load32 (mem two_blocks) 0x80010004 = 16"
    "load32 (mem two_blocks) 0x80010008 = 0x80020100" "load32 (mem two_blocks) 0x8001000C = 4"
    by (simp_all add: two_blocks_def load32_def store32_def)
  then have "table (mem two_blocks) 0x80010000 the_two_blocks"
    by (simp add: table_def ofs_def nth_Cons split: nat.split)
  then show "heap_regions two_blocks the_two_blocks" "heap_room 8 two_blocks the_two_blocks"
    by (simp_all add: heap_regions_def heap_room_def heap_table_def heap_ptr_def)
qed

text \<open>
  C7: a request of positive size on a sound heap whose table of blocks is not full and has addresses for
  one entry more, where the end of the last block plus the size does not wrap around and, if the heap
  is empty, the size is at most that of the heap: \<open>kmalloc\<close> either grants a block of the size asked,
  inside the heap and apart from every block it granted before, or answers \<open>NULL\<close> and changes
  nothing, and then no place of that size is free. Only \<open>block_count\<close> and bytes of the table change.
  (Without the last condition the first block may leave the heap, \<open>kmalloc_first_unchecked\<close>.)
\<close>

theorem kmalloc_correct:
  assumes "heap_regions s vs" and "heap_room 1 s vs" and "\<not> heap_full s"
    and "0 < sz" and "heap_top s vs + unat sz < 2 ^ 32"
    and "vs = [] \<longrightarrow> unat (d_heap (heap_state s)) + unat sz \<le> unat (heap_end s)"
  shows "(kmalloc sz s = Some (NULL, s)
      \<and> (\<forall>a. unat (d_heap (heap_state s)) \<le> a \<and> a + unat sz \<le> unat (heap_end s) \<longrightarrow>
           {a ..< a + unat sz} \<inter> occupied unat vs \<noteq> {}))
    \<or> (\<exists>r s' vs'. kmalloc sz s = Some (r, s') \<and> heap_regions s' vs'
      \<and> set vs' = insert (r, sz) (set vs) \<and> cells unat (r, sz) \<inter> occupied unat vs = {}
      \<and> cells unat (r, sz) \<subseteq> heap_range s \<and> heap_step (length vs + 2) s s')"
  using assms
proof (cases rule: kmalloc_cases)
  case full
  then show ?thesis by blast
next
  case (added r s' vs')
  then show ?thesis by blast
qed

theorem kmalloc_correct_witness:
  "\<exists>r s' vs'. kmalloc 32 two_blocks = Some (r, s') \<and> heap_regions s' vs'
    \<and> set vs' = {(r, 32), (0x80020000, 16), (0x80020100, 4)}"
proof -
  have free: "{0x80021000 ..< 0x80021000 + unat (32 :: u32)} \<inter> occupied unat the_two_blocks = {}"
    by (auto simp: cells_def)
  have "heap_room 1 two_blocks the_two_blocks" "0 < (32 :: u32)"
    "heap_top two_blocks the_two_blocks + unat (32 :: u32) < 2 ^ 32"
    "the_two_blocks = [] \<longrightarrow> unat (d_heap (heap_state two_blocks)) + unat (32 :: u32) \<le> unat (heap_end two_blocks)"
    using two_blocks_ok(2) by (simp_all add: heap_room_def)
  from kmalloc_correct [OF two_blocks_ok(1) this(1) two_blocks_simps(3) this(2-4)] show ?thesis
  proof (elim disjE conjE)
    assume "\<forall>a. unat (d_heap (heap_state two_blocks)) \<le> a \<and>
        a + unat (32 :: u32) \<le> unat (heap_end two_blocks) \<longrightarrow>
        {a ..< a + unat (32 :: u32)} \<inter> occupied unat the_two_blocks \<noteq> {}"
    from this [rule_format, of "0x80021000"] free show ?thesis
      by simp
  qed auto
qed

text \<open>
  C29: a sequence of requests, each positive and at most \<open>M\<close> bytes, on a sound heap (\<open>heap_pool\<close>) of at
  least \<open>M\<close> bytes that does not start at address 0, whose table has room for one entry per request without growing and in which even a
  block of \<open>M\<close> bytes per request behind the last block would not wrap around: every call returns, the
  blocks granted are pairwise disjoint, lie in the free part of the heap, and make up exactly what the
  free part loses.
\<close>

theorem kmalloc_seq_disjoint:
  assumes "heap_pool M (length ns) s F" and "\<forall>n \<in> set ns. 0 < n \<and> unat n \<le> M"
  shows "\<exists>gs s'. alloc_seq kmalloc NULL ns s = Some (gs, s')
    \<and> sorted_wrt (\<lambda>g h. cells unat g \<inter> cells unat h = {}) gs
    \<and> occupied unat gs \<subseteq> F \<and> heap_pool M 0 s' (F - occupied unat gs)"
  using heap_alloc.grants_disjoint [OF assms]
  unfolding heap_alloc.granted_def occupied_def [symmetric] .

theorem kmalloc_seq_disjoint_witness:
  "\<exists>gs s'. alloc_seq kmalloc NULL [8, 100, 0x2000] two_blocks = Some (gs, s')
    \<and> sorted_wrt (\<lambda>g h. cells unat g \<inter> cells unat h = {}) gs"
proof -
  have "heap_room (length [8, 100, 0x2000 :: u32]) two_blocks the_two_blocks"
    using two_blocks_ok(2) by (simp add: heap_room_def)
  then have "heap_pool 0x2000 (length [8, 100, 0x2000 :: u32]) two_blocks (heap_range two_blocks - occupied unat the_two_blocks)"
    unfolding heap_pool_def using two_blocks_ok(1) by (intro exI [of _ the_two_blocks]) simp
  moreover have "\<forall>n \<in> set [8, 100, 0x2000 :: u32]. 0 < n \<and> unat n \<le> 0x2000"
    by simp
  ultimately show ?thesis
    using kmalloc_seq_disjoint by blast
qed

text \<open>
  The first block of an empty heap is granted whatever its size: no test compares it with the
  size of the heap. A request beyond it gets a block that leaves the heap.
\<close>

theorem kmalloc_first_unchecked:
  assumes "heap_table s []" and "heap_room 1 s []" and "\<not> heap_full s"
    and "unat (heap_end s) < unat (d_heap (heap_state s)) + unat sz"
  shows "\<exists>s'. kmalloc sz s = Some (d_heap (heap_state s), s') \<and> heap_table s' [(d_heap (heap_state s), sz)]
    \<and> \<not> heap_regions s' [(d_heap (heap_state s), sz)]"
proof -
  let ?t = "heap_ptr s" and ?lo = "d_heap (heap_state s)"
  let ?m = "put_block (ofs ?t (8 * 0)) ?lo sz (mem s)"
  have tab: "table (mem s) ?t []" and room: "unat ?t + 8 * 2 < 2 ^ 32" and cnt: "d_block_count (heap_state s) = 0"
    using assms by (simp_all add: heap_table_def heap_room_def)
  have "kmalloc sz s = Some (?lo, heap_put ?m s)"
    using kmalloc_no_growth [OF assms(3)] cnt heap_enter_put [of "ofs ?t (8 * 0)" ?lo sz "mem s" s]
    by (simp add: kmalloc_place_def Let_def heap_ptr_def block_ptr_def ofs_def)
  moreover have "table ?m ?t [(?lo, sz)]" "\<forall>x. x \<notin> bytes_at ?t (8 * 2) \<longrightarrow> ?m x = mem s x"
    using table_insert [OF tab, where j = 0 and c = 0 and b = ?lo and n = sz] room
    by (auto simp: bytes_at_def)
  from heap_put_correct [OF assms(1) this(1) _ this(2)]
  have "heap_table (heap_put ?m s) [(?lo, sz)]" and st: "heap_step 2 s (heap_put ?m s)"
    by simp_all
  moreover have "\<not> heap_regions (heap_put ?m s) [(?lo, sz)]"
    using assms(4) heap_step_fields [OF st] by (simp add: heap_regions_def heap_put_def)
  ultimately show ?thesis by blast
qed

definition no_blocks :: kernel where
  "no_blocks = two_blocks\<lparr>kernel_address_space := zero_space\<lparr>dynamic_memory := \<lparr>d_block_count = 0,
     d_blocks = 0x80010000, d_table_size = 1, d_heap = 0x80020000, d_heap_size = 10\<rparr>\<rparr>\<rparr>"

theorem kmalloc_first_unchecked_witness: "\<exists>s'. kmalloc 0x20000 no_blocks = Some (0x80020000, s')"
proof -
  have d: "heap_state no_blocks = \<lparr>d_block_count = 0, d_blocks = 0x80010000, d_table_size = 1,
      d_heap = 0x80020000, d_heap_size = 10\<rparr>"
    by (simp add: no_blocks_def two_blocks_def zero_kernel_def address_space_def)
  have "heap_table no_blocks []" "heap_room 1 no_blocks []" "\<not> heap_full no_blocks"
    "unat (heap_end no_blocks) < unat (d_heap (heap_state no_blocks)) + unat (0x20000 :: u32)"
    by (simp_all add: table_def heap_table_def heap_room_def heap_full_def heap_end_def heap_ptr_def d)
  from kmalloc_first_unchecked [OF this] show ?thesis
    by (auto simp: d)
qed

text \<open>
  \<open>kfree\<close> finds a block only when it is the first of the table, since its loop never moves
  \<open>cur_block\<close>: the first block is removed, any other stays and \<open>False\<close> is answered.
\<close>

theorem kfree_only_first_block:
  assumes "heap_regions s ((b, n) # vs)" and "heap_room 0 s ((b, n) # vs)"
  shows "kfree ptr s = (if ptr = b then (True, snd (kfree b s)) else (False, s))
    \<and> heap_regions (snd (kfree b s)) vs"
proof
  obtain s' where s': "kfree b s = (True, s')" "heap_regions s' vs"
    using kfree_first [OF assms] by blast
  then show "heap_regions (snd (kfree b s)) vs" by simp
  have "table (mem s) (heap_ptr s) ([] @ (b, n) # vs)"
    using assms(1) by (simp add: heap_regions_def heap_table_def)
  from table_read(1) [OF this]
  have "block_base (block_ptr (d_blocks (heap_state s)) 0) (mem s) = b"
    by (simp add: heap_ptr_def block_ptr_def ofs_def)
  then show "kfree ptr s = (if ptr = b then (True, snd (kfree b s)) else (False, s))"
    using s'(1) kfree_loop_absent [of _ s ptr 0] by (simp add: kfree_def)
qed

theorem kfree_only_first_block_witness:
  "kfree 0x80020100 two_blocks = (False, two_blocks) \<and> fst (kfree 0x80020000 two_blocks)"
proof -
  have "heap_room 0 two_blocks the_two_blocks"
    using two_blocks_ok(2) by (simp add: heap_room_def)
  note k = kfree_only_first_block [OF two_blocks_ok(1) this]
  from k [of "0x80020100"] k [of "0x80020000"] show ?thesis
    by (simp add: prod_eq_iff)
qed

end
