(* ===== verification/Terminal.thy ===== *)
theory Terminal
  imports Heap
begin

text \<open>
  The text screen of \<open>tty.c\<close>: \<open>move_cursor\<close>, \<open>out_char\<close>, \<open>out_string\<close>, \<open>clear_screen\<close>,
  \<open>set_text_attr\<close>, \<open>int_to_str\<close> and \<open>printf\<close>. An operation that may divide by zero, index the table of
  digits outside it or not return answers an option, and \<open>None\<close> is that it does not return.
  The abstract screen is a list of cells and a position; the operations of the code implement the
  operations on it. The locale \<open>char_sink\<close> is the interface between \<open>out_char\<close> and its callers:
  whatever writes characters one by one has the effect of the list of them.
\<close>

section \<open>The operations\<close>

definition blank :: "u8 \<Rightarrow> u16" where
  "blank attr = push_bit 8 (ucast attr) + 32"

definition scroll :: "kernel \<Rightarrow> kernel" where
  "scroll s =
     (let t = (tty_state s)\<lparr>cursor := (tty_height (tty_state s) - 1) * tty_width (tty_state s)\<rparr>;
          m = memcpy (tty_buffer t) (tty_buffer t + 2 * tty_width t) (tty_width t * tty_height t * 2) (mem s);
          m = memset_word (tty_buffer t + 2 * (tty_width t * (tty_height t - 1))) (blank (text_attr t)) (tty_width t) m
      in s\<lparr>tty_state := t, mem := m\<rparr>)"

definition move_cursor :: "u32 \<Rightarrow> kernel \<Rightarrow> kernel" where
  "move_cursor pos s =
     (let s = s\<lparr>tty_state := (tty_state s)\<lparr>cursor := pos\<rparr>\<rparr>;
          s = (if cursor (tty_state s) \<ge> tty_width (tty_state s) * tty_height (tty_state s) then scroll s else s);
          port = tty_io_port (tty_state s);
          s = outportb port 0x0E s;
          s = outportb (port + 1) (ucast (drop_bit 8 (cursor (tty_state s)))) s;
          s = outportb port 0x0F s
      in outportb (port + 1) (ucast (cursor (tty_state s) AND 0xFF)) s)"

definition out_char :: "u8 \<Rightarrow> kernel \<Rightarrow> kernel option" where
  "out_char chr s =
     (let t = tty_state s
      in if chr = 10 then
           if tty_width t = 0 then None
           else Some (move_cursor ((cursor t div tty_width t + 1) * tty_width t) s)
         else
           let m = store8 (tty_buffer t + 2 * cursor t) chr (mem s);
               m = store8 (tty_buffer t + 2 * cursor t + 1) (text_attr t) m
           in Some (move_cursor (cursor t + 1) (s\<lparr>mem := m\<rparr>)))"

partial_function (option) out_string :: "u32 \<Rightarrow> kernel \<Rightarrow> kernel option" where
  "out_string str s =
     (if load8 (mem s) str \<noteq> 0 then
        do { s \<leftarrow> out_char (load8 (mem s) str) s; out_string (str + 1) s }
      else Some s)"

definition clear_screen :: "kernel \<Rightarrow> kernel" where
  "clear_screen s =
     (let t = tty_state s;
          m = memset_word (tty_buffer t) (blank (text_attr t)) (tty_width t * tty_height t) (mem s)
      in move_cursor 0 (s\<lparr>mem := m\<rparr>))"

definition set_text_attr :: "u8 \<Rightarrow> kernel \<Rightarrow> kernel" where
  "set_text_attr attr s = s\<lparr>tty_state := (tty_state s)\<lparr>text_attr := attr\<rparr>\<rparr>"

text \<open>The array \<open>digits\<close> with its terminator, and \<open>None\<close> for an index outside it.\<close>

definition digits :: "u8 list" where
  "digits = [48, 49, 50, 51, 52, 53, 54, 55, 56, 57, 65, 66, 67, 68, 69, 70, 0]"

partial_function (option) int_to_str_loop :: "u32 \<Rightarrow> u8 \<Rightarrow> u32 \<Rightarrow> u32 \<Rightarrow> mem \<Rightarrow> (u32 \<times> mem) option" where
  "int_to_str_loop buf base i val m =
     (if base = 0 then None
      else if length digits \<le> unat (val mod ucast base) then None
      else
        let m = store8 (buf + i) (digits ! unat (val mod ucast base)) m;
            i = i - 1;
            val = val div ucast base
        in if val \<noteq> 0 then int_to_str_loop buf base i val m else Some (i, m))"

definition int_to_str :: "u32 \<Rightarrow> u8 \<Rightarrow> kernel \<Rightarrow> (u32 \<times> kernel) option" where
  "int_to_str val base s =
     (let buf = num_buffer (syms s);
          i = 65;
          m = store8 (buf + i) 0 (mem s)
      in do {
        (i, m) \<leftarrow> int_to_str_loop buf base (i - 1) val m;
        Some (buf + (i + 1), s\<lparr>mem := m\<rparr>)
      })"

text \<open>
  One conversion of \<open>printf\<close>: the \<open>switch\<close> on the character after the percent sign, for the
  argument \<open>arg\<close>; a character that is none of its cases prints nothing.
\<close>

definition print_conversion :: "u8 \<Rightarrow> u32 \<Rightarrow> kernel \<Rightarrow> kernel option" where
  "print_conversion c arg s =
     (let number = (\<lambda>base. do { (str, s) \<leftarrow> int_to_str arg base s; out_string str s })
      in if c = 37 then out_char 37 s
         else if c = 99 then out_char (ucast arg) s
         else if c = 115 then out_string arg s
         else if c = 98 then number 2
         else if c = 111 then number 8
         else if c = 100 then number 10
         else if c = 120 then number 16
         else Some s)"

text \<open>\<open>args n\<close> is the \<open>n\<close>-th word that \<open>va_arg\<close> reads.\<close>

partial_function (option) printf_loop :: "u32 \<Rightarrow> (nat \<Rightarrow> u32) \<Rightarrow> nat \<Rightarrow> kernel \<Rightarrow> kernel option" where
  "printf_loop fmt args n s =
     (if load8 (mem s) fmt \<noteq> 0 then
        if load8 (mem s) fmt = 37 then
          do {
            s \<leftarrow> print_conversion (load8 (mem s) (fmt + 1)) (args n) s;
            printf_loop (fmt + 2) args (Suc n) s
          }
        else
          do { s \<leftarrow> out_char (load8 (mem s) fmt) s; printf_loop (fmt + 1) args n s }
      else Some s)"

definition printf :: "u32 \<Rightarrow> (nat \<Rightarrow> u32) \<Rightarrow> kernel \<Rightarrow> kernel option" where
  "printf fmt args s = printf_loop fmt args 0 s"

section \<open>The abstract screen\<close>

record screen =
  sc_width :: nat
  sc_height :: nat
  sc_cells :: "u16 list"
  sc_pos :: nat
  sc_attr :: u8

definition glyph :: "u8 \<Rightarrow> u8 \<Rightarrow> u16" where
  "glyph chr attr = push_bit 8 (ucast attr) OR ucast chr"

text \<open>Going to a position at or past the end scrolls by a line and goes to the start of the last one.\<close>

definition go :: "nat \<Rightarrow> screen \<Rightarrow> screen" where
  "go p sc =
     (if sc_width sc * sc_height sc \<le> p
      then sc\<lparr>sc_cells := drop (sc_width sc) (sc_cells sc) @ replicate (sc_width sc) (glyph 32 (sc_attr sc)),
              sc_pos := (sc_height sc - 1) * sc_width sc\<rparr>
      else sc\<lparr>sc_pos := p\<rparr>)"

definition put_char :: "u8 \<Rightarrow> screen \<Rightarrow> screen" where
  "put_char c sc =
     (if c = 10 then go ((sc_pos sc div sc_width sc + 1) * sc_width sc) sc
      else go (sc_pos sc + 1) (sc\<lparr>sc_cells := (sc_cells sc)[sc_pos sc := glyph c (sc_attr sc)]\<rparr>))"

definition screen_cells :: "mem \<Rightarrow> u32 \<Rightarrow> nat \<Rightarrow> u16 list" where
  "screen_cells m buf n = map (\<lambda>i. load16 m (buf + of_nat (2 * i))) [0..<n]"

lemma screen_cells_nth [simp]: "i < n \<Longrightarrow> screen_cells m buf n ! i = load16 m (buf + of_nat (2 * i))"
  and length_screen_cells [simp]: "length (screen_cells m buf n) = n"
  by (simp_all add: screen_cells_def)

abbreviation scr_width :: "kernel \<Rightarrow> nat" where "scr_width s \<equiv> unat (tty_width (tty_state s))"
abbreviation scr_height :: "kernel \<Rightarrow> nat" where "scr_height s \<equiv> unat (tty_height (tty_state s))"
abbreviation scr_size :: "kernel \<Rightarrow> nat" where "scr_size s \<equiv> scr_width s * scr_height s"

definition screen_of :: "kernel \<Rightarrow> screen" where
  "screen_of s = \<lparr>sc_width = scr_width s, sc_height = scr_height s,
     sc_cells = screen_cells (mem s) (tty_buffer (tty_state s)) (scr_size s),
     sc_pos = unat (cursor (tty_state s)), sc_attr = text_attr (tty_state s)\<rparr>"

definition screen_bytes :: "kernel \<Rightarrow> u32 set" where
  "screen_bytes s = bytes_at (tty_buffer (tty_state s)) (2 * scr_size s)"

text \<open>The screen and the line after it, which scrolling reads, lie below the end of the address space.\<close>

definition tty_geometry :: "kernel \<Rightarrow> bool" where
  "tty_geometry s \<longleftrightarrow> 0 < scr_width s \<and> 0 < scr_height s
     \<and> unat (tty_buffer (tty_state s)) + 2 * scr_width s * (scr_height s + 1) \<le> 2 ^ 32"

definition tty_ok :: "kernel \<Rightarrow> bool" where
  "tty_ok s \<longleftrightarrow> tty_geometry s \<and> unat (cursor (tty_state s)) < scr_size s"

text \<open>Everything but the cells of the screen, the cursor and the log of the ports.\<close>

definition rest_of :: "kernel \<Rightarrow> kernel" where
  "rest_of s = s\<lparr>mem := (\<lambda>x. if x \<in> screen_bytes s then 0 else mem s x),
     tty_state := (tty_state s)\<lparr>cursor := 0\<rparr>, out_log := []\<rparr>"

lemma glyph_blank: "blank attr = glyph 32 attr"
proof -
  have "push_bit 8 (ucast attr) AND (32 :: u16) = 0"
  proof (rule bit_word_eqI)
    fix n assume "n < LENGTH(16)"
    have "bit (32 :: u16) n \<longleftrightarrow> n = 5"
      using bit_push_bit_iff [of 5 "1 :: u16" n] by (auto simp: bit_1_iff)
    then show "bit (push_bit 8 (ucast attr) AND (32 :: u16)) n = bit 0 n"
      by (auto simp: bit_simps)
  qed
  then show ?thesis
    by (simp add: blank_def glyph_def disjunctive_add_eq_or)
qed

lemma store_glyph: "store8 (p + 1) attr (store8 p chr m) = store16 p (glyph chr attr) m"
proof -
  have "ucast (glyph chr attr) = chr" "ucast (drop_bit 8 (glyph chr attr)) = attr"
    by (rule bit_word_eqI, simp add: glyph_def bit_simps)+
  then show ?thesis
    by (simp add: store8_def store16_def)
qed

lemma load16_moved:
  assumes "j + 2 \<le> n" "n \<le> 2 ^ 32"
  shows "load16 (moved d s 0 n m) (d + of_nat j) = load16 m (s + of_nat j)"
proof -
  have "moved d s 0 n m (d + of_nat j) = m (s + of_nat j)"
    "moved d s 0 n m (d + of_nat (Suc j)) = m (s + of_nat (Suc j))"
    using assms by (simp_all add: moved_dest del: of_nat_Suc)
  then show ?thesis
    by (simp add: load16_def add_ac)
qed

section \<open>The cells under the operations\<close>

lemma unat_cell:
  assumes "unat (p :: u32) + 2 * n \<le> 2 ^ 32" "i < n"
  shows "unat (p + of_nat (2 * i)) = unat p + 2 * i"
  using assms by (intro unat_add_of_nat) simp

lemma screen_cells_store:
  assumes "unat buf + 2 * n \<le> 2 ^ 32" "i < n"
  shows "screen_cells (store16 (buf + of_nat (2 * i)) v m) buf n = (screen_cells m buf n)[i := v]"
proof (rule nth_equalityI)
  fix j assume "j < length (screen_cells (store16 (buf + of_nat (2 * i)) v m) buf n)"
  then have j: "j < n" by simp
  have "load16 (store16 (buf + of_nat (2 * i)) v m) (buf + of_nat (2 * j)) = load16 m (buf + of_nat (2 * j))"
    if "j \<noteq> i"
  proof (rule cell16.ld_st_disjoint)
    have "unat (buf + of_nat (2 * j)) + 2 \<le> 2 ^ 32" "unat (buf + of_nat (2 * i)) + 2 \<le> 2 ^ 32"
      using assms j by (simp_all add: unat_cell [OF assms(1)] del: of_nat_mult)
    moreover have "unat (buf + of_nat (2 * j)) + 2 \<le> unat (buf + of_nat (2 * i))
        \<or> unat (buf + of_nat (2 * i)) + 2 \<le> unat (buf + of_nat (2 * j))"
      using that assms j by (simp only: unat_cell [OF assms(1)]) auto
    ultimately show "bytes_at (buf + of_nat (2 * j)) 2 \<inter> bytes_at (buf + of_nat (2 * i)) 2 = {}"
      by (metis Int_commute bytes_at_disjointI)
  qed
  then show "screen_cells (store16 (buf + of_nat (2 * i)) v m) buf n ! j = (screen_cells m buf n)[i := v] ! j"
    using j assms(2) by (cases "j = i") (simp_all add: load16_store16_same)
qed simp

lemma screen_cells_fill:
  assumes "unat buf + 2 * unat k \<le> 2 ^ 32"
  shows "screen_cells (memset_word buf v k m) buf (unat k) = replicate (unat k) v"
  using cell16.fill_ld [of buf "unat k" _ "\<lambda>_. v" m] assms
  by (intro nth_equalityI) (simp_all add: memset_word_fill)

lemma screen_cells_scroll:
  fixes buf w :: u32 and v :: u16 and m :: mem
  assumes geo: "unat buf + 2 * unat w * (h + 1) \<le> 2 ^ 32" and h: "0 < h"
  defines "m' \<equiv> memset_word (buf + of_nat (2 * (unat w * (h - 1)))) v w
      (moved buf (buf + of_nat (2 * unat w)) 0 (2 * (unat w * h)) m)"
  shows "screen_cells m' buf (unat w * h)
      = drop (unat w) (screen_cells m buf (unat w * h)) @ replicate (unat w) v"
    and "x \<notin> bytes_at buf (2 * (unat w * h)) \<Longrightarrow> m' x = m x"
proof -
  let ?W = "unat w" and ?last = "buf + of_nat (2 * (unat w * (h - 1)))"
  let ?mv = "moved buf (buf + of_nat (2 * ?W)) 0 (2 * (?W * h)) m"
  have geo': "unat buf + 2 * (?W * (h - 1)) + 2 * ?W + 2 * ?W \<le> 2 ^ 32" and wh: "?W * h = ?W * (h - 1) + ?W"
    using geo h by (cases h; simp add: algebra_simps)+
  have last: "unat ?last = unat buf + 2 * (?W * (h - 1))" if "w \<noteq> 0"
    using geo' unat_gt_0 [of w] that by (intro unat_add_of_nat) linarith
  show "m' x = m x" if x: "x \<notin> bytes_at buf (2 * (?W * h))"
  proof -
    have "x \<notin> bytes_at ?last (2 * ?W)"
      using x bytes_at_offset [of "2 * (?W * (h - 1))" "2 * ?W" x buf] geo'
      by (auto simp: bytes_at_def wh)
    then have "m' x = ?mv x"
      using cell16.fill_other [of ?last ?W x] last geo' by (cases "w = 0") (auto simp: m'_def memset_word_fill cell16.fill_def)
    also have "\<dots> = m x"
      using x by (rule moved_other)
    finally show ?thesis .
  qed
  have "load16 m' (buf + of_nat (2 * i)) = (drop ?W (screen_cells m buf (?W * h)) @ replicate ?W v) ! i"
    if i: "i < ?W * h" for i
  proof (cases "i < ?W * (h - 1)")
    case True
    have "load16 m' (buf + of_nat (2 * i)) = load16 ?mv (buf + of_nat (2 * i))"
    proof (rule cell16.ld_cong)
      fix x assume "x \<in> bytes_at (buf + of_nat (2 * i)) 2"
      then have "x \<notin> bytes_at ?last (2 * ?W)"
        using bytes_at_offset [of "2 * i" 2 x buf] bytes_at_offset [of "2 * (?W * (h - 1))" "2 * ?W" x buf] True geo'
        by auto
      then show "m' x = ?mv x"
        using cell16.fill_other [of ?last ?W x] last geo' by (cases "w = 0") (auto simp: m'_def memset_word_fill cell16.fill_def)
    qed
    also have "\<dots> = load16 m (buf + of_nat (2 * ?W) + of_nat (2 * i))"
      using True geo' wh by (intro load16_moved) auto
    also have "\<dots> = screen_cells m buf (?W * h) ! (?W + i)"
      using True wh by (simp add: algebra_simps)
    also have "\<dots> = (drop ?W (screen_cells m buf (?W * h)) @ replicate ?W v) ! i"
      using True wh by (simp add: nth_append)
    finally show ?thesis .
  next
    case False
    then obtain j where j: "i = ?W * (h - 1) + j" "j < ?W"
      using i wh by (metis less_diff_conv2 le_iff_add linorder_not_less nat_add_left_cancel_less)
    have "load16 m' (?last + of_nat (2 * j)) = v"
      using cell16.fill_ld [of ?last ?W j "\<lambda>_. v" ?mv] j(2) last geo' by (cases "w = 0") (auto simp: m'_def memset_word_fill)
    then show ?thesis
      using j wh by (simp add: nth_append algebra_simps)
  qed
  then show "screen_cells m' buf (?W * h) = drop ?W (screen_cells m buf (?W * h)) @ replicate ?W v"
    using wh by (intro nth_equalityI) simp_all
qed

section \<open>The operations implement the abstract screen\<close>

lemma tty_words:
  assumes "tty_geometry s"
  shows "unat (tty_width (tty_state s) * tty_height (tty_state s)) = scr_size s"
    and "unat (tty_width (tty_state s) * tty_height (tty_state s) * 2) = 2 * scr_size s"
    and "unat ((tty_height (tty_state s) - 1) * tty_width (tty_state s)) = (scr_height s - 1) * scr_width s"
    and "2 * scr_size s < 2 ^ 32"
proof -
  let ?w = "tty_width (tty_state s)" and ?h = "tty_height (tty_state s)"
  have g: "0 < unat ?w" "0 < unat ?h" "2 * (unat ?w * unat ?h) + 2 * unat ?w \<le> 2 ^ 32"
    using assms by (simp_all add: tty_geometry_def algebra_simps)
  then show small: "2 * scr_size s < 2 ^ 32" by linarith
  then have "unat ?w * unat ?h < 2 ^ 32" by linarith
  then show wh: "unat (?w * ?h) = unat ?w * unat ?h"
    by (rule unat_mult_nowrap)
  show "unat (?w * ?h * 2) = 2 * scr_size s"
    using small by (subst unat_mult_nowrap; unfold wh) simp_all
  have h1: "unat (?h - 1) = unat ?h - 1"
    using g(2) by (subst unat_diff_nowrap) (simp_all add: word_le_nat_alt)
  have "(unat ?h - 1) * unat ?w \<le> unat ?w * unat ?h"
    by (simp add: algebra_simps)
  with small have "(unat ?h - 1) * unat ?w < 2 ^ 32"
    by linarith
  then show "unat ((?h - 1) * ?w) = (scr_height s - 1) * scr_width s"
    unfolding h1 [symmetric] by (rule unat_mult_nowrap)
qed

lemma rest_of_update:
  assumes "t\<lparr>cursor := 0\<rparr> = (tty_state s)\<lparr>cursor := 0\<rparr>" "\<And>x. x \<notin> screen_bytes s \<Longrightarrow> m x = mem s x"
  shows "rest_of (s\<lparr>mem := m, tty_state := t, out_log := l\<rparr>) = rest_of s"
proof -
  have "screen_bytes (s\<lparr>mem := m, tty_state := t, out_log := l\<rparr>) = screen_bytes s"
    using assms(1) by (cases t; cases "tty_state s") (simp add: screen_bytes_def)
  moreover have "(\<lambda>x. if x \<in> screen_bytes s then 0 else m x) = (\<lambda>x. if x \<in> screen_bytes s then 0 else mem s x)"
    using assms(2) by auto
  ultimately show ?thesis
    using assms(1) by (simp add: rest_of_def cong: if_cong)
qed

lemma scroll_fields:
  "tty_state (scroll s) = (tty_state s)\<lparr>cursor := (tty_height (tty_state s) - 1) * tty_width (tty_state s)\<rparr>"
  "scroll s = s\<lparr>tty_state := tty_state (scroll s), mem := mem (scroll s)\<rparr>"
  by (simp_all add: scroll_def Let_def)

lemma scroll_memory:
  fixes s :: kernel
  assumes "tty_geometry s"
  shows "screen_cells (mem (scroll s)) (tty_buffer (tty_state s)) (scr_size s)
      = drop (scr_width s) (screen_cells (mem s) (tty_buffer (tty_state s)) (scr_size s))
        @ replicate (scr_width s) (blank (text_attr (tty_state s)))"
    and "x \<notin> screen_bytes s \<Longrightarrow> mem (scroll s) x = mem s x"
proof -
  let ?w = "tty_width (tty_state s)" and ?h = "tty_height (tty_state s)" and ?b = "tty_buffer (tty_state s)"
  note words = tty_words [OF assms]
  have g: "0 < unat ?w" "0 < unat ?h" "unat ?b + 2 * unat ?w * (unat ?h + 1) \<le> 2 ^ 32"
    using assms by (simp_all add: tty_geometry_def)
  have src: "unat (?b + 2 * ?w) = unat ?b + 2 * unat ?w" "?b + 2 * ?w = ?b + of_nat (2 * unat ?w)"
  proof -
    show e: "?b + 2 * ?w = ?b + of_nat (2 * unat ?w)" by simp
    have "2 * unat ?w \<le> 2 * unat ?w * unat ?h"
      using g(2) by simp
    then have "unat ?b + 2 * unat ?w < 2 ^ 32"
      using g(1,3) unfolding distrib_left mult_1_right by linarith
    then show "unat (?b + 2 * ?w) = unat ?b + 2 * unat ?w"
      unfolding e by (rule unat_add_of_nat)
  qed
  have cpy: "memcpy ?b (?b + 2 * ?w) (?w * ?h * 2) (mem s)
      = moved ?b (?b + of_nat (2 * unat ?w)) 0 (2 * (unat ?w * unat ?h)) (mem s)"
  proof -
    have "unat ?b + (2 * (unat ?w * unat ?h) + 2 * unat ?w) \<le> 2 ^ 32"
      using g(3) by (simp add: algebra_simps)
    then show ?thesis
      by (subst memcpy_moved) (unfold words src(1), simp_all)
  qed
  have last: "2 * (?w * (?h - 1)) = of_nat (2 * (unat ?w * (unat ?h - 1)))"
    using g(2) by (simp add: of_nat_diff)
  have "mem (scroll s) = memset_word (?b + of_nat (2 * (unat ?w * (unat ?h - 1)))) (blank (text_attr (tty_state s))) ?w
      (moved ?b (?b + of_nat (2 * unat ?w)) 0 (2 * (unat ?w * unat ?h)) (mem s))"
    unfolding scroll_def Let_def by (simp add: cpy del: of_nat_mult) (simp add: last del: of_nat_mult)
  then show "screen_cells (mem (scroll s)) ?b (scr_size s)
      = drop (scr_width s) (screen_cells (mem s) ?b (scr_size s)) @ replicate (scr_width s) (blank (text_attr (tty_state s)))"
    "x \<notin> screen_bytes s \<Longrightarrow> mem (scroll s) x = mem s x"
    using screen_cells_scroll [OF g(3,2)] by (simp_all only: screen_bytes_def)
qed

lemma out_log_irrelevant [simp]:
  "tty_geometry (s\<lparr>out_log := l\<rparr>) = tty_geometry s" "tty_ok (s\<lparr>out_log := l\<rparr>) = tty_ok s"
  "screen_of (s\<lparr>out_log := l\<rparr>) = screen_of s" "rest_of (s\<lparr>out_log := l\<rparr>) = rest_of s"
  by (simp_all add: tty_ok_def tty_geometry_def screen_of_def rest_of_def screen_bytes_def cong: if_cong)

lemma move_cursor_screen:
  assumes "tty_geometry s"
  shows "tty_ok (move_cursor p s)" "screen_of (move_cursor p s) = go (unat p) (screen_of s)"
    "rest_of (move_cursor p s) = rest_of s"
proof -
  note words = tty_words [OF assms]
  define t where "t = s\<lparr>tty_state := (tty_state s)\<lparr>cursor := p\<rparr>\<rparr>"
  define u where "u = (if p \<ge> tty_width (tty_state s) * tty_height (tty_state s) then scroll t else t)"
  have geo: "tty_geometry t" and t: "tty_width (tty_state t) = tty_width (tty_state s)"
    "tty_height (tty_state t) = tty_height (tty_state s)" "tty_buffer (tty_state t) = tty_buffer (tty_state s)"
    "text_attr (tty_state t) = text_attr (tty_state s)" "mem t = mem s" "screen_bytes t = screen_bytes s"
    using assms by (simp_all add: t_def tty_geometry_def screen_bytes_def)
  have u: "tty_ok u" "screen_of u = go (unat p) (screen_of s)" "rest_of u = rest_of s"
  proof -
    have last: "(scr_height s - 1) * scr_width s < scr_size s"
      using assms by (simp add: tty_geometry_def algebra_simps)
    show "tty_ok u"
      using assms words last by (auto simp: u_def t_def scroll_def Let_def tty_ok_def tty_geometry_def word_le_nat_alt)
    show "screen_of u = go (unat p) (screen_of s)"
      using scroll_memory(1) [OF geo] words
      by (auto simp: u_def screen_of_def go_def glyph_blank word_le_nat_alt scroll_fields(1) t) (simp_all add: t_def)
    show "rest_of u = rest_of s"
    proof -
      have "u = s\<lparr>mem := mem u, tty_state := tty_state u, out_log := out_log s\<rparr>"
        by (auto simp: u_def t_def scroll_def Let_def)
      moreover have "rest_of \<dots> = rest_of s"
        by (rule rest_of_update) (auto simp: u_def scroll_fields(1) t scroll_memory(2) [OF geo], simp add: t_def)
      ultimately show ?thesis by metis
    qed
  qed
  have "\<exists>l. move_cursor p s = u\<lparr>out_log := l\<rparr>"
    by (auto simp: move_cursor_def u_def t_def Let_def outportb_def)
  then obtain l where "move_cursor p s = u\<lparr>out_log := l\<rparr>" ..
  then show "tty_ok (move_cursor p s)" "screen_of (move_cursor p s) = go (unat p) (screen_of s)"
    "rest_of (move_cursor p s) = rest_of s"
    using u by simp_all
qed

text \<open>\<open>clear_screen\<close> fills the cells with blanks and puts the cursor into the first one.\<close>

definition wiped :: "screen \<Rightarrow> screen" where
  "wiped sc = sc\<lparr>sc_cells := replicate (sc_width sc * sc_height sc) (glyph 32 (sc_attr sc)), sc_pos := 0\<rparr>"

lemma clear_screen_wipes:
  assumes "tty_ok s"
  shows "tty_ok (clear_screen s)" "screen_of (clear_screen s) = wiped (screen_of s)" "rest_of (clear_screen s) = rest_of s"
proof -
  let ?b = "tty_buffer (tty_state s)" and ?k = "tty_width (tty_state s) * tty_height (tty_state s)"
  let ?m = "memset_word ?b (blank (text_attr (tty_state s))) ?k (mem s)"
  let ?s = "s\<lparr>mem := ?m\<rparr>"
  have geo: "tty_geometry s" and pos: "0 < scr_size s"
    using assms by (simp_all add: tty_ok_def tty_geometry_def)
  note words = tty_words [OF geo]
  have "2 * scr_size s \<le> 2 * scr_width s * (scr_height s + 1)" by simp
  then have room: "unat ?b + 2 * unat ?k \<le> 2 ^ 32"
    using geo unfolding tty_geometry_def words(1) by linarith
  have cells: "screen_cells ?m ?b (scr_size s) = replicate (scr_size s) (glyph 32 (text_attr (tty_state s)))"
    using screen_cells_fill [OF room] unfolding words(1) glyph_blank .
  have away: "?m x = mem s x" if "x \<notin> screen_bytes s" for x
    using cell16.fill_other [of ?b "unat ?k" x] that room unfolding memset_word_fill screen_bytes_def words(1) by simp
  have geo': "tty_geometry ?s"
    using geo by (simp add: tty_geometry_def)
  have "rest_of (s\<lparr>mem := ?m, tty_state := tty_state s, out_log := out_log s\<rparr>) = rest_of s"
    by (rule rest_of_update) (simp_all add: away)
  then have rest: "rest_of ?s = rest_of s" by simp
  have clear: "clear_screen s = move_cursor 0 ?s"
    by (simp add: clear_screen_def Let_def)
  note mv = move_cursor_screen [OF geo', of 0, folded clear]
  have "go (unat (0 :: u32)) (screen_of ?s) = wiped (screen_of s)"
    using pos cells by (simp add: go_def wiped_def screen_of_def)
  then show "tty_ok (clear_screen s)" "screen_of (clear_screen s) = wiped (screen_of s)" "rest_of (clear_screen s) = rest_of s"
    using mv rest by simp_all
qed

text \<open>
  The interface between \<open>out_char\<close> and its callers: on a sound state a character can be output, the
  view of the state changes as \<open>put\<close> says, and nothing else does.
\<close>

primrec out_list :: "(u8 \<Rightarrow> 's \<Rightarrow> 's option) \<Rightarrow> u8 list \<Rightarrow> 's \<Rightarrow> 's option" where
  "out_list out [] s = Some s"
| "out_list out (c # cs) s = do { s \<leftarrow> out c s; out_list out cs s }"

locale char_sink =
  fixes out :: "u8 \<Rightarrow> 's \<Rightarrow> 's option"
    and ok :: "'s \<Rightarrow> bool"
    and view :: "'s \<Rightarrow> 'v"
    and rest :: "'s \<Rightarrow> 'r"
    and put :: "u8 \<Rightarrow> 'v \<Rightarrow> 'v"
  assumes out_ok: "ok s \<Longrightarrow> \<exists>s'. out c s = Some s' \<and> ok s' \<and> view s' = put c (view s) \<and> rest s' = rest s"
begin

lemma out_list_ok:
  "ok s \<Longrightarrow> \<exists>s'. out_list out cs s = Some s' \<and> ok s' \<and> view s' = fold put cs (view s) \<and> rest s' = rest s"
proof (induction cs arbitrary: s)
  case (Cons c cs)
  from out_ok [OF Cons.prems, of c] Cons.IH show ?case by fastforce
qed simp

lemma out_list_append:
  "out_list out (cs @ ds) s = do { s \<leftarrow> out_list out cs s; out_list out ds s }"
  by (induction cs arbitrary: s) (auto split: bind_split)

end

lemma put_char_screen:
  assumes "tty_ok s"
  shows "\<exists>s'. out_char c s = Some s' \<and> tty_ok s' \<and> screen_of s' = put_char c (screen_of s) \<and> rest_of s' = rest_of s"
proof -
  let ?t = "tty_state s"
  have g: "tty_geometry s" "0 < scr_width s" "0 < scr_height s" "unat (cursor ?t) < scr_size s"
    "unat (tty_buffer ?t) + 2 * scr_size s \<le> 2 ^ 32"
    using assms by (simp_all add: tty_ok_def tty_geometry_def algebra_simps)
  note small = tty_words(4) [OF g(1)]
  show ?thesis
  proof (cases "c = 10")
    case True
    let ?p = "(cursor ?t div tty_width ?t + 1) * tty_width ?t"
    have row: "unat (cursor ?t) div scr_width s < scr_height s"
      using g(4) by (simp add: less_mult_imp_div_less mult.commute)
    then have le: "(unat (cursor ?t) div scr_width s + 1) * scr_width s \<le> scr_size s"
      using row by (metis Suc_eq_plus1 Suc_leI mult.commute mult_le_mono1)
    have q: "unat (cursor ?t div tty_width ?t + 1) = unat (cursor ?t) div scr_width s + 1"
    proof -
      have "unat (cursor ?t) div scr_width s < 4294967295"
        using row unat_less_32 [of "tty_height ?t"] by linarith
      then show ?thesis
        by (subst unat_add_nowrap) (simp_all add: unat_div_distrib)
    qed
    have "(unat (cursor ?t) div scr_width s + 1) * scr_width s < 2 ^ 32"
      using le small by linarith
    then have p: "unat ?p = (unat (cursor ?t) div scr_width s + 1) * scr_width s"
      unfolding q [symmetric] by (rule unat_mult_nowrap)
    have "out_char c s = Some (move_cursor ?p s)"
      using True g(2) by (auto simp: out_char_def Let_def)
    moreover have "put_char c (screen_of s) = go (unat ?p) (screen_of s)"
      using True by (simp add: put_char_def p) (simp add: screen_of_def)
    ultimately show ?thesis
      using move_cursor_screen [OF g(1), of ?p] le p by simp
  next
    case False
    define m where "m = store16 (tty_buffer ?t + 2 * cursor ?t) (glyph c (text_attr ?t)) (mem s)"
    let ?s = "s\<lparr>mem := m\<rparr>"
    have geo: "tty_geometry ?s"
      using g(1) by (simp add: tty_geometry_def)
    have p: "unat (cursor ?t + 1) = unat (cursor ?t) + 1"
    proof -
      have "2 * scr_size s < 4294967296"
        using small by simp
      then have "unat (cursor ?t) < 4294967295"
        using g(4) by linarith
      then show ?thesis
        by (subst unat_add_nowrap) simp_all
    qed
    have cell: "2 * cursor ?t = of_nat (2 * unat (cursor ?t))"
      by simp
    have "screen_of ?s = (screen_of s)\<lparr>sc_cells := (sc_cells (screen_of s))[unat (cursor ?t) := glyph c (text_attr ?t)]\<rparr>"
      unfolding m_def cell using screen_cells_store [OF g(5,4)] by (simp add: screen_of_def del: of_nat_mult)
    then have scr: "go (unat (cursor ?t + 1)) (screen_of ?s) = put_char c (screen_of s)"
      using False by (simp add: put_char_def p) (simp add: screen_of_def)
    have "m x = mem s x" if "x \<notin> screen_bytes s" for x
      unfolding m_def cell
    proof (rule cell16.st_other)
      have w: "2 * unat (cursor ?t) + 2 \<le> 2 * scr_size s"
        using g(4) by simp
      then have "2 * unat (cursor ?t) + 2 \<le> 2 ^ 32"
        using small by (rule order_trans [OF _ less_imp_le])
      from bytes_at_offset [OF this, of x "tty_buffer ?t"] w that
      show "x \<notin> bytes_at (tty_buffer ?t + of_nat (2 * unat (cursor ?t))) 2"
        unfolding screen_bytes_def bytes_at_def mem_Collect_eq by linarith
    qed
    then have rest: "rest_of ?s = rest_of s"
      using rest_of_update [of ?t s m "out_log s"] by simp
    have "out_char c s = Some (move_cursor (cursor ?t + 1) ?s)"
      using False by (simp add: out_char_def Let_def store_glyph m_def)
    moreover have "unat (cursor ?t + 1) \<le> scr_size ?s"
      using g(4) by (simp add: p)
    ultimately show ?thesis
      using move_cursor_screen [OF geo, of "cursor ?t + 1"] scr rest by simp
  qed
qed

interpretation terminal: char_sink out_char tty_ok screen_of rest_of put_char
  by unfold_locales (rule put_char_screen)

section \<open>Strings\<close>

lemma rest_ofD:
  assumes "rest_of s' = rest_of s"
  shows "tty_buffer (tty_state s') = tty_buffer (tty_state s)" "tty_width (tty_state s') = tty_width (tty_state s)"
    "tty_height (tty_state s') = tty_height (tty_state s)" "text_attr (tty_state s') = text_attr (tty_state s)"
    "tty_io_port (tty_state s') = tty_io_port (tty_state s)"
    "screen_bytes s' = screen_bytes s" "syms s' = syms s"
    "x \<notin> screen_bytes s \<Longrightarrow> mem s' x = mem s x"
proof -
  have t: "(tty_state s')\<lparr>cursor := 0\<rparr> = (tty_state s)\<lparr>cursor := 0\<rparr>"
    using arg_cong [OF assms, of tty_state] by (simp add: rest_of_def)
  then show f: "tty_buffer (tty_state s') = tty_buffer (tty_state s)" "tty_width (tty_state s') = tty_width (tty_state s)"
    "tty_height (tty_state s') = tty_height (tty_state s)" "text_attr (tty_state s') = text_attr (tty_state s)"
    "tty_io_port (tty_state s') = tty_io_port (tty_state s)"
    by (cases "tty_state s"; cases "tty_state s'"; simp)+
  then show b: "screen_bytes s' = screen_bytes s"
    by (simp add: screen_bytes_def)
  have "syms (rest_of s') = syms (rest_of s)" "mem (rest_of s') x = mem (rest_of s) x"
    using assms by simp_all
  then show "syms s' = syms s" "x \<notin> screen_bytes s \<Longrightarrow> mem s' x = mem s x"
    by (simp_all add: rest_of_def b)
qed

definition readable :: "kernel \<Rightarrow> u32 \<Rightarrow> u8 list \<Rightarrow> bool" where
  "readable s p bs \<longleftrightarrow> cstr (mem s) p bs \<and> bytes_at p (Suc (length bs)) \<inter> screen_bytes s = {}"

lemma readable_rest: "rest_of s' = rest_of s \<Longrightarrow> readable s' p bs \<longleftrightarrow> readable s p bs"
  using cstr_frame [of "mem s" p bs "mem s'"] cstr_frame [of "mem s'" p bs "mem s"] rest_ofD [of s' s]
  unfolding readable_def by (metis disjoint_iff)

lemma readable_Cons: "readable s p (c # bs) \<Longrightarrow> mem s p = c \<and> c \<noteq> 0 \<and> readable s (p + 1) bs"
  using bytes_at_Suc [of "Suc (length bs)" p] by (auto simp: readable_def cstr_Cons)

lemma out_string_list:
  "tty_ok s \<Longrightarrow> readable s p bs \<Longrightarrow> out_string p s = out_list out_char bs s"
proof (induction bs arbitrary: p s)
  case Nil
  then show ?case
    by (subst out_string.simps) (simp add: readable_def cstr_Nil load8_def)
next
  case (Cons c bs)
  obtain s' where s': "out_char c s = Some s'" "tty_ok s'" "rest_of s' = rest_of s"
    using put_char_screen [OF Cons.prems(1), of c] by blast
  then have "out_string (p + 1) s' = out_list out_char bs s'"
    using readable_Cons [OF Cons.prems(2)] readable_rest [OF s'(3)] by (intro Cons.IH) simp_all
  then show ?case
    using readable_Cons [OF Cons.prems(2)] s'(1) by (simp add: out_string.simps [of p] load8_def)
qed

section \<open>Numbers\<close>

fun digit_string :: "nat \<Rightarrow> nat \<Rightarrow> u8 list" where
  "digit_string base n =
     (if base < 2 then [] else
       (if n < base then [] else digit_string base (n div base)) @ [digits ! (n mod base)])"

declare digit_string.simps [simp del]

definition digit_value :: "u8 \<Rightarrow> nat" where
  "digit_value c = (if unat c < 58 then unat c - 48 else unat c - 55)"

definition parse_digits :: "nat \<Rightarrow> u8 list \<Rightarrow> nat" where
  "parse_digits base ds = foldl (\<lambda>n c. n * base + digit_value c) 0 ds"

lemma digits_facts: "d < 16 \<Longrightarrow> digit_value (digits ! d) = d \<and> digits ! d \<noteq> 0"
proof -
  have "\<forall>d \<in> set [0..<16]. digit_value (digits ! d) = d \<and> digits ! d \<noteq> 0"
    by (simp add: upt_rec digit_value_def digits_def)
  then show "d < 16 \<Longrightarrow> digit_value (digits ! d) = d \<and> digits ! d \<noteq> 0" by simp
qed

lemmas digit_value_digits = digits_facts [THEN conjunct1]
  and digits_nonzero = digits_facts [THEN conjunct2]

lemma parse_digit_string:
  "2 \<le> base \<Longrightarrow> base \<le> 16 \<Longrightarrow> parse_digits base (digit_string base n) = n"
proof (induction base n rule: digit_string.induct)
  case (1 base n)
  have "n mod base < 16"
    using 1(2,3) by (meson leD le_trans linorder_le_less_linear mod_less_divisor not_numeral_le_zero zero_less_iff_neq_zero)
  then have d: "digit_value (digits ! (n mod base)) = n mod base"
    by (rule digit_value_digits)
  show ?case
    using 1 d by (subst digit_string.simps) (auto simp: parse_digits_def)
qed

lemma digit_string_nonzero: "base \<le> 16 \<Longrightarrow> 0 \<notin> set (digit_string base n)"
proof (induction base n rule: digit_string.induct)
  case (1 base n)
  have "2 \<le> base \<Longrightarrow> n mod base < 16"
    using 1(2) by (meson leD le_trans linorder_le_less_linear mod_less_divisor not_numeral_le_zero zero_less_iff_neq_zero)
  then show ?case
    using 1 digits_nonzero [of "n mod base"] by (subst digit_string.simps) auto
qed

lemma digit_string_length: "2 \<le> base \<Longrightarrow> n < 2 ^ k \<Longrightarrow> 0 < k \<Longrightarrow> length (digit_string base n) \<le> k"
proof (induction k arbitrary: n)
  case (Suc k)
  show ?case
  proof (cases "n < base")
    case True
    then show ?thesis
      by (subst digit_string.simps) simp
  next
    case False
    have "n div base \<le> n div 2"
      using Suc.prems(1) by (intro div_le_mono2) simp_all
    moreover have "n div 2 < 2 ^ k"
      using Suc.prems(2) by (simp add: less_mult_imp_div_less)
    moreover have "0 < k"
      using False Suc.prems by (cases k) auto
    ultimately have "length (digit_string base (n div base)) \<le> k"
      using Suc by (meson order_le_less_trans)
    then show ?thesis
      using False Suc.prems(1) by (subst digit_string.simps) simp
  qed
qed simp

lemma unat_ucast_up: "unat (ucast (b :: u8) :: u32) = unat b"
proof -
  have "unat b < 2 ^ 8"
    using unsigned_less [where ?'a = nat, of b] by simp
  then show ?thesis
    by (simp add: unsigned_ucast_eq take_bit_nat_eq_self)
qed

lemma digit_string_not_Nil: "2 \<le> base \<Longrightarrow> digit_string base n \<noteq> []"
  by (subst digit_string.simps) simp

lemma int_to_str_loop_digits:
  fixes base :: u8 and v :: u32
  assumes "2 \<le> unat base" "unat base \<le> 16"
    and "length (digit_string (unat base) (unat v)) \<le> k" "k < 2 ^ 31"
  defines "ds \<equiv> digit_string (unat base) (unat v)"
  shows "\<exists>m'. int_to_str_loop buf base (of_nat k) v m = Some (of_nat (k - length ds), m')
    \<and> (\<forall>j < length ds. m' (buf + of_nat (k - length ds + 1 + j)) = ds ! j)
    \<and> (\<forall>x. x \<notin> bytes_at (buf + of_nat (k - length ds + 1)) (length ds) \<longrightarrow> m' x = m x)"
  using assms(1-4) unfolding ds_def
proof (induction "unat v" arbitrary: v k m rule: less_induct)
  case less
  let ?b = "unat base" and ?d = "digits ! (unat v mod unat base)"
  let ?m = "m(buf + of_nat k := ?d)"
  have base: "unat (ucast base :: u32) = ?b"
    by (rule unat_ucast_up)
  have "unat v mod ?b < 16"
    using less.prems(1,2) by (meson leD le_trans linorder_le_less_linear mod_less_divisor not_numeral_le_zero zero_less_iff_neq_zero)
  then have idx: "unat (v mod ucast base) = unat v mod ?b" "\<not> length digits \<le> unat (v mod ucast base)" "base \<noteq> 0"
    using less.prems(1) base by (auto simp: unat_mod_distrib digits_def)
  have quot: "unat (v div ucast base) = unat v div ?b"
    using base by (simp add: unat_div_distrib)
  have k: "1 \<le> k" "of_nat k - 1 = (of_nat (k - 1) :: u32)"
    using less.prems(1,3) digit_string_not_Nil [of ?b "unat v"] by (cases k; simp)+
  have step: "int_to_str_loop buf base (of_nat k) v m =
      (if unat v < ?b then Some (of_nat (k - 1), ?m) else int_to_str_loop buf base (of_nat (k - 1)) (v div ucast base) ?m)"
  proof -
    have "v div ucast base = 0 \<longleftrightarrow> unat v < ?b"
      using less.prems(1) unfolding word_unat_eq_iff quot by (simp add: div_eq_0_iff)
    then show ?thesis
      using idx k(2) by (subst int_to_str_loop.simps) (simp add: Let_def store8_def)
  qed
  show ?case
  proof (cases "unat v < ?b")
    case True
    then have ds: "digit_string ?b (unat v) = [?d]"
      using less.prems(1) by (subst digit_string.simps) simp
    show ?thesis
      unfolding ds using step True k(1) bytes_at_1 [of "buf + of_nat k"]
      by (intro exI [of _ ?m]) (simp del: of_nat_Suc of_nat_diff)
  next
    case False
    let ?ds = "digit_string ?b (unat v div ?b)"
    have ds: "digit_string ?b (unat v) = ?ds @ [?d]"
      using False less.prems(1) by (subst digit_string.simps) simp
    have lt: "unat (v div ucast base) < unat v"
      using False less.prems(1) unfolding quot by (intro div_less_dividend) simp_all
    have len: "length ?ds \<le> k - 1" "k - 1 < 2 ^ 31"
      using less.prems(3,4) ds by simp_all
    obtain m' where m': "int_to_str_loop buf base (of_nat (k - 1)) (v div ucast base) ?m = Some (of_nat (k - 1 - length ?ds), m')"
        "\<forall>j < length ?ds. m' (buf + of_nat (k - 1 - length ?ds + 1 + j)) = ?ds ! j"
        "\<forall>x. x \<notin> bytes_at (buf + of_nat (k - 1 - length ?ds + 1)) (length ?ds) \<longrightarrow> m' x = ?m x"
      using less.hyps [OF lt less.prems(1,2), of "k - 1" ?m] len unfolding quot by blast
    have start: "k - 1 - length ?ds = k - length (digit_string ?b (unat v))"
      "k - 1 - length ?ds + 1 + length ?ds = k"
      using len k(1) ds by simp_all
    have fit: "k - 1 - length ?ds + 1 + length ?ds \<le> 2 ^ 32" "k - 1 - length ?ds + 1 + (length ?ds + 1) \<le> 2 ^ 32"
      using less.prems(4) start(2) by simp_all
    note off = bytes_at_offset [OF fit(1), of _ buf] bytes_at_offset [OF fit(2), of _ buf]
    have top: "unat (buf + of_nat k - buf) = k"
      using less.prems(4) by (simp add: unat_of_nat_small)
    have "m' (buf + of_nat k) = ?d"
      using m'(3) off(1) [of "buf + of_nat k"] top start(2) by simp
    then have "m' (buf + of_nat (k - 1 - length ?ds + 1 + j)) = (?ds @ [?d]) ! j" if "j < length ?ds + 1" for j
      using m'(2) start(2) that by (cases "j = length ?ds") (simp_all add: nth_append)
    moreover have "m' x = m x" if "x \<notin> bytes_at (buf + of_nat (k - 1 - length ?ds + 1)) (length ?ds + 1)" for x
    proof -
      have "x \<noteq> buf + of_nat k"
        using that off(2) [of x] top start(2) by auto
      moreover have "x \<notin> bytes_at (buf + of_nat (k - 1 - length ?ds + 1)) (length ?ds)"
        using that off [of x] by auto
      ultimately show ?thesis
        using m'(3) by simp
    qed
    ultimately show ?thesis
      using m'(1) step False start(1) unfolding ds by (intro exI [of _ m']) simp
  qed
qed

abbreviation num_bytes :: "kernel \<Rightarrow> u32 set" where
  "num_bytes s \<equiv> bytes_at (num_buffer (syms s)) 66"

lemma int_to_str_digits:
  fixes base :: u8
  assumes "2 \<le> unat base" "unat base \<le> 16"
  shows "\<exists>p m'. int_to_str v base s = Some (p, s\<lparr>mem := m'\<rparr>)
    \<and> cstr m' p (digit_string (unat base) (unat v))
    \<and> bytes_at p (Suc (length (digit_string (unat base) (unat v)))) \<subseteq> num_bytes s
    \<and> (\<forall>x. x \<notin> num_bytes s \<longrightarrow> m' x = mem s x)"
proof -
  let ?ds = "digit_string (unat base) (unat v)" and ?buf = "num_buffer (syms s)"
  let ?k = "64 - length ?ds" and ?m = "(mem s)(?buf + 65 := 0)"
  have len: "length ?ds \<le> 32"
    using assms(1) unat_less_32 [of v] by (intro digit_string_length) simp_all
  have "\<exists>m'. int_to_str_loop ?buf base (of_nat 64) v ?m = Some (of_nat ?k, m')
    \<and> (\<forall>j < length ?ds. m' (?buf + of_nat (?k + 1 + j)) = ?ds ! j)
    \<and> (\<forall>x. x \<notin> bytes_at (?buf + of_nat (?k + 1)) (length ?ds) \<longrightarrow> m' x = ?m x)"
    by (rule int_to_str_loop_digits) (use assms len in simp_all)
  then obtain m' where m': "int_to_str_loop ?buf base 64 v ?m = Some (of_nat ?k, m')"
      "\<And>j. j < length ?ds \<Longrightarrow> m' (?buf + of_nat (?k + 1 + j)) = ?ds ! j"
      "\<And>x. x \<notin> bytes_at (?buf + of_nat (?k + 1)) (length ?ds) \<Longrightarrow> m' x = ?m x"
    by auto
  let ?p = "?buf + of_nat (?k + 1)"
  have fit: "?k + 1 + length ?ds \<le> 2 ^ 32" "?k + 1 + (Suc (length ?ds)) \<le> 2 ^ 32"
    using len by simp_all
  note off = bytes_at_offset [OF fit(1), of _ ?buf] bytes_at_offset [OF fit(2), of _ ?buf]
  have "int_to_str v base s = Some (?p, s\<lparr>mem := m'\<rparr>)"
    using m'(1) by (simp add: int_to_str_def Let_def store8_def add.commute)
  moreover have "cstr m' ?p ?ds"
  proof -
    have "m' (?buf + 65) = 0"
      using m'(3) [of "?buf + 65"] off(1) [of "?buf + 65"] len by simp
    moreover have "?p + of_nat (length ?ds) = ?buf + 65"
      using len by (simp add: of_nat_diff)
    moreover have "m' (?p + of_nat j) = ?ds ! j" if "j < length ?ds" for j
      using m'(2) [OF that] by (simp only: of_nat_add add.assoc)
    moreover have "length ?ds < 2 ^ 32 - 1"
      using len by simp
    ultimately show ?thesis
      using digit_string_nonzero [OF assms(2), of "unat v"] unfolding cstr_def by metis
  qed
  moreover have sub: "bytes_at ?p (Suc (length ?ds)) \<subseteq> num_bytes s"
    using off(2) len by (auto simp: bytes_at_def)
  moreover have "m' x = mem s x" if "x \<notin> num_bytes s" for x
  proof -
    have "x \<notin> bytes_at ?p (length ?ds)"
      using that sub bytes_at_mono [of "length ?ds" "Suc (length ?ds)" ?p] by auto
    moreover have "x \<noteq> ?buf + 65"
      using that by (auto simp: bytes_at_def)
    ultimately show ?thesis
      using m'(3) by simp
  qed
  ultimately show ?thesis by blast
qed

section \<open>Formatted output\<close>

definition conversion_text :: "(u32 \<Rightarrow> u8 list) \<Rightarrow> u8 \<Rightarrow> u32 \<Rightarrow> u8 list" where
  "conversion_text str c arg =
     (if c = 37 then [37] else if c = 99 then [ucast arg] else if c = 115 then str arg
      else if c = 98 then digit_string 2 (unat arg) else if c = 111 then digit_string 8 (unat arg)
      else if c = 100 then digit_string 10 (unat arg) else if c = 120 then digit_string 16 (unat arg)
      else [])"

text \<open>The text a format prints; \<open>str p\<close> is the string at \<open>p\<close>. Every conversion takes one argument.\<close>

fun print_text :: "(u32 \<Rightarrow> u8 list) \<Rightarrow> (nat \<Rightarrow> u32) \<Rightarrow> nat \<Rightarrow> u8 list \<Rightarrow> u8 list" where
  "print_text str args n [] = []"
| "print_text str args n [c] = (if c = 37 then [] else [c])"
| "print_text str args n (c # d # fs) =
     (if c = 37 then conversion_text str d (args n) @ print_text str args (Suc n) fs
      else c # print_text str args n (d # fs))"

text \<open>No percent sign is the last character.\<close>

fun complete :: "u8 list \<Rightarrow> bool" where
  "complete [] \<longleftrightarrow> True"
| "complete [c] \<longleftrightarrow> c \<noteq> 37"
| "complete (c # d # fs) \<longleftrightarrow> (if c = 37 then complete fs else complete (d # fs))"

text \<open>The numbers of the arguments that are printed as strings.\<close>

fun string_args :: "nat \<Rightarrow> u8 list \<Rightarrow> nat list" where
  "string_args n [] = []"
| "string_args n [c] = []"
| "string_args n (c # d # fs) =
     (if c = 37 then (if d = 115 then [n] else []) @ string_args (Suc n) fs else string_args n (d # fs))"

definition rest_num :: "kernel \<Rightarrow> kernel" where
  "rest_num s = (rest_of s)\<lparr>mem := (\<lambda>x. if x \<in> num_bytes s then 0 else mem (rest_of s) x)\<rparr>"

lemma rest_num_rest: "rest_of s' = rest_of s \<Longrightarrow> rest_num s' = rest_num s"
  using rest_ofD(7) [of s' s] by (simp add: rest_num_def cong: if_cong)

lemma rest_numD:
  assumes "rest_num s' = rest_num s"
  shows "screen_bytes s' = screen_bytes s" "syms s' = syms s"
    "x \<notin> screen_bytes s \<Longrightarrow> x \<notin> num_bytes s \<Longrightarrow> mem s' x = mem s x"
proof -
  have "tty_state (rest_num s') = tty_state (rest_num s)" "syms (rest_num s') = syms (rest_num s)"
    and m: "mem (rest_num s') x = mem (rest_num s) x"
    using assms by simp_all
  then have "(tty_state s')\<lparr>cursor := 0\<rparr> = (tty_state s)\<lparr>cursor := 0\<rparr>" and sy: "syms s' = syms s"
    by (simp_all add: rest_num_def rest_of_def)
  then show b: "screen_bytes s' = screen_bytes s" and "syms s' = syms s"
    unfolding screen_bytes_def by (cases "tty_state s"; cases "tty_state s'"; simp)+
  show "x \<notin> screen_bytes s \<Longrightarrow> x \<notin> num_bytes s \<Longrightarrow> mem s' x = mem s x"
    using m by (simp add: rest_num_def rest_of_def b sy)
qed

definition safe :: "kernel \<Rightarrow> u32 \<Rightarrow> u8 list \<Rightarrow> bool" where
  "safe s p bs \<longleftrightarrow> readable s p bs \<and> bytes_at p (Suc (length bs)) \<inter> num_bytes s = {}"

lemma safe_rest_num:
  assumes "rest_num s' = rest_num s" "safe s p bs"
  shows "safe s' p bs"
proof -
  note d = rest_numD [OF assms(1)]
  have "cstr (mem s') p bs"
    by (rule cstr_frame [of "mem s"]) (use assms(2) d in \<open>auto simp: safe_def readable_def\<close>)
  then show ?thesis
    using assms(2) d by (simp add: safe_def readable_def)
qed

lemma safe_Cons: "safe s p (c # bs) \<Longrightarrow> mem s p = c \<and> c \<noteq> 0 \<and> safe s (p + 1) bs"
  using readable_Cons [of s p c bs] bytes_at_Suc [of "Suc (length bs)" p]
  by (auto simp: safe_def readable_def cstr_def)

text \<open>A change of memory outside the screen is not seen on it.\<close>

lemma screen_of_frame:
  assumes "tty_ok s" "\<And>x. x \<in> screen_bytes s \<Longrightarrow> m x = mem s x"
  shows "screen_of (s\<lparr>mem := m\<rparr>) = screen_of s" "tty_ok (s\<lparr>mem := m\<rparr>)"
proof -
  let ?b = "tty_buffer (tty_state s)"
  have small: "2 * scr_size s < 2 ^ 32"
    using tty_words(4) assms(1) by (simp add: tty_ok_def)
  have "load16 m (?b + of_nat (2 * i)) = load16 (mem s) (?b + of_nat (2 * i))" if "i < scr_size s" for i
  proof (rule cell16.ld_cong)
    fix x assume x: "x \<in> bytes_at (?b + of_nat (2 * i)) 2"
    have w: "2 * i + 2 \<le> 2 * scr_size s"
      using that by simp
    then have "2 * i + 2 \<le> 2 ^ 32"
      using small by (rule order_trans [OF _ less_imp_le])
    from bytes_at_offset [OF this, of x ?b] x w have "x \<in> screen_bytes s"
      unfolding screen_bytes_def bytes_at_def mem_Collect_eq by linarith
    then show "m x = mem s x" by (rule assms(2))
  qed
  then show "screen_of (s\<lparr>mem := m\<rparr>) = screen_of s"
    by (simp add: screen_of_def screen_cells_def)
  show "tty_ok (s\<lparr>mem := m\<rparr>)"
    using assms(1) by (simp add: tty_ok_def tty_geometry_def)
qed

lemma screen_cong:
  assumes "tty_ok s" "tty_state s' = tty_state s" "\<forall>x \<in> screen_bytes s. mem s' x = mem s x"
  shows "screen_of s' = screen_of s" "tty_ok s'"
proof -
  have "screen_of (s\<lparr>mem := mem s'\<rparr>) = screen_of s"
    using assms(3) by (intro screen_of_frame [OF assms(1)]) blast
  then show "screen_of s' = screen_of s"
    using assms(2) by (simp add: screen_of_def)
  show "tty_ok s'"
    using assms(1,2) by (simp add: tty_ok_def tty_geometry_def)
qed

lemma number_screen:
  fixes base :: u8
  assumes "tty_ok s" "num_bytes s \<inter> screen_bytes s = {}" "2 \<le> unat base" "unat base \<le> 16"
  shows "\<exists>s'. do { (str, s) \<leftarrow> int_to_str v base s; out_string str s } = Some s' \<and> tty_ok s'
    \<and> screen_of s' = fold put_char (digit_string (unat base) (unat v)) (screen_of s) \<and> rest_num s' = rest_num s"
proof -
  let ?ds = "digit_string (unat base) (unat v)"
  obtain p m where m: "int_to_str v base s = Some (p, s\<lparr>mem := m\<rparr>)" "cstr m p ?ds"
      "bytes_at p (Suc (length ?ds)) \<subseteq> num_bytes s" "\<And>x. x \<notin> num_bytes s \<Longrightarrow> m x = mem s x"
    using int_to_str_digits [OF assms(3,4), of v s] by blast
  let ?s = "s\<lparr>mem := m\<rparr>"
  have "m x = mem s x" if "x \<in> screen_bytes s" for x
    using m(4) that assms(2) by blast
  note s = screen_of_frame [OF assms(1) this]
  have scr: "screen_bytes ?s = screen_bytes s"
    by (simp add: screen_bytes_def)
  have "readable ?s p ?ds"
    using m(2,3) assms(2) unfolding readable_def scr by auto
  from out_string_list [OF s(2) this] terminal.out_list_ok [OF s(2), of ?ds] obtain s'
    where s': "out_string p ?s = Some s'" "tty_ok s'" "screen_of s' = fold put_char ?ds (screen_of ?s)"
      "rest_of s' = rest_of ?s"
    by auto
  have "rest_num ?s = rest_num s"
    using m(4) scr by (auto simp: rest_num_def rest_of_def fun_eq_iff)
  then show ?thesis
    using s' s(1) m(1) rest_num_rest [OF s'(4)] by auto
qed

lemma print_conversion_screen:
  assumes "tty_ok s" "num_bytes s \<inter> screen_bytes s = {}" "c = 115 \<Longrightarrow> safe s arg (str arg)"
  shows "\<exists>s'. print_conversion c arg s = Some s' \<and> tty_ok s'
    \<and> screen_of s' = fold put_char (conversion_text str c arg) (screen_of s) \<and> rest_num s' = rest_num s"
proof -
  have chars: "\<exists>s'. out_char d s = Some s' \<and> tty_ok s' \<and> screen_of s' = fold put_char [d] (screen_of s)
      \<and> rest_num s' = rest_num s" for d
  proof -
    obtain s' where s': "out_char d s = Some s'" "tty_ok s'" "screen_of s' = put_char d (screen_of s)" "rest_of s' = rest_of s"
      using put_char_screen [OF assms(1), of d] by blast
    then show ?thesis
      using rest_num_rest [OF s'(4)] by simp
  qed
  have strings: "\<exists>s'. out_string arg s = Some s' \<and> tty_ok s' \<and> screen_of s' = fold put_char (str arg) (screen_of s)
      \<and> rest_num s' = rest_num s" if "c = 115"
  proof -
    have "readable s arg (str arg)"
      using assms(3) [OF that] by (simp add: safe_def)
    note str = out_string_list [OF assms(1) this]
    obtain s' where s': "out_list out_char (str arg) s = Some s'" "tty_ok s'"
        "screen_of s' = fold put_char (str arg) (screen_of s)" "rest_of s' = rest_of s"
      using terminal.out_list_ok [OF assms(1), of "str arg"] by blast
    then show ?thesis
      using str rest_num_rest [OF s'(4)] by simp
  qed
  have numbers: "\<exists>s'. do { (str, s) \<leftarrow> int_to_str arg base s; out_string str s } = Some s' \<and> tty_ok s'
      \<and> screen_of s' = fold put_char (digit_string n (unat arg)) (screen_of s) \<and> rest_num s' = rest_num s"
    if "unat base = n" "2 \<le> n" "n \<le> 16" for base :: u8 and n
    using number_screen [OF assms(1,2), of base arg] that by simp
  consider "c = 37" | "c = 99" | "c = 115" | "c = 98" | "c = 111" | "c = 100" | "c = 120"
    | "c \<notin> {37, 99, 115, 98, 111, 100, 120}"
    by blast
  then show ?thesis
  proof cases
    case 8
    then show ?thesis
      using assms(1) by (simp add: print_conversion_def conversion_text_def)
  qed (use chars strings numbers [of 2 2] numbers [of 8 8] numbers [of 10 10] numbers [of 16 16]
    in \<open>simp_all add: print_conversion_def conversion_text_def\<close>)
qed

lemma printf_loop_text:
  assumes "tty_ok s" "num_bytes s \<inter> screen_bytes s = {}" "safe s fmt fs" "complete fs"
    and "\<And>i. i \<in> set (string_args n fs) \<Longrightarrow> safe s (args i) (str (args i))"
  shows "\<exists>s'. printf_loop fmt args n s = Some s' \<and> tty_ok s'
    \<and> screen_of s' = fold put_char (print_text str args n fs) (screen_of s) \<and> rest_num s' = rest_num s"
  using assms
proof (induction str args n fs arbitrary: fmt s rule: print_text.induct)
  case (1 str args n)
  then show ?case
    by (subst printf_loop.simps) (simp add: safe_def readable_def cstr_Nil load8_def)
next
  case (2 str args n c)
  have c: "mem s fmt = c" "c \<noteq> 0" "c \<noteq> 37" "safe s (fmt + 1) []"
    using safe_Cons [OF 2(3)] 2(4) by simp_all
  obtain s' where s': "out_char c s = Some s'" "tty_ok s'" "screen_of s' = put_char c (screen_of s)" "rest_of s' = rest_of s"
    using put_char_screen [OF 2(1), of c] by blast
  note r = rest_num_rest [OF s'(4)]
  have "safe s' (fmt + 1) []"
    by (rule safe_rest_num [OF r c(4)])
  then have "printf_loop (fmt + 1) args n s' = Some s'"
    by (subst printf_loop.simps) (simp add: safe_def readable_def cstr_Nil load8_def)
  then show ?case
    using c s' r by (subst printf_loop.simps) (simp add: load8_def)
next
  case (3 str args n c d fs)
  have c: "mem s fmt = c" "c \<noteq> 0" "safe s (fmt + 1) (d # fs)"
    using safe_Cons [OF 3(5)] by simp_all
  then have d: "mem s (fmt + 1) = d" "safe s (fmt + 2) fs"
    using safe_Cons [of s "fmt + 1" d fs] by (simp_all add: add.assoc)
  show ?case
  proof (cases "c = 37")
    case True
    have "d = 115 \<Longrightarrow> safe s (args n) (str (args n))"
      using 3(7) [of n] True by simp
    then obtain s' where s': "print_conversion d (args n) s = Some s'" "tty_ok s'"
        "screen_of s' = fold put_char (conversion_text str d (args n)) (screen_of s)" "rest_num s' = rest_num s"
      using print_conversion_screen [OF 3(3,4), of d "args n" str] by blast
    note r = rest_numD [OF s'(4)]
    have "safe s' (args i) (str (args i))" if "i \<in> set (string_args (Suc n) fs)" for i
      using 3(7) [of i] that True by (intro safe_rest_num [OF s'(4)]) simp
    moreover have "num_bytes s' \<inter> screen_bytes s' = {}" "complete fs"
      using 3(4,6) r True by simp_all
    ultimately obtain t where t: "printf_loop (fmt + 2) args (Suc n) s' = Some t" "tty_ok t"
        "screen_of t = fold put_char (print_text str args (Suc n) fs) (screen_of s')" "rest_num t = rest_num s'"
      using 3(1) [OF True s'(2) _ safe_rest_num [OF s'(4) d(2)]] by blast
    then show ?thesis
      using True c d s' by (subst printf_loop.simps) (simp add: load8_def)
  next
    case False
    obtain s' where s': "out_char c s = Some s'" "tty_ok s'" "screen_of s' = put_char c (screen_of s)" "rest_of s' = rest_of s"
      using put_char_screen [OF 3(3), of c] by blast
    note q = rest_num_rest [OF s'(4)]
    note r = rest_numD [OF q]
    have "safe s' (args i) (str (args i))" if "i \<in> set (string_args n (d # fs))" for i
      using 3(7) [of i] that False by (intro safe_rest_num [OF q]) simp
    moreover have "num_bytes s' \<inter> screen_bytes s' = {}" "complete (d # fs)"
      using 3(4,6) r False by simp_all
    ultimately obtain t where t: "printf_loop (fmt + 1) args n s' = Some t" "tty_ok t"
        "screen_of t = fold put_char (print_text str args n (d # fs)) (screen_of s')" "rest_num t = rest_num s'"
      using 3(2) [OF False s'(2) _ safe_rest_num [OF q c(3)]] by blast
    then show ?thesis
      using False c s' q by (subst printf_loop.simps) (simp add: load8_def)
  qed
qed

section \<open>Properties of the screen and of formatted output\<close>

text \<open>A screen of 25 lines of 80 cells at \<open>0xB8000\<close>, with the strings \<open>%d\<close> at \<open>0x1000\<close> and \<open>%%%d\<close> at \<open>0x2000\<close>.\<close>

definition vga :: kernel where
  "vga = zero_kernel\<lparr>tty_state := \<lparr>tty_width = 80, tty_height = 25, cursor = 1999, text_attr = 7,
       tty_buffer = 0xB8000, tty_io_port = 0x3D4\<rparr>,
     mem := (\<lambda>_. 0)(0x1000 := 37, 0x1001 := 100, 0x2000 := 37, 0x2001 := 37, 0x2002 := 37, 0x2003 := 100)\<rparr>"

lemma vga_ok: "tty_ok vga"
  by (simp add: vga_def tty_ok_def tty_geometry_def)

lemma vga_bytes: "num_bytes vga \<inter> screen_bytes vga = {}"
proof -
  have "screen_bytes vga = bytes_at 0xB8000 4000" "num_bytes vga = bytes_at 0x80008000 66"
    by (simp_all add: vga_def zero_kernel_def screen_bytes_def)
  moreover have "bytes_at 0xB8000 4000 \<inter> bytes_at 0x80008000 66 = {}"
    by (rule bytes_at_disjointI) simp_all
  ultimately show ?thesis by blast
qed

lemma vga_safe: "safe vga 0x1000 [37, 100]" "safe vga 0x2000 [37, 37, 37, 100]"
proof -
  have b: "screen_bytes vga = bytes_at 0xB8000 4000" "num_bytes vga = bytes_at 0x80008000 66"
    by (simp_all add: vga_def zero_kernel_def screen_bytes_def)
  have "bytes_at 0x1000 (Suc (length [37, 100 :: u8])) \<inter> bytes_at 0xB8000 4000 = {}" "bytes_at 0x1000 (Suc (length [37, 100 :: u8])) \<inter> bytes_at 0x80008000 66 = {}"
    "bytes_at 0x2000 (Suc (length [37, 37, 37, 100 :: u8])) \<inter> bytes_at 0xB8000 4000 = {}" "bytes_at 0x2000 (Suc (length [37, 37, 37, 100 :: u8])) \<inter> bytes_at 0x80008000 66 = {}"
    by (rule bytes_at_disjointI; simp)+
  moreover have "cstr (mem vga) 0x1000 [37, 100]" "cstr (mem vga) 0x2000 [37, 37, 37, 100]"
    by (simp_all add: vga_def cstr_Cons cstr_Nil)
  ultimately show "safe vga 0x1000 [37, 100]" "safe vga 0x2000 [37, 37, 37, 100]"
    by (simp_all add: safe_def readable_def b)
qed

text \<open>
  C12: \<open>out_char\<close> implements the operation on the abstract screen: a character is put at the cursor
  with the attribute in force, a newline goes to the next line, and the screen scrolls by a line
  when the position leaves it. The cursor stays on the screen, and no byte outside it changes.
\<close>

theorem out_char_implements_screen:
  assumes "tty_ok s"
  shows "\<exists>s'. out_char c s = Some s' \<and> tty_ok s' \<and> screen_of s' = put_char c (screen_of s)
    \<and> (\<forall>x. x \<notin> screen_bytes s \<longrightarrow> mem s' x = mem s x)"
  using put_char_screen [OF assms, of c] rest_ofD(8) by blast

theorem out_char_implements_screen_witness:
  "\<exists>s'. out_char 65 vga = Some s' \<and> sc_pos (screen_of s') = 1920"
proof -
  obtain s' where "out_char 65 vga = Some s'" "screen_of s' = put_char 65 (screen_of vga)"
    using out_char_implements_screen [OF vga_ok, of 65] by blast
  moreover have "sc_pos (put_char 65 (screen_of vga)) = 1920"
    by (simp add: put_char_def go_def screen_of_def vga_def)
  ultimately show ?thesis by auto
qed

text \<open>
  C13: \<open>printf\<close> puts the text of its format on the screen, every conversion with the next argument,
  returns, and changes no byte outside the screen and the buffer of \<open>int_to_str\<close>.
\<close>

theorem printf_prints_text:
  assumes "tty_ok s" and "num_bytes s \<inter> screen_bytes s = {}" and "safe s fmt fs" and "complete fs"
    and "\<forall>i \<in> set (string_args 0 fs). safe s (args i) (str (args i))"
  shows "\<exists>s'. printf fmt args s = Some s' \<and> tty_ok s'
    \<and> screen_of s' = fold put_char (print_text str args 0 fs) (screen_of s)
    \<and> (\<forall>x. x \<notin> screen_bytes s \<longrightarrow> x \<notin> num_bytes s \<longrightarrow> mem s' x = mem s x)"
proof -
  obtain s' where s': "printf_loop fmt args 0 s = Some s'" "tty_ok s'"
      "screen_of s' = fold put_char (print_text str args 0 fs) (screen_of s)" "rest_num s' = rest_num s"
    using printf_loop_text [OF assms(1-4), of 0 args str] assms(5) by blast
  then show ?thesis
    using rest_numD(3) [OF s'(4)] unfolding printf_def by blast
qed

theorem printf_prints_text_witness:
  "\<exists>s'. printf 0x1000 (\<lambda>_. 42) vga = Some s' \<and> screen_of s' = fold put_char [52, 50] (screen_of vga)"
proof -
  have "complete [37, 100 :: u8]" "\<forall>i \<in> set (string_args 0 [37, 100 :: u8]). safe vga 42 []"
    by simp_all
  moreover have "print_text (\<lambda>_. []) (\<lambda>_. 42) 0 [37, 100] = [52, 50]"
    by (simp add: conversion_text_def) (simp add: digit_string.simps digits_def)
  ultimately show ?thesis
    using printf_prints_text [OF vga_ok vga_bytes vga_safe(1), of "\<lambda>_. 42" "\<lambda>_. []"] by auto
qed

text \<open>
  C33: \<open>int_to_str\<close> in a base from 2 to 16 returns and answers a NUL-terminated string of digits that
  reads back as the number; it changes no memory but its buffer of 65 bytes and the one byte after it
  (which it does clear, \<open>int_to_str_writes_past_buffer\<close>).
\<close>

theorem int_to_str_roundtrip:
  fixes base :: u8
  assumes "2 \<le> unat base" and "unat base \<le> 16"
  shows "\<exists>p m' ds. int_to_str v base s = Some (p, s\<lparr>mem := m'\<rparr>) \<and> cstr m' p ds
    \<and> parse_digits (unat base) ds = unat v \<and> (\<forall>x. x \<notin> num_bytes s \<longrightarrow> m' x = mem s x)"
  using int_to_str_digits [OF assms, of v s] parse_digit_string [OF assms, of "unat v"] by blast

theorem int_to_str_roundtrip_witness:
  "\<exists>p m' ds. int_to_str 0xFFFFFFFF 2 vga = Some (p, vga\<lparr>mem := m'\<rparr>) \<and> cstr m' p ds
    \<and> parse_digits 2 ds = 4294967295"
  using int_to_str_roundtrip [of 2 "0xFFFFFFFF" vga] by auto

text \<open>
  \<open>int_to_str\<close> always clears the byte after its buffer of 65 bytes: the terminator goes to index
  \<open>sizeof(num_buffer)\<close>.
\<close>

theorem int_to_str_writes_past_buffer:
  fixes base :: u8
  assumes "2 \<le> unat base" and "unat base \<le> 16"
  shows "\<exists>p s'. int_to_str v base s = Some (p, s') \<and> mem s' (num_buffer (syms s) + 65) = 0"
proof -
  let ?ds = "digit_string (unat base) (unat v)" and ?m = "(mem s)(num_buffer (syms s) + 65 := 0)"
  have len: "length ?ds \<le> 32"
    using assms(1) unat_less_32 [of v] by (intro digit_string_length) simp_all
  obtain m' where m': "int_to_str_loop (num_buffer (syms s)) base (of_nat 64) v ?m = Some (of_nat (64 - length ?ds), m')"
    "\<forall>x. x \<notin> bytes_at (num_buffer (syms s) + of_nat (64 - length ?ds + 1)) (length ?ds) \<longrightarrow> m' x = ?m x"
    using int_to_str_loop_digits [OF assms, of v 64 "num_buffer (syms s)" ?m] len by auto
  have "64 - length ?ds + 1 + length ?ds \<le> 2 ^ 32" "unat (num_buffer (syms s) + 65 - num_buffer (syms s)) = 65"
    using len by simp_all
  then have "m' (num_buffer (syms s) + 65) = 0"
    using m'(2) bytes_at_offset [of "64 - length ?ds + 1" "length ?ds" "num_buffer (syms s) + 65"] len by simp
  then show ?thesis
    using m'(1) by (simp add: int_to_str_def Let_def store8_def)
qed

theorem int_to_str_writes_past_buffer_witness:
  "\<exists>p s'. int_to_str 7 10 (vga\<lparr>mem := (\<lambda>_. 9)\<rparr>) = Some (p, s') \<and> mem s' 0x80008041 = 0"
  using int_to_str_writes_past_buffer [of 10 7 "vga\<lparr>mem := (\<lambda>_. 9)\<rparr>"] by (simp add: vga_def zero_kernel_def)

text \<open>
  \<open>%%\<close> consumes an argument, so the conversion after it prints the argument after the one meant:
  the format \<open>%%%d\<close> prints its second argument.
\<close>

theorem printf_percent_takes_argument:
  assumes "tty_ok s" and "num_bytes s \<inter> screen_bytes s = {}" and "safe s fmt [37, 37, 37, 100]"
  shows "\<exists>s'. printf fmt args s = Some s'
    \<and> screen_of s' = fold put_char (37 # digit_string 10 (unat (args 1))) (screen_of s)"
  using printf_loop_text [OF assms, of 0 args "\<lambda>_. []"] by (auto simp: printf_def conversion_text_def)

theorem printf_percent_takes_argument_witness:
  "\<exists>s'. printf 0x2000 (\<lambda>n. if n = 0 then 5 else 9) vga = Some s'
    \<and> screen_of s' = fold put_char [37, 57] (screen_of vga)"
  using printf_percent_takes_argument [OF vga_ok vga_bytes vga_safe(2), of "\<lambda>n. if n = 0 then 5 else 9"]
  by (simp add: digit_string.simps digits_def)

end
