(* ===== verification/Keyboard.thy ===== *)
theory Keyboard
  imports Terminal
begin

text \<open>
  The keyboard of \<open>tty.c\<close>: the interrupt handler that puts scan codes into the ring \<open>key_buffer\<close>, and
  \<open>in_scancode\<close>, \<open>in_char\<close> and \<open>in_string\<close>, which take them out. The handler runs between two
  polls of the reader. When that happens is a schedule: the list, poll by poll, of the scan codes
  that arrive before the poll. \<open>None\<close> is that the reader still waits when the schedule ends. The
  locale \<open>fifo\<close> is the contract of the ring between the handler and the readers.
\<close>

section \<open>The tables of \<open>scancodes.h\<close>\<close>

definition scancodes :: "u8 list" where
  "scancodes =
     [0, 0, 49, 50, 51, 52, 53, 54, 55, 56, 57, 48, 45, 61, 8, 9, 113, 119, 101, 114, 116,
      121, 117, 105, 111, 112, 91, 93, 10, 0, 97, 115, 100, 102, 103, 104, 106, 107, 108,
      59, 39, 96, 0, 92, 122, 120, 99, 118, 98, 110, 109, 44, 46, 47, 0, 42, 0, 32, 0, 0,
      0, 0, 0, 0, 0, 0, 0, 0, 0, 0, 0, 0, 0, 0, 45, 0, 0, 0, 43]
     @ replicate 30 0"

definition scancodes_shifted :: "u8 list" where
  "scancodes_shifted =
     [0, 0, 33, 64, 35, 36, 37, 94, 38, 42, 40, 41, 95, 43, 8, 9, 81, 87, 69, 82, 84, 89,
      85, 73, 79, 80, 123, 125, 10, 0, 65, 83, 68, 70, 71, 72, 74, 75, 76, 58, 34, 126, 0,
      124, 90, 88, 67, 86, 66, 78, 77, 60, 62, 63, 0, 42, 0, 32, 0, 0, 0, 0, 0, 0, 0, 0,
      0, 0, 0, 0, 0, 0, 0, 0, 45, 0, 0, 0, 43]
     @ replicate 30 0"

section \<open>The handler and the readers\<close>

definition keyboard_int_handler :: "kernel \<Rightarrow> kernel" where
  "keyboard_int_handler s =
     (let (key_code, s) = inportb 0x60 s;
          k = kbd s;
          k = (if key_buffer_tail k \<ge> 16 then k\<lparr>key_buffer_tail := 0\<rparr> else k);
          k = k\<lparr>key_buffer_tail := key_buffer_tail k + 1\<rparr>;
          k = k\<lparr>key_buffer := (key_buffer k)[unat (key_buffer_tail k - 1) := key_code]\<rparr>;
          (status, s) = inportb 0x61 (s\<lparr>kbd := k\<rparr>)
      in outportb 0x61 (status OR 1) s)"

definition in_scancode :: "kernel \<Rightarrow> u8 \<times> kernel" where
  "in_scancode s =
     (let k = kbd s
      in if key_buffer_head k \<noteq> key_buffer_tail k then
           let k = (if key_buffer_head k \<ge> 16 then k\<lparr>key_buffer_head := 0\<rparr> else k);
               result = key_buffer k ! unat (key_buffer_head k)
           in (result, s\<lparr>kbd := k\<lparr>key_buffer_head := key_buffer_head k + 1\<rparr>\<rparr>)
         else (0, s))"

text \<open>A scan code that the controller presents when it raises the interrupt.\<close>

definition press :: "u8 \<Rightarrow> kernel \<Rightarrow> kernel" where
  "press c s = keyboard_int_handler
     (s\<lparr>port_in := (port_in s)(in_count s := (port_in s (in_count s))(0x60 := c))\<rparr>)"

type_synonym schedule = "u8 list list"

text \<open>
  One round of the loop of \<open>in_char\<close>: the new value of \<open>shift\<close> for a code, and the character; \<open>None\<close>
  is a code for which the table is read outside its bounds.
\<close>

definition shift_after :: "u8 \<Rightarrow> bool \<Rightarrow> bool" where
  "shift_after chr shift =
     (if chr = 0x2A \<or> chr = 0x36 then True
      else if chr = 0x2A + 0x80 \<or> chr = 0x36 + 0x80 then False else shift)"

definition char_of_code :: "u8 \<Rightarrow> bool \<Rightarrow> u8 option" where
  "char_of_code chr shift =
     (let chr = (if chr AND 0x80 \<noteq> 0 then 0 else chr);
          table = (if shift then scancodes_shifted else scancodes)
      in if unat chr < length table then Some (table ! unat chr) else None)"

fun in_char_loop :: "bool \<Rightarrow> bool \<Rightarrow> schedule \<Rightarrow> kernel \<Rightarrow> (u8 \<times> schedule \<times> kernel) option" where
  "in_char_loop wait shift [] s = None"
| "in_char_loop wait shift (arrived # sched) s =
     (let (chr, s) = in_scancode (fold press arrived s);
          shift = shift_after chr shift
      in do {
        chr \<leftarrow> char_of_code chr shift;
        if wait \<and> chr = 0 then in_char_loop wait shift sched s else Some (chr, sched, s)
      })"

definition in_char :: "bool \<Rightarrow> schedule \<Rightarrow> kernel \<Rightarrow> (u8 \<times> schedule \<times> kernel) option" where
  "in_char wait sched s = in_char_loop wait False sched s"

text \<open>
  The loop of \<open>in_string\<close>, with its locals \<open>buffer\<close>, \<open>position\<close> and \<open>buffer_size\<close>. It answers the
  buffer and the position when it has read a newline.
\<close>

definition in_string_grow :: "u32 \<Rightarrow> u32 \<Rightarrow> u32 \<Rightarrow> kernel \<Rightarrow> (u32 \<times> u32 \<times> kernel) option" where
  "in_string_grow buffer position buffer_size s =
     (if position = buffer_size - 1 then
        do {
          (temp, s) \<leftarrow> kmalloc (buffer_size * 2) s;
          let s = s\<lparr>mem := memcpy temp buffer buffer_size (mem s)\<rparr>;
          let s = snd (kfree buffer s);
          Some (temp, buffer_size * 2, s)
        }
      else Some (buffer, buffer_size, s))"

partial_function (option) in_string_loop ::
  "u32 \<Rightarrow> u32 \<Rightarrow> u32 \<Rightarrow> schedule \<Rightarrow> kernel \<Rightarrow> (u32 \<times> u32 \<times> schedule \<times> kernel) option" where
  "in_string_loop buffer position buffer_size sched s =
     do {
       (chr, sched, s) \<leftarrow> in_char True sched s;
       if chr = 0 then in_string_loop buffer position buffer_size sched s
       else if chr = 8 then
         if position > 0 then
           do {
             let s = move_cursor (cursor (tty_state s) - 1) s;
             s \<leftarrow> out_char 0 s;
             let s = move_cursor (cursor (tty_state s) - 1) s;
             in_string_loop buffer (position - 1) buffer_size sched s
           }
         else in_string_loop buffer position buffer_size sched s
       else if chr = 10 then
         do { s \<leftarrow> out_char 10 s; Some (buffer, position, sched, s) }
       else
         do {
           (buffer, buffer_size, s) \<leftarrow> in_string_grow buffer position buffer_size s;
           let s = s\<lparr>mem := store8 (buffer + position) chr (mem s)\<rparr>;
           s \<leftarrow> out_char chr s;
           in_string_loop buffer (position + 1) buffer_size sched s
         }
     }"

definition in_string :: "schedule \<Rightarrow> kernel \<Rightarrow> (u32 \<times> schedule \<times> kernel) option" where
  "in_string sched s =
     do {
       (buffer, s) \<leftarrow> kmalloc 16 s;
       (buffer, position, sched, s) \<leftarrow> in_string_loop buffer 0 16 sched s;
       Some (buffer, sched, s\<lparr>mem := store8 (buffer + position) 0 (mem s)\<rparr>)
     }"

definition enable_keyboard :: "kernel \<Rightarrow> kernel" where
  "enable_keyboard s = (let (i, s) = inportb 0x21 s in outportb 0x21 (i AND NOT 2) s)"

section \<open>The contract of the ring\<close>

datatype 'a ring_event = Put 'a | Take

text \<open>What a queue answers to a list of events: \<open>none\<close> is the answer of an empty queue.\<close>

fun queue_run :: "'a \<Rightarrow> 'a ring_event list \<Rightarrow> 'a list \<Rightarrow> 'a list \<times> 'a list" where
  "queue_run none [] q = ([], q)"
| "queue_run none (Put x # es) q = queue_run none es (q @ [x])"
| "queue_run none (Take # es) q =
     (case q of [] \<Rightarrow> (let (rs, q) = queue_run none es [] in (none # rs, q))
      | x # xs \<Rightarrow> (let (rs, q) = queue_run none es xs in (x # rs, q)))"

fun ring_run :: "('a \<Rightarrow> 's \<Rightarrow> 's) \<Rightarrow> ('s \<Rightarrow> 'a \<times> 's) \<Rightarrow> 'a ring_event list \<Rightarrow> 's \<Rightarrow> 'a list \<times> 's" where
  "ring_run enq deq [] s = ([], s)"
| "ring_run enq deq (Put x # es) s = ring_run enq deq es (enq x s)"
| "ring_run enq deq (Take # es) s =
     (let (r, s) = deq s; (rs, s) = ring_run enq deq es s in (r # rs, s))"

text \<open>The events never hold more than \<open>cap\<close> elements in the queue.\<close>

fun within :: "nat \<Rightarrow> 'a ring_event list \<Rightarrow> nat \<Rightarrow> bool" where
  "within cap [] n \<longleftrightarrow> True"
| "within cap (Put x # es) n \<longleftrightarrow> n < cap \<and> within cap es (Suc n)"
| "within cap (Take # es) n \<longleftrightarrow> within cap es (n - 1)"

locale fifo =
  fixes enq :: "'a \<Rightarrow> 's \<Rightarrow> 's"
    and deq :: "'s \<Rightarrow> 'a \<times> 's"
    and none :: 'a
    and contents :: "'s \<Rightarrow> 'a list"
    and inv :: "'s \<Rightarrow> bool"
    and cap :: nat
  assumes enq_ok: "inv s \<Longrightarrow> length (contents s) < cap \<Longrightarrow> inv (enq x s) \<and> contents (enq x s) = contents s @ [x]"
    and deq_Cons: "inv s \<Longrightarrow> contents s = x # xs \<Longrightarrow> fst (deq s) = x \<and> inv (snd (deq s)) \<and> contents (snd (deq s)) = xs"
    and deq_Nil: "inv s \<Longrightarrow> contents s = [] \<Longrightarrow> deq s = (none, s)"
begin

lemma enq_all:
  "inv s \<Longrightarrow> length (contents s) + length xs \<le> cap \<Longrightarrow>
     inv (fold enq xs s) \<and> contents (fold enq xs s) = contents s @ xs"
  by (induction xs arbitrary: s) (use enq_ok in simp_all)

lemma run_queue:
  assumes "inv s" "within cap es (length (contents s))"
  shows "fst (ring_run enq deq es s) = fst (queue_run none es (contents s))
    \<and> contents (snd (ring_run enq deq es s)) = snd (queue_run none es (contents s))
    \<and> inv (snd (ring_run enq deq es s))"
  using assms
proof (induction es arbitrary: s)
  case (Cons e es)
  show ?case
  proof (cases e)
    case (Put x)
    then show ?thesis
      using Cons enq_ok by simp
  next
    case Take
    show ?thesis
    proof (cases "contents s")
      case Nil
      then show ?thesis
        using Take Cons deq_Nil by (simp add: split_beta)
    next
      case (Cons x xs)
      then show ?thesis
        using Take Cons.IH [of "snd (deq s)"] Cons.prems deq_Cons [of s x xs] by (simp add: split_beta)
    qed
  qed
qed simp

end

section \<open>The ring of the keyboard\<close>

abbreviation kbd_head :: "kernel \<Rightarrow> nat" where "kbd_head s \<equiv> unat (key_buffer_head (kbd s))"
abbreviation kbd_tail :: "kernel \<Rightarrow> nat" where "kbd_tail s \<equiv> unat (key_buffer_tail (kbd s))"

text \<open>The cells in use, in order: positions 0 and 16 are the same cell, but different counters.\<close>

definition ring_cells :: "nat \<Rightarrow> nat \<Rightarrow> nat list" where
  "ring_cells h t = (if h < t then [h..<t] else if t < h then [h..<16] @ [0..<t] else [])"

definition key_queue :: "kernel \<Rightarrow> u8 list" where
  "key_queue s = map (\<lambda>i. key_buffer (kbd s) ! i) (ring_cells (kbd_head s) (kbd_tail s))"

definition key_ok :: "kernel \<Rightarrow> bool" where
  "key_ok s \<longleftrightarrow> length (key_buffer (kbd s)) = 16 \<and> kbd_head s \<le> 16 \<and> kbd_tail s \<le> 16
     \<and> (kbd_tail s = 0 \<longrightarrow> kbd_head s = 0)"

text \<open>What an interrupt and a read do to the ring.\<close>

lemma kbd_press:
  "kbd (press c s) = (let t = (if key_buffer_tail (kbd s) \<ge> 16 then 0 else key_buffer_tail (kbd s))
     in (kbd s)\<lparr>key_buffer := (key_buffer (kbd s))[unat t := c], key_buffer_tail := t + 1\<rparr>)"
  by (simp add: press_def keyboard_int_handler_def inportb_def outportb_def Let_def)

lemma key_press:
  assumes "key_ok s"
  defines "t \<equiv> (if kbd_tail s = 16 then 0 else kbd_tail s)"
  shows "kbd_tail (press c s) = Suc t" "kbd_head (press c s) = kbd_head s"
    "key_buffer (kbd (press c s)) = (key_buffer (kbd s))[t := c]" "t < 16"
proof -
  have "key_buffer_tail (kbd s) \<ge> 16 \<longleftrightarrow> kbd_tail s = 16"
    using assms(1) by (auto simp: key_ok_def word_le_nat_alt)
  then have t: "unat (if key_buffer_tail (kbd s) \<ge> 16 then 0 else key_buffer_tail (kbd s)) = t"
    by (simp add: t_def)
  show lt: "t < 16"
    using assms(1) by (simp add: t_def key_ok_def)
  show "kbd_tail (press c s) = Suc t" "kbd_head (press c s) = kbd_head s"
    "key_buffer (kbd (press c s)) = (key_buffer (kbd s))[t := c]"
    using lt by (simp_all add: kbd_press Let_def t unat_add_nowrap del: if_split)
qed

lemma ring_cells_put:
  assumes "h \<le> 16" "t \<le> 16" "t = 0 \<longrightarrow> h = 0" "length (ring_cells h t) < 15"
  defines "u \<equiv> (if t = 16 then 0 else t)"
  shows "ring_cells h (Suc u) = ring_cells h t @ [u]" "u \<notin> set (ring_cells h t)"
  using assms by (auto simp: ring_cells_def split: if_splits)

lemma ring_cells_take:
  assumes "h \<le> 16" "t \<le> 16" "t = 0 \<longrightarrow> h = 0" "h \<noteq> t"
  defines "g \<equiv> (if h = 16 then 0 else h)"
  shows "ring_cells h t = g # ring_cells (Suc g) t"
  using assms by (auto simp: ring_cells_def upt_conv_Cons)

lemma press_queue:
  assumes "key_ok s" "length (key_queue s) < 15"
  shows "key_ok (press c s)" "key_queue (press c s) = key_queue s @ [c]"
proof -
  define t where "t = (if kbd_tail s = 16 then 0 else kbd_tail s)"
  note p = key_press(1-3) [OF assms(1), of c, folded t_def] key_press(4) [OF assms(1), folded t_def]
  have ok: "length (key_buffer (kbd s)) = 16" "kbd_head s \<le> 16" "kbd_tail s \<le> 16" "kbd_tail s = 0 \<longrightarrow> kbd_head s = 0"
    using assms(1) by (simp_all add: key_ok_def)
  then show "key_ok (press c s)"
    using p by (simp add: key_ok_def)
  have "length (ring_cells (kbd_head s) (kbd_tail s)) < 15"
    using assms(2) by (simp add: key_queue_def)
  from ring_cells_put [OF ok(2-4) this, folded t_def] show "key_queue (press c s) = key_queue s @ [c]"
    using p ok(1) by (auto simp: key_queue_def nth_list_update)
qed

lemma in_scancode_take:
  assumes "key_ok s" "key_queue s = x # xs"
  shows "fst (in_scancode s) = x" "key_ok (snd (in_scancode s))" "key_queue (snd (in_scancode s)) = xs"
proof -
  define g where "g = (if kbd_head s = 16 then 0 else kbd_head s)"
  have ok: "length (key_buffer (kbd s)) = 16" "kbd_head s \<le> 16" "kbd_tail s \<le> 16" "kbd_tail s = 0 \<longrightarrow> kbd_head s = 0"
    using assms(1) by (simp_all add: key_ok_def)
  have ne: "kbd_head s \<noteq> kbd_tail s"
    using assms(2) by (auto simp: key_queue_def ring_cells_def)
  then have "kbd_tail s \<noteq> 0"
    using ok(4) by auto
  have "key_buffer_head (kbd s) \<ge> 16 \<longleftrightarrow> kbd_head s = 16"
    using ok(2) by (auto simp: word_le_nat_alt)
  then have g: "unat (if key_buffer_head (kbd s) \<ge> 16 then 0 else key_buffer_head (kbd s)) = g" "g < 16"
    using ok(2) by (simp_all add: g_def)
  define w where "w = (if key_buffer_head (kbd s) \<ge> 16 then 0 else key_buffer_head (kbd s))"
  have "key_buffer_head (kbd s) \<noteq> key_buffer_tail (kbd s)"
    using ne by metis
  then have s: "in_scancode s = (key_buffer (kbd s) ! g, s\<lparr>kbd := (kbd s)\<lparr>key_buffer_head := w + 1\<rparr>\<rparr>)"
    using g(1) unfolding w_def by (simp add: in_scancode_def Let_def split: if_splits)
  have "unat (w + 1) = Suc g"
    using g unfolding w_def [symmetric] by (subst unat_add_nowrap) simp_all
  then show "fst (in_scancode s) = x" "key_ok (snd (in_scancode s))" "key_queue (snd (in_scancode s)) = xs"
    using \<open>kbd_tail s \<noteq> 0\<close> assms(2) ok g(2) ring_cells_take [OF ok(2-4) ne, folded g_def] unfolding s
    by (auto simp: key_queue_def key_ok_def)
qed

lemma in_scancode_empty: "key_ok s \<Longrightarrow> key_queue s = [] \<Longrightarrow> in_scancode s = (0, s)"
  by (cases "kbd_head s" "kbd_tail s" rule: linorder_cases)
    (auto simp: in_scancode_def key_queue_def ring_cells_def key_ok_def word_unat_eq_iff)

interpretation keys: fifo press in_scancode 0 key_queue key_ok 15
  by unfold_locales (simp_all add: press_queue in_scancode_take in_scancode_empty)

section \<open>What \<open>in_char\<close> makes of a stream of scan codes\<close>

text \<open>
  The first character in a stream and what is left of it; \<open>None\<close> when the stream holds none. A
  character starts with \<open>shift\<close> off.
\<close>

fun decode :: "bool \<Rightarrow> u8 list \<Rightarrow> (u8 \<times> u8 list) option" where
  "decode shift [] = None"
| "decode shift (x # xs) =
     (case char_of_code x (shift_after x shift) of
        Some c \<Rightarrow> if c = 0 then decode (shift_after x shift) xs else Some (c, xs)
      | None \<Rightarrow> None)"

text \<open>Codes of keys that the tables know, and of releases.\<close>

definition known :: "u8 \<Rightarrow> bool" where
  "known x \<longleftrightarrow> x AND 0x80 \<noteq> 0 \<or> unat x < 109"

lemma length_scancodes [simp]: "length scancodes = 109" "length scancodes_shifted = 109"
  by (simp_all add: scancodes_def scancodes_shifted_def)

lemma known_char: "known x \<Longrightarrow> char_of_code x shift \<noteq> None"
  by (auto simp: known_def char_of_code_def Let_def)

lemma empty_poll: "char_of_code 0 shift = Some 0" "shift_after 0 shift = shift"
  by (simp_all add: char_of_code_def shift_after_def scancodes_def scancodes_shifted_def)

text \<open>
  A schedule on which the ring, with \<open>n\<close> codes unread at the start, never holds more than 15, and the
  number of codes unread at its end.
\<close>

fun paced :: "nat \<Rightarrow> schedule \<Rightarrow> bool" where
  "paced n [] \<longleftrightarrow> True"
| "paced n (a # sched) \<longleftrightarrow> n + length a \<le> 15 \<and> paced (n + length a - 1) sched"

fun unread :: "nat \<Rightarrow> schedule \<Rightarrow> nat" where
  "unread n [] = n"
| "unread n (a # sched) = unread (n + length a - 1) sched"

text \<open>The ring is sound, and the schedule goes on long enough for everything to be read.\<close>

definition keys_ok :: "schedule \<Rightarrow> kernel \<Rightarrow> bool" where
  "keys_ok sched s \<longleftrightarrow> key_ok s \<and> paced (length (key_queue s)) sched \<and> unread (length (key_queue s)) sched = 0"

abbreviation codes_left :: "schedule \<Rightarrow> kernel \<Rightarrow> u8 list" where
  "codes_left sched s \<equiv> key_queue s @ concat sched"

lemma paced_small:
  assumes "n + length (concat sched) \<le> 15"
  shows "paced n (sched @ replicate k [])" "n + length (concat sched) \<le> k \<Longrightarrow> unread n (sched @ replicate k []) = 0"
proof -
  have e: "paced n (replicate k [])" "n \<le> k \<Longrightarrow> unread n (replicate k []) = 0" if "n \<le> 15" for n
    using that by (induction k arbitrary: n) auto
  show "paced n (sched @ replicate k [])" "n + length (concat sched) \<le> k \<Longrightarrow> unread n (sched @ replicate k []) = 0"
    using assms by (induction sched arbitrary: n) (auto simp: e)
qed

text \<open>Everything but the ring and the ports, which is what reading a key changes.\<close>

definition rest_keys :: "kernel \<Rightarrow> kernel" where
  "rest_keys s = s\<lparr>kbd := \<lparr>key_buffer = [], key_buffer_head = 0, key_buffer_tail = 0\<rparr>,
     port_in := (\<lambda>_ _. 0), in_count := 0, out_log := []\<rparr>"

lemma rest_keys_press [simp]: "rest_keys (fold press cs s) = rest_keys s"
proof (induction cs arbitrary: s)
  case (Cons c cs)
  have "rest_keys (press c s) = rest_keys s"
    by (simp add: rest_keys_def press_def keyboard_int_handler_def inportb_def outportb_def Let_def)
  with Cons.IH show ?case by simp
qed simp

lemma rest_keys_scancode: "rest_keys (snd (in_scancode s)) = rest_keys s"
  by (simp add: rest_keys_def in_scancode_def Let_def)

lemma in_char_loop_decode:
  assumes "keys_ok sched s" "decode shift (codes_left sched s) = Some (c, rest)"
  obtains sched' s' where "in_char_loop True shift sched s = Some (c, sched', s')" "keys_ok sched' s'"
    "codes_left sched' s' = rest" "rest_keys s' = rest_keys s"
proof -
  have "\<exists>sched' s'. in_char_loop True shift sched s = Some (c, sched', s') \<and> keys_ok sched' s'
      \<and> codes_left sched' s' = rest \<and> rest_keys s' = rest_keys s"
    using assms
  proof (induction sched arbitrary: shift s)
    case Nil
    then show ?case by (simp add: keys_ok_def)
  next
    case (Cons a sched)
    define u where "u = fold press a s"
    have pace: "length (key_queue s) + length a \<le> 15" and key: "key_ok s"
      using Cons.prems(1) by (simp_all add: keys_ok_def)
    have u: "key_ok u" "key_queue u = key_queue s @ a" "rest_keys u = rest_keys s"
      using keys.enq_all [OF key pace] by (simp_all add: u_def)
    show ?case
    proof (cases "key_queue u")
      case Nil
      have "keys_ok sched u"
        using Cons.prems(1) u Nil by (simp add: keys_ok_def)
      moreover have "decode shift (codes_left sched u) = Some (c, rest)"
        using Cons.prems(2) u(2) Nil by simp
      ultimately obtain sched' s' where "in_char_loop True shift sched u = Some (c, sched', s')" "keys_ok sched' s'"
          "codes_left sched' s' = rest" "rest_keys s' = rest_keys u"
        using Cons.IH by blast
      then show ?thesis
        using in_scancode_empty [OF u(1) Nil] u(3) by (auto simp: u_def [symmetric] empty_poll)
    next
      case (Cons x xs)
      define v where "v = snd (in_scancode u)"
      have scan: "in_scancode u = (x, v)" and v: "key_ok v" "key_queue v = xs" "rest_keys v = rest_keys s"
        using in_scancode_take [OF u(1) Cons] u(3) rest_keys_scancode [of u] unfolding v_def
        by (simp_all add: prod_eq_iff)
      have "length (key_queue s) + length a = Suc (length xs)"
        using arg_cong [OF u(2), of length] Cons by simp
      then have ok: "keys_ok sched v"
        using Cons.prems(1) v by (simp add: keys_ok_def)
      let ?sh = "shift_after x shift"
      have whole: "codes_left (a # sched) s = x # codes_left sched v"
        using u(2) v(2) Cons by simp
      obtain d where d: "char_of_code x ?sh = Some d"
        using Cons.prems(2) unfolding whole by (auto split: option.splits)
      show ?thesis
      proof (cases "d = 0")
        case True
        have "decode ?sh (codes_left sched v) = Some (c, rest)"
          using Cons.prems(2) True d unfolding whole by simp
        from Cons.IH [OF ok this] show ?thesis
          using scan d True v(3) by (auto simp: u_def [symmetric])
      next
        case False
        then have "c = d" "rest = codes_left sched v"
          using Cons.prems(2) d unfolding whole by auto
        then show ?thesis
          using scan d False ok v(3) by (auto simp: u_def [symmetric])
      qed
    qed
  qed
  then show thesis using that by blast
qed

lemma in_char_decode:
  assumes "keys_ok sched s" "decode False (codes_left sched s) = Some (c, rest)"
  obtains sched' s' where "in_char True sched s = Some (c, sched', s')" "keys_ok sched' s'"
    "codes_left sched' s' = rest" "rest_keys s' = rest_keys s"
  using in_char_loop_decode [OF assms] unfolding in_char_def by blast

lemma keys_ok_small:
  assumes "key_ok s" "length (codes_left sched s) \<le> 15"
  shows "keys_ok (sched @ replicate 15 []) s" "codes_left (sched @ replicate 15 []) s = codes_left sched s"
proof -
  show "keys_ok (sched @ replicate 15 []) s"
    using assms paced_small [of "length (key_queue s)" sched 15] by (simp add: keys_ok_def)
  have "concat (replicate n []) = []" for n
    by (induction n) simp_all
  then show "codes_left (sched @ replicate 15 []) s = codes_left sched s" by simp
qed

section \<open>Properties of the keyboard\<close>

lemma zero_keys: "key_ok zero_kernel" "key_queue zero_kernel = []"
  by (simp_all add: key_ok_def key_queue_def ring_cells_def zero_kernel_def)

text \<open>
  C14: in any interleaving of interrupts and reads that never leaves more than 15 codes unread, the
  reads of \<open>in_scancode\<close> answer the codes that the handler stored, in order, each once, and 0 when
  there is none.
\<close>

theorem key_ring_is_fifo:
  assumes "key_ok s" and "within 15 es (length (key_queue s))"
  shows "fst (ring_run press in_scancode es s) = fst (queue_run 0 es (key_queue s))
    \<and> key_queue (snd (ring_run press in_scancode es s)) = snd (queue_run 0 es (key_queue s))
    \<and> key_ok (snd (ring_run press in_scancode es s))"
  using assms by (rule keys.run_queue)

theorem key_ring_is_fifo_witness:
  "fst (ring_run press in_scancode [Put 30, Put 48, Take, Put 46, Take, Take, Take] zero_kernel) = [30, 48, 46, 0]"
proof -
  have "within 15 [Put 30, Put 48, Take, Put 46, Take, Take, Take :: u8 ring_event] (length (key_queue zero_kernel))"
    by (simp add: zero_keys)
  from key_ring_is_fifo [OF zero_keys(1) this] show ?thesis
    by (simp add: zero_keys)
qed

text \<open>
  A code that arrives when 15 codes are unread and the next free cell is the one before the
  head makes the counters meet: the ring looks empty, and all 16 codes are lost.
\<close>

theorem keyboard_overrun_loses_all:
  assumes "key_ok s" and "length (key_queue s) = 15" and "kbd_head s \<noteq> 0"
  shows "key_queue (press c s) = [] \<and> fst (in_scancode (press c s)) = 0"
proof -
  define t where "t = (if kbd_tail s = 16 then 0 else kbd_tail s)"
  note p = key_press(1-3) [OF assms(1), of c, folded t_def] key_press(4) [OF assms(1), folded t_def]
  have ok: "length (key_buffer (kbd s)) = 16" "kbd_head s \<le> 16" "kbd_tail s \<le> 16" "kbd_tail s = 0 \<longrightarrow> kbd_head s = 0"
    using assms(1) by (simp_all add: key_ok_def)
  have "kbd_head s = Suc t"
    using assms(2,3) ok(2-4) by (auto simp: key_queue_def ring_cells_def t_def split: if_splits)
  then have q: "key_queue (press c s) = []"
    using p by (simp add: key_queue_def ring_cells_def)
  moreover have "key_ok (press c s)"
    using p ok \<open>kbd_head s = Suc t\<close> by (simp add: key_ok_def)
  ultimately show ?thesis
    using in_scancode_empty by simp
qed

theorem keyboard_overrun_loses_all_witness:
  "key_queue (press 30 (fold press (replicate 15 30) (snd (in_scancode (press 30 zero_kernel))))) = []"
proof -
  let ?s = "snd (in_scancode (press 30 zero_kernel))" and ?t = "fold press (replicate 15 30) (snd (in_scancode (press 30 zero_kernel)))"
  have p: "key_ok (press 30 zero_kernel)" "key_queue (press 30 zero_kernel) = [30]"
    using press_queue [OF zero_keys(1), of 30] zero_keys(2) by simp_all
  note s = in_scancode_take [OF p]
  have t: "key_ok ?t" "key_queue ?t = replicate 15 30"
    using keys.enq_all [OF s(2), of "replicate 15 30"] s(3) by simp_all
  have h: "kbd_head (press c u) = kbd_head u" for c u
    by (simp add: kbd_press Let_def)
  have f: "kbd_head (fold press cs u) = kbd_head u" for cs u
    by (induction cs arbitrary: u) (simp_all add: h)
  have "kbd_head ?t = kbd_head ?s"
    by (rule f)
  moreover have "kbd_head ?s = 1"
    using p by (simp add: press_def keyboard_int_handler_def in_scancode_def inportb_def outportb_def zero_kernel_def Let_def)
  ultimately have "kbd_head ?t \<noteq> 0"
    by (metis zero_neq_one)
  with t keyboard_overrun_loses_all [OF t(1), of 30] show ?thesis
    by simp
qed

text \<open>
  C30: a waiting \<open>in_char\<close> returns as soon as a character is in the stream of codes, on every schedule that
  never leaves more than 15 codes unread: it answers the first character of the stream and leaves the
  rest of it in the ring and in the schedule.
\<close>

theorem in_char_decodes_stream:
  assumes "key_ok s" and "paced (length (key_queue s)) sched" and "unread (length (key_queue s)) sched = 0"
    and "decode False (codes_left sched s) = Some (c, rest)"
  shows "\<exists>sched' s'. in_char True sched s = Some (c, sched', s')
    \<and> key_ok s' \<and> codes_left sched' s' = rest"
proof -
  have "keys_ok sched s"
    using assms(1-3) by (simp add: keys_ok_def)
  from in_char_decode [OF this assms(4)] obtain sched' s' where
    "in_char True sched s = Some (c, sched', s')" "keys_ok sched' s'" "codes_left sched' s' = rest" .
  then show ?thesis
    by (auto simp: keys_ok_def)
qed

theorem in_char_decodes_stream_witness:
  "\<exists>sched' s'. in_char True [[], [0x2A], [], [30, 48], [], []] zero_kernel = Some (65, sched', s')"
proof -
  have "decode False (codes_left [[], [0x2A], [], [30, 48], [], []] zero_kernel) = Some (65, [48])"
    by (simp add: zero_keys char_of_code_def shift_after_def scancodes_def scancodes_shifted_def)
  from in_char_decodes_stream [OF zero_keys(1) _ _ this] show ?thesis
    by (auto simp: zero_keys)
qed

text \<open>
  Shift held down acts on one character only. \<open>shift\<close> is a local of \<open>in_char\<close>: of two keys
  pressed while it is held, the second gives its unshifted character.
\<close>

theorem shift_lost_after_character:
  assumes "key_ok s" and "key_queue s = [0x2A, x, y]" and "x < 0x2A" and "y < 0x2A"
    and "scancodes_shifted ! unat x \<noteq> 0" and "scancodes ! unat y \<noteq> 0"
  shows "\<exists>sched s' sched' s''. in_char True (replicate 15 []) s = Some (scancodes_shifted ! unat x, sched, s')
    \<and> in_char True sched s' = Some (scancodes ! unat y, sched', s'')"
proof -
  have small: "z AND 0x80 = 0 \<and> shift_after z sh = sh \<and> unat z < 109" if "z < 0x2A" for z :: u8 and sh
  proof -
    have lt: "unat z < 42"
      using that by (simp add: word_less_nat_alt)
    then have "z < 0x80" "z < 0x36"
      by (simp_all add: word_less_nat_alt)
    have "bit z 7 = False"
      using lt by (simp add: bit_iff_odd_drop_bit drop_bit_eq_div word_arith_nat_div)
    moreover have "(0x80 :: u8) = push_bit 7 1"
      by simp
    ultimately have "z AND 0x80 = 0"
      by (metis and_exp_eq_0_iff_not_bit push_bit_of_1)
    then show ?thesis
      using that lt \<open>z < 0x36\<close> by (auto simp: shift_after_def)
  qed
  have code: "char_of_code x sh = Some ((if sh then scancodes_shifted else scancodes) ! unat x)" if "x < 0x2A" for x sh
    using small [OF that] by (simp add: char_of_code_def)
  have sh: "char_of_code 0x2A True = Some 0" "shift_after 0x2A False"
    by (simp_all add: char_of_code_def shift_after_def scancodes_shifted_def)
  have "length (codes_left [] s) \<le> 15"
    using assms(2) by simp
  note start = keys_ok_small [OF assms(1) this, unfolded append_Nil]
  have first: "decode False (codes_left (replicate 15 []) s) = Some (scancodes_shifted ! unat x, [y])"
    unfolding start(2) using assms small [of x] code [of x True] sh by simp
  obtain sched s' where 1: "in_char True (replicate 15 []) s = Some (scancodes_shifted ! unat x, sched, s')"
      "keys_ok sched s'" "codes_left sched s' = [y]"
    by (rule in_char_decode [OF start(1) first])
  have second: "decode False (codes_left sched s') = Some (scancodes ! unat y, [])"
    unfolding 1(3) using assms small [of y] code [of y False] by simp
  obtain sched' s'' where "in_char True sched s' = Some (scancodes ! unat y, sched', s'')"
    by (rule in_char_decode [OF 1(2) second])
  then show ?thesis
    using 1(1) by blast
qed

theorem shift_lost_after_character_witness:
  "\<exists>s1 sched sched' s2. in_char True (replicate 15 []) (fold press [0x2A, 30, 31] zero_kernel) = Some (65, sched, s1)
    \<and> in_char True sched s1 = Some (115, sched', s2)"
proof -
  let ?s = "fold press [0x2A, 30, 31] zero_kernel"
  have "key_ok ?s" "key_queue ?s = [0x2A, 30, 31]"
    using keys.enq_all [OF zero_keys(1), of "[0x2A, 30, 31]"] zero_keys(2) by simp_all
  moreover have "scancodes_shifted ! unat (30 :: u8) = 65" "scancodes ! unat (31 :: u8) = 115"
    by (simp_all add: scancodes_def scancodes_shifted_def)
  ultimately show ?thesis
    using shift_lost_after_character [of ?s 30 31] by auto
qed

end
