(* ===== verification/Shell.thy ===== *)
theory Shell
  imports Keyboard
begin

text \<open>
  The shell of \<open>shell.c\<close>: the parsing of a line and of a hexadecimal argument, the commands and the
  main loop. A format string of \<open>printf\<close> is the list of its characters. The locals of \<open>shell\<close> that
  live from one round to the next are the record \<open>shell_vars\<close>. Loops over the characters of a string
  in memory are partial functions. Byte reads go through \<open>virtual_byte\<close>: an address in the window
  shows the frame that the window is set to.
\<close>

section \<open>Output\<close>

definition lit :: "string \<Rightarrow> u8 list" where "lit = map of_char"

fun print_lit :: "u8 list \<Rightarrow> (nat \<Rightarrow> u32) \<Rightarrow> nat \<Rightarrow> kernel \<Rightarrow> kernel option" where
  "print_lit [] args n s = Some s"
| "print_lit [c] args n s = out_char c s"
| "print_lit (c # d # fs) args n s =
     (if c = 37 then do { s \<leftarrow> print_conversion d (args n) s; print_lit fs args (Suc n) s }
      else do { s \<leftarrow> out_char c s; print_lit (d # fs) args n s })"

definition print_format :: "string \<Rightarrow> u32 list \<Rightarrow> kernel \<Rightarrow> kernel option" where
  "print_format fmt args s = print_lit (lit fmt) (nth args) 0 s"

abbreviation newline :: string where "newline \<equiv> [CHR 0x0A]"

section \<open>A hexadecimal argument\<close>

partial_function (option) arg_end :: "mem \<Rightarrow> u32 \<Rightarrow> u32 \<Rightarrow> u32 option" where
  "arg_end m arg j =
     (if load8 m (arg + j) \<noteq> 0 \<and> load8 m (arg + j) \<noteq> 104 then arg_end m arg (j + 1) else Some j)"

text \<open>The \<open>switch\<close> on a digit; the default case is the character as an \<open>int\<close>, minus 48.\<close>

definition hex_digit :: "u8 \<Rightarrow> u32" where
  "hex_digit c =
     (if c = 65 \<or> c = 97 then 10 else if c = 66 \<or> c = 98 then 11 else if c = 67 \<or> c = 99 then 12
      else if c = 68 \<or> c = 100 then 13 else if c = 69 \<or> c = 101 then 14 else if c = 70 \<or> c = 102 then 15
      else scast c - 48)"

text \<open>The processor shifts by the count modulo 32.\<close>

definition shl :: "u32 \<Rightarrow> u32 \<Rightarrow> u32" where "shl v k = push_bit (unat k mod 32) v"

partial_function (option) hex_loop :: "mem \<Rightarrow> u32 \<Rightarrow> u32 \<Rightarrow> u32 \<Rightarrow> u32 \<Rightarrow> u32 \<Rightarrow> u32 option" where
  "hex_loop m arg limit j k address =
     (let address = address + shl (hex_digit (load8 m (arg + j))) k
      in if j = limit then Some address else hex_loop m arg limit (j - 1) (k + 4) address)"

definition parse_address :: "mem \<Rightarrow> u32 \<Rightarrow> u32 \<Rightarrow> u32 option" where
  "parse_address m arg address =
     do {
       j \<leftarrow> arg_end m arg 0;
       let j = j - 1;
       let limit = (if load8 m (arg + 1) = 120 then 2 else 0);
       hex_loop m arg limit j 0 address
     }"

text \<open>The loop \<open>for (i = 0; i < argc; i++)\<close> of both commands, over the \<open>n\<close> arguments from \<open>i\<close> on.\<close>

fun parse_arguments :: "mem \<Rightarrow> u32 \<Rightarrow> nat \<Rightarrow> u32 \<Rightarrow> u32 \<Rightarrow> u32 option" where
  "parse_arguments m argv 0 i address = Some address"
| "parse_arguments m argv (Suc n) i address =
     do { address \<leftarrow> parse_address m (load32 m (argv + 4 * i)) address; parse_arguments m argv n (i + 1) address }"

section \<open>The dumps\<close>

definition virtual_byte :: "u32 \<Rightarrow> kernel \<Rightarrow> u8" where
  "virtual_byte va s =
     (if va AND NOT PAGE_OFFSET_MASK = TEMP_PAGE
      then ucast (drop_bit (8 * unat (va AND 3)) (temp_read (va AND 0xFFC) s))
      else load8 (mem s) va)"

text \<open>\<open>for (j = j0; j < j0 + n; j++)\<close> over the columns of a line, with the body \<open>f\<close>\<close>

fun columns :: "nat \<Rightarrow> u32 \<Rightarrow> (u32 \<Rightarrow> kernel \<Rightarrow> kernel option) \<Rightarrow> kernel \<Rightarrow> kernel option" where
  "columns 0 j f s = Some s"
| "columns (Suc n) j f s = do { s \<leftarrow> f j s; columns n (j + 1) f s }"

definition dump_hex :: "u32 \<Rightarrow> u32 \<Rightarrow> kernel \<Rightarrow> kernel option" where
  "dump_hex base j s =
     (let output = virtual_byte (base + j) s
      in do {
        s \<leftarrow> (if output < 0x10 then print_format ''0'' [] s else Some s);
        print_format ''%x '' [ucast output AND 0xFF] s
      })"

definition dump_char :: "u32 \<Rightarrow> u32 \<Rightarrow> kernel \<Rightarrow> kernel option" where
  "dump_char base j s =
     (let output = virtual_byte (base + j) s
      in if output < 32 then print_format ''.'' [] s else print_format ''%c'' [ucast output AND 0xFF] s)"

definition dump_line :: "u32 \<Rightarrow> u32 \<Rightarrow> u32 \<Rightarrow> kernel \<Rightarrow> kernel option" where
  "dump_line address base i s =
     do {
       let descriptor = seg_ds s;
       s \<leftarrow> print_format ''%x:%x  '' [ucast descriptor, address + i * 16] s;
       s \<leftarrow> columns 16 (i * 16) (dump_hex base) s;
       s \<leftarrow> print_format '' '' [] s;
       s \<leftarrow> columns 16 (i * 16) (dump_char base) s;
       print_format newline [] s
     }"

definition wrong_argc :: "string \<Rightarrow> u32 \<Rightarrow> kernel \<Rightarrow> kernel option" where
  "wrong_argc name argc s =
     do {
       s \<leftarrow> print_format (name @ '' takes one value'' @ newline) [] s;
       print_format (''you passed %x value'' @ newline) [argc] s
     }"

definition physdump :: "u32 \<Rightarrow> u32 \<Rightarrow> kernel \<Rightarrow> kernel option" where
  "physdump argc argv s =
     (if argc \<noteq> 1 then wrong_argc ''physdump'' argc s
      else do {
        address \<leftarrow> parse_arguments (mem s) argv (unat argc) 0 0;
        let temp = temp_pte s;
        let s = temp_map_page address s;
        s \<leftarrow> columns 16 0 (dump_line address (TEMP_PAGE OR (address AND 0xFFF))) s;
        Some (temp_map_page temp s)
      })"

definition virtdump :: "u32 \<Rightarrow> u32 \<Rightarrow> kernel \<Rightarrow> kernel option" where
  "virtdump argc argv s =
     (if argc \<noteq> 1 then wrong_argc ''virtdump'' argc s
      else do {
        address \<leftarrow> parse_arguments (mem s) argv (unat argc) 0 0;
        columns 16 0 (dump_line address address) s
      })"

definition help_command :: "kernel \<Rightarrow> kernel option" where
  "help_command s =
     do {
       s \<leftarrow> print_format (''pd - physical dump'' @ newline) [] s;
       print_format (''vd - virtual dump'' @ newline) [] s
     }"

section \<open>Commands\<close>

abbreviation (input) NCOMMAND :: nat where "NCOMMAND \<equiv> 0x5"
abbreviation (input) COMMAND_SIZE :: nat where "COMMAND_SIZE \<equiv> 0x20"

text \<open>What the initialiser of \<open>commands\<close> puts into its \<open>NCOMMAND\<close> slots of \<open>COMMAND_SIZE\<close> bytes.\<close>

definition commands :: "u8 list list" where
  "commands = [lit ''help'', lit ''pd'', lit ''vd'', [], []]"

text \<open>The search in the table \<open>commands\<close>, over the \<open>n\<close> entries from \<open>i\<close> on; the answer is the index.\<close>

fun find_command :: "mem \<Rightarrow> u32 \<Rightarrow> u32 \<Rightarrow> nat \<Rightarrow> nat \<Rightarrow> nat option" where
  "find_command m tbl command 0 i = Some i"
| "find_command m tbl command (Suc n) i =
     do {
       r \<leftarrow> strcmp m command (tbl + of_nat (COMMAND_SIZE * i));
       if r = 0 then Some i else find_command m tbl command n (Suc i)
     }"

definition do_command :: "u32 \<Rightarrow> u32 \<Rightarrow> u32 \<Rightarrow> kernel \<Rightarrow> kernel option" where
  "do_command command argc argv s =
     do {
       i \<leftarrow> find_command (mem s) (commands_addr (syms s)) command NCOMMAND 0;
       if i = 0 then help_command s
       else if i = 1 then physdump argc argv s
       else if i = 2 then virtdump argc argv s
       else print_format (''Invalid command'' @ newline) [] s
     }"

section \<open>Parsing a line\<close>

record shell_vars =
  v_command :: u32
  v_argc :: u32
  v_argv :: u32

partial_function (option) skip_spaces :: "mem \<Rightarrow> u32 \<Rightarrow> u32 \<Rightarrow> u32 option" where
  "skip_spaces m input i = (if load8 m (input + i) = 32 then skip_spaces m input (i + 1) else Some i)"

text \<open>The loops that stop at a space or at the end.\<close>

partial_function (option) skip_token :: "mem \<Rightarrow> u32 \<Rightarrow> u32 \<Rightarrow> u32 option" where
  "skip_token m input i =
     (if load8 m (input + i) \<noteq> 32 \<and> load8 m (input + i) \<noteq> 0 then skip_token m input (i + 1) else Some i)"

text \<open>The counting loop: \<open>token_count\<close> and \<open>total_argv_size\<close> from index \<open>i\<close> on.\<close>

partial_function (option) count_tokens :: "mem \<Rightarrow> u32 \<Rightarrow> u32 \<Rightarrow> u32 \<Rightarrow> u32 \<Rightarrow> (u32 \<times> u32) option" where
  "count_tokens m input i token_count total_argv_size =
     (if load8 m (input + i) \<noteq> 0 then
        do {
          i \<leftarrow> skip_spaces m input i;
          if load8 m (input + i) = 0 then Some (token_count, total_argv_size)
          else do {
            i' \<leftarrow> skip_token m input i;
            count_tokens m input i' (token_count + 1) (total_argv_size + (i' - i))
          }
        }
      else Some (token_count, total_argv_size))"

text \<open>The loop that copies the arguments, over the \<open>n\<close> arguments from \<open>c\<close> on.\<close>

fun copy_tokens :: "nat \<Rightarrow> u32 \<Rightarrow> u32 \<Rightarrow> u32 \<Rightarrow> u32 \<Rightarrow> u32 \<Rightarrow> mem \<Rightarrow> mem option" where
  "copy_tokens 0 input argv c i argv_offset m = Some m"
| "copy_tokens (Suc n) input argv c i argv_offset m =
     do {
       i \<leftarrow> skip_spaces m input i;
       if load8 m (input + i) = 0 then Some m
       else do {
         let j = i;
         i \<leftarrow> skip_token m input i;
         let m = store32 (argv + 4 * c) (argv + argv_offset) m;
         let argv_offset = argv_offset + (i - j + 1);
         let m = memcpy (load32 m (argv + 4 * c)) (input + j) (i - j) m;
         let m = store8 (load32 m (argv + 4 * c) + (i - j)) 0 m;
         copy_tokens n input argv (c + 1) i argv_offset m
       }
     }"

text \<open>
  The early return leaves \<open>argc\<close> and \<open>argv\<close> as they were and does not free the input. The inner
  \<open>i\<close> and \<open>j\<close> of the copying loop start at the length \<open>j\<close> of the command and at 0.
\<close>

definition pars_input :: "u32 \<Rightarrow> shell_vars \<Rightarrow> kernel \<Rightarrow> (shell_vars \<times> kernel) option" where
  "pars_input input v s =
     do {
       i0 \<leftarrow> skip_spaces (mem s) input 0;
       i \<leftarrow> skip_token (mem s) input i0;
       let j = i - i0;
       (command, s) \<leftarrow> kmalloc (j + 1) s;
       let v = v\<lparr>v_command := command\<rparr>;
       let s = s\<lparr>mem := memcpy command (input + i - j) j (mem s)\<rparr>;
       let s = s\<lparr>mem := store8 (command + j) 0 (mem s)\<rparr>;
       if load8 (mem s) (input + i) = 0 then Some (v, s)
       else do {
         (token_count, total_argv_size) \<leftarrow> count_tokens (mem s) input i 0 0;
         let v = v\<lparr>v_argc := token_count\<rparr>;
         (argv, s) \<leftarrow> kmalloc (v_argc v * 4 + total_argv_size + v_argc v) s;
         let v = v\<lparr>v_argv := argv\<rparr>;
         m \<leftarrow> copy_tokens (nat (sint (v_argc v))) input argv 0 j (v_argc v * 4) (mem s);
         Some (v, snd (kfree input (s\<lparr>mem := m\<rparr>)))
       }
     }"

text \<open>One round of \<open>while(true)\<close>, and \<open>n\<close> rounds after the start; \<open>argv\<close> is not initialised.\<close>

definition shell_round :: "shell_vars \<Rightarrow> schedule \<Rightarrow> kernel \<Rightarrow> (shell_vars \<times> schedule \<times> kernel) option" where
  "shell_round v sched s =
     do {
       s \<leftarrow> print_format ''$ '' [] s;
       (input, sched, s) \<leftarrow> in_string sched s;
       (v, s) \<leftarrow> pars_input input v s;
       s \<leftarrow> do_command (v_command v) (v_argc v) (v_argv v) s;
       let s = snd (kfree (v_command v) s);
       let s = snd (kfree (v_argv v) s);
       Some (v, sched, s)
     }"

fun shell_rounds :: "nat \<Rightarrow> shell_vars \<Rightarrow> schedule \<Rightarrow> kernel \<Rightarrow> (shell_vars \<times> schedule \<times> kernel) option" where
  "shell_rounds 0 v sched s = Some (v, sched, s)"
| "shell_rounds (Suc n) v sched s =
     do { (v, sched, s) \<leftarrow> shell_round v sched s; shell_rounds n v sched s }"

definition shell :: "nat \<Rightarrow> u32 \<Rightarrow> u32 \<Rightarrow> schedule \<Rightarrow> kernel \<Rightarrow> (shell_vars \<times> schedule \<times> kernel) option" where
  "shell n command0 argv0 sched s =
     shell_rounds n \<lparr>v_command = command0, v_argc = 0, v_argv = argv0\<rparr> sched (clear_screen s)"

section \<open>The value of a hexadecimal argument\<close>

definition is_hex :: "u8 \<Rightarrow> bool" where
  "is_hex c \<longleftrightarrow> 48 \<le> c \<and> c \<le> 57 \<or> 65 \<le> c \<and> c \<le> 70 \<or> 97 \<le> c \<and> c \<le> 102"

definition hex_value :: "u8 list \<Rightarrow> nat" where
  "hex_value ds = foldl (\<lambda>n c. n * 16 + unat (hex_digit c)) 0 ds"

lemma hex_value_snoc [simp]: "hex_value [] = 0" "hex_value [c] = unat (hex_digit c)" "hex_value (ds @ [c]) = hex_value ds * 16 + unat (hex_digit c)"
  by (simp_all add: hex_value_def)

text \<open>The end of the digits: the terminator, or an \<open>h\<close>.\<close>

lemma arg_end_stops:
  assumes "\<forall>i < n. m (arg + j + of_nat i) \<noteq> 0 \<and> m (arg + j + of_nat i) \<noteq> 104"
    and "m (arg + j + of_nat n) = 0 \<or> m (arg + j + of_nat n) = 104"
  shows "arg_end m arg j = Some (j + of_nat n)"
  using assms
proof (induction n arbitrary: j)
  case 0
  then show ?case by (subst arg_end.simps) (auto simp: load8_def)
next
  case (Suc n)
  have "arg_end m arg (j + 1) = Some (j + 1 + of_nat n)"
    using Suc.prems(2) by (intro Suc.IH) (use Suc.prems(1) in \<open>auto simp: add_ac All_less_Suc2\<close>)
  moreover have "m (arg + j) \<noteq> 0 \<and> m (arg + j) \<noteq> 104"
    using Suc.prems(1) by (auto simp: All_less_Suc2)
  ultimately show ?case
    by (subst arg_end.simps) (simp add: load8_def add_ac)
qed

lemma shl_digit:
  assumes "q < 8"
  shows "shl v (of_nat (4 * q)) = v * of_nat (16 ^ q)"
proof -
  have "unat (of_nat (4 * q) :: u32) = 4 * q"
    using assms by (intro unat_of_nat_small) simp
  then have "shl v (of_nat (4 * q)) = push_bit (4 * q) v"
    using assms by (simp add: shl_def)
  then show ?thesis
    by (simp add: push_bit_eq_mult power_mult)
qed

lemma hex_loop_value:
  assumes "\<forall>i < length ds. m (arg + limit + of_nat i) = ds ! i" "ds \<noteq> []" "length ds + q \<le> 8"
  shows "hex_loop m arg limit (limit + of_nat (length ds - 1)) (of_nat (4 * q)) a
    = Some (a + of_nat (16 ^ q * hex_value ds))"
  using assms
proof (induction ds arbitrary: q a rule: rev_induct)
  case (snoc c ds)
  have c: "m (arg + (limit + of_nat (length ds))) = c"
    using snoc.prems(1) by (simp add: nth_append add.assoc)
  have sh: "shl (hex_digit c) (of_nat (4 * q)) = of_nat (16 ^ q * unat (hex_digit c))"
    using snoc.prems(3) by (simp add: shl_digit del: of_nat_mult) (simp add: mult.commute)
  show ?case
  proof (cases "ds = []")
    case True
    then show ?thesis
      using c sh by (subst hex_loop.simps) (simp add: load8_def del: of_nat_mult)
  next
    case False
    have ne: "limit + of_nat (length ds) \<noteq> limit"
    proof
      assume "limit + of_nat (length ds) = limit"
      then have "unat (of_nat (length ds) :: u32) = 0" by simp
      moreover have "unat (of_nat (length ds) :: u32) = length ds"
        using snoc.prems(3) by (intro unat_of_nat_small) simp
      ultimately show False
        using False by simp
    qed
    have step: "limit + of_nat (length ds) - 1 = limit + (of_nat (length ds - 1) :: u32)"
      using False by (cases ds) (simp_all add: add_ac)
    have k: "of_nat (4 * q) + 4 = (of_nat (4 * Suc q) :: u32)"
      by simp
    have "hex_loop m arg limit (limit + of_nat (length ds - 1)) (of_nat (4 * Suc q)) (a + of_nat (16 ^ q * unat (hex_digit c)))
        = Some (a + of_nat (16 ^ q * unat (hex_digit c)) + of_nat (16 ^ Suc q * hex_value ds))"
      using snoc.prems False by (intro snoc.IH) (auto simp: nth_append)
    moreover have "hex_loop m arg limit (limit + of_nat (length ds)) (of_nat (4 * q)) a
        = hex_loop m arg limit (limit + of_nat (length ds - 1)) (of_nat (4 * Suc q)) (a + of_nat (16 ^ q * unat (hex_digit c)))"
      by (subst hex_loop.simps, unfold Let_def load8_def c sh step k) (simp only: ne if_False)
    ultimately show ?thesis
      by (simp add: algebra_simps)
  qed
qed simp

lemma is_hex_not: "is_hex c \<Longrightarrow> c \<noteq> 0 \<and> c \<noteq> 104 \<and> c \<noteq> 120"
  by (auto simp: is_hex_def)

lemma cstr_nth:
  assumes "cstr m p (xs @ ys)"
  shows "\<forall>i < length xs. m (p + of_nat i) = xs ! i" "ys = [] \<Longrightarrow> m (p + of_nat (length xs)) = 0"
    "ys = y # zs \<Longrightarrow> m (p + of_nat (length xs)) = y"
  using assms by (auto simp: cstr_def nth_append split: if_splits)

lemma parse_address_digits:
  assumes str: "cstr m arg (pre @ ds @ post)" and pre: "pre = [] \<or> pre = [48, 120]"
    and post: "post = [] \<or> hd post = 104" and ds: "ds \<noteq> []" "length ds \<le> 8" "\<forall>c \<in> set ds. is_hex c"
  shows "parse_address m arg a = Some (a + of_nat (hex_value ds))"
proof -
  let ?cs = "pre @ ds"
  have str': "cstr m arg (?cs @ post)" using str by simp
  have ok: "\<forall>c \<in> set ?cs. c \<noteq> 0 \<and> c \<noteq> 104"
    using pre ds(3) is_hex_not by auto
  have chr: "m (arg + of_nat i) = ?cs ! i" if "i < length ?cs" for i
    using cstr_nth(1) [OF str'] that by blast
  have "m (arg + of_nat (length ?cs)) = 0 \<or> m (arg + of_nat (length ?cs)) = 104"
    using cstr_nth(2,3) [OF str'] post by (cases post) auto
  moreover have "\<forall>i < length ?cs. m (arg + 0 + of_nat i) \<noteq> 0 \<and> m (arg + 0 + of_nat i) \<noteq> 104"
    using ok chr nth_mem [of _ ?cs] by (metis add_0_right)
  ultimately have e: "arg_end m arg 0 = Some (of_nat (length ?cs))"
    using arg_end_stops [of "length ?cs" m arg 0] by simp
  define limit :: u32 where "limit = of_nat (length pre)"
  have x: "m (arg + 1) = 120 \<longleftrightarrow> pre \<noteq> []"
  proof (cases "pre = []")
    case False
    with pre have "pre = [48, 120]" by blast
    with chr [of 1] show ?thesis by simp
  next
    case True
    show ?thesis
    proof (cases "length ds = 1")
      case one: True
      with True cstr_nth(2,3) [OF str'] post show ?thesis by (cases post) auto
    next
      case False
      with ds(1) have "1 < length ds"
        by (metis One_nat_def length_0_conv linorder_neqE_nat less_one)
      with True chr [of 1] ds(3) is_hex_not nth_mem [of 1 ds] show ?thesis by auto
    qed
  qed
  have lim: "(if load8 m (arg + 1) = 120 then 2 else 0) = limit"
    using pre x by (auto simp: load8_def limit_def)
  have j: "of_nat (length ?cs) - 1 = limit + of_nat (length ds - 1)"
    using ds(1) by (cases ds) (simp_all add: limit_def)
  have "\<forall>i < length ds. m (arg + limit + of_nat i) = ds ! i"
    using chr by (auto simp: limit_def nth_append add.assoc simp flip: of_nat_add)
  from hex_loop_value [OF this ds(1), of 0 a] ds(2) show ?thesis
    by (simp add: parse_address_def e lim j del: length_append)
qed

text \<open>The digits that \<open>printf\<close> prints.\<close>

lemma digit_string_power:
  "n < 16 ^ Suc k \<Longrightarrow> length (digit_string 16 n) \<le> Suc k"
proof (induction k arbitrary: n)
  case 0
  then show ?case by (subst digit_string.simps) simp
next
  case (Suc k)
  have "n div 16 < 16 ^ Suc k"
    using Suc.prems by (simp add: less_mult_imp_div_less)
  from Suc.IH [OF this] show ?case
    by (subst digit_string.simps) simp
qed

lemma digits_hex: "k < 16 \<Longrightarrow> is_hex (digits ! k) \<and> unat (hex_digit (digits ! k)) = k"
proof -
  have "\<forall>k \<in> set [0..<16]. is_hex (digits ! k) \<and> unat (hex_digit (digits ! k)) = k"
    by (simp add: upt_rec is_hex_def hex_digit_def digits_def)
  then show "k < 16 \<Longrightarrow> is_hex (digits ! k) \<and> unat (hex_digit (digits ! k)) = k" by simp
qed

lemma digit_string_hex:
  "(\<forall>c \<in> set (digit_string 16 n). is_hex c) \<and> hex_value (digit_string 16 n) = n \<and> digit_string 16 n \<noteq> []"
proof (induction n rule: less_induct)
  case (less n)
  have d: "is_hex (digits ! (n mod 16))" "unat (hex_digit (digits ! (n mod 16))) = n mod 16"
    using digits_hex [of "n mod 16"] by simp_all
  show ?case
  proof (cases "n < 16")
    case True
    with d have "digit_string 16 n = [digits ! (n mod 16)]"
      by (subst digit_string.simps) simp
    with d True show ?thesis by simp
  next
    case False
    with d have "digit_string 16 n = digit_string 16 (n div 16) @ [digits ! (n mod 16)]"
      by (subst digit_string.simps) simp
    with d False less.IH [of "n div 16"] show ?thesis by simp
  qed
qed

lemma parse_address_printed:
  assumes "pre = [] \<or> pre = [48, 120]" and "cstr m arg (pre @ digit_string 16 (unat v))"
  shows "parse_address m arg 0 = Some v"
proof -
  have "unat v < 16 ^ Suc 7"
    using unat_less_32 [of v] by simp
  then have "length (digit_string 16 (unat v)) \<le> 8"
    using digit_string_power [of "unat v" 7] by simp
  then show ?thesis
    using parse_address_digits [of m arg pre "digit_string 16 (unat v)" "[]" 0] assms digit_string_hex [of "unat v"] by simp
qed

section \<open>Properties of the parser of numbers\<close>

text \<open>
  A hexadecimal argument of up to eight digits is read as its value, in either case of the
  letters, with or without \<open>0x\<close> before it and with or without an \<open>h\<close> that ends it.
\<close>

theorem parse_address_value:
  assumes "cstr m arg (pre @ ds @ post)" and "pre = [] \<or> pre = [48, 120]" and "post = [] \<or> hd post = 104"
    and "ds \<noteq> []" and "length ds \<le> 8" and "\<forall>c \<in> set ds. is_hex c"
  shows "parse_address m arg 0 = Some (of_nat (hex_value ds))"
  using parse_address_digits [OF assms, of 0] by simp

theorem parse_address_value_witness:
  "parse_address ((\<lambda>_. 0)(100 := 48, 101 := 120, 102 := 98, 103 := 56, 104 := 104)) 100 0 = Some 0xB8"
proof -
  have "cstr ((\<lambda>_. 0)(100 := 48, 101 := 120, 102 := 98, 103 := 56, 104 := 104)) 100 ([48, 120] @ [98, 56] @ [104])"
    by (simp add: cstr_Cons cstr_Nil)
  from parse_address_value [OF this] show ?thesis
    by (simp add: is_hex_def hex_value_def hex_digit_def)
qed

text \<open>
  C31: what \<open>printf\<close> prints for \<open>%x\<close> the shell reads back as the same number, with or without \<open>0x\<close>
  before it.
\<close>

theorem parse_address_reads_printed:
  assumes "pre = [] \<or> pre = [48, 120]" and "cstr m arg (pre @ digit_string 16 (unat v))"
  shows "parse_address m arg 0 = Some v"
  using assms by (rule parse_address_printed)

theorem parse_address_reads_printed_witness:
  "parse_address ((\<lambda>_. 0)(100 := 48, 101 := 120, 102 := 49, 103 := 65)) 100 0 = Some 0x1A"
proof -
  have "digit_string 16 26 = [49, 65]"
    by (simp add: digit_string.simps digits_def)
  then have "cstr ((\<lambda>_. 0)(100 := 48, 101 := 120, 102 := 49, 103 := 65)) 100 ([48, 120] @ digit_string 16 (unat (0x1A :: u32)))"
    by (simp add: cstr_Cons cstr_Nil)
  from parse_address_reads_printed [OF _ this] show ?thesis by simp
qed

end
