(* ===== verification/Frame.thy ===== *)
theory Frame
  imports Keyboard
begin

text \<open>
  What the operations on the heap, the screen and the keyboard leave alone, for the code that composes
  them: \<open>same_setup\<close> for registers and the places of things, \<open>heap_only\<close> for operations that touch nothing
  but the heap and its table.
\<close>

text \<open>Registers, physical memory, the place of the heap and of the screen.\<close>

definition same_setup :: "kernel \<Rightarrow> kernel \<Rightarrow> bool" where
  "same_setup s s' \<longleftrightarrow> syms s' = syms s \<and> seg_ds s' = seg_ds s \<and> phys s' = phys s \<and> temp_pte s' = temp_pte s
     \<and> (tty_state s')\<lparr>cursor := 0\<rparr> = (tty_state s)\<lparr>cursor := 0\<rparr> \<and> heap_bytes s' = heap_bytes s \<and> heap_ptr s' = heap_ptr s"

lemma same_setup_refl [simp]: "same_setup s s"
  by (simp add: same_setup_def)

lemma same_setup_trans: "same_setup s t \<Longrightarrow> same_setup t u \<Longrightarrow> same_setup s u"
  by (simp add: same_setup_def)

lemma same_setup_mem [simp]: "same_setup s (s\<lparr>mem := m\<rparr>)"
  by (simp add: same_setup_def heap_ptr_def heap_end_def)

lemma same_setup_screen:
  assumes "same_setup s s'"
  shows "screen_bytes s' = screen_bytes s"
proof -
  have "(tty_state s')\<lparr>cursor := 0\<rparr> = (tty_state s)\<lparr>cursor := 0\<rparr>"
    using assms by (simp add: same_setup_def)
  then show ?thesis
    unfolding screen_bytes_def by (cases "tty_state s"; cases "tty_state s'") simp
qed

lemma same_setup_step:
  assumes "heap_step k s s'"
  shows "same_setup s s'"
proof -
  note st = heap_step_fields [OF assms]
  have "seg_ds s' = seg_ds s" "temp_pte s' = temp_pte s"
    using assms by (auto simp: heap_step_def set_cur_dynamic_def set_address_space_def split: space.split)
  then show ?thesis
    by (simp add: same_setup_def st)
qed

lemma rest_keys_same:
  assumes "rest_keys s' = rest_keys s"
  shows "same_setup s s'" "mem s' = mem s" "heap_state s' = heap_state s" "tty_state s' = tty_state s"
proof -
  have f: "f (rest_keys s') = f (rest_keys s)" for f using assms by simp
  show "mem s' = mem s" and tty: "tty_state s' = tty_state s"
    using f [of mem] f [of tty_state] by (simp_all add: rest_keys_def)
  show h: "heap_state s' = heap_state s"
    using f [of heap_state] by (simp add: rest_keys_def address_space_def split: space.splits)
  show "same_setup s s'"
    using h tty f [of syms] f [of seg_ds] f [of phys] f [of temp_pte]
    by (simp add: same_setup_def heap_ptr_def heap_end_def) (simp add: rest_keys_def)
qed

lemma rest_of_same:
  assumes "rest_of s' = rest_of s"
  shows "same_setup s s'" "heap_state s' = heap_state s" "kbd s' = kbd s"
proof -
  have f: "f (rest_of s') = f (rest_of s)" for f using assms by simp
  show "kbd s' = kbd s" using f [of kbd] by (simp add: rest_of_def)
  show h: "heap_state s' = heap_state s"
    using f [of heap_state] by (simp add: rest_of_def address_space_def split: space.splits)
  show "same_setup s s'"
    using h f [of syms] f [of seg_ds] f [of phys] f [of temp_pte] f [of tty_state]
    by (simp add: same_setup_def heap_ptr_def heap_end_def) (simp add: rest_of_def)
qed

section \<open>Operations on the heap alone\<close>

text \<open>Memory changes in the heap and in \<open>T\<close>, the bytes of its table, only.\<close>

definition heap_only :: "u32 set \<Rightarrow> kernel \<Rightarrow> kernel \<Rightarrow> bool" where
  "heap_only T s s' \<longleftrightarrow> same_setup s s' \<and> tty_state s' = tty_state s \<and> kbd s' = kbd s
     \<and> (\<forall>x. x \<notin> heap_bytes s \<longrightarrow> x \<notin> T \<longrightarrow> mem s' x = mem s x)"

lemma heap_onlyD:
  assumes "heap_only T s s'"
  shows "same_setup s s'" "tty_state s' = tty_state s" "kbd s' = kbd s" "heap_bytes s' = heap_bytes s" "heap_ptr s' = heap_ptr s"
    "\<forall>x. x \<notin> heap_bytes s \<longrightarrow> x \<notin> T \<longrightarrow> mem s' x = mem s x"
proof -
  from assms show "same_setup s s'" "tty_state s' = tty_state s" "kbd s' = kbd s"
    "\<forall>x. x \<notin> heap_bytes s \<longrightarrow> x \<notin> T \<longrightarrow> mem s' x = mem s x"
    unfolding heap_only_def by blast+
  then show "heap_bytes s' = heap_bytes s" "heap_ptr s' = heap_ptr s"
    unfolding same_setup_def by blast+
qed

lemma heap_only_trans:
  assumes "heap_only T s t" "heap_only T t u"
  shows "heap_only T s u"
proof -
  note st = heap_onlyD [OF assms(1)] and tu = heap_onlyD [OF assms(2)]
  have "mem u x = mem s x" if "x \<notin> heap_bytes s" "x \<notin> T" for x
    using st(6) tu(6) [unfolded st(4)] that by simp
  then show ?thesis
    using same_setup_trans [OF st(1) tu(1)] st(2,3) tu(2,3) unfolding heap_only_def by simp
qed

lemma heap_only_step:
  assumes "heap_step i s s'" "bytes_at (heap_ptr s) (8 * i) \<subseteq> T"
  shows "heap_only T s s'"
proof -
  note st = heap_step_fields(7,12,13) [OF assms(1)]
  have "mem s' x = mem s x" if "x \<notin> T" for x
    using st(1) assms(2) that by blast
  then show ?thesis
    using same_setup_step [OF assms(1)] st(2,3) by (simp add: heap_only_def)
qed

lemma heap_only_write:
  assumes "\<forall>x. x \<notin> heap_bytes s \<longrightarrow> m x = mem s x"
  shows "heap_only T s (s\<lparr>mem := m\<rparr>)"
  using assms by (simp add: heap_only_def)

lemma heap_only_screen:
  assumes "heap_only T s s'" "tty_ok s" "screen_bytes s \<inter> (heap_bytes s \<union> T) = {}"
  shows "screen_of s' = screen_of s" "tty_ok s'"
proof -
  have "\<forall>x \<in> screen_bytes s. mem s' x = mem s x"
    using assms(1,3) unfolding heap_only_def by blast
  then show "screen_of s' = screen_of s" "tty_ok s'"
    using screen_cong [OF assms(2), of s'] assms(1) unfolding heap_only_def by blast+
qed

end
