(* ===== verification/CommandLine.thy ===== *)
theory CommandLine
  imports Shell Frame
begin

text \<open>
  What \<open>pars_input\<close> of \<open>shell.c\<close> makes of a line: the line as a list of words, the scanning loops as
  functions on it, the vector of arguments in memory, and the whole of \<open>pars_input\<close> on a sound heap.
\<close>

section \<open>The words of a line\<close>

function tokens :: "u8 list \<Rightarrow> u8 list list" where
  "tokens cs = (case dropWhile (\<lambda>c. c = 32) cs of
      [] \<Rightarrow> []
    | d # ds \<Rightarrow> (d # takeWhile (\<lambda>c. c \<noteq> 32) ds) # tokens (dropWhile (\<lambda>c. c \<noteq> 32) ds))"
  by pat_completeness auto
termination
proof (relation "measure length")
  fix cs ds :: "u8 list" and d
  assume "dropWhile (\<lambda>c. c = 32) cs = d # ds"
  then have "Suc (length ds) \<le> length cs"
    using length_dropWhile_le [of "\<lambda>c. c = 32" cs] by simp
  moreover have "length (dropWhile (\<lambda>c. c \<noteq> 32) ds) \<le> length ds"
    by (rule length_dropWhile_le)
  ultimately show "(dropWhile (\<lambda>c. c \<noteq> 32) ds, cs) \<in> measure length" by simp
qed simp

declare tokens.simps [simp del]

abbreviation spaces_of :: "u8 list \<Rightarrow> u8 list" where "spaces_of \<equiv> takeWhile (\<lambda>c. c = 32)"
abbreviation word_of :: "u8 list \<Rightarrow> u8 list" where "word_of \<equiv> takeWhile (\<lambda>c. c \<noteq> 32)"
abbreviation after_spaces :: "u8 list \<Rightarrow> u8 list" where "after_spaces \<equiv> dropWhile (\<lambda>c. c = 32)"
abbreviation after_word :: "u8 list \<Rightarrow> u8 list" where "after_word \<equiv> dropWhile (\<lambda>c. c \<noteq> 32)"

lemma tokens_unfold:
  "tokens cs = (if after_spaces cs = [] then [] else word_of (after_spaces cs) # tokens (after_word (after_spaces cs)))"
proof (cases "after_spaces cs")
  case Nil
  then show ?thesis by (subst tokens.simps) (simp only: list.case if_True simp_thms)
next
  case (Cons d ds)
  then have "d \<noteq> 32"
    using hd_dropWhile [of "\<lambda>c. c = 32" cs] by simp
  with Cons show ?thesis
    by (subst tokens.simps) simp
qed

lemma tokens_after_spaces: "tokens (after_spaces cs) = tokens cs"
  unfolding tokens_unfold [of cs] tokens_unfold [of "after_spaces cs"] by (simp only: dropWhile_idem)

lemma cstr_drop: "cstr m p (xs @ ys) \<Longrightarrow> cstr m (p + of_nat (length xs)) ys"
proof (induction xs arbitrary: p)
  case (Cons x xs)
  then show ?case
    using Cons.IH [of "p + 1"] by (simp add: cstr_Cons add_ac)
qed simp

lemma cstr_head: "cstr m p (c # cs) \<Longrightarrow> m p = c \<and> c \<noteq> 0" "cstr m p [] \<Longrightarrow> m p = 0"
  by (simp_all add: cstr_Cons cstr_Nil)

lemma skip_spaces_cstr:
  "cstr m (input + i) cs \<Longrightarrow> skip_spaces m input i = Some (i + of_nat (length (spaces_of cs)))"
proof (induction cs arbitrary: i)
  case Nil
  then show ?case by (subst skip_spaces.simps) (simp add: cstr_Nil load8_def)
next
  case (Cons c cs)
  then have "c = 32 \<Longrightarrow> skip_spaces m input (i + 1) = Some (i + 1 + of_nat (length (spaces_of cs)))"
    by (intro Cons.IH) (simp add: cstr_Cons add.assoc)
  with Cons.prems show ?case
    by (subst skip_spaces.simps) (auto simp: cstr_Cons load8_def add_ac)
qed

lemma skip_token_cstr:
  "cstr m (input + i) cs \<Longrightarrow> skip_token m input i = Some (i + of_nat (length (word_of cs)))"
proof (induction cs arbitrary: i)
  case Nil
  then show ?case by (subst skip_token.simps) (simp add: cstr_Nil load8_def)
next
  case (Cons c cs)
  then have "c \<noteq> 32 \<Longrightarrow> skip_token m input (i + 1) = Some (i + 1 + of_nat (length (word_of cs)))"
    by (intro Cons.IH) (simp add: cstr_Cons add.assoc)
  with Cons.prems show ?case
    by (subst skip_token.simps) (auto simp: cstr_Cons load8_def add_ac)
qed

text \<open>Both scans move from one suffix of the line to the next.\<close>

lemma cstr_after_spaces:
  assumes "cstr m (input + i) cs"
  shows "cstr m (input + (i + of_nat (length (spaces_of cs)))) (after_spaces cs)"
  using cstr_drop [of m "input + i" "spaces_of cs" "after_spaces cs"] assms by (simp add: add.assoc)

lemma cstr_after_word:
  assumes "cstr m (input + i) cs"
  shows "cstr m (input + (i + of_nat (length (word_of cs)))) (after_word cs)"
  using cstr_drop [of m "input + i" "word_of cs" "after_word cs"] assms by (simp add: add.assoc)

lemma cstr_empty_iff: "cstr m p cs \<Longrightarrow> m p = 0 \<longleftrightarrow> cs = []"
  by (cases cs) (auto simp: cstr_Cons cstr_Nil)

lemma count_tokens_cstr:
  "cstr m (input + i) cs \<Longrightarrow> count_tokens m input i tc ts
    = Some (tc + of_nat (length (tokens cs)), ts + of_nat (sum_list (map length (tokens cs))))"
proof (induction cs arbitrary: i tc ts rule: length_induct)
  case (1 cs)
  let ?i = "i + of_nat (length (spaces_of cs)) :: u32"
  let ?j = "?i + of_nat (length (word_of (after_spaces cs))) :: u32"
  note sp = skip_spaces_cstr [OF 1(2)] cstr_after_spaces [OF 1(2)]
  note wd = skip_token_cstr [OF sp(2)] cstr_after_word [OF sp(2)]
  have e: "m (input + i) = 0 \<longleftrightarrow> cs = []" "m (input + ?i) = 0 \<longleftrightarrow> after_spaces cs = []"
    using cstr_empty_iff 1(2) sp(2) by blast+
  show ?case
  proof (cases "after_spaces cs = []")
    case True
    then have "tokens cs = []" by (subst tokens_unfold) simp
    then show ?thesis
      using e True sp(1) by (subst count_tokens.simps) (simp add: load8_def)
  next
    case False
    then have ne: "cs \<noteq> []" by auto
    have "length (after_word (after_spaces cs)) < length cs"
    proof -
      have "length (after_word (after_spaces cs)) < length (after_spaces cs)"
        using False hd_dropWhile [of "\<lambda>c. c = 32" cs] length_dropWhile_le [of "\<lambda>c. c \<noteq> 32" "tl (after_spaces cs)"]
        by (cases "after_spaces cs") auto
      then show ?thesis
        using length_dropWhile_le [of "\<lambda>c. c = 32" cs] by simp
    qed
    with 1(1) wd(2) have "count_tokens m input ?j (tc + 1) (ts + (?j - ?i))
      = Some (tc + 1 + of_nat (length (tokens (after_word (after_spaces cs)))),
          ts + (?j - ?i) + of_nat (sum_list (map length (tokens (after_word (after_spaces cs))))))"
      by blast
    moreover have "tokens cs = word_of (after_spaces cs) # tokens (after_word (after_spaces cs))"
      using False by (subst tokens_unfold) simp
    moreover have "m (input + i) \<noteq> 0" "m (input + ?i) \<noteq> 0"
      using e ne False by blast+
    ultimately show ?thesis
      using sp(1) wd(1) by (subst count_tokens.simps) (simp add: load8_def add_ac)
  qed
qed

section \<open>Copying words\<close>

text \<open>A word copied out of a line and closed with a terminator is a string of its own.\<close>

lemma word_copied:
  fixes dst src :: u32
  assumes "cstr m src (w @ rest)" "unat dst + Suc (length w) \<le> 2 ^ 32" "unat src + length w \<le> 2 ^ 32"
  defines "m' \<equiv> store8 (dst + of_nat (length w)) 0 (memcpy dst src (of_nat (length w)) m)"
  shows "cstr m' dst w" "x \<notin> bytes_at dst (Suc (length w)) \<Longrightarrow> m' x = m x"
proof -
  have l: "unat (of_nat (length w) :: u32) = length w"
    using assms(2) by (intro unat_of_nat_small) simp
  have c: "memcpy dst src (of_nat (length w)) m = moved dst src 0 (length w) m"
    using memcpy_moved [of dst "of_nat (length w)" src m] assms(2,3) by (simp add: l)
  have "m' (dst + of_nat i) = w ! i" if "i < length w" for i
  proof -
    have "(of_nat i :: u32) \<noteq> of_nat (length w)"
    proof
      assume eq: "(of_nat i :: u32) = of_nat (length w)"
      have "unat (of_nat i :: u32) = i"
        using that assms(2) by (intro unat_of_nat_small) simp
      with eq l that show False by simp
    qed
    then show ?thesis
      using that assms(1,2) cstr_nth(1) [OF assms(1)] by (simp add: m'_def c store8_def moved_dest)
  qed
  moreover have "0 \<notin> set w" "length w < 2 ^ 32 - 1"
    using assms(1,2) by (auto simp: cstr_def)
  ultimately show "cstr m' dst w"
    by (simp add: cstr_def m'_def store8_def)
  assume x: "x \<notin> bytes_at dst (Suc (length w))"
  then have "x \<noteq> dst + of_nat (length w)"
    using l by (auto simp: bytes_at_def)
  moreover have "x \<notin> bytes_at dst (length w)"
    using x by (auto simp: bytes_at_def)
  ultimately show "m' x = m x"
    by (simp add: m'_def c store8_def moved_other)
qed

text \<open>The vector of arguments: \<open>ts\<close> from entry \<open>c\<close> on, their strings packed from offset \<open>off\<close> on.\<close>

fun args_at :: "mem \<Rightarrow> u32 \<Rightarrow> nat \<Rightarrow> nat \<Rightarrow> u8 list list \<Rightarrow> bool" where
  "args_at m argv c off [] \<longleftrightarrow> True"
| "args_at m argv c off (t # ts) \<longleftrightarrow> load32 m (argv + of_nat (4 * c)) = argv + of_nat off
     \<and> cstr m (argv + of_nat off) t \<and> args_at m argv (Suc c) (off + Suc (length t)) ts"

definition args_size :: "u8 list list \<Rightarrow> nat" where
  "args_size ts = sum_list (map (\<lambda>t. Suc (length t)) ts)"

lemma args_size_simps [simp]: "args_size [] = 0" "args_size (t # ts) = Suc (length t) + args_size ts"
  by (simp_all add: args_size_def)

abbreviation args_slots :: "u32 \<Rightarrow> nat \<Rightarrow> u8 list list \<Rightarrow> u32 set" where
  "args_slots argv c ts \<equiv> bytes_at (argv + of_nat (4 * c)) (4 * length ts)"
abbreviation args_text :: "u32 \<Rightarrow> nat \<Rightarrow> u8 list list \<Rightarrow> u32 set" where
  "args_text argv off ts \<equiv> bytes_at (argv + of_nat off) (args_size ts)"

text \<open>Offsets from \<open>argv\<close> decide all the disjointness questions.\<close>

lemma offset_cases:
  assumes "k + w \<le> 2 ^ 32"
  shows "x \<in> bytes_at (argv + of_nat k) w \<longleftrightarrow> unat (x - argv) \<in> {k ..< k + w}"
  using bytes_at_offset [OF assms, of x argv] by auto

lemma args_at_frame:
  assumes "args_at m argv c off ts" "4 * (c + length ts) \<le> off" "off + args_size ts \<le> 2 ^ 32"
    and "\<And>x. x \<in> args_slots argv c ts \<union> args_text argv off ts \<Longrightarrow> m' x = m x"
  shows "args_at m' argv c off ts"
  using assms
proof (induction ts arbitrary: c off)
  case (Cons t ts)
  have eq: "m' x = m x" if "unat (x - argv) \<in> {4 * c ..< 4 * c + 4 * length (t # ts)} \<union> {off ..< off + args_size (t # ts)}" for x
    using that Cons.prems(2,3) by (intro Cons.prems(4)) (auto simp: offset_cases simp del: of_nat_mult of_nat_add of_nat_Suc)
  have "load32 m' (argv + of_nat (4 * c)) = load32 m (argv + of_nat (4 * c))"
    using Cons.prems(2,3) by (intro cell32.ld_cong eq) (auto simp: offset_cases simp del: of_nat_mult of_nat_add of_nat_Suc)
  moreover have "cstr m' (argv + of_nat off) t"
  proof (rule cstr_frame)
    show "cstr m (argv + of_nat off) t" using Cons.prems(1) by simp
    fix x assume "x \<in> bytes_at (argv + of_nat off) (Suc (length t))"
    then show "m' x = m x"
      using Cons.prems(2,3) by (intro eq) (auto simp: offset_cases simp del: of_nat_mult of_nat_add of_nat_Suc)
  qed
  moreover have "args_at m' argv (Suc c) (off + Suc (length t)) ts"
  proof (rule Cons.IH)
    fix x assume "x \<in> args_slots argv (Suc c) ts \<union> args_text argv (off + Suc (length t)) ts"
    then show "m' x = m x"
      using Cons.prems(2,3) by (intro eq) (auto simp: offset_cases simp del: of_nat_mult of_nat_add of_nat_Suc)
  qed (use Cons.prems in simp_all)
  ultimately show ?case
    using Cons.prems(1) by simp
qed simp

lemma copy_tokens_correct:
  fixes argv input i :: u32 and c :: nat
  assumes "cstr m (input + i) cs" "ts = take n (tokens cs)" "4 * (c + length ts) \<le> off" "off + args_size ts \<le> sz"
    and "unat argv + sz < 2 ^ 32" "unat (input + i) + length cs < 2 ^ 32"
    and "bytes_at (input + i) (Suc (length cs)) \<inter> bytes_at argv sz = {}"
  shows "\<exists>m'. copy_tokens n input argv (of_nat c) i (of_nat off) m = Some m' \<and> args_at m' argv c off ts
    \<and> (\<forall>x. x \<notin> args_slots argv c ts \<union> args_text argv off ts \<longrightarrow> m' x = m x)"
  using assms
proof (induction n arbitrary: cs ts c i off m)
  case 0
  then show ?case by simp
next
  case (Suc n)
  let ?i = "i + of_nat (length (spaces_of cs)) :: u32"
  let ?w = "word_of (after_spaces cs)" and ?r = "after_word (after_spaces cs)"
  let ?j = "?i + of_nat (length ?w) :: u32"
  note sp = skip_spaces_cstr [OF Suc.prems(1)] cstr_after_spaces [OF Suc.prems(1)]
  show ?case
  proof (cases "after_spaces cs = []")
    case True
    then have "tokens cs = []" by (subst tokens_unfold) simp
    then show ?thesis
      using cstr_empty_iff [OF sp(2)] sp(1) Suc.prems(2) True by (simp add: load8_def)
  next
    case False
    have len: "length cs = length (spaces_of cs) + (length ?w + length ?r)"
      by (metis length_append takeWhile_dropWhile_id)
    have ts: "ts = ?w # take n (tokens ?r)"
      using Suc.prems(2) False by (subst (asm) tokens_unfold) simp
    let ?ts = "take n (tokens ?r)" and ?off = "off + Suc (length ?w)"
    let ?dst = "argv + of_nat off :: u32" and ?slot = "argv + of_nat (4 * c) :: u32"
    have room: "4 * (Suc c + length ?ts) \<le> off" "?off + args_size ?ts \<le> sz" "off + Suc (length ?w) \<le> sz" "4 * c + 4 \<le> off"
      using Suc.prems(3,4) ts by simp_all
    have unat_i: "unat (input + ?i) = unat (input + i) + length (spaces_of cs)"
      using Suc.prems(6) len unat_add_of_nat [of "input + i" "length (spaces_of cs)"] by (simp add: add.assoc)
    have unat_j: "unat (input + ?j) = unat (input + i) + (length (spaces_of cs) + length ?w)"
      using Suc.prems(6) len unat_add_of_nat [of "input + i" "length (spaces_of cs) + length ?w"] by (simp add: add.assoc)
    have unat_dst: "unat ?dst = unat argv + off"
      using Suc.prems(5) room by (intro unat_add_of_nat) simp
    have away: "x \<notin> bytes_at argv sz" if "x \<in> bytes_at (input + ?i) (Suc (length ?w + length ?r))" for x
    proof -
      have "bytes_at (input + i + of_nat (length (spaces_of cs))) (Suc (length ?w + length ?r)) \<subseteq> bytes_at (input + i) (Suc (length cs))"
        using Suc.prems(6) len by (intro bytes_at_sub) simp_all
      then show ?thesis
        using that Suc.prems(7) by (simp add: add.assoc) blast
    qed
    have inside: "x \<in> bytes_at argv sz" if "x \<in> bytes_at (argv + of_nat k) w" "k + w \<le> sz" for x k w
      using bytes_at_sub [of k w sz argv] that Suc.prems(5) by auto
    let ?m1 = "store32 ?slot ?dst m"
    let ?m2 = "memcpy ?dst (input + ?i) (of_nat (length ?w)) ?m1"
    let ?m3 = "store8 (?dst + of_nat (length ?w)) 0 ?m2"
    have m1: "?m1 x = m x" if "x \<notin> bytes_at ?slot 4" for x
      using that by (rule cell32.st_other)
    have str1: "cstr ?m1 (input + ?i) (?w @ ?r)"
    proof (rule cstr_frame)
      show "cstr m (input + ?i) (?w @ ?r)" using sp(2) by simp
      fix x assume "x \<in> bytes_at (input + ?i) (Suc (length (?w @ ?r)))"
      then have "x \<notin> bytes_at ?slot 4"
        using away [of x] inside [of x "4 * c" 4] room by (auto simp del: takeWhile_dropWhile_id)
      then show "?m1 x = m x" by (rule m1)
    qed
    note w = word_copied [OF str1, of ?dst]
    have w_room: "unat ?dst + Suc (length ?w) \<le> 2 ^ 32" "unat (input + ?i) + length ?w \<le> 2 ^ 32"
      using Suc.prems(5,6) room len unat_dst unat_i by simp_all
    have m3: "?m3 x = m x" if "x \<notin> bytes_at ?slot 4" "x \<notin> bytes_at ?dst (Suc (length ?w))" for x
      using w(2) [OF w_room that(2)] m1 [OF that(1)] by simp
    have later: "x \<notin> args_slots argv (Suc c) ?ts \<union> args_text argv ?off ?ts"
      if "x \<in> bytes_at ?slot 4 \<union> bytes_at ?dst (Suc (length ?w))" for x
      using that room Suc.prems(5) by (auto simp: offset_cases simp del: of_nat_mult of_nat_add of_nat_Suc)
    have apart: "x \<notin> bytes_at ?dst (Suc (length ?w))" if "x \<in> bytes_at ?slot 4" for x
      using that room Suc.prems(5) by (auto simp: offset_cases simp del: of_nat_mult of_nat_add of_nat_Suc)
    have eq2: "?m2 x = ?m1 x" if "x \<notin> bytes_at ?dst (Suc (length ?w))" for x
    proof -
      have "x \<noteq> ?dst + of_nat (length ?w)"
        using that w_room(1) by (auto simp: bytes_at_def unat_of_nat_small)
      then show ?thesis
        using w(2) [OF w_room that] by (simp add: store8_def)
    qed
    have "load32 ?m2 ?slot = load32 ?m1 ?slot" "load32 ?m3 ?slot = load32 ?m1 ?slot"
      using eq2 w(2) [OF w_room] apart by (intro cell32.ld_cong; blast)+
    then have slot: "load32 ?m2 ?slot = ?dst" "load32 ?m3 ?slot = ?dst"
      by (simp_all only: cell32.ld_st_same)
    have away_r: "x \<notin> bytes_at argv sz" if "x \<in> bytes_at (input + ?j) (Suc (length ?r))" for x
    proof -
      have "bytes_at (input + ?i + of_nat (length ?w)) (Suc (length ?r)) \<subseteq> bytes_at (input + ?i) (Suc (length ?w + length ?r))"
        using Suc.prems(6) len by (intro bytes_at_sub) simp_all
      with that away show ?thesis by (auto simp: add.assoc)
    qed
    have str3: "cstr ?m3 (input + ?j) ?r"
    proof (rule cstr_frame)
      show "cstr ?m1 (input + ?j) ?r"
        using cstr_drop [OF str1] by (simp add: add.assoc)
      fix x assume "x \<in> bytes_at (input + ?j) (Suc (length ?r))"
      then have "x \<notin> bytes_at ?dst (Suc (length ?w))"
        using away_r [of x] inside [of x off "Suc (length ?w)"] room(3) by blast
      then show "?m3 x = ?m1 x" by (rule w(2) [OF w_room])
    qed
    have "bytes_at (input + ?j) (Suc (length ?r)) \<inter> bytes_at argv sz = {}"
      using away_r by blast
    with str3 obtain m' where m': "copy_tokens n input argv (of_nat (Suc c)) ?j (of_nat ?off) ?m3 = Some m'"
      "args_at m' argv (Suc c) ?off ?ts"
      "\<forall>x. x \<notin> args_slots argv (Suc c) ?ts \<union> args_text argv ?off ?ts \<longrightarrow> m' x = ?m3 x"
      using Suc.IH [of ?m3 ?j ?r ?ts "Suc c" ?off] room(1,2) Suc.prems(5,6) unat_j len by auto
    have ne: "m (input + ?i) \<noteq> 0"
      using cstr_empty_iff [OF sp(2)] False by simp
    have "copy_tokens (Suc n) input argv (of_nat c) i (of_nat off) m = Some m'"
    proof -
      have d: "?j - ?i = of_nat (length ?w)" by simp
      have o: "of_nat off + (of_nat (length ?w) + 1) = (of_nat ?off :: u32)" by simp
      have cc: "of_nat c + 1 = (of_nat (Suc c) :: u32)" by simp
      have fc: "argv + 4 * of_nat c = ?slot" by simp
      have bind: "Option.bind (Some y) f = f y" for y and f :: "_ \<Rightarrow> mem option" by simp
      show ?thesis
        by (simp only: copy_tokens.simps sp(1) skip_token_cstr [OF sp(2)] bind Let_def load8_def ne if_False fc d
            cell32.ld_st_same slot(1) o cc m'(1))
    qed
    moreover have "load32 m' ?slot = ?dst"
      using slot(2) m'(3) later by (subst cell32.ld_cong [of ?slot m' ?m3]) auto
    moreover have "cstr m' ?dst ?w"
      by (rule cstr_frame [OF w(1) [OF w_room]]) (use m'(3) later in blast)
    moreover have "m' x = m x" if "x \<notin> args_slots argv c ts \<union> args_text argv off ts" for x
    proof -
      have "x \<notin> bytes_at ?slot 4" "x \<notin> bytes_at ?dst (Suc (length ?w))"
          and l: "x \<notin> args_slots argv (Suc c) ?ts \<union> args_text argv ?off ?ts"
        using that room Suc.prems(5) ts by (auto simp: offset_cases simp del: of_nat_mult of_nat_add of_nat_Suc)
      from m3 [OF this(1,2)] m'(3) [rule_format, OF l] show ?thesis by (simp only:)
    qed
    ultimately show ?thesis
      using m'(2) ts by (intro exI [of _ m']) simp
  qed
qed

section \<open>The whole of \<open>pars_input\<close>\<close>

text \<open>The line lies in a block of the heap, so whatever is granted later lies apart from it.\<close>

definition line_in :: "kernel \<Rightarrow> run list \<Rightarrow> u32 \<Rightarrow> u8 list \<Rightarrow> bool" where
  "line_in s vs input line \<longleftrightarrow> cstr (mem s) input line \<and> (\<exists>n. (input, n) \<in> set vs \<and> length line < unat n)"

lemma line_bytes:
  assumes "line_in s vs input line" "heap_space k n s vs"
  shows "unat input + length line < 2 ^ 32" "bytes_at input (Suc (length line)) \<subseteq> heap_bytes s"
    "\<exists>v \<in> set vs. bytes_at input (Suc (length line)) \<subseteq> block_bytes v"
proof -
  obtain m where m: "(input, m) \<in> set vs" "length line < unat m"
    using assms(1) by (auto simp: line_in_def)
  have "heap_regions s vs" using assms(2) by (simp add: heap_space_def)
  note b = block_in_heap [OF this m(1)]
  show "unat input + length line < 2 ^ 32" using b(3) m(2) by simp
  have "bytes_at input (Suc (length line)) \<subseteq> block_bytes (input, m)"
    using m(2) b(3) block_bytes_eq [of input m] bytes_at_mono [of "Suc (length line)" "unat m" input] by simp
  with b(1) m(1) show "bytes_at input (Suc (length line)) \<subseteq> heap_bytes s"
    "\<exists>v \<in> set vs. bytes_at input (Suc (length line)) \<subseteq> block_bytes v"
    by blast+
qed

text \<open>A block is granted and the word at the offset \<open>k\<close> of the line is copied into it.\<close>

lemma word_into_block:
  assumes sp: "heap_space (Suc k) (Suc (length w) + rest) s vs" and line: "line_in s vs input (pre @ w @ post)"
  obtains r s1 vs' m where "kmalloc (of_nat (length w) + 1) s = Some (r, s1)"
    "m = store8 (r + of_nat (length w)) 0 (memcpy r (input + of_nat (length pre)) (of_nat (length w)) (mem s1))"
    "heap_space k rest (s1\<lparr>mem := m\<rparr>) vs'" "line_in (s1\<lparr>mem := m\<rparr>) vs' input (pre @ w @ post)" "cstr m r w"
    "set vs' = insert (r, of_nat (Suc (length w))) (set vs)" "unat r + Suc (length w) < 2 ^ 32"
    "bytes_at r (Suc (length w)) \<subseteq> heap_bytes s" "\<forall>v \<in> set vs. bytes_at r (Suc (length w)) \<inter> block_bytes v = {}"
    "heap_bytes (s1\<lparr>mem := m\<rparr>) = heap_bytes s" "\<forall>x \<in> heap_bytes s. x \<notin> bytes_at r (Suc (length w)) \<longrightarrow> m x = mem s x"
    "length vs' = Suc (length vs)" "heap_only (heap_table_bytes (length vs + Suc k) s) s (s1\<lparr>mem := m\<rparr>)"
proof -
  let ?n = "Suc (length w)" and ?line = "pre @ w @ post"
  obtain r s1 vs' where k: "kmalloc (of_nat ?n) s = Some (r, s1)" "heap_space k rest s1 vs'"
      "set vs' = insert (r, of_nat ?n) (set vs)" "unat r + ?n < 2 ^ 32" "bytes_at r ?n \<subseteq> heap_bytes s"
      "\<forall>v \<in> set vs. bytes_at r ?n \<inter> block_bytes v = {}" "heap_bytes s1 = heap_bytes s"
      "\<forall>x \<in> heap_bytes s. mem s1 x = mem s x" "length vs' = Suc (length vs)" "heap_step (length vs + 2) s s1"
    by (rule heap_space_alloc [OF sp]) auto
  note lb = line_bytes [OF line sp]
  have only: "heap_only (heap_table_bytes (length vs + Suc k) s) s s1"
    by (rule heap_only_step [OF k(10)]) (rule bytes_at_mono, simp)
  have apart: "bytes_at r ?n \<inter> bytes_at input (Suc (length ?line)) = {}"
    using k(6) lb(3) by blast
  have str: "cstr (mem s1) input ?line"
  proof (rule cstr_frame)
    show "cstr (mem s) input ?line" using line by (simp add: line_in_def)
    show "mem s1 x = mem s x" if "x \<in> bytes_at input (Suc (length ?line))" for x
      using k(8) lb(2) that by blast
  qed
  then have str': "cstr (mem s1) (input + of_nat (length pre)) (w @ post)"
    by (rule cstr_drop)
  let ?m = "store8 (r + of_nat (length w)) 0 (memcpy r (input + of_nat (length pre)) (of_nat (length w)) (mem s1))"
  have u: "unat (input + of_nat (length pre)) = unat input + length pre"
    using lb(1) by (intro unat_add_of_nat) simp
  note w = word_copied [OF str', of r]
  have rm: "unat r + Suc (length w) \<le> 2 ^ 32" "unat (input + of_nat (length pre)) + length w \<le> 2 ^ 32"
    using k(4) lb(1) u by simp_all
  have "\<forall>x. x \<notin> heap_bytes s1 \<longrightarrow> ?m x = mem s1 x"
    using w(2) [OF rm] k(5,7) by blast
  note hw = heap_space_write [OF k(2) this] and only' = heap_only_trans [OF only heap_only_write [OF this]]
  have "cstr ?m input ?line"
  proof (rule cstr_frame [OF str])
    fix x assume "x \<in> bytes_at input (Suc (length ?line))"
    then have "x \<notin> bytes_at r ?n" using apart by blast
    then show "?m x = mem s1 x" by (rule w(2) [OF rm])
  qed
  then have li: "line_in (s1\<lparr>mem := ?m\<rparr>) vs' input ?line"
    using line k(3) by (auto simp: line_in_def)
  show thesis
  proof (rule that [of r s1 ?m vs'])
    show "kmalloc (of_nat (length w) + 1) s = Some (r, s1)"
      using k(1) by (simp add: add.commute)
    show "heap_bytes (s1\<lparr>mem := ?m\<rparr>) = heap_bytes s"
      using hw(2) k(7) by simp
    show "\<forall>x \<in> heap_bytes s. x \<notin> bytes_at r ?n \<longrightarrow> ?m x = mem s x"
    proof (intro ballI impI)
      fix x assume "x \<in> heap_bytes s" "x \<notin> bytes_at r ?n"
      then show "?m x = mem s x"
        using w(2) [OF rm, of x] k(8) by simp
    qed
  qed (rule refl hw(1) li w(1) [OF rm] k(3) k(4) k(5) k(6) k(9) only')+
qed

lemma nat_sint_of_nat: "n < 2 ^ 31 \<Longrightarrow> nat (sint (of_nat n :: u32)) = n"
proof -
  assume n: "n < 2 ^ 31"
  then have "uint (of_nat n :: u32) = int n"
    by (simp add: uint_nat unat_of_nat_small)
  moreover have "int n < 2 ^ 31"
    using n by simp
  ultimately show ?thesis
    by (simp add: sint_uint signed_take_bit_int_eq_self)
qed

lemma line_split: "spaces_of cs @ word_of (after_spaces cs) @ after_word (after_spaces cs) = cs"
  by simp

lemma pars_input_cases:
  fixes line :: "u8 list"
  defines "w \<equiv> word_of (after_spaces line)" and "post \<equiv> after_word (after_spaces line)"
  assumes sp: "heap_space (Suc k) (Suc (length w) + rest) s vs" and line: "line_in s vs input line"
  obtains r t vs' where "heap_space k rest t vs'" "line_in t vs' input line" "cstr (mem t) r w"
    "set vs' = insert (r, of_nat (Suc (length w))) (set vs)" "unat r + Suc (length w) < 2 ^ 32"
    "bytes_at r (Suc (length w)) \<subseteq> heap_bytes s" "\<forall>v \<in> set vs. bytes_at r (Suc (length w)) \<inter> block_bytes v = {}"
    "heap_bytes t = heap_bytes s" "\<forall>x \<in> heap_bytes s. x \<notin> bytes_at r (Suc (length w)) \<longrightarrow> mem t x = mem s x"
    "length vs' = Suc (length vs)" "heap_only (heap_table_bytes (length vs + Suc k) s) s t"
    "pars_input input v s = (if post = [] then Some (v\<lparr>v_command := r\<rparr>, t) else
       do {
         (argv, s) \<leftarrow> kmalloc (of_nat (4 * length (tokens post) + args_size (tokens post))) t;
         m \<leftarrow> copy_tokens (nat (sint (of_nat (length (tokens post)) :: u32))) input argv 0 (of_nat (length w))
           (of_nat (4 * length (tokens post))) (mem s);
         Some (v\<lparr>v_command := r, v_argc := of_nat (length (tokens post)), v_argv := argv\<rparr>, snd (kfree input (s\<lparr>mem := m\<rparr>)))
       })"
proof -
  let ?pre = "spaces_of line"
  have split: "?pre @ w @ post = line" by (simp add: w_def post_def)
  have line': "line_in s vs input (?pre @ w @ post)" using line by (simp only: split)
  obtain r s1 vs' m where k: "kmalloc (of_nat (length w) + 1) s = Some (r, s1)"
    "m = store8 (r + of_nat (length w)) 0 (memcpy r (input + of_nat (length ?pre)) (of_nat (length w)) (mem s1))"
    "heap_space k rest (s1\<lparr>mem := m\<rparr>) vs'" "line_in (s1\<lparr>mem := m\<rparr>) vs' input (?pre @ w @ post)" "cstr m r w"
    "set vs' = insert (r, of_nat (Suc (length w))) (set vs)" "unat r + Suc (length w) < 2 ^ 32"
    "bytes_at r (Suc (length w)) \<subseteq> heap_bytes s" "\<forall>v \<in> set vs. bytes_at r (Suc (length w)) \<inter> block_bytes v = {}"
    "heap_bytes (s1\<lparr>mem := m\<rparr>) = heap_bytes s" "\<forall>x \<in> heap_bytes s. x \<notin> bytes_at r (Suc (length w)) \<longrightarrow> m x = mem s x"
    "length vs' = Suc (length vs)" "heap_only (heap_table_bytes (length vs + Suc k) s) s (s1\<lparr>mem := m\<rparr>)"
    by (rule word_into_block [OF sp line'])
  let ?i = "of_nat (length ?pre) :: u32" and ?j = "of_nat (length w) :: u32"
  have str: "cstr (mem s) (input + 0) line" "cstr m input (?pre @ w @ post)"
    using line k(4) by (simp_all add: line_in_def)
  have scan: "skip_spaces (mem s) input 0 = Some ?i" "skip_token (mem s) input ?i = Some (?i + ?j)"
    using skip_spaces_cstr [OF str(1)] skip_token_cstr [OF cstr_after_spaces [OF str(1)]] by (simp_all add: w_def)
  have post: "cstr m (input + (?i + ?j)) post"
    using cstr_drop [of m input "?pre @ w" post] str(2) by simp
  note cnt = count_tokens_cstr [OF post, of 0 0]
  have sz: "args_size ts = length ts + sum_list (map length ts)" for ts :: "u8 list list"
    by (induction ts) simp_all
  have j: "?i + ?j - ?i = ?j" "input + (?i + ?j) - ?j = input + ?i" by simp_all
  have "pars_input input v s = (if post = [] then Some (v\<lparr>v_command := r\<rparr>, s1\<lparr>mem := m\<rparr>) else
       do {
         (argv, s) \<leftarrow> kmalloc (of_nat (4 * length (tokens post) + args_size (tokens post))) (s1\<lparr>mem := m\<rparr>);
         m \<leftarrow> copy_tokens (nat (sint (of_nat (length (tokens post)) :: u32))) input argv 0 (of_nat (length w))
           (of_nat (4 * length (tokens post))) (mem s);
         Some (v\<lparr>v_command := r, v_argc := of_nat (length (tokens post)), v_argv := argv\<rparr>, snd (kfree input (s\<lparr>mem := m\<rparr>)))
       })"
    using cstr_empty_iff [OF post] k(1,2) cnt
    unfolding pars_input_def scan Option.bind.bind_lunit Let_def j sz
    by (simp add: load8_def mult.commute [of _ 4])
  then show thesis
    using k(3-13) split by (intro that [of "s1\<lparr>mem := m\<rparr>" vs' r]) simp_all
qed

text \<open>The copying loop on a line in memory that does not overlap the vector.\<close>

lemma copy_tokens_line:
  fixes line :: "u8 list" and n j :: nat
  defines "copied \<equiv> take n (tokens (drop j line))"
  assumes "cstr m input line" "j \<le> length line" "unat input + length line < 2 ^ 32" "unat p + room < 2 ^ 32"
    and "bytes_at input (Suc (length line)) \<inter> bytes_at p room = {}" "room = 4 * n + asize" "args_size copied \<le> asize"
  obtains m' where "copy_tokens n input p 0 (of_nat j) (of_nat (4 * n)) m = Some m'" "args_at m' p 0 (4 * n) copied"
    "\<forall>x. x \<notin> bytes_at p room \<longrightarrow> m' x = m x" "args_slots p 0 copied \<union> args_text p (4 * n) copied \<subseteq> bytes_at p room"
proof -
  have start: "cstr m (input + of_nat j) (drop j line)"
    using cstr_drop [of m input "take j line" "drop j line"] assms(2,3) by (simp add: min_absorb2)
  have bytes: "bytes_at (input + of_nat j) (Suc (length (drop j line))) \<subseteq> bytes_at input (Suc (length line))"
    using assms(3,4) by (intro bytes_at_sub) simp_all
  have u: "unat (input + of_nat j) = unat input + j"
    using assms(3,4) by (intro unat_add_of_nat) simp
  have len: "length copied \<le> n"
    by (simp add: copied_def)
  have touched: "args_slots p 0 copied \<union> args_text p (4 * n) copied \<subseteq> bytes_at p room"
    using bytes_at_sub [of "4 * 0" "4 * length copied" room p] bytes_at_sub [of "4 * n" "args_size copied" room p] len assms(5,7,8)
    by simp
  obtain m' where m': "copy_tokens n input p (of_nat 0) (of_nat j) (of_nat (4 * n)) m = Some m'" "args_at m' p 0 (4 * n) copied"
      "\<forall>x. x \<notin> args_slots p 0 copied \<union> args_text p (4 * n) copied \<longrightarrow> m' x = m x"
    using copy_tokens_correct [OF start, of copied n 0 "4 * n" room p] len assms(3-8) bytes u by (auto simp: copied_def)
  then show thesis
    using that [OF _ m'(2) _ touched] touched by auto
qed

text \<open>A block apart from all the others has a base of its own.\<close>

lemma new_base:
  assumes "heap_regions s vs" "(q, l) \<in> set vs" "\<forall>v \<in> set vs. bytes_at p n \<inter> block_bytes v = {}" "0 < n"
  shows "q \<noteq> p"
proof
  assume "q = p"
  moreover have "p \<in> bytes_at p n" using assms(4) by (simp add: bytes_at_def)
  ultimately show False
    using block_base_unique(2) [OF assms(1,2,2)] bspec [OF assms(3,2)] by blast
qed

text \<open>
  The vector of arguments: a block is granted, the words of the line from the offset \<open>j\<close> on are copied
  into it, and the line is released.
\<close>

lemma args_into_block:
  fixes line :: "u8 list" and n j :: nat
  defines "copied \<equiv> take n (tokens (drop j line))"
  assumes sp: "heap_space (Suc k) (room + rest) t vs" and line: "line_in t vs input line" and j: "j \<le> length line"
    and room: "room = 4 * n + asize" "0 < n" "args_size copied \<le> asize"
  obtains p s2 m s3 vs3 where "kmalloc (of_nat room) t = Some (p, s2)"
    "copy_tokens n input p 0 (of_nat j) (of_nat (4 * n)) (mem s2) = Some m" "s3 = snd (kfree input (s2\<lparr>mem := m\<rparr>))"
    "heap_space k rest s3 vs3" "\<forall>(q, l) \<in> set vs. q \<noteq> p \<and> (q \<noteq> input \<longrightarrow> (q, l) \<in> set vs3)" "(p, of_nat room) \<in> set vs3"
    "args_at (mem s3) p 0 (4 * n) copied" "unat p + room < 2 ^ 32" "bytes_at p room \<subseteq> heap_bytes t"
    "\<forall>v \<in> set vs. bytes_at p room \<inter> block_bytes v = {}" "\<forall>x \<in> heap_bytes t. x \<notin> bytes_at p room \<longrightarrow> mem s3 x = mem t x"
    "heap_only (heap_table_bytes (length vs + Suc k) t) t s3" "length vs3 \<le> Suc (length vs)"
proof -
  let ?T = "heap_table_bytes (length vs + Suc k) t"
  have pos: "0 < room" and reg: "heap_regions t vs" using room sp by (simp_all add: heap_space_def)
  obtain p s2 vs2 where k: "kmalloc (of_nat room) t = Some (p, s2)" "heap_space k rest s2 vs2"
      "set vs2 = insert (p, of_nat room) (set vs)" "unat p + room < 2 ^ 32" "bytes_at p room \<subseteq> heap_bytes t"
      "\<forall>v \<in> set vs. bytes_at p room \<inter> block_bytes v = {}" "heap_bytes s2 = heap_bytes t" "\<forall>x \<in> heap_bytes t. mem s2 x = mem t x"
      "length vs2 = Suc (length vs)" "heap_step (length vs + 2) t s2"
    by (rule heap_space_alloc [OF sp pos]) auto
  note lb = line_bytes [OF line sp]
  have str: "cstr (mem s2) input line"
    by (rule cstr_frame [of "mem t"]) (use line lb(2) k(8) in \<open>auto simp: line_in_def\<close>)
  have apart: "bytes_at input (Suc (length line)) \<inter> bytes_at p room = {}"
    using k(6) lb(3) by blast
  obtain m where m: "copy_tokens n input p 0 (of_nat j) (of_nat (4 * n)) (mem s2) = Some m" "args_at m p 0 (4 * n) copied"
      "\<forall>x. x \<notin> bytes_at p room \<longrightarrow> m x = mem s2 x" "args_slots p 0 copied \<union> args_text p (4 * n) copied \<subseteq> bytes_at p room"
    using copy_tokens_line [OF str j lb(1) k(4) apart room(1)] room(3) unfolding copied_def .
  let ?s = "s2\<lparr>mem := m\<rparr>"
  have chg: "\<forall>x. x \<notin> heap_bytes s2 \<longrightarrow> m x = mem s2 x"
    using m(3) k(5) unfolding k(7) by blast
  note w = heap_space_write [OF k(2) chg]
  have "vs2 \<noteq> []" using k(9) by auto
  obtain b s3 vs3 where f: "kfree input ?s = (b, s3)" "heap_space k rest s3 vs3" "\<forall>(q, l) \<in> set vs2. q \<noteq> input \<longrightarrow> (q, l) \<in> set vs3"
      "\<forall>x \<in> heap_bytes ?s. mem s3 x = mem ?s x" "length vs3 \<le> length vs2" "heap_step (length vs2) ?s s3"
    by (rule heap_space_free [OF w(1) \<open>vs2 \<noteq> []\<close>, of input]) auto
  have in_heap: "mem s3 x = m x" if "x \<in> heap_bytes t" for x
    using bspec [OF f(4), of x] that unfolding w(2) k(7) by simp
  have other: "q \<noteq> p" if "(q, l) \<in> set vs" for q l
    by (rule new_base [OF reg that k(6) pos])
  have "(input, l) \<in> set vs \<Longrightarrow> input \<noteq> p" for l using other by blast
  then have new: "(p, of_nat room) \<in> set vs3"
    using f(3) k(3) line by (auto simp: line_in_def)
  have old: "\<forall>(q, l) \<in> set vs. q \<noteq> p \<and> (q \<noteq> input \<longrightarrow> (q, l) \<in> set vs3)"
    using f(3) k(3) other by auto
  have args: "args_at (mem s3) p 0 (4 * n) copied"
  proof (rule args_at_frame [OF m(2)])
    show "4 * (0 + length copied) \<le> 4 * n" "4 * n + args_size copied \<le> 2 ^ 32"
      using room k(4) by (simp_all add: copied_def)
    show "mem s3 x = m x" if "x \<in> args_slots p 0 copied \<union> args_text p (4 * n) copied" for x
      using that m(4) k(5) by (intro in_heap) blast
  qed
  have kept: "\<forall>x \<in> heap_bytes t. x \<notin> bytes_at p room \<longrightarrow> mem s3 x = mem t x"
    using in_heap m(3) k(8) by simp
  have ptr: "heap_ptr ?s = heap_ptr t"
    using heap_step_fields(1) [OF k(10)] by (simp add: heap_ptr_def)
  have only1: "heap_only ?T t s2"
    by (rule heap_only_step [OF k(10)]) (rule bytes_at_mono, simp)
  have only2: "heap_only ?T ?s s3"
    by (rule heap_only_step [OF f(6)]) (unfold ptr k(9), rule bytes_at_mono, simp)
  note only = heap_only_trans [OF only1 heap_only_trans [OF heap_only_write [OF chg] only2]]
  show thesis
    by (rule that [OF k(1) m(1) _ f(2) old new args k(4-6) kept only]) (use f(5) k(9) in \<open>simp_all add: f(1)\<close>)
qed

text \<open>With arguments: the copying starts in the line at the length of the command.\<close>

lemma pars_input_arguments:
  fixes line :: "u8 list"
  defines "w \<equiv> word_of (after_spaces line)" and "args \<equiv> tokens (after_word (after_spaces line))"
  defines "copied \<equiv> take (length args) (tokens (drop (length w) line))" and "room \<equiv> 4 * length args + args_size args"
  assumes sp: "heap_space (Suc (Suc k)) (Suc (length w) + (room + rest)) s vs" and line: "line_in s vs input line"
    and args: "args \<noteq> []" "args_size copied \<le> args_size args"
  obtains r p s' vs' where "pars_input input v s = Some (\<lparr>v_command = r, v_argc = of_nat (length args), v_argv = p\<rparr>, s')"
    "cstr (mem s') r w" "args_at (mem s') p 0 (4 * length args) copied"
    "bytes_at r (Suc (length w)) \<inter> bytes_at p room = {}" "bytes_at r (Suc (length w)) \<union> bytes_at p room \<subseteq> heap_bytes s"
    "\<forall>u \<in> set vs. (bytes_at r (Suc (length w)) \<union> bytes_at p room) \<inter> block_bytes u = {}"
    "\<forall>x \<in> heap_bytes s - bytes_at r (Suc (length w)) - bytes_at p room. mem s' x = mem s x"
    "heap_space k rest s' vs'" "(r, of_nat (Suc (length w))) \<in> set vs'" "(p, of_nat room) \<in> set vs'" "r \<noteq> p"
    "heap_only (heap_table_bytes (length vs + Suc (Suc k)) s) s s'" "unat p + room < 2 ^ 32"
    "length vs' \<le> Suc (Suc (length vs))"
proof -
  let ?C = "\<lambda>r. bytes_at r (Suc (length w))"
  obtain r t vs1 where a: "heap_space (Suc k) (room + rest) t vs1" "line_in t vs1 input line" "cstr (mem t) r w"
    "set vs1 = insert (r, of_nat (Suc (length w))) (set vs)" "unat r + Suc (length w) < 2 ^ 32"
    "?C r \<subseteq> heap_bytes s" "\<forall>v \<in> set vs. ?C r \<inter> block_bytes v = {}"
    "heap_bytes t = heap_bytes s" "\<forall>x \<in> heap_bytes s. x \<notin> ?C r \<longrightarrow> mem t x = mem s x"
    "length vs1 = Suc (length vs)" "heap_only (heap_table_bytes (length vs + Suc (Suc k)) s) s t"
    "pars_input input v s = (if after_word (after_spaces line) = [] then Some (v\<lparr>v_command := r\<rparr>, t) else
       do {
         (argv, s) \<leftarrow> kmalloc (of_nat room) t;
         m \<leftarrow> copy_tokens (nat (sint (of_nat (length args) :: u32))) input argv 0 (of_nat (length w)) (of_nat (4 * length args)) (mem s);
         Some (v\<lparr>v_command := r, v_argc := of_nat (length args), v_argv := argv\<rparr>, snd (kfree input (s\<lparr>mem := m\<rparr>)))
       })"
    by (rule pars_input_cases [OF sp [unfolded w_def] line, of v, folded w_def args_def room_def])
  have wl: "length w \<le> length line"
    using length_takeWhile_le [of "\<lambda>c. c \<noteq> 32" "after_spaces line"] length_dropWhile_le [of "\<lambda>c. c = 32" line]
    by (simp add: w_def)
  have pos: "0 < length args" using args(1) by simp
  obtain p s2 m s3 vs3 where k: "kmalloc (of_nat room) t = Some (p, s2)"
    "copy_tokens (length args) input p 0 (of_nat (length w)) (of_nat (4 * length args)) (mem s2) = Some m"
    "s3 = snd (kfree input (s2\<lparr>mem := m\<rparr>))" "heap_space k rest s3 vs3"
    "\<forall>(q, l) \<in> set vs1. q \<noteq> p \<and> (q \<noteq> input \<longrightarrow> (q, l) \<in> set vs3)" "(p, of_nat room) \<in> set vs3"
    "args_at (mem s3) p 0 (4 * length args) copied" "unat p + room < 2 ^ 32" "bytes_at p room \<subseteq> heap_bytes t"
    "\<forall>v \<in> set vs1. bytes_at p room \<inter> block_bytes v = {}" "\<forall>x \<in> heap_bytes t. x \<notin> bytes_at p room \<longrightarrow> mem s3 x = mem t x"
    "heap_only (heap_table_bytes (length vs1 + Suc k) t) t s3" "length vs3 \<le> Suc (length vs1)"
    by (rule args_into_block [OF a(1,2) wl meta_eq_to_obj_eq [OF room_def] pos])
      (use args(2) in \<open>simp add: copied_def\<close>, unfold copied_def, blast)
  have regs: "heap_regions s vs" "heap_regions t vs1"
    using sp a(1) by (simp_all add: heap_space_def)
  have C_block: "block_bytes (r, of_nat (Suc (length w))) = ?C r"
    using block_bytes_eq [of r "of_nat (Suc (length w))"] a(5) by (simp add: unat_of_nat_small del: of_nat_Suc)
  have in_r: "(r, of_nat (Suc (length w))) \<in> set vs1" using a(4) by blast
  have C_P: "?C r \<inter> bytes_at p room = {}"
    using bspec [OF k(10) in_r] C_block by blast
  have r_old: "q \<noteq> r" if "(q, l) \<in> set vs" for q l
    by (rule new_base [OF regs(1) that a(7)]) simp
  obtain l where "(input, l) \<in> set vs" using line by (auto simp: line_in_def)
  then have r_new: "(r, of_nat (Suc (length w))) \<in> set vs3" "r \<noteq> p"
    using bspec [OF k(5) in_r] r_old by auto
  have eq3: "mem s3 x = mem t x" if "x \<in> heap_bytes s" "x \<notin> bytes_at p room" for x
    using k(11) that unfolding a(8) by blast
  have str: "cstr (mem s3) r w"
    by (rule cstr_frame [OF a(3)]) (rule eq3; use a(6) C_P in blast)
  have sub: "?C r \<union> bytes_at p room \<subseteq> heap_bytes s"
    using a(6) k(9) unfolding a(8) by blast
  have away: "\<forall>u \<in> set vs. (?C r \<union> bytes_at p room) \<inter> block_bytes u = {}"
    using a(4,7) k(10) by blast
  have kept: "\<forall>x \<in> heap_bytes s - ?C r - bytes_at p room. mem s3 x = mem s x"
    using eq3 a(9) by simp
  have T: "heap_table_bytes (length vs1 + Suc k) t = heap_table_bytes (length vs + Suc (Suc k)) s"
    using heap_onlyD(5) [OF a(11)] a(10) by simp
  note only = heap_only_trans [OF a(11) k(12) [unfolded T]]
  have n: "nat (sint (of_nat (length args) :: u32)) = length args"
    using k(8) by (intro nat_sint_of_nat) (simp add: room_def)
  have "after_word (after_spaces line) \<noteq> []"
  proof
    assume "after_word (after_spaces line) = []"
    moreover have "tokens [] = []" by (subst tokens_unfold) simp
    ultimately show False
      using args(1) unfolding args_def by (simp only: simp_thms)
  qed
  moreover have "v\<lparr>v_command := x, v_argc := y, v_argv := z\<rparr> = \<lparr>v_command = x, v_argc = y, v_argv = z\<rparr>" for x y z
    by (cases v) simp
  ultimately have result: "pars_input input v s = Some (\<lparr>v_command = r, v_argc = of_nat (length args), v_argv = p\<rparr>, s3)"
    using k(2) n unfolding a(12) k(3) by (simp only: if_False k(1) n) simp
  show thesis
    by (rule that [OF result str k(7) C_P sub away kept k(4) r_new(1) k(6) r_new(2) only k(8)]) (use a(10) k(13) in simp)
qed

lemma tokens_word:
  assumes "x \<noteq> []" "\<forall>c \<in> set x. c \<noteq> 32" "post = [] \<or> hd post = 32"
  shows "tokens (x @ post) = x # tokens post" "word_of (x @ post) = x" "after_word (x @ post) = post"
    "after_spaces (x @ post) = x @ post"
proof -
  have "takeWhile (\<lambda>c. c \<noteq> 32) post = []" "dropWhile (\<lambda>c. c \<noteq> 32) post = post"
    using assms(3) by (cases post; simp)+
  then show w: "word_of (x @ post) = x" "after_word (x @ post) = post"
    using assms(2) by (simp_all add: takeWhile_append2 dropWhile_append2)
  show s: "after_spaces (x @ post) = x @ post"
    using assms(1,2) by (cases x) simp_all
  show "tokens (x @ post) = x # tokens post"
    using assms(1) by (subst tokens_unfold) (simp only: s w, simp)
qed

lemma after_word_space: "after_word cs = [] \<or> hd (after_word cs) = 32"
  using hd_dropWhile [of "\<lambda>c. c \<noteq> 32" cs] by auto

text \<open>A line in the first block of the heap of \<open>two_blocks\<close>.\<close>

definition with_line :: "u8 list \<Rightarrow> kernel" where
  "with_line l = two_blocks\<lparr>mem := \<lambda>x. if x \<in> bytes_at 0x80020000 (Suc (length l))
     then (l @ [0]) ! unat (x - 0x80020000) else mem two_blocks x\<rparr>"

lemma with_line_ok:
  assumes "length l < 16" "0 \<notin> set l"
  shows "line_in (with_line l) the_two_blocks 0x80020000 l"
    "k \<le> 8 \<Longrightarrow> n \<le> 0x9000 \<Longrightarrow> heap_space k n (with_line l) the_two_blocks"
proof -
  have "unat (of_nat i :: u32) = i" if "i \<le> length l" for i
    using that assms(1) by (intro unat_of_nat_small) simp
  then have "cstr (mem (with_line l)) 0x80020000 l"
    using assms by (simp add: cstr_def with_line_def bytes_at_def nth_append)
  then show "line_in (with_line l) the_two_blocks 0x80020000 l"
    using assms(1) by (auto simp: line_in_def)
  have apart: "heap_table_bytes (2 + 8) two_blocks \<inter> heap_bytes two_blocks = {}"
    by (auto simp: heap_ptr_def bytes_at_nowrap)
  have sub: "heap_table_bytes (2 + k) two_blocks \<subseteq> heap_table_bytes (2 + 8) two_blocks" if "k \<le> 8" for k
    using that by (intro bytes_at_mono) simp
  have "heap_space k n two_blocks the_two_blocks" if "k \<le> 8" "n \<le> 0x9000" for k n
    unfolding heap_space_def using two_blocks_ok that apart sub [OF that(1)]
    by (auto simp: heap_room_def heap_ptr_def)
  moreover have "bytes_at 0x80020000 (Suc (length l)) \<subseteq> heap_bytes two_blocks"
    using assms(1) by (auto simp: bytes_at_nowrap)
  ultimately show "k \<le> 8 \<Longrightarrow> n \<le> 0x9000 \<Longrightarrow> heap_space k n (with_line l) the_two_blocks"
    unfolding with_line_def by (intro heap_space_write(1)) auto
qed

section \<open>Properties of the parser of lines\<close>

text \<open>
  C8: a line of the heap that does not start with a space and has at least two words is split at its spaces: on a heap with
  room for both blocks \<open>pars_input\<close> returns with the first word as the command and the others, in
  order, as the vector of arguments, each a string of its own. The two blocks lie in the heap, apart
  from each other and from every block granted before, and no other byte of the heap changes. (A line that starts with
  a space, or has no argument, is parsed wrongly: \<open>pars_input_leading_spaces\<close>, \<open>pars_input_keeps_old_arguments\<close>.)
\<close>

theorem pars_input_splits_line:
  assumes "tokens line = w # args" and "args \<noteq> []" and "hd line \<noteq> 32"
    and "heap_space 2 (Suc (length w) + (4 * length args + args_size args)) s vs" and "line_in s vs input line"
  shows "\<exists>r p s'. pars_input input v s = Some (\<lparr>v_command = r, v_argc = of_nat (length args), v_argv = p\<rparr>, s')
    \<and> cstr (mem s') r w \<and> args_at (mem s') p 0 (4 * length args) args
    \<and> bytes_at r (Suc (length w)) \<inter> bytes_at p (4 * length args + args_size args) = {}
    \<and> bytes_at r (Suc (length w)) \<union> bytes_at p (4 * length args + args_size args) \<subseteq> heap_bytes s
    \<and> (\<forall>u \<in> set vs. (bytes_at r (Suc (length w)) \<union> bytes_at p (4 * length args + args_size args)) \<inter> block_bytes u = {})
    \<and> (\<forall>x \<in> heap_bytes s - bytes_at r (Suc (length w)) - bytes_at p (4 * length args + args_size args). mem s' x = mem s x)"
proof -
  have ne: "line \<noteq> []"
    using assms(1) by (auto simp: tokens_unfold [of "[]"])
  then have sp: "after_spaces line = line"
    using assms(3) by (cases line) simp_all
  then have w: "word_of line = w" "tokens (after_word line) = args"
    using assms(1) ne by (simp_all add: tokens_unfold [of line])
  have "line = w @ after_word line"
    using takeWhile_dropWhile_id [of "\<lambda>c. c \<noteq> 32" line] unfolding w(1) by simp
  then have "drop (length w) line = after_word line"
    by (metis append_eq_conv_conj)
  then have c: "take (length args) (tokens (drop (length w) line)) = args"
    using w(2) by simp
  have room: "heap_space (Suc (Suc 0)) (Suc (length w) + (4 * length args + args_size args + 0)) s vs"
    using assms(4) by (simp only: numeral_2_eq_2 add_0_right)
  show ?thesis
    by (rule pars_input_arguments [of 0 line 0 s vs input v, unfolded sp w c, OF room assms(5,2) order_refl])
      (intro exI conjI, assumption+)
qed

text \<open>The line \<open>pd 7\<close>.\<close>

theorem pars_input_splits_line_witness:
  "\<exists>r p s'. pars_input 0x80020000 \<lparr>v_command = 0, v_argc = 0, v_argv = 0\<rparr> (with_line [112, 100, 32, 55]) = Some (\<lparr>v_command = r, v_argc = 1, v_argv = p\<rparr>, s')
    \<and> cstr (mem s') r [112, 100] \<and> args_at (mem s') p 0 4 [[55]]"
proof -
  have t: "tokens [112, 100, 32, 55] = [112, 100] # [[55]]"
    by (simp add: tokens_unfold)
  have ok: "heap_space 2 (Suc (length [112 :: u8, 100]) + (4 * length [[55 :: u8]] + args_size [[55 :: u8]])) (with_line [112, 100, 32, 55])
      the_two_blocks" "line_in (with_line [112, 100, 32, 55]) the_two_blocks 0x80020000 [112, 100, 32, 55]"
    by (rule with_line_ok; simp)+
  from pars_input_splits_line [OF t _ _ ok, of "\<lparr>v_command = 0, v_argc = 0, v_argv = 0\<rparr>"] show ?thesis
    by (auto simp del: args_at.simps)
qed

text \<open>
  A command without arguments leaves \<open>argc\<close> and \<open>argv\<close> of the line before, whose block the shell
  has freed already, and keeps the block of the line.
\<close>

theorem pars_input_keeps_old_arguments:
  assumes "line \<noteq> []" and "32 \<notin> set line" and "heap_space 1 (Suc (length line)) s vs" and "line_in s vs input line"
  shows "\<exists>r s' vs'. pars_input input v s = Some (v\<lparr>v_command := r\<rparr>, s') \<and> cstr (mem s') r line
    \<and> heap_regions s' vs' \<and> set vs' = insert (r, of_nat (Suc (length line))) (set vs)"
proof -
  have "hd line \<noteq> 32" using assms(1,2) by (cases line) auto
  then have l: "after_spaces line = line" "word_of line = line" "after_word line = []"
    using assms(1,2) by (cases line; auto simp: takeWhile_eq_all_conv)+
  have sp: "heap_space (Suc 0) (Suc (length (word_of (after_spaces line))) + 0) s vs"
    using assms(3) by (simp only: l One_nat_def add_0_right)
  show ?thesis
    by (rule pars_input_cases [OF sp assms(4), of v, unfolded l])
      (simp only: heap_space_def if_True simp_thms, blast)
qed

text \<open>The line \<open>help\<close> after a line with one argument at \<open>0x80020100\<close>.\<close>

theorem pars_input_keeps_old_arguments_witness:
  "\<exists>r s'. pars_input 0x80020000 \<lparr>v_command = 0, v_argc = 1, v_argv = 0x80020100\<rparr> (with_line [104, 101, 108, 112])
      = Some (\<lparr>v_command = r, v_argc = 1, v_argv = 0x80020100\<rparr>, s') \<and> cstr (mem s') r [104, 101, 108, 112]"
proof -
  have ok: "heap_space 1 (Suc (length [104 :: u8, 101, 108, 112])) (with_line [104, 101, 108, 112]) the_two_blocks"
    "line_in (with_line [104, 101, 108, 112]) the_two_blocks 0x80020000 [104, 101, 108, 112]"
    by (rule with_line_ok; simp)+
  from pars_input_keeps_old_arguments [OF _ _ ok, of "\<lparr>v_command = 0, v_argc = 1, v_argv = 0x80020100\<rparr>"] show ?thesis
    by auto
qed

text \<open>
  After leading spaces the arguments are read from the wrong place: the copying starts at the
  length of the command instead of its end. With \<open>q\<close> leading spaces, no more than the command has
  characters, the first argument is the last \<open>q\<close> characters of the command, and the last argument is
  lost. The hypothesis on the sizes excludes the lines for which the copy also leaves its block.
\<close>

theorem pars_input_leading_spaces:
  assumes "line = replicate q 32 @ w @ post" and "32 \<notin> set w" and "post \<noteq> []" and "hd post = 32"
    and "0 < q" and "q \<le> length w" and "tokens post = args @ [z]" and "Suc q + args_size args \<le> args_size (args @ [z])"
    and "heap_space 2 (Suc (length w) + (4 * length (tokens post) + args_size (tokens post))) s vs" and "line_in s vs input line"
  shows "\<exists>r p s'. pars_input input v s = Some (\<lparr>v_command = r, v_argc = of_nat (length (tokens post)), v_argv = p\<rparr>, s')
    \<and> cstr (mem s') r w \<and> args_at (mem s') p 0 (4 * length (tokens post)) (drop (length w - q) w # args)"
proof -
  have ne: "w \<noteq> []" using assms(5,6) by auto
  have w32: "\<forall>c \<in> set w. c \<noteq> 32" "\<forall>c \<in> set (drop (length w - q) w). c \<noteq> 32"
    using assms(2) set_drop_subset [of "length w - q" w] by auto
  have "after_spaces line = after_spaces (w @ post)"
    unfolding assms(1) by (induction q) simp_all
  then have sp: "after_spaces line = w @ post" "word_of (w @ post) = w" "after_word (w @ post) = post"
    using tokens_word [OF ne w32(1)] assms(4) by simp_all
  have "drop (length w) line = drop (length w - q) w @ post"
    using assms(6) by (simp add: assms(1))
  moreover have "drop (length w - q) w \<noteq> []"
    using assms(5,6) by simp
  ultimately have "tokens (drop (length w) line) = drop (length w - q) w # args @ [z]"
    using tokens_word(1) [OF _ w32(2), of post] assms(4,7) by simp
  then have c: "take (length (tokens post)) (tokens (drop (length w) line)) = drop (length w - q) w # args"
    using assms(7) by simp
  have len: "args_size (drop (length w - q) w # args) \<le> args_size (tokens post)"
    using assms(6,7,8) by simp
  have room: "heap_space (Suc (Suc 0)) (Suc (length w) + (4 * length (tokens post) + args_size (tokens post) + 0)) s vs"
    using assms(9) by (simp only: numeral_2_eq_2 add_0_right)
  have some: "tokens post \<noteq> []" using assms(7) by simp
  show ?thesis
    by (rule pars_input_arguments [of 0 line 0 s vs input v, unfolded sp c, OF room assms(10) some len])
      (intro exI conjI, assumption+)
qed

text \<open>The line \<open> pd 700\<close> (with a space before the command): the argument is \<open>d\<close>.\<close>

theorem pars_input_leading_spaces_witness:
  "\<exists>r p s'. pars_input 0x80020000 \<lparr>v_command = 0, v_argc = 0, v_argv = 0\<rparr> (with_line [32, 112, 100, 32, 55, 48, 48]) = Some (\<lparr>v_command = r, v_argc = 1, v_argv = p\<rparr>, s')
    \<and> cstr (mem s') r [112, 100] \<and> args_at (mem s') p 0 4 [[100]]"
proof -
  let ?l = "[32, 112, 100, 32, 55, 48, 48] :: u8 list"
  have t: "tokens [32, 55, 48, 48] = [] @ [[55, 48, 48]]"
    by (simp add: tokens_unfold)
  have l: "?l = replicate 1 32 @ [112, 100] @ [32, 55, 48, 48]" by simp
  have ok: "heap_space 2 (Suc (length [112 :: u8, 100]) + (4 * length (tokens [32, 55, 48, 48]) + args_size (tokens [32, 55, 48, 48])))
      (with_line ?l) the_two_blocks" "line_in (with_line ?l) the_two_blocks 0x80020000 ?l"
    by (rule with_line_ok; simp add: t)+
  from pars_input_leading_spaces [OF l _ _ _ _ _ t _ ok, of "\<lparr>v_command = 0, v_argc = 0, v_argv = 0\<rparr>"] show ?thesis
    by (auto simp: t simp del: args_at.simps)
qed

end
