(* ===== verification/LineInput.thy ===== *)
theory LineInput
  imports CommandLine
begin

text \<open>
  \<open>in_string\<close> of \<open>tty.c\<close>: the reading of a line with echo and backspace, into a buffer of the heap that
  doubles when it is full. The line that is typed and the screen that shows it are functions of the
  stream of scan codes (\<open>edit\<close>). The main result: on a sound heap with room for the buffers, and with
  keys that come in no faster than they are read, \<open>in_string\<close> returns that line and shows that screen.
\<close>

section \<open>The line that is typed\<close>

text \<open>A step back of the cursor; before the first cell the position wraps around, and the screen scrolls.\<close>

definition step_back :: "screen \<Rightarrow> screen" where
  "step_back sc = go (if sc_pos sc = 0 then sc_width sc * sc_height sc else sc_pos sc - 1) sc"

definition rub_out :: "screen \<Rightarrow> screen" where
  "rub_out sc = step_back (put_char 0 (step_back sc))"

lemma decode_shorter:
  "decode shift xs = Some (c, rest) \<Longrightarrow> length rest < length xs \<and> c \<noteq> 0"
  by (induction shift xs rule: decode.induct) (auto split: option.splits if_splits)

text \<open>The line, the screen and the codes left when the newline has been read; \<open>None\<close> if it does not come.\<close>

function edit :: "u8 list \<Rightarrow> screen \<Rightarrow> u8 list \<Rightarrow> (u8 list \<times> screen \<times> u8 list) option" where
  "edit line sc codes =
     (case decode False codes of
        None \<Rightarrow> None
      | Some (c, rest) \<Rightarrow>
          if c = 10 then Some (line, put_char 10 sc, rest)
          else if c = 8 then (if line = [] then edit line sc rest else edit (butlast line) (rub_out sc) rest)
          else edit (line @ [c]) (put_char c sc) rest)"
  by pat_completeness auto

termination
  by (relation "measure (\<lambda>(_, _, codes). length codes)") (auto dest: decode_shorter)

declare edit.simps [simp del]

lemma edit_codes_left: "edit line sc codes = Some (l, sc', rest) \<Longrightarrow> codes \<noteq> []"
  by (cases codes) (simp_all add: edit.simps)

lemma edit_cases:
  assumes "edit line sc codes = Some (l, sc', rest)"
  obtains (newline) "decode False codes = Some (10, rest)" "l = line" "sc' = put_char 10 sc"
    | (start) r where "decode False codes = Some (8, r)" "length r < length codes" "line = []" "edit line sc r = Some (l, sc', rest)"
    | (rub) r where "decode False codes = Some (8, r)" "length r < length codes" "line \<noteq> []"
        "edit (butlast line) (rub_out sc) r = Some (l, sc', rest)"
    | (char) c r where "decode False codes = Some (c, r)" "length r < length codes" "c \<noteq> 0" "c \<noteq> 8" "c \<noteq> 10"
        "edit (line @ [c]) (put_char c sc) r = Some (l, sc', rest)"
proof -
  obtain c r where cr: "decode False codes = Some (c, r)" "length r < length codes" "c \<noteq> 0"
    using assms decode_shorter by (subst (asm) edit.simps) (fastforce split: option.splits)
  note e = assms [unfolded edit.simps [of line sc codes] cr(1) option.case prod.case]
  consider "c = 10" | "c = 8" "line = []" | "c = 8" "line \<noteq> []" | "c \<noteq> 8" "c \<noteq> 10" by blast
  then show thesis
  proof cases
    case 1
    then show thesis using e cr newline by simp
  next
    case 2
    then show thesis using e cr start [of r] by simp
  next
    case 3
    then show thesis using e cr rub [of r] by simp
  next
    case 4
    then show thesis using e cr char [of c r] by simp
  qed
qed

lemma back_screen:
  assumes "tty_ok s"
  defines "s' \<equiv> move_cursor (cursor (tty_state s) - 1) s"
  shows "tty_ok s'" "screen_of s' = step_back (screen_of s)" "rest_of s' = rest_of s"
proof -
  let ?c = "cursor (tty_state s)"
  have geo: "tty_geometry s" using assms(1) by (simp add: tty_ok_def)
  note m = move_cursor_screen [OF geo, of "?c - 1"]
  show "tty_ok s'" "rest_of s' = rest_of s"
    using m by (simp_all add: s'_def)
  have small: "scr_size s < 2 ^ 32"
    using tty_words(4) [OF geo] by linarith
  have sc: "sc_pos (screen_of s) = unat ?c" "sc_width (screen_of s) * sc_height (screen_of s) = scr_size s"
    by (simp_all add: screen_of_def)
  show "screen_of s' = step_back (screen_of s)"
  proof (cases "?c = 0")
    case True
    have "unat (?c - 1) = 2 ^ 32 - 1"
      using True unat_minus_one_32 by simp
    then have "scr_size s \<le> unat (?c - 1)"
      using small by linarith
    then have "go (unat (?c - 1)) (screen_of s) = go (scr_size s) (screen_of s)"
      unfolding go_def sc(2) by simp
    then show ?thesis
      using m(2) True unfolding s'_def step_back_def sc by simp
  next
    case False
    then have "unat (?c - 1) = unat ?c - 1" "unat ?c \<noteq> 0"
      using unat_minus_one [of ?c] by (simp_all add: unat_eq_0)
    then show ?thesis
      using m(2) unfolding s'_def step_back_def sc by simp
  qed
qed

section \<open>Moving a block\<close>

text \<open>A block moves to a larger one: a request, a copy and the release of the old block.\<close>

lemma heap_move_block:
  fixes n :: nat
  assumes sp: "heap_space (Suc k) (n + rest) s vs" and blk: "(p, l) \<in> set vs" "unat l \<le> n"
  obtains r s1 b s' vs' where "kmalloc (of_nat n) s = Some (r, s1)"
    "kfree p (s1\<lparr>mem := memcpy r p l (mem s1)\<rparr>) = (b, s')" "heap_space k rest s' vs'" "(r, of_nat n) \<in> set vs'"
    "\<forall>(q, z) \<in> set vs. q \<noteq> r \<and> (q \<noteq> p \<longrightarrow> (q, z) \<in> set vs')" "length vs' \<le> Suc (length vs)"
    "\<forall>v \<in> set vs. bytes_at r n \<inter> block_bytes v = {}" "same_setup s s'" "tty_state s' = tty_state s" "kbd s' = kbd s"
    "\<forall>i < unat l. mem s' (r + of_nat i) = mem s (p + of_nat i)"
    "\<forall>x \<in> heap_bytes s. x \<notin> bytes_at r n \<longrightarrow> mem s' x = mem s x"
    "\<forall>x. x \<notin> heap_bytes s \<longrightarrow> x \<notin> heap_table_bytes (length vs + Suc k) s \<longrightarrow> mem s' x = mem s x"
proof -
  have reg: "heap_regions s vs" using sp by (simp add: heap_space_def)
  note pb = block_in_heap [OF reg blk(1)]
  have "0 < unat l" using reg blk(1) by (auto simp: heap_regions_def word_less_nat_alt)
  then have n: "0 < n" using blk(2) by simp
  obtain r s1 vs1 where a: "kmalloc (of_nat n) s = Some (r, s1)" "heap_space k rest s1 vs1"
      "set vs1 = insert (r, of_nat n) (set vs)" "unat r + n < 2 ^ 32" "bytes_at r n \<subseteq> heap_bytes s"
      "\<forall>v \<in> set vs. bytes_at r n \<inter> block_bytes v = {}" "heap_bytes s1 = heap_bytes s"
      "\<forall>x \<in> heap_bytes s. mem s1 x = mem s x" "length vs1 = Suc (length vs)" "heap_step (length vs + 2) s s1"
    by (rule heap_space_alloc [OF sp n]) auto
  define m where "m = memcpy r p l (mem s1)"
  let ?s2 = "s1\<lparr>mem := m\<rparr>"
  have mv: "m = moved r p 0 (unat l) (mem s1)"
    unfolding m_def using pb(3) a(4) blk(2) by (intro memcpy_moved) simp_all
  have "bytes_at r (unat l) \<subseteq> bytes_at r n"
    using blk(2) by (rule bytes_at_mono)
  then have other: "m x = mem s1 x" if "x \<notin> bytes_at r n" for x
    unfolding mv using moved_other that by blast
  then have "\<forall>x. x \<notin> heap_bytes s1 \<longrightarrow> m x = mem s1 x"
    using a(5,7) by blast
  note w = heap_space_write [OF a(2) this]
  have "vs1 \<noteq> []" using a(9) by auto
  obtain b s' vs' where f: "kfree p ?s2 = (b, s')" "heap_space k rest s' vs'" "\<forall>(q, l) \<in> set vs1. q \<noteq> p \<longrightarrow> (q, l) \<in> set vs'"
      "\<forall>x \<in> heap_bytes ?s2. mem s' x = mem ?s2 x" "length vs' \<le> length vs1" "heap_step (length vs1) ?s2 s'"
    by (rule heap_space_free [OF w(1) \<open>vs1 \<noteq> []\<close>]) auto
  have in_heap: "mem s' x = m x" if "x \<in> heap_bytes s" for x
    using bspec [OF f(4), of x] that unfolding w(2) a(7) by simp
  have "r \<in> bytes_at r n" using n by (simp add: bytes_at_def)
  then have apart: "q \<noteq> r" if "(q, z) \<in> set vs" for q z
    using block_base_unique(2) [OF reg that that] a(6) that by blast
  have "mem s' (r + of_nat i) = mem s (p + of_nat i)" if i: "i < unat l" for i
  proof -
    have u: "unat (of_nat i :: u32) = i"
      using less_trans [OF i unat_less_32] by (intro unat_of_nat_small) simp
    have "r + of_nat i \<in> bytes_at r n" "p + of_nat i \<in> block_bytes (p, l)"
      using i blk(2) pb(3) block_bytes_eq [of p l] by (simp_all add: bytes_at_def u)
    then have "r + of_nat i \<in> heap_bytes s" "p + of_nat i \<in> heap_bytes s"
      using a(5) pb(1) by blast+
    moreover have "m (r + of_nat i) = mem s1 (p + of_nat i)"
      unfolding mv using less_imp_le [OF unat_less_32 [of l]] by (intro moved_dest [OF i]) simp
    ultimately show ?thesis
      using in_heap a(8) by metis
  qed
  moreover have "mem s' x = mem s x" if "x \<notin> heap_bytes s" "x \<notin> heap_table_bytes (length vs + Suc k) s" for x
  proof -
    have ptr2: "heap_ptr ?s2 = heap_ptr s"
      using heap_step_fields(1) [OF a(10)] by (simp add: heap_ptr_def)
    have x: "x \<notin> bytes_at (heap_ptr s) (8 * i)" if "i \<le> length vs + 2" for i
      using bytes_at_mono [of "8 * i" "8 * (length vs + Suc k + 2)" "heap_ptr s"] that \<open>x \<notin> heap_table_bytes _ s\<close> by auto
    have "mem s' x = m x"
      using heap_step_fields(7) [OF f(6), of x] x [of "length vs1"] a(9) unfolding ptr2 by simp
    then show ?thesis
      using other [of x] a(5) that(1) heap_step_fields(7) [OF a(10) x] by auto
  qed
  moreover have "same_setup s s'"
    using same_setup_trans [OF same_setup_step [OF a(10)] same_setup_trans [OF same_setup_mem same_setup_step [OF f(6)]]] .
  moreover have "tty_state s' = tty_state s" "kbd s' = kbd s"
    using heap_step_fields(12,13) [OF f(6)] heap_step_fields(12,13) [OF a(10)] by simp_all
  moreover have "(r, of_nat n) \<in> set vs'" "\<forall>(q, z) \<in> set vs. q \<noteq> r \<and> (q \<noteq> p \<longrightarrow> (q, z) \<in> set vs')"
    using f(3) a(3) apart blk(1) by auto
  moreover have "\<forall>x \<in> heap_bytes s. x \<notin> bytes_at r n \<longrightarrow> mem s' x = mem s x"
    using in_heap other a(8) by simp
  ultimately show thesis
    using that [OF a(1) f(1) [unfolded m_def] f(2)] f(5) a(6,9) by simp
qed

section \<open>The buffer\<close>

text \<open>
  The buffer has doubled \<open>j\<close> times, of \<open>g\<close> times for which the heap has room, beside \<open>ex\<close> blocks of \<open>nx\<close> bytes. It holds the line, apart
  from the blocks \<open>W\<close>, which keep their bytes of \<open>m0\<close>; outside the heap, its table \<open>T\<close> and the screen,
  memory is as in \<open>m0\<close>.
\<close>

abbreviation buffer_size :: "nat \<Rightarrow> nat" where "buffer_size j \<equiv> 16 * 2 ^ j"
abbreviation buffer_rest :: "nat \<Rightarrow> nat \<Rightarrow> nat" where "buffer_rest g j \<equiv> 16 * (2 ^ Suc g - 2 ^ Suc j)"

definition buffer_in :: "nat \<Rightarrow> nat \<Rightarrow> nat \<Rightarrow> run set \<Rightarrow> mem \<Rightarrow> u32 set \<Rightarrow> nat \<Rightarrow> u32 \<Rightarrow> kernel \<Rightarrow> run list \<Rightarrow> bool" where
  "buffer_in g ex nx W m0 T j buffer s vs \<longleftrightarrow>
     heap_space (g - j + ex) (buffer_rest g j + nx) s vs \<and> j \<le> g \<and> buffer_size g < 2 ^ 32 \<and> (buffer, of_nat (buffer_size j)) \<in> set vs
     \<and> heap_table_bytes (length vs + (g - j + ex)) s \<subseteq> T \<and> screen_bytes s \<inter> (heap_bytes s \<union> T) = {}
     \<and> (\<forall>v \<in> W. v \<in> set vs \<and> fst v \<noteq> buffer \<and> (\<forall>x \<in> block_bytes v. mem s x = m0 x))
     \<and> (\<forall>x. x \<notin> screen_bytes s \<longrightarrow> x \<notin> heap_bytes s \<longrightarrow> x \<notin> T \<longrightarrow> mem s x = m0 x)"

definition typed :: "nat \<Rightarrow> nat \<Rightarrow> nat \<Rightarrow> run set \<Rightarrow> mem \<Rightarrow> u32 set \<Rightarrow> nat \<Rightarrow> u32 \<Rightarrow> u8 list \<Rightarrow> kernel \<Rightarrow> bool" where
  "typed g ex nx W m0 T j buffer line s \<longleftrightarrow> (\<exists>vs. buffer_in g ex nx W m0 T j buffer s vs)
     \<and> length line < buffer_size j \<and> 0 \<notin> set line \<and> (\<forall>i < length line. mem s (buffer + of_nat i) = line ! i)"

lemma buffer_inD:
  assumes "buffer_in g ex nx W m0 T j buffer s vs"
  shows "heap_space (g - j + ex) (buffer_rest g j + nx) s vs" "j \<le> g" "buffer_size g < 2 ^ 32" "(buffer, of_nat (buffer_size j)) \<in> set vs"
    "heap_table_bytes (length vs + (g - j + ex)) s \<subseteq> T" "screen_bytes s \<inter> heap_bytes s = {}" "screen_bytes s \<inter> T = {}"
    "\<forall>v \<in> W. v \<in> set vs \<and> fst v \<noteq> buffer \<and> (\<forall>x \<in> block_bytes v. mem s x = m0 x)"
    "\<forall>x. x \<notin> screen_bytes s \<longrightarrow> x \<notin> heap_bytes s \<longrightarrow> x \<notin> T \<longrightarrow> mem s x = m0 x"
    "heap_regions s vs" "buffer_size j < 2 ^ 32" "heap_table_bytes (length vs + (g - j + ex)) s \<inter> heap_bytes s = {}"
proof -
  note d = assms [unfolded buffer_in_def]
  from d show sp: "heap_space (g - j + ex) (buffer_rest g j + nx) s vs" and le: "j \<le> g" "buffer_size g < 2 ^ 32" by blast+
  from d show "(buffer, of_nat (buffer_size j)) \<in> set vs" "heap_table_bytes (length vs + (g - j + ex)) s \<subseteq> T"
    "screen_bytes s \<inter> heap_bytes s = {}" "screen_bytes s \<inter> T = {}"
    "\<forall>v \<in> W. v \<in> set vs \<and> fst v \<noteq> buffer \<and> (\<forall>x \<in> block_bytes v. mem s x = m0 x)"
    "\<forall>x. x \<notin> screen_bytes s \<longrightarrow> x \<notin> heap_bytes s \<longrightarrow> x \<notin> T \<longrightarrow> mem s x = m0 x" by blast+
  from sp show "heap_regions s vs" "heap_table_bytes (length vs + (g - j + ex)) s \<inter> heap_bytes s = {}"
    unfolding heap_space_def by blast+
  have "buffer_size j \<le> buffer_size g"
    using le(1) by (simp add: power_increasing)
  with le(2) show "buffer_size j < 2 ^ 32" by (rule le_less_trans [rotated])
qed

lemma buffer_block:
  assumes "buffer_in g ex nx W m0 T j buffer s vs"
  shows "unat buffer + buffer_size j < 2 ^ 32" "bytes_at buffer (buffer_size j) \<subseteq> heap_bytes s"
    "block_bytes (buffer, of_nat (buffer_size j)) = bytes_at buffer (buffer_size j)"
    "\<And>v. v \<in> W \<Longrightarrow> block_bytes v \<inter> bytes_at buffer (buffer_size j) = {}"
    "\<And>i. i < buffer_size j \<Longrightarrow> buffer + of_nat i \<in> bytes_at buffer (buffer_size j)"
proof -
  note d = buffer_inD [OF assms]
  have u: "unat (of_nat (buffer_size j) :: u32) = buffer_size j"
    by (rule unat_of_nat_small [OF d(11)])
  note blk = block_in_heap [OF d(10,4), unfolded u]
  show eq: "block_bytes (buffer, of_nat (buffer_size j)) = bytes_at buffer (buffer_size j)"
    using block_bytes_eq [of buffer "of_nat (buffer_size j)"] less_imp_le [OF blk(3)] unfolding u .
  show "unat buffer + buffer_size j < 2 ^ 32" "bytes_at buffer (buffer_size j) \<subseteq> heap_bytes s"
    using blk(3,1) unfolding eq .
  show "block_bytes v \<inter> bytes_at buffer (buffer_size j) = {}" if "v \<in> W" for v
  proof -
    have "v \<in> set vs" "v \<noteq> (buffer, of_nat (buffer_size j))"
      using d(8) that by auto
    then show ?thesis
      using blocks_disjoint [OF d(10) _ d(4)] unfolding eq by blast
  qed
  show "buffer + of_nat i \<in> bytes_at buffer (buffer_size j)" if "i < buffer_size j" for i
    using unat_of_nat_small [OF less_trans [OF that d(11)]] that by (simp add: bytes_at_def)
qed

text \<open>Changes of the keys or of the screen do no harm.\<close>

lemma buffer_in_frame:
  assumes "buffer_in g ex nx W m0 T j buffer s vs" "heap_state s' = heap_state s" "screen_bytes s' = screen_bytes s"
    and "\<forall>x. x \<notin> screen_bytes s \<longrightarrow> mem s' x = mem s x"
  shows "buffer_in g ex nx W m0 T j buffer s' vs"
proof -
  note d = buffer_inD [OF assms(1)]
  have tab: "bytes_at (heap_ptr s) (8 * length vs) \<subseteq> T"
    using order_trans [OF bytes_at_mono d(5)] by simp
  then have "\<forall>x \<in> bytes_at (heap_ptr s) (8 * length vs). mem s' x = mem s x"
    using d(7) assms(4) by blast
  note c = heap_space_cong [OF d(1) assms(2) this]
  have W: "\<forall>v \<in> W. v \<in> set vs \<and> fst v \<noteq> buffer \<and> (\<forall>x \<in> block_bytes v. mem s' x = m0 x)"
  proof (intro ballI conjI)
    fix v x assume v: "v \<in> W"
    then show "v \<in> set vs" "fst v \<noteq> buffer" using d(8) by blast+
    assume x: "x \<in> block_bytes v"
    then have "x \<in> heap_bytes s"
      using block_in_heap(1) [OF d(10), of "fst v" "snd v"] \<open>v \<in> set vs\<close> by auto
    then show "mem s' x = m0 x"
      using d(6,8) assms(4) v x by (metis disjoint_iff)
  qed
  have "\<forall>x. x \<notin> screen_bytes s \<longrightarrow> x \<notin> heap_bytes s \<longrightarrow> x \<notin> T \<longrightarrow> mem s' x = m0 x"
    using d(9) assms(4) by metis
  then show ?thesis
    unfolding buffer_in_def assms(3) c(2,3) using c(1) W d(2-7) by blast
qed

lemma typed_frame:
  assumes "typed g ex nx W m0 T j buffer line s" "heap_state s' = heap_state s" "screen_bytes s' = screen_bytes s"
    and "\<forall>x. x \<notin> screen_bytes s \<longrightarrow> mem s' x = mem s x"
  shows "typed g ex nx W m0 T j buffer line s'"
proof -
  obtain vs where vs: "buffer_in g ex nx W m0 T j buffer s vs" "length line < buffer_size j" "0 \<notin> set line"
      "\<forall>i < length line. mem s (buffer + of_nat i) = line ! i"
    using assms(1) by (auto simp: typed_def)
  have "mem s' (buffer + of_nat i) = line ! i" if "i < length line" for i
  proof -
    have "buffer + of_nat i \<notin> screen_bytes s"
      using buffer_block(2,5) [OF vs(1)] buffer_inD(6) [OF vs(1)] that vs(2) by (meson disjoint_iff less_trans subsetD)
    then show ?thesis using assms(4) vs(4) that by simp
  qed
  then show ?thesis
    using buffer_in_frame [OF vs(1) assms(2-4)] vs(2,3) unfolding typed_def by blast
qed

text \<open>A byte is put into the buffer.\<close>

lemma buffer_in_write:
  assumes "buffer_in g ex nx W m0 T j buffer s vs" "\<forall>x. x \<notin> bytes_at buffer (buffer_size j) \<longrightarrow> m x = mem s x"
  shows "buffer_in g ex nx W m0 T j buffer (s\<lparr>mem := m\<rparr>) vs"
proof -
  note d = buffer_inD [OF assms(1)] and b = buffer_block [OF assms(1)]
  have "\<forall>x. x \<notin> heap_bytes s \<longrightarrow> m x = mem s x"
    using b(2) assms(2) by blast
  note w = heap_space_write [OF d(1) this]
  have scr: "screen_bytes (s\<lparr>mem := m\<rparr>) = screen_bytes s" "heap_ptr (s\<lparr>mem := m\<rparr>) = heap_ptr s" "mem (s\<lparr>mem := m\<rparr>) = m"
    by (simp_all add: screen_bytes_def heap_ptr_def)
  have W: "\<forall>v \<in> W. v \<in> set vs \<and> fst v \<noteq> buffer \<and> (\<forall>x \<in> block_bytes v. m x = m0 x)"
  proof (intro ballI conjI)
    fix v x assume v: "v \<in> W"
    then show "v \<in> set vs" "fst v \<noteq> buffer" using d(8) by blast+
    assume x: "x \<in> block_bytes v"
    then have "m x = mem s x"
      using b(4) [OF v] assms(2) by blast
    then show "m x = m0 x"
      using d(8) v x by simp
  qed
  have "\<forall>x. x \<notin> screen_bytes s \<longrightarrow> x \<notin> heap_bytes s \<longrightarrow> x \<notin> T \<longrightarrow> m x = m0 x"
    using d(9) b(2) assms(2) by (metis subsetD)
  then show ?thesis
    unfolding buffer_in_def scr w(2) using w(1) W d(2-7) by blast
qed

lemma typed_store:
  assumes "typed g ex nx W m0 T j buffer line s" "Suc (length line) < buffer_size j" "c \<noteq> 0" "tty_ok s"
  defines "s' \<equiv> s\<lparr>mem := store8 (buffer + of_nat (length line)) c (mem s)\<rparr>"
  shows "typed g ex nx W m0 T j buffer (line @ [c]) s'" "screen_of s' = screen_of s" "tty_ok s'"
proof -
  obtain vs where vs: "buffer_in g ex nx W m0 T j buffer s vs" "0 \<notin> set line" "\<forall>i < length line. mem s (buffer + of_nat i) = line ! i"
    using assms(1) by (auto simp: typed_def)
  note b = buffer_block [OF vs(1)] and d = buffer_inD [OF vs(1)]
  let ?m = "store8 (buffer + of_nat (length line)) c (mem s)"
  have at: "buffer + of_nat (length line) \<in> bytes_at buffer (buffer_size j)"
    using assms(2) by (intro b(5)) simp
  have other: "\<forall>x. x \<notin> bytes_at buffer (buffer_size j) \<longrightarrow> ?m x = mem s x"
    using at by (auto simp: store8_def)
  have "?m (buffer + of_nat i) = (line @ [c]) ! i" if "i < Suc (length line)" for i
  proof -
    have "(buffer + of_nat i = buffer + of_nat (length line)) = (i = length line)"
      using that assms(2) d(11) of_nat_eq_iff_32 [of i "length line"] by simp
    then show ?thesis
      using vs(3) that by (auto simp: store8_def nth_append)
  qed
  then show "typed g ex nx W m0 T j buffer (line @ [c]) s'"
    using buffer_in_write [OF vs(1) other] vs(2) assms(2,3) unfolding typed_def s'_def by auto
  have "\<forall>x \<in> screen_bytes s. mem s' x = mem s x"
    using other b(2) d(6) unfolding s'_def by auto
  then show "screen_of s' = screen_of s" "tty_ok s'"
    using screen_cong [OF assms(4), of s'] by (simp_all add: s'_def)
qed

lemma typed_butlast: "typed g ex nx W m0 T j buffer line s \<Longrightarrow> typed g ex nx W m0 T j buffer (butlast line) s"
  by (auto simp: typed_def nth_butlast dest: in_set_butlastD)

text \<open>The buffer is full: the line moves to one of twice the size.\<close>

lemma buffer_in_double:
  assumes buf: "buffer_in g ex nx W m0 T j buffer s vs" and g: "j < g"
  obtains r s1 b s' vs' where "kmalloc (of_nat (buffer_size (Suc j))) s = Some (r, s1)"
    "kfree buffer (s1\<lparr>mem := memcpy r buffer (of_nat (buffer_size j)) (mem s1)\<rparr>) = (b, s')"
    "buffer_in g ex nx W m0 T (Suc j) r s' vs'" "same_setup s s'" "tty_state s' = tty_state s" "kbd s' = kbd s"
    "\<forall>i < buffer_size j. mem s' (r + of_nat i) = mem s (buffer + of_nat i)" "\<forall>x \<in> screen_bytes s. mem s' x = mem s x"
proof -
  note d = buffer_inD [OF buf]
  let ?D = "buffer_size (Suc j)"
  have k: "g - j = Suc (g - Suc j)" using g by simp
  have "2 ^ Suc (Suc j) \<le> (2 :: nat) ^ Suc g"
    using g by (intro power_increasing) simp_all
  then have "buffer_rest g j = ?D + buffer_rest g (Suc j)" by simp
  with d(1) have sp: "heap_space (Suc (g - Suc j + ex)) (?D + (buffer_rest g (Suc j) + nx)) s vs"
    unfolding k by (simp add: add.assoc)
  have u: "unat (of_nat (buffer_size j) :: u32) = buffer_size j"
    by (rule unat_of_nat_small [OF d(11)])
  then have le: "unat (of_nat (buffer_size j) :: u32) \<le> ?D" by simp
  obtain r s1 b s' vs' where mv: "kmalloc (of_nat ?D) s = Some (r, s1)"
      "kfree buffer (s1\<lparr>mem := memcpy r buffer (of_nat (buffer_size j)) (mem s1)\<rparr>) = (b, s')"
      "heap_space (g - Suc j + ex) (buffer_rest g (Suc j) + nx) s' vs'" "(r, of_nat ?D) \<in> set vs'"
      "\<forall>(q, z) \<in> set vs. q \<noteq> r \<and> (q \<noteq> buffer \<longrightarrow> (q, z) \<in> set vs')" "length vs' \<le> Suc (length vs)"
      "\<forall>v \<in> set vs. bytes_at r ?D \<inter> block_bytes v = {}" "same_setup s s'" "tty_state s' = tty_state s" "kbd s' = kbd s"
      "\<forall>i < buffer_size j. mem s' (r + of_nat i) = mem s (buffer + of_nat i)"
      "\<forall>x \<in> heap_bytes s. x \<notin> bytes_at r ?D \<longrightarrow> mem s' x = mem s x"
      "\<forall>x. x \<notin> heap_bytes s \<longrightarrow> x \<notin> heap_table_bytes (length vs + Suc (g - Suc j + ex)) s \<longrightarrow> mem s' x = mem s x"
    by (rule heap_move_block [OF sp d(4) le, unfolded u])
  have hp: "heap_bytes s' = heap_bytes s" "heap_ptr s' = heap_ptr s" and scr: "screen_bytes s' = screen_bytes s"
    using mv(8) same_setup_screen [OF mv(8)] by (simp_all only: same_setup_def)
  have away: "mem s' x = mem s x" if "x \<notin> heap_bytes s" "x \<notin> T" for x
    using mv(13) that d(5) unfolding k add_Suc by blast
  have "heap_table_bytes (length vs' + (g - Suc j + ex)) s' \<subseteq> heap_table_bytes (length vs + (g - j + ex)) s"
    unfolding hp(2) k using mv(6) by (intro bytes_at_mono) simp
  then have tab: "heap_table_bytes (length vs' + (g - Suc j + ex)) s' \<subseteq> T" using d(5) by blast
  have W: "\<forall>v \<in> W. v \<in> set vs' \<and> fst v \<noteq> r \<and> (\<forall>x \<in> block_bytes v. mem s' x = m0 x)"
  proof
    fix v assume v: "v \<in> W"
    then have vv: "v \<in> set vs" "fst v \<noteq> buffer" "\<forall>x \<in> block_bytes v. mem s x = m0 x"
      using d(8) by blast+
    then have "\<forall>x \<in> block_bytes v. mem s' x = m0 x"
      using block_in_heap(1) [OF d(10), of "fst v" "snd v"] mv(7,12) by fastforce
    then show "v \<in> set vs' \<and> fst v \<noteq> r \<and> (\<forall>x \<in> block_bytes v. mem s' x = m0 x)"
      using mv(5) vv(1,2) by (cases v) auto
  qed
  have rest: "\<forall>x. x \<notin> screen_bytes s \<longrightarrow> x \<notin> heap_bytes s \<longrightarrow> x \<notin> T \<longrightarrow> mem s' x = m0 x"
    using away d(9) by metis
  have sc: "screen_bytes s \<inter> (heap_bytes s \<union> T) = {}"
    using d(6,7) by blast
  have "buffer_in g ex nx W m0 T (Suc j) r s' vs'"
    unfolding buffer_in_def hp(1) scr by (intro conjI) (fact mv(3) Suc_leI [OF g] sc d(3) mv(4) tab W rest)+
  moreover have "\<forall>x \<in> screen_bytes s. mem s' x = mem s x"
    using away d(6,7) by blast
  ultimately show thesis
    using that [OF mv(1,2) _ mv(8-11)] by blast
qed

lemma typed_grow:
  assumes "typed g ex nx W m0 T j buffer line s" "length line = buffer_size j - 1" "j < g" "tty_ok s"
  obtains b' s' where "in_string_grow buffer (of_nat (length line)) (of_nat (buffer_size j)) s = Some (b', of_nat (buffer_size (Suc j)), s')"
    "typed g ex nx W m0 T (Suc j) b' line s'" "same_setup s s'" "kbd s' = kbd s" "tty_ok s'" "screen_of s' = screen_of s"
proof -
  obtain vs where vs: "buffer_in g ex nx W m0 T j buffer s vs" "0 \<notin> set line" "\<forall>i < length line. mem s (buffer + of_nat i) = line ! i"
    using assms(1) by (auto simp: typed_def)
  obtain r s1 b s' vs' where d: "kmalloc (of_nat (buffer_size (Suc j))) s = Some (r, s1)"
    "kfree buffer (s1\<lparr>mem := memcpy r buffer (of_nat (buffer_size j)) (mem s1)\<rparr>) = (b, s')"
    "buffer_in g ex nx W m0 T (Suc j) r s' vs'" "same_setup s s'" "tty_state s' = tty_state s" "kbd s' = kbd s"
    "\<forall>i < buffer_size j. mem s' (r + of_nat i) = mem s (buffer + of_nat i)" "\<forall>x \<in> screen_bytes s. mem s' x = mem s x"
    by (rule buffer_in_double [OF vs(1) assms(3)])
  have two: "of_nat (buffer_size j) * 2 = (of_nat (buffer_size (Suc j)) :: u32)" by simp
  have "of_nat (length line) = (of_nat (buffer_size j) - 1 :: u32)"
    unfolding assms(2) by (simp add: of_nat_diff)
  then have "in_string_grow buffer (of_nat (length line)) (of_nat (buffer_size j)) s = Some (r, of_nat (buffer_size (Suc j)), s')"
    unfolding in_string_grow_def two d(1) using d(2) by simp
  moreover have "typed g ex nx W m0 T (Suc j) r line s'"
  proof -
    have len: "length line < buffer_size j" "length line < buffer_size (Suc j)"
      using assms(2) by (simp_all add: less_le_trans [OF diff_less])
    have "mem s' (r + of_nat i) = line ! i" if "i < length line" for i
      using d(7) vs(3) that less_trans [OF that len(1)] by simp
    then show ?thesis
      unfolding typed_def using d(3) vs(2) len(2) by blast
  qed
  ultimately show thesis
    using that d(4,6) screen_cong [OF assms(4) d(5,8)] by blast
qed

lemma typed_room:
  assumes "typed g ex nx W m0 T j buffer line s"
  shows "j \<le> g" "buffer_size g < 2 ^ 32" "buffer_size j < 2 ^ 32" "length line < buffer_size j"
proof -
  obtain vs where vs: "buffer_in g ex nx W m0 T j buffer s vs" and len: "length line < buffer_size j"
    using assms unfolding typed_def by blast
  show "j \<le> g" "buffer_size g < 2 ^ 32" "buffer_size j < 2 ^ 32" "length line < buffer_size j"
    by (rule buffer_inD [OF vs] len)+
qed

text \<open>A character goes into the buffer, which doubles first when only one byte is left.\<close>

lemma typed_char:
  assumes "typed g ex nx W m0 T j buffer line s" "Suc (length line) < buffer_size g" "c \<noteq> 0" "tty_ok s"
  obtains b' k s' where "in_string_grow buffer (of_nat (length line)) (of_nat (buffer_size j)) s = Some (b', of_nat (buffer_size k), s')"
    "typed g ex nx W m0 T k b' (line @ [c]) (s'\<lparr>mem := store8 (b' + of_nat (length line)) c (mem s')\<rparr>)"
    "same_setup s s'" "kbd s' = kbd s" "screen_of (s'\<lparr>mem := store8 (b' + of_nat (length line)) c (mem s')\<rparr>) = screen_of s"
    "tty_ok (s'\<lparr>mem := store8 (b' + of_nat (length line)) c (mem s')\<rparr>)"
proof (cases "length line = buffer_size j - 1")
  case True
  have "j < g"
    using typed_room(1) [OF assms(1)] assms(2) True by (cases "j = g") auto
  obtain b' s' where g: "in_string_grow buffer (of_nat (length line)) (of_nat (buffer_size j)) s = Some (b', of_nat (buffer_size (Suc j)), s')"
    "typed g ex nx W m0 T (Suc j) b' line s'" "same_setup s s'" "kbd s' = kbd s" "tty_ok s'" "screen_of s' = screen_of s"
    by (rule typed_grow [OF assms(1) True \<open>j < g\<close> assms(4)])
  have "Suc (length line) < buffer_size (Suc j)"
    using typed_room(4) [OF assms(1)] by simp
  from typed_store [OF g(2) this assms(3) g(5)] show thesis
    using that [OF g(1) _ g(3,4)] unfolding g(6) by blast
next
  case False
  then have less: "Suc (length line) < buffer_size j"
    using typed_room(4) [OF assms(1)] by simp
  have "of_nat (length line) + 1 \<noteq> (of_nat (buffer_size j) :: u32)"
    using of_nat_eq_iff_32 [of "Suc (length line)" "buffer_size j"] less typed_room(3) [OF assms(1)]
    by (simp add: add.commute)
  then have "of_nat (length line) \<noteq> (of_nat (buffer_size j) - 1 :: u32)"
    by (simp add: eq_diff_eq)
  then have same: "in_string_grow buffer (of_nat (length line)) (of_nat (buffer_size j)) s = Some (buffer, of_nat (buffer_size j), s)"
    unfolding in_string_grow_def by simp
  from typed_store [OF assms(1) less assms(3,4)] show thesis
    using that [OF same _ same_setup_refl] by blast
qed

section \<open>The loop\<close>

lemma keys_ok_kbd: "kbd s' = kbd s \<Longrightarrow> keys_ok sched s' = keys_ok sched s" "kbd s' = kbd s \<Longrightarrow> codes_left sched s' = codes_left sched s"
  by (simp_all add: keys_ok_def key_ok_def key_queue_def)

text \<open>What the loop of \<open>in_string\<close> is left with between two characters, while the codes \<open>xs\<close> are to come.\<close>

definition reading :: "nat \<Rightarrow> nat \<Rightarrow> nat \<Rightarrow> run set \<Rightarrow> mem \<Rightarrow> u32 set \<Rightarrow> nat \<Rightarrow> u32 \<Rightarrow> u8 list \<Rightarrow> u8 list \<Rightarrow> schedule \<Rightarrow> kernel \<Rightarrow> bool" where
  "reading g ex nx W m0 T j buffer line xs sched s \<longleftrightarrow> typed g ex nx W m0 T j buffer line s \<and> tty_ok s
     \<and> keys_ok sched s \<and> codes_left sched s = xs"

lemma reading_char:
  assumes "reading g ex nx W m0 T j buffer line xs sched s" "decode False xs = Some (c, rest)"
  obtains sched' s' where "in_char True sched s = Some (c, sched', s')" "reading g ex nx W m0 T j buffer line rest sched' s'"
    "same_setup s s'" "screen_of s' = screen_of s"
proof -
  have r: "typed g ex nx W m0 T j buffer line s" "tty_ok s" "keys_ok sched s" "codes_left sched s = xs"
    using assms(1) by (simp_all add: reading_def)
  have dec: "decode False (codes_left sched s) = Some (c, rest)"
    unfolding r(4) by (rule assms(2))
  obtain sched' s' where s': "in_char True sched s = Some (c, sched', s')" "keys_ok sched' s'" "codes_left sched' s' = rest"
      "rest_keys s' = rest_keys s"
    by (rule in_char_decode [OF r(3) dec])
  note same = rest_keys_same [OF s'(4)]
  have scr: "screen_of s' = screen_of s" "tty_ok s'"
    using screen_cong [OF r(2) same(4)] same(2) by simp_all
  have "typed g ex nx W m0 T j buffer line s'"
    using typed_frame [OF r(1) same(3) same_setup_screen [OF same(1)]] same(2) by simp
  then show thesis
    using that [OF s'(1) _ same(1) scr(1)] s'(2,3) scr(2) by (simp add: reading_def)
qed

lemma reading_output:
  assumes "reading g ex nx W m0 T j buffer line xs sched s" "rest_of s' = rest_of s" "tty_ok s'"
  shows "reading g ex nx W m0 T j buffer line xs sched s'" "same_setup s s'"
proof -
  note same = rest_of_same [OF assms(2)]
  have "typed g ex nx W m0 T j buffer line s'"
    using assms(1) typed_frame [OF _ same(2) same_setup_screen [OF same(1)]] rest_ofD(8) [OF assms(2)] by (simp add: reading_def)
  then show "reading g ex nx W m0 T j buffer line xs sched s'" "same_setup s s'"
    using assms(1,3) keys_ok_kbd [OF same(3)] same(1) by (simp_all add: reading_def)
qed

lemma reading_out_char:
  assumes "reading g ex nx W m0 T j buffer line xs sched s"
  obtains s' where "out_char c s = Some s'" "reading g ex nx W m0 T j buffer line xs sched s'" "same_setup s s'"
    "screen_of s' = put_char c (screen_of s)"
proof -
  obtain s' where s': "out_char c s = Some s'" "tty_ok s'" "screen_of s' = put_char c (screen_of s)" "rest_of s' = rest_of s"
    using put_char_screen [of s c] assms by (auto simp: reading_def)
  show thesis
    using that [OF s'(1) reading_output [OF assms s'(4,2)] s'(3)] .
qed

lemma reading_rub_out:
  assumes "reading g ex nx W m0 T j buffer line xs sched s"
  obtains t u where "out_char 0 (move_cursor (cursor (tty_state s) - 1) s) = Some t" "u = move_cursor (cursor (tty_state t) - 1) t"
    "reading g ex nx W m0 T j buffer (butlast line) xs sched u" "same_setup s u" "screen_of u = rub_out (screen_of s)"
proof -
  let ?r = "move_cursor (cursor (tty_state s) - 1) s"
  have "tty_ok s" using assms by (simp add: reading_def)
  note b = back_screen [OF this]
  note r = reading_output [OF assms b(3,1)]
  obtain t where t: "out_char 0 ?r = Some t" "reading g ex nx W m0 T j buffer line xs sched t" "same_setup ?r t"
      "screen_of t = put_char 0 (screen_of ?r)"
    by (rule reading_out_char [OF r(1)])
  let ?u = "move_cursor (cursor (tty_state t) - 1) t"
  have "tty_ok t" using t(2) by (simp add: reading_def)
  note c = back_screen [OF this]
  note u = reading_output [OF t(2) c(3,1)]
  have "reading g ex nx W m0 T j buffer (butlast line) xs sched ?u"
    using u(1) typed_butlast by (auto simp: reading_def)
  moreover have "screen_of ?u = rub_out (screen_of s)"
    using b(2) c(2) t(4) by (simp add: rub_out_def)
  ultimately show thesis
    using that [OF t(1) refl _ same_setup_trans [OF r(2) same_setup_trans [OF t(3) u(2)]]] by blast
qed

abbreviation loop_at :: "nat \<Rightarrow> u32 \<Rightarrow> u8 list \<Rightarrow> schedule \<Rightarrow> kernel \<Rightarrow> (u32 \<times> u32 \<times> schedule \<times> kernel) option" where
  "loop_at j buffer line sched s \<equiv> in_string_loop buffer (of_nat (length line)) (of_nat (buffer_size j)) sched s"

text \<open>One round of the loop, for each kind of character.\<close>

lemma round_newline:
  assumes "reading g ex nx W m0 T j buffer line xs sched s" "decode False xs = Some (10, rest)"
  obtains sched' s' where "loop_at j buffer line sched s = Some (buffer, of_nat (length line), sched', s')"
    "reading g ex nx W m0 T j buffer line rest sched' s'" "same_setup s s'" "screen_of s' = put_char 10 (screen_of s)"
proof -
  obtain sched1 s1 where c: "in_char True sched s = Some (10, sched1, s1)" "reading g ex nx W m0 T j buffer line rest sched1 s1"
      "same_setup s s1" "screen_of s1 = screen_of s"
    by (rule reading_char [OF assms])
  obtain s2 where o: "out_char 10 s1 = Some s2" "reading g ex nx W m0 T j buffer line rest sched1 s2" "same_setup s1 s2"
      "screen_of s2 = put_char 10 (screen_of s1)"
    by (rule reading_out_char [OF c(2)])
  have "loop_at j buffer line sched s = Some (buffer, of_nat (length line), sched1, s2)"
    by (subst in_string_loop.simps) (simp add: c(1) o(1))
  then show thesis
    using that o(2,4) c(4) same_setup_trans [OF c(3) o(3)] by auto
qed

lemma round_start:
  assumes "reading g ex nx W m0 T j buffer [] xs sched s" "decode False xs = Some (8, r)"
  obtains sched' s' where "loop_at j buffer [] sched s = loop_at j buffer [] sched' s'"
    "reading g ex nx W m0 T j buffer [] r sched' s'" "same_setup s s'" "screen_of s' = screen_of s"
proof -
  obtain sched1 s1 where c: "in_char True sched s = Some (8, sched1, s1)" "reading g ex nx W m0 T j buffer [] r sched1 s1"
      "same_setup s s1" "screen_of s1 = screen_of s"
    by (rule reading_char [OF assms])
  have "loop_at j buffer [] sched s = loop_at j buffer [] sched1 s1"
    by (subst in_string_loop.simps) (simp add: c(1))
  then show thesis using that c(2-4) by blast
qed

lemma round_rub_out:
  assumes "reading g ex nx W m0 T j buffer line xs sched s" "decode False xs = Some (8, r)" "line \<noteq> []"
  obtains sched' s' where "loop_at j buffer line sched s = loop_at j buffer (butlast line) sched' s'"
    "reading g ex nx W m0 T j buffer (butlast line) r sched' s'" "same_setup s s'" "screen_of s' = rub_out (screen_of s)"
proof -
  obtain sched1 s1 where c: "in_char True sched s = Some (8, sched1, s1)" "reading g ex nx W m0 T j buffer line r sched1 s1"
      "same_setup s s1" "screen_of s1 = screen_of s"
    by (rule reading_char [OF assms(1,2)])
  obtain t u where o: "out_char 0 (move_cursor (cursor (tty_state s1) - 1) s1) = Some t" "u = move_cursor (cursor (tty_state t) - 1) t"
      "reading g ex nx W m0 T j buffer (butlast line) r sched1 u" "same_setup s1 u" "screen_of u = rub_out (screen_of s1)"
    by (rule reading_rub_out [OF c(2)])
  obtain n where n: "length line = Suc n" using assms(3) by (cases line) auto
  have "of_nat (Suc n) \<noteq> (of_nat 0 :: u32)"
    using of_nat_eq_iff_32 [of "Suc n" 0] typed_room(3,4) assms(1) n by (fastforce simp: reading_def)
  then have pos: "0 < (of_nat (length line) :: u32)" "of_nat (length line) - 1 = (of_nat (length (butlast line)) :: u32)"
    using n by (simp_all add: word_neq_0_conv)
  have "loop_at j buffer line sched s = loop_at j buffer (butlast line) sched1 u"
    by (subst in_string_loop.simps) (simp add: c(1) o(1) pos del: length_butlast flip: o(2))
  then show thesis
    using that o(3,5) c(4) same_setup_trans [OF c(3) o(4)] by auto
qed

lemma round_char:
  assumes "reading g ex nx W m0 T j buffer line xs sched s" "decode False xs = Some (c, r)" "c \<noteq> 0" "c \<noteq> 8" "c \<noteq> 10"
    and "Suc (length line) < buffer_size g"
  obtains k b sched' s' where "loop_at j buffer line sched s = loop_at k b (line @ [c]) sched' s'"
    "reading g ex nx W m0 T k b (line @ [c]) r sched' s'" "same_setup s s'" "screen_of s' = put_char c (screen_of s)"
proof -
  obtain sched1 s1 where i: "in_char True sched s = Some (c, sched1, s1)" "reading g ex nx W m0 T j buffer line r sched1 s1"
      "same_setup s s1" "screen_of s1 = screen_of s"
    by (rule reading_char [OF assms(1,2)])
  have r: "typed g ex nx W m0 T j buffer line s1" "tty_ok s1"
    using i(2) by (simp_all add: reading_def)
  obtain b k s2 where gr: "in_string_grow buffer (of_nat (length line)) (of_nat (buffer_size j)) s1 = Some (b, of_nat (buffer_size k), s2)"
      "typed g ex nx W m0 T k b (line @ [c]) (s2\<lparr>mem := store8 (b + of_nat (length line)) c (mem s2)\<rparr>)"
      "same_setup s1 s2" "kbd s2 = kbd s1" "screen_of (s2\<lparr>mem := store8 (b + of_nat (length line)) c (mem s2)\<rparr>) = screen_of s1"
      "tty_ok (s2\<lparr>mem := store8 (b + of_nat (length line)) c (mem s2)\<rparr>)"
    by (rule typed_char [OF r(1) assms(6,3) r(2)])
  let ?s3 = "s2\<lparr>mem := store8 (b + of_nat (length line)) c (mem s2)\<rparr>"
  have "reading g ex nx W m0 T k b (line @ [c]) r sched1 ?s3"
    using i(2) gr(2,4,6) keys_ok_kbd [of ?s3 s1] by (simp add: reading_def)
  then obtain s4 where o: "out_char c ?s3 = Some s4" "reading g ex nx W m0 T k b (line @ [c]) r sched1 s4" "same_setup ?s3 s4"
      "screen_of s4 = put_char c (screen_of ?s3)"
    by (rule reading_out_char)
  have "loop_at j buffer line sched s = loop_at k b (line @ [c]) sched1 s4"
    by (subst in_string_loop.simps) (simp add: i(1) gr(1) o(1) assms(3-5) add.commute del: of_nat_mult)
  then show thesis
    using that o(2,4) i(4) gr(5) same_setup_trans [OF i(3) same_setup_trans [OF gr(3) same_setup_trans [OF same_setup_mem o(3)]]]
    by auto
qed

lemma in_string_loop_edits:
  assumes "reading g ex nx W m0 T j buffer line xs sched s" "length line + length xs \<le> buffer_size g"
    and "edit line (screen_of s) xs = Some (l, sc, rest)"
  shows "\<exists>b k sched' s'. loop_at j buffer line sched s = Some (b, of_nat (length l), sched', s')
    \<and> reading g ex nx W m0 T k b l rest sched' s' \<and> same_setup s s' \<and> screen_of s' = sc"
  using assms
proof (induction "length xs" arbitrary: j buffer line xs sched s rule: less_induct)
  case less
  have step: ?case if "loop_at j buffer line sched s = loop_at k b line' sched' s'" "reading g ex nx W m0 T k b line' r sched' s'"
    "same_setup s s'" "length r < length xs" "length line' + length r \<le> buffer_size g" "edit line' (screen_of s') r = Some (l, sc, rest)"
    for k b line' r sched' s'
    using less.hyps [OF that(4,2,5,6)] same_setup_trans [OF that(3)] unfolding that(1) by blast
  from less.prems(3) show ?case
  proof (cases rule: edit_cases)
    case newline
    then show ?thesis
      using round_newline [OF less.prems(1) newline(1)] by metis
  next
    case (start r)
    obtain sched' s' where e: "loop_at j buffer line sched s = loop_at j buffer line sched' s'"
        "reading g ex nx W m0 T j buffer line r sched' s'" "same_setup s s'" "screen_of s' = screen_of s"
      using round_start [OF less.prems(1) [unfolded start(3)] start(1)] unfolding start(3) .
    then show ?thesis
      by (intro step [OF e(1-3)]) (use start(2-4) less.prems(2) in simp_all)
  next
    case (rub r)
    obtain sched' s' where e: "loop_at j buffer line sched s = loop_at j buffer (butlast line) sched' s'"
        "reading g ex nx W m0 T j buffer (butlast line) r sched' s'" "same_setup s s'" "screen_of s' = rub_out (screen_of s)"
      by (rule round_rub_out [OF less.prems(1) rub(1,3)])
    then show ?thesis
      by (intro step [OF e(1-3)]) (use rub(2,4) less.prems(2) in simp_all)
  next
    case (char c r)
    have "0 < length r"
      using edit_codes_left [OF char(6)] by simp
    then have "Suc (length line) < buffer_size g"
      using less.prems(2) char(2) by linarith
    then obtain k b sched' s' where e: "loop_at j buffer line sched s = loop_at k b (line @ [c]) sched' s'"
        "reading g ex nx W m0 T k b (line @ [c]) r sched' s'" "same_setup s s'" "screen_of s' = put_char c (screen_of s)"
      by (rule round_char [OF less.prems(1) char(1,3-5)])
    then show ?thesis
      by (intro step [OF e(1-3)]) (use char(2,6) less.prems(2) in simp_all)
  qed
qed

section \<open>\<open>in_string\<close>\<close>

text \<open>Room for a buffer that doubles up to \<open>g\<close> times, and for \<open>k\<close> blocks of \<open>n\<close> bytes after it.\<close>

definition input_room :: "nat \<Rightarrow> nat \<Rightarrow> nat \<Rightarrow> kernel \<Rightarrow> run list \<Rightarrow> bool" where
  "input_room g k n s vs \<longleftrightarrow> heap_space (Suc g + k) (16 * (2 ^ Suc g - 1) + n) s vs
     \<and> screen_bytes s \<inter> (heap_bytes s \<union> heap_table_bytes (length vs + (Suc g + k)) s) = {}"

lemma in_string_starts:
  assumes room: "input_room g ex nx s vs" and tty: "tty_ok s" and keys: "keys_ok sched s"
  defines "T \<equiv> heap_table_bytes (length vs + (Suc g + ex)) s"
  obtains p s1 where "kmalloc 16 s = Some (p, s1)" "reading g ex nx (set vs) (mem s) T 0 p [] (codes_left sched s) sched s1"
    "same_setup s s1" "screen_of s1 = screen_of s"
proof -
  obtain h where h: "(2 :: nat) ^ g = Suc h"
    by (metis not0_implies_Suc power_not_zero zero_neq_numeral)
  have "16 * (2 ^ Suc g - 1) + nx = 16 + (buffer_rest g 0 + nx)" by (simp add: h)
  then have sp: "heap_space (Suc (g + ex)) (16 + (buffer_rest g 0 + nx)) s vs"
    and scr: "screen_bytes s \<inter> (heap_bytes s \<union> T) = {}"
    using room by (simp_all add: input_room_def T_def add.assoc)
  have reg: "heap_regions s vs" using sp by (simp add: heap_space_def)
  obtain p s1 vs1 where a: "kmalloc (of_nat 16) s = Some (p, s1)" "heap_space (g + ex) (buffer_rest g 0 + nx) s1 vs1"
      "set vs1 = insert (p, of_nat 16) (set vs)" "bytes_at p 16 \<subseteq> heap_bytes s"
      "\<forall>v \<in> set vs. bytes_at p 16 \<inter> block_bytes v = {}" "heap_bytes s1 = heap_bytes s" "\<forall>x \<in> heap_bytes s. mem s1 x = mem s x"
      "\<forall>x. x \<notin> heap_table_bytes (length vs + Suc (g + ex)) s \<longrightarrow> mem s1 x = mem s x"
      "length vs1 = Suc (length vs)" "heap_step (length vs + 2) s s1"
    by (rule heap_space_alloc [OF sp]) auto
  note same = same_setup_step [OF a(10)]
  have away: "\<forall>x. x \<notin> T \<longrightarrow> mem s1 x = mem s x"
    using a(8) by (simp add: T_def)
  have ptr: "heap_ptr s1 = heap_ptr s"
    using same by (simp add: same_setup_def)
  have "p \<in> bytes_at p 16" by (simp add: bytes_at_def)
  then have W: "\<forall>v \<in> set vs. v \<in> set vs1 \<and> fst v \<noteq> p \<and> (\<forall>x \<in> block_bytes v. mem s1 x = mem s x)"
  proof (intro ballI conjI)
    fix v x assume v: "v \<in> set vs"
    obtain q l where ql: "v = (q, l)" by (cases v)
    show "v \<in> set vs1" using a(3) v by simp
    show "fst v \<noteq> p"
      using block_base_unique(2) [OF reg v [unfolded ql] v [unfolded ql]] a(5) v \<open>p \<in> bytes_at p 16\<close> unfolding ql by auto
    assume "x \<in> block_bytes v"
    then show "mem s1 x = mem s x"
      using block_in_heap(1) [OF reg v [unfolded ql]] a(7) unfolding ql by blast
  qed
  have "16 + (buffer_rest g 0 + nx) \<le> unat (heap_end s)"
    using sp by (simp add: heap_space_def)
  from le_less_trans [OF this unat_less_32] have "buffer_size g < 2 ^ 32"
    by (simp add: h)
  moreover have "heap_table_bytes (length vs1 + (g - 0 + ex)) s1 \<subseteq> T"
    unfolding T_def ptr a(9) by simp
  moreover have "(p, of_nat (buffer_size 0)) \<in> set vs1" using a(3) by simp
  moreover have "\<forall>x. x \<notin> screen_bytes s \<longrightarrow> x \<notin> heap_bytes s \<longrightarrow> x \<notin> T \<longrightarrow> mem s1 x = mem s x"
    using away by blast
  ultimately have "buffer_in g ex nx (set vs) (mem s) T 0 p s1 vs1"
    unfolding buffer_in_def a(6) same_setup_screen [OF same] using a(2) scr W by simp
  then have "typed g ex nx (set vs) (mem s) T 0 p [] s1"
    by (auto simp: typed_def)
  moreover have tt: "tty_state s1 = tty_state s" "kbd s1 = kbd s"
    using heap_step_fields(12,13) [OF a(10)] by simp_all
  moreover have "\<forall>x \<in> screen_bytes s. mem s1 x = mem s x"
    using away scr by blast
  ultimately have "reading g ex nx (set vs) (mem s) T 0 p [] (codes_left sched s) sched s1" "screen_of s1 = screen_of s"
    using screen_cong [OF tty tt(1)] keys keys_ok_kbd [OF tt(2)] by (simp_all add: reading_def)
  then show thesis
    using that a(1) same by simp
qed

lemma typed_end:
  assumes "reading g ex nx W m0 T j b l rest sched s"
  defines "s' \<equiv> s\<lparr>mem := store8 (b + of_nat (length l)) 0 (mem s)\<rparr>"
  obtains vs' where "heap_space ex nx s' vs'" "line_in s' vs' b l" "W \<subseteq> set vs'"
    "\<forall>v \<in> W. \<forall>x \<in> block_bytes v. mem s' x = m0 x" "\<forall>v \<in> W. block_bytes v \<inter> bytes_at b (Suc (length l)) = {}"
    "\<forall>x. x \<notin> screen_bytes s' \<longrightarrow> x \<notin> heap_bytes s' \<longrightarrow> x \<notin> T \<longrightarrow> mem s' x = m0 x"
    "keys_ok sched s'" "codes_left sched s' = rest" "tty_ok s'" "screen_of s' = screen_of s"
    "heap_table_bytes (length vs' + ex) s' \<subseteq> T"
proof -
  obtain vs where vs: "buffer_in g ex nx W m0 T j b s vs" "length l < buffer_size j" "0 \<notin> set l"
      "\<forall>i < length l. mem s (b + of_nat i) = l ! i"
    using assms(1) by (auto simp: reading_def typed_def)
  note bb = buffer_block [OF vs(1)] and d = buffer_inD [OF vs(1)]
  let ?m = "store8 (b + of_nat (length l)) 0 (mem s)"
  have other: "\<forall>x. x \<notin> bytes_at b (buffer_size j) \<longrightarrow> ?m x = mem s x"
    using bb(5) [OF vs(2)] by (auto simp: store8_def)
  note w = buffer_inD [OF buffer_in_write [OF vs(1) other], folded s'_def]
  have len: "Suc (length l) < 2 ^ 32"
    using le_less_trans [OF Suc_leI [OF vs(2)] d(11)] .
  have "?m (b + of_nat i) = (if i = length l then 0 else l ! i)" if "i \<le> length l" for i
    using that vs(4) len of_nat_eq_iff_32 [of i "length l"] by (simp add: store8_def)
  then have "cstr (mem s') b l"
    using vs(3) len by (simp add: cstr_def s'_def)
  moreover have "unat (of_nat (buffer_size j) :: u32) = buffer_size j"
    by (rule unat_of_nat_small [OF d(11)])
  ultimately have line: "line_in s' vs b l"
    unfolding line_in_def using d(4) vs(2) by metis
  have "bytes_at b (Suc (length l)) \<subseteq> bytes_at b (buffer_size j)"
    using vs(2) by (intro bytes_at_mono) simp
  then have apart: "\<forall>v \<in> W. block_bytes v \<inter> bytes_at b (Suc (length l)) = {}"
    using bb(4) by blast
  have sp: "heap_space ex nx s' vs"
    by (rule heap_space_mono [OF w(1)])
  have "\<forall>x \<in> screen_bytes s. mem s' x = mem s x"
    using other bb(2) d(6) by (auto simp: s'_def)
  then have scr: "screen_of s' = screen_of s" "tty_ok s'"
    using screen_cong [of s s'] assms(1) by (simp_all add: reading_def s'_def)
  have keys: "keys_ok sched s'" "codes_left sched s' = rest"
    using assms(1) keys_ok_kbd [of s' s] by (simp_all add: reading_def s'_def)
  have "heap_table_bytes (length vs + ex) s' \<subseteq> heap_table_bytes (length vs + (g - j + ex)) s'"
    by (rule bytes_at_mono) simp
  then have tbl: "heap_table_bytes (length vs + ex) s' \<subseteq> T"
    using w(5) by (rule subset_trans)
  show thesis
    using that [OF sp line _ _ apart w(9) keys scr(2,1) tbl] w(8) by blast
qed

lemma in_string_reads:
  assumes room: "input_room g ex nx s vs" and tty: "tty_ok s" and keys: "keys_ok sched s"
    and len: "length (codes_left sched s) \<le> buffer_size g" and ed: "edit [] (screen_of s) (codes_left sched s) = Some (line, sc, rest)"
  obtains p sched' s' vs' where "in_string sched s = Some (p, sched', s')" "heap_space ex nx s' vs'" "line_in s' vs' p line"
    "set vs \<subseteq> set vs'" "\<forall>v \<in> set vs. \<forall>x \<in> block_bytes v. mem s' x = mem s x"
    "\<forall>v \<in> set vs. block_bytes v \<inter> bytes_at p (Suc (length line)) = {}"
    "\<forall>x. x \<notin> screen_bytes s \<longrightarrow> x \<notin> heap_bytes s \<longrightarrow> x \<notin> heap_table_bytes (length vs + (Suc g + ex)) s \<longrightarrow> mem s' x = mem s x"
    "keys_ok sched' s'" "codes_left sched' s' = rest" "tty_ok s'" "screen_of s' = sc" "same_setup s s'"
    "heap_table_bytes (length vs' + ex) s' \<subseteq> heap_table_bytes (length vs + (Suc g + ex)) s"
proof -
  let ?T = "heap_table_bytes (length vs + (Suc g + ex)) s"
  obtain p0 s1 where a: "kmalloc 16 s = Some (p0, s1)" "reading g ex nx (set vs) (mem s) ?T 0 p0 [] (codes_left sched s) sched s1"
      "same_setup s s1" "screen_of s1 = screen_of s"
    by (rule in_string_starts [OF room tty keys])
  obtain p j sched' s2 where b: "loop_at 0 p0 [] sched s1 = Some (p, of_nat (length line), sched', s2)"
      "reading g ex nx (set vs) (mem s) ?T j p line rest sched' s2" "same_setup s1 s2" "screen_of s2 = sc"
    using in_string_loop_edits [OF a(2)] len ed a(4) by auto
  let ?s = "s2\<lparr>mem := store8 (p + of_nat (length line)) 0 (mem s2)\<rparr>"
  have run: "in_string sched s = Some (p, sched', ?s)"
    using a(1) b(1) by (simp add: in_string_def)
  have same: "same_setup s ?s"
    using same_setup_trans [OF a(3) same_setup_trans [OF b(3) same_setup_mem]] .
  then have hp: "heap_bytes ?s = heap_bytes s" "screen_bytes ?s = screen_bytes s"
    using same_setup_screen [OF same] by (simp_all only: same_setup_def)
  show thesis
    by (rule typed_end [OF b(2)]) (rule that [OF run _ _ _ _ _ _ _ _ _ _ same]; (unfold hp [symmetric] b(4) [symmetric])?; assumption)
qed

text \<open>A screen, no keys yet, and the heap of \<open>two_blocks\<close>.\<close>

definition at_prompt :: kernel where
  "at_prompt = (with_line [])\<lparr>tty_state := tty_state vga\<rparr>"

lemma at_prompt_ok:
  "tty_ok at_prompt" "key_ok at_prompt" "key_queue at_prompt = []"
  "k \<le> 7 \<Longrightarrow> n \<le> 0x8000 \<Longrightarrow> input_room 0 k n at_prompt the_two_blocks"
proof -
  show "tty_ok at_prompt"
    using vga_ok by (simp add: at_prompt_def tty_ok_def tty_geometry_def)
  have "kbd at_prompt = kbd zero_kernel"
    by (simp add: at_prompt_def with_line_def two_blocks_def)
  then show "key_ok at_prompt" "key_queue at_prompt = []"
    using zero_keys by (simp_all add: key_ok_def key_queue_def)
  have scr: "screen_bytes at_prompt = bytes_at 0xB8000 4000"
    by (simp add: at_prompt_def screen_bytes_def vga_def)
  have hs: "heap_state at_prompt = heap_state (with_line [])"
    by (simp add: at_prompt_def address_space_def split: space.split)
  have "heap_state (with_line []) = heap_state two_blocks"
    by (simp add: with_line_def)
  then have ptr: "heap_ptr at_prompt = 0x80010000" "heap_bytes at_prompt = {x. 0x80020000 \<le> unat x \<and> unat x < 0x8002A000}"
    using hs by (simp_all add: heap_ptr_def heap_end_def)
  show "input_room 0 k n at_prompt the_two_blocks" if kn: "k \<le> 7" "n \<le> 0x8000"
  proof -
    have "Suc k \<le> 8" "16 + n \<le> 0x9000" using kn by simp_all
    from with_line_ok(2) [of "[]", OF _ _ this] have sp: "heap_space (Suc k) (16 + n) (with_line []) the_two_blocks" by simp
    have "mem at_prompt = mem (with_line [])" by (simp add: at_prompt_def)
    then have "heap_space (Suc k) (16 + n) at_prompt the_two_blocks"
      by (intro heap_space_cong(1) [OF sp hs]) simp
    moreover have "bytes_at 0xB8000 4000 \<inter> {x. 0x80020000 \<le> unat x \<and> unat x < 0x8002A000} = {}"
      by (auto simp: bytes_at_nowrap)
    moreover have "bytes_at 0xB8000 4000 \<inter> bytes_at 0x80010000 (8 * (2 + Suc k + 2)) = {}"
      using kn(1) by (intro bytes_at_disjointI) simp_all
    ultimately show ?thesis
      unfolding input_room_def scr ptr Int_Un_distrib by simp
  qed
qed

section \<open>Property of the reader\<close>

text \<open>
  C9: \<open>in_string\<close> returns the line that the codes spell, backspaces applied, as a string in a new block, and the
  screen shows its echo. It does so on every schedule that never leaves more than 15 codes unread and
  reads them all, for a heap with room for the buffer, which doubles from 16 bytes on; the blocks
  granted before keep their bytes, and the codes after the newline are left to the next reader.
\<close>

theorem in_string_reads_line:
  assumes "input_room g k n s vs" and "tty_ok s"
    and "key_ok s" and "paced (length (key_queue s)) sched" and "unread (length (key_queue s)) sched = 0"
    and "length (codes_left sched s) \<le> 16 * 2 ^ g"
    and "edit [] (screen_of s) (codes_left sched s) = Some (line, sc, rest)"
  shows "\<exists>p sched' s' vs'. in_string sched s = Some (p, sched', s') \<and> cstr (mem s') p line
    \<and> heap_space k n s' vs' \<and> line_in s' vs' p line \<and> set vs \<subseteq> set vs'
    \<and> (\<forall>v \<in> set vs. block_bytes v \<inter> bytes_at p (Suc (length line)) = {} \<and> (\<forall>x \<in> block_bytes v. mem s' x = mem s x))
    \<and> tty_ok s' \<and> screen_of s' = sc \<and> key_ok s' \<and> codes_left sched' s' = rest"
proof -
  have keys: "keys_ok sched s"
    using assms(3-5) by (simp add: keys_ok_def)
  obtain p sched' s' vs' where r: "in_string sched s = Some (p, sched', s')" "heap_space k n s' vs'" "line_in s' vs' p line"
    "set vs \<subseteq> set vs'" "\<forall>v \<in> set vs. \<forall>x \<in> block_bytes v. mem s' x = mem s x"
    "\<forall>v \<in> set vs. block_bytes v \<inter> bytes_at p (Suc (length line)) = {}"
    "keys_ok sched' s'" "codes_left sched' s' = rest" "tty_ok s'" "screen_of s' = sc"
    by (rule in_string_reads [OF assms(1,2) keys assms(6,7)]) blast
  then show ?thesis
    by (auto simp: line_in_def keys_ok_def)
qed

text \<open>The keys h, backspace, i and return, the first one released before the next is pressed.\<close>

theorem in_string_reads_line_witness:
  "\<exists>p sched' s'. in_string [[35], [163, 14], [], [23], [28], []] at_prompt = Some (p, sched', s') \<and> cstr (mem s') p [105]"
proof -
  let ?sched = "[[35], [163, 14], [], [23], [28], []] :: schedule"
  have room: "input_room 0 0 0 at_prompt the_two_blocks"
    by (rule at_prompt_ok) simp_all
  have keys: "paced (length (key_queue at_prompt)) ?sched" "unread (length (key_queue at_prompt)) ?sched = 0"
    "length (codes_left ?sched at_prompt) \<le> 16 * 2 ^ 0" "codes_left ?sched at_prompt = [35, 163, 14, 23, 28]"
    by (simp_all add: at_prompt_ok)
  have "edit [] sc [35, 163, 14, 23, 28] = Some ([105], put_char 10 (put_char 105 (rub_out (put_char 104 sc))), [])" for sc
    by (simp add: edit.simps char_of_code_def shift_after_def scancodes_def)
  from in_string_reads_line [OF room at_prompt_ok(1,2) keys(1-3), unfolded keys(4), OF this] show ?thesis
    by blast
qed
end
