(* ===== verification/Dump.thy ===== *)
theory Dump
  imports Shell
begin

text \<open>
  What the commands of \<open>shell.c\<close> print. A command is composed of calls of \<open>printf\<close> with literal formats;
  \<open>writes f s t\<close> says that \<open>f\<close> puts the text \<open>t\<close> on the screen of any state that differs from \<open>s\<close> only in what
  printing changes, and is closed under composition. The main results: \<open>vd\<close> and \<open>pd\<close> print the 256
  bytes at a virtual or a physical address as sixteen lines, and \<open>do_command\<close> chooses by the table.
\<close>

section \<open>Printing\<close>

abbreviation console :: "kernel \<Rightarrow> bool" where
  "console s \<equiv> tty_ok s \<and> num_bytes s \<inter> screen_bytes s = {}"

text \<open>The states that printing reaches from \<open>s\<close>.\<close>

definition printed :: "kernel \<Rightarrow> kernel \<Rightarrow> bool" where
  "printed s s' \<longleftrightarrow> console s' \<and> rest_num s' = rest_num s"

definition writes :: "(kernel \<Rightarrow> kernel option) \<Rightarrow> kernel \<Rightarrow> u8 list \<Rightarrow> bool" where
  "writes f s t \<longleftrightarrow> (\<forall>a. printed s a \<longrightarrow>
     (\<exists>b. f a = Some b \<and> printed s b \<and> screen_of b = fold put_char t (screen_of a)))"

lemma writesI:
  assumes "\<And>a. printed s a \<Longrightarrow> \<exists>b. f a = Some b \<and> printed s b \<and> screen_of b = fold put_char t (screen_of a)"
  shows "writes f s t"
  using assms by (simp add: writes_def)

lemma writes_result:
  assumes "writes f s t" "console s"
  obtains s' where "f s = Some s'" "printed s s'" "screen_of s' = fold put_char t (screen_of s)"
  using assms by (auto simp: writes_def printed_def)

lemma writes_Some [intro]: "writes Some s []"
  by (simp add: writes_def)

lemma writes_bind [intro]:
  assumes "writes f s t" "writes g s u"
  shows "writes (\<lambda>s. do { s \<leftarrow> f s; g s }) s (t @ u)"
proof (rule writesI)
  fix a assume "printed s a"
  then obtain b where b: "f a = Some b" "printed s b" "screen_of b = fold put_char t (screen_of a)"
    using assms(1) unfolding writes_def by blast
  then obtain c where "g b = Some c" "printed s c" "screen_of c = fold put_char u (screen_of b)"
    using assms(2) unfolding writes_def by blast
  then show "\<exists>c. do { s \<leftarrow> f a; g s } = Some c \<and> printed s c \<and> screen_of c = fold put_char (t @ u) (screen_of a)"
    using b by simp
qed

text \<open>A command that looks at the state before it prints sees nothing that printing changes.\<close>

lemma writes_cong:
  assumes "writes f s t" "\<And>a. printed s a \<Longrightarrow> f' a = f a"
  shows "writes f' s t"
  using assms by (simp add: writes_def)

lemma writes_columns:
  assumes "\<And>i. i < n \<Longrightarrow> writes (f (j + of_nat i)) s (t i)"
  shows "writes (columns n j f) s (concat (map t [0..<n]))"
  using assms
proof (induction n arbitrary: j t)
  case 0
  show ?case by (auto simp: writes_def)
next
  case (Suc n)
  have "writes (f j) s (t 0)"
    using Suc.prems [of 0] by simp
  moreover have "writes (columns n (j + 1) f) s (concat (map (\<lambda>i. t (Suc i)) [0..<n]))"
    using Suc.prems [of "Suc _"] by (intro Suc.IH) (simp add: add.assoc)
  moreover have "concat (map t [0..<Suc n]) = t 0 @ concat (map (\<lambda>i. t (Suc i)) [0..<n])"
    by (simp add: upt_conv_Cons map_Suc_upt [symmetric] comp_def del: upt_Suc)
  ultimately show ?case
    using writes_bind [of "f j" s "t 0" "columns n (j + 1) f"] by simp
qed

lemma writes_char: "writes (out_char c) s [c]"
proof (rule writesI)
  fix a assume a: "printed s a"
  then obtain b where b: "out_char c a = Some b" "tty_ok b" "screen_of b = put_char c (screen_of a)" "rest_of b = rest_of a"
    using put_char_screen [of a c] by (auto simp: printed_def)
  note r = rest_numD(1,2) [OF rest_num_rest [OF b(4)]]
  show "\<exists>b. out_char c a = Some b \<and> printed s b \<and> screen_of b = fold put_char [c] (screen_of a)"
    using a b r rest_num_rest [OF b(4)] by (simp add: printed_def)
qed

lemma writes_conversion: "c \<noteq> 115 \<Longrightarrow> writes (print_conversion c arg) s (conversion_text (\<lambda>_. []) c arg)"
proof (rule writesI)
  fix a assume "c \<noteq> 115" and a: "printed s a"
  then obtain b where b: "print_conversion c arg a = Some b" "tty_ok b"
      "screen_of b = fold put_char (conversion_text (\<lambda>_. []) c arg) (screen_of a)" "rest_num b = rest_num a"
    using print_conversion_screen [of a c arg "\<lambda>_. []"] by (auto simp: printed_def)
  note r = rest_numD(1,2) [OF b(4)]
  show "\<exists>b. print_conversion c arg a = Some b \<and> printed s b
      \<and> screen_of b = fold put_char (conversion_text (\<lambda>_. []) c arg) (screen_of a)"
    using a b r by (simp add: printed_def)
qed

lemma writes_lit:
  assumes "complete fs" "string_args n fs = []"
  shows "writes (print_lit fs args n) s (print_text (\<lambda>_. []) args n fs)"
  using assms
proof (induction fs arbitrary: n rule: complete.induct)
  case 1
  show ?case by (auto simp: writes_def)
next
  case (2 c)
  then show ?case by (auto simp: writes_char)
next
  case (3 c d fs)
  show ?case
  proof (cases "c = 37")
    case True
    then have "d \<noteq> 115" "complete fs" "string_args (Suc n) fs = []"
      using 3(3,4) by (auto split: if_splits)
    then have "writes (print_lit fs args (Suc n)) s (print_text (\<lambda>_. []) args (Suc n) fs)"
      and "writes (print_conversion d (args n)) s (conversion_text (\<lambda>_. []) d (args n))"
      using True 3(1) by (auto intro: writes_conversion)
    then show ?thesis
      using True by auto
  next
    case False
    then have "complete (d # fs)" "string_args n (d # fs) = []"
      using 3(3,4) by simp_all
    then have "writes (print_lit (d # fs) args n) s (print_text (\<lambda>_. []) args n (d # fs))"
      using False by (intro 3(2))
    from writes_bind [OF writes_char this, of c] False show ?thesis
      by simp
  qed
qed

lemma writes_format:
  assumes "complete (lit fmt)" "string_args 0 (lit fmt) = []" "t = print_text (\<lambda>_. []) (nth args) 0 (lit fmt)"
  shows "writes (print_format fmt args) s t"
  using writes_lit [OF assms(1,2)] assms(3) by (simp add: print_format_def [abs_def])

section \<open>The text of a dump\<close>

definition hex_byte :: "u8 \<Rightarrow> u8 list" where
  "hex_byte b = [digits ! (unat b div 16), digits ! (unat b mod 16)]"

definition shown :: "u8 \<Rightarrow> u8" where
  "shown b = (if b < 32 then 46 else b)"

text \<open>Line \<open>i\<close> of a dump of the bytes \<open>f\<close> from an address on.\<close>

definition line_text :: "u16 \<Rightarrow> u32 \<Rightarrow> (nat \<Rightarrow> u8) \<Rightarrow> nat \<Rightarrow> u8 list" where
  "line_text ds address f i =
     digit_string 16 (unat ds) @ lit '':'' @ digit_string 16 (unat (address + of_nat (16 * i))) @ lit ''  ''
     @ concat (map (\<lambda>j. hex_byte (f (16 * i + j)) @ lit '' '') [0..<16]) @ lit '' ''
     @ map (\<lambda>j. shown (f (16 * i + j))) [0..<16] @ lit newline"

definition dump_text :: "u16 \<Rightarrow> u32 \<Rightarrow> (nat \<Rightarrow> u8) \<Rightarrow> u8 list" where
  "dump_text ds address f = concat (map (line_text ds address f) [0..<16])"

lemma dump_text_cong: "(\<And>k. k < 256 \<Longrightarrow> f k = g k) \<Longrightarrow> dump_text ds address f = dump_text ds address g"
proof -
  assume fg: "\<And>k. k < 256 \<Longrightarrow> f k = g k"
  have "line_text ds address f i = line_text ds address g i" if "i \<in> set [0..<16]" for i
  proof -
    have "f (16 * i + j) = g (16 * i + j)" if "j \<in> set [0..<16]" for j
      using that \<open>i \<in> set [0..<16]\<close> by (intro fg) simp
    then have "map (\<lambda>j. f (16 * i + j)) [0..<16] = map (\<lambda>j. g (16 * i + j)) [0..<16]"
      by (intro map_cong refl)
    from arg_cong [OF this, of "map (\<lambda>b. hex_byte b @ lit '' '')"] arg_cong [OF this, of "map shown"]
    show ?thesis
      unfolding line_text_def map_map comp_def by (simp only:)
  qed
  then show ?thesis
    unfolding dump_text_def by (intro arg_cong [where f = concat] map_cong refl)
qed

lemma lit_simps [simp]: "lit [] = []" "lit (c # cs) = of_char c # lit cs"
  by (simp_all add: lit_def)

lemma hex_byte_text:
  "(if b < 0x10 then lit ''0'' else []) @ digit_string 16 (unat b) = hex_byte b"
proof -
  have "unat b < 256" using unsigned_less [of b] by simp
  then have "unat b div 16 < 16" by simp
  then show ?thesis
    by (auto simp: hex_byte_def digit_string.simps [of 16] word_less_nat_alt digits_def)
qed

text \<open>Printing leaves alone the bytes that a dump shows, unless they lie on the screen or in the buffer of \<open>int_to_str\<close>.\<close>

definition dumpable :: "kernel \<Rightarrow> u32 \<Rightarrow> bool" where
  "dumpable s base \<longleftrightarrow> (\<forall>k < 256. let va = base + of_nat k in
     va AND NOT PAGE_OFFSET_MASK \<noteq> TEMP_PAGE \<longrightarrow> va \<notin> screen_bytes s \<and> va \<notin> num_bytes s)"

lemma printed_fields:
  assumes "printed s a"
  shows "seg_ds a = seg_ds s" "phys a = phys s" "temp_pte a = temp_pte s"
proof -
  have r: "rest_num a = rest_num s" using assms by (simp add: printed_def)
  show "seg_ds a = seg_ds s" "phys a = phys s" "temp_pte a = temp_pte s"
    using arg_cong [OF r, of seg_ds] arg_cong [OF r, of phys] arg_cong [OF r, of temp_pte]
    by (simp_all add: rest_num_def rest_of_def)
qed

lemma printed_byte:
  assumes "printed s a" "dumpable s base" "k < 256"
  shows "virtual_byte (base + of_nat k) a = virtual_byte (base + of_nat k) s"
proof -
  have "mem a (base + of_nat k) = mem s (base + of_nat k)" if "(base + of_nat k) AND NOT PAGE_OFFSET_MASK \<noteq> TEMP_PAGE"
    using assms that rest_numD(3) [of a s "base + of_nat k"] by (auto simp: printed_def dumpable_def Let_def)
  then show ?thesis
    using printed_fields [OF assms(1)] by (simp add: virtual_byte_def temp_read_def temp_frame_def load8_def)
qed

lemma byte_mask: "ucast b AND 0xFF = (ucast (b :: u8) :: u32)" "(ucast (ucast b :: u32) :: u8) = b"
proof -
  have "ucast b AND mask 8 = (ucast b :: u32)"
    by (intro bit_word_eqI) (auto simp: bit_simps dest: bit_imp_le_length)
  then show "ucast b AND 0xFF = (ucast (b :: u8) :: u32)"
    by (simp add: mask_eq_exp_minus_1)
  show "(ucast (ucast b :: u32) :: u8) = b"
    by (intro bit_word_eqI) (auto simp: bit_simps)
qed

lemma unat_ucast_16: "unat (ucast (d :: u16) :: u32) = unat d"
  using unsigned_less [where ?'a = nat, of d] by (simp add: unsigned_ucast_eq take_bit_nat_eq_self)

lemma dump_hex_writes:
  assumes "dumpable s base" "k < 256"
  shows "writes (dump_hex base (of_nat k)) s (hex_byte (virtual_byte (base + of_nat k) s) @ lit '' '')"
proof -
  let ?b = "virtual_byte (base + of_nat k) s"
  have zero: "writes (\<lambda>s. if ?b < 0x10 then print_format ''0'' [] s else Some s) s (if ?b < 0x10 then lit ''0'' else [])"
    by (cases "?b < 0x10") (auto intro!: writes_format)
  have "writes (print_format ''%x '' [ucast ?b AND 0xFF]) s (digit_string 16 (unat ?b) @ lit '' '')"
    by (rule writes_format) (simp_all add: conversion_text_def byte_mask unat_ucast_up)
  from writes_bind [OF zero this, folded append_assoc, unfolded hex_byte_text]
  have w: "writes (\<lambda>s. do { s \<leftarrow> (if ?b < 0x10 then print_format ''0'' [] s else Some s); print_format ''%x '' [ucast ?b AND 0xFF] s })
      s (hex_byte ?b @ lit '' '')"
    .
  show ?thesis
    by (rule writes_cong [OF w]) (simp add: dump_hex_def Let_def printed_byte [OF _ assms])
qed

lemma dump_char_writes:
  assumes "dumpable s base" "k < 256"
  shows "writes (dump_char base (of_nat k)) s [shown (virtual_byte (base + of_nat k) s)]"
proof -
  let ?b = "virtual_byte (base + of_nat k) s"
  have w: "writes (\<lambda>s. if ?b < 32 then print_format ''.'' [] s else print_format ''%c'' [ucast ?b AND 0xFF] s) s [shown ?b]"
    by (cases "?b < 32") (auto intro!: writes_format simp: shown_def conversion_text_def byte_mask)
  show ?thesis
    by (rule writes_cong [OF w]) (simp add: dump_char_def Let_def printed_byte [OF _ assms])
qed

lemma dump_line_writes:
  assumes "dumpable s base" "i < 16"
  shows "writes (dump_line address base (of_nat i)) s
    (line_text (seg_ds s) address (\<lambda>k. virtual_byte (base + of_nat k) s) i)"
proof -
  let ?f = "\<lambda>k. virtual_byte (base + of_nat k) s"
  let ?w = "\<lambda>s. do {
      s \<leftarrow> print_format ''%x:%x  '' [ucast (seg_ds s), address + of_nat i * 16] s;
      s \<leftarrow> columns 16 (of_nat i * 16) (dump_hex base) s;
      s \<leftarrow> print_format '' '' [] s;
      s \<leftarrow> columns 16 (of_nat i * 16) (dump_char base) s;
      print_format newline [] s
    }"
  have at: "of_nat i * 16 + of_nat j = (of_nat (16 * i + j) :: u32)" for j by simp
  have small: "16 * i + j < 256" if "j < 16" for j using assms(2) that by simp
  have hex: "writes (columns 16 (of_nat i * 16) (dump_hex base)) s (concat (map (\<lambda>j. hex_byte (?f (16 * i + j)) @ lit '' '') [0..<16]))"
    by (rule writes_columns) (unfold at, rule dump_hex_writes [OF assms(1) small])
  have chars: "writes (columns 16 (of_nat i * 16) (dump_char base)) s (concat (map (\<lambda>j. [shown (?f (16 * i + j))]) [0..<16]))"
    by (rule writes_columns) (unfold at, rule dump_char_writes [OF assms(1) small])
  have addr: "writes (print_format ''%x:%x  '' [ucast (seg_ds s), address + of_nat i * 16]) s
      (digit_string 16 (unat (seg_ds s)) @ lit '':'' @ digit_string 16 (unat (address + of_nat (16 * i))) @ lit ''  '')"
    by (rule writes_format) (simp_all add: conversion_text_def unat_ucast_16 mult.commute)
  have lits: "writes (print_format '' '' []) s (lit '' '')" "writes (print_format newline []) s (lit newline)"
    by (rule writes_format; simp)+
  note all = writes_bind [OF addr writes_bind [OF hex writes_bind [OF lits(1) writes_bind [OF chars lits(2)]]]]
  have line: "(digit_string 16 (unat (seg_ds s)) @ lit '':'' @ digit_string 16 (unat (address + of_nat (16 * i))) @ lit ''  '')
      @ concat (map (\<lambda>j. hex_byte (?f (16 * i + j)) @ lit '' '') [0..<16]) @ lit '' ''
      @ concat (map (\<lambda>j. [shown (?f (16 * i + j))]) [0..<16]) @ lit newline = line_text (seg_ds s) address ?f i"
    by (simp add: line_text_def del: upt.simps lit_simps)
  show ?thesis
    by (rule writes_cong [OF all [unfolded line]]) (simp add: dump_line_def Let_def printed_fields)
qed

lemma dump_lines_write:
  assumes "dumpable s base"
  shows "writes (columns 16 0 (dump_line address base)) s
    (dump_text (seg_ds s) address (\<lambda>k. virtual_byte (base + of_nat k) s))"
  unfolding dump_text_def
  by (rule writes_columns) (use dump_line_writes [OF assms] in simp)

section \<open>The choice of a command\<close>

lemma find_command_table:
  assumes "cstr m command cs" "\<And>j. j < length ts \<Longrightarrow> cstr m (tbl + of_nat (0x20 * (i + j))) (ts ! j)"
  shows "find_command m tbl command (length ts) i = Some (i + length (takeWhile (\<lambda>t. t \<noteq> cs) ts))"
  using assms(2)
proof (induction ts arbitrary: i)
  case (Cons t ts)
  have "strcmp m command (tbl + of_nat (0x20 * i)) = Some (strcmp_spec cs t)"
    using strcmp_cstr [OF assms(1)] Cons.prems [of 0] by simp
  moreover have "find_command m tbl command (length ts) (Suc i) = Some (Suc i + length (takeWhile (\<lambda>t. t \<noteq> cs) ts))"
    using Cons.prems [of "Suc _"] by (intro Cons.IH) simp
  ultimately show ?case
    by (auto simp: strcmp_spec_0_iff)
qed simp

text \<open>The table \<open>commands\<close> is in memory.\<close>

definition command_table :: "kernel \<Rightarrow> bool" where
  "command_table s \<longleftrightarrow> (\<forall>j < 5. cstr (mem s) (commands_addr (syms s) + of_nat (0x20 * j)) (commands ! j))"

lemma do_command_cases:
  assumes "cstr (mem s) command cs" "command_table s"
  shows "do_command command argc argv s =
    (if cs = lit ''help'' then help_command s
     else if cs = lit ''pd'' then physdump argc argv s
     else if cs = lit ''vd'' then virtdump argc argv s
     else print_format (''Invalid command'' @ newline) [] s)"
proof -
  have five: "length commands = 5"
    by (simp add: commands_def)
  have "find_command (mem s) (commands_addr (syms s)) command 5 0 = Some (length (takeWhile (\<lambda>t. t \<noteq> cs) commands))"
    using find_command_table [OF assms(1), of commands "commands_addr (syms s)" 0] assms(2) five
    by (simp add: command_table_def del: find_command.simps)
  then show ?thesis
    by (auto simp: do_command_def commands_def)
qed

lemma virtdump_columns:
  assumes "parse_address (mem s) (load32 (mem s) argv) 0 = Some address"
  shows "virtdump 1 argv s = columns 16 0 (dump_line address address) s"
  using assms by (simp add: virtdump_def)

section \<open>The window\<close>

text \<open>The byte at a physical address, whose cells are little-endian words.\<close>

definition phys_byte :: "kernel \<Rightarrow> u32 \<Rightarrow> u8" where
  "phys_byte s p = ucast (drop_bit (8 * unat (p AND 3)) (phys s (p AND NOT 3)))"

lemma split_mask: "(x :: u32) = (x AND NOT m) + (x AND m)"
  by (subst disjunctive_add) (auto simp: bit_simps intro!: bit_word_eqI)

lemma in_page_parts:
  assumes "page_aligned b" "n < 4096"
  shows "(b + of_nat n) AND NOT PAGE_OFFSET_MASK = b" "(b + of_nat n) AND 3 = of_nat n AND 3"
    "(b + of_nat n) AND 0xFFC = of_nat n AND 0xFFC" "(b + of_nat n) AND NOT 3 = b + (of_nat n AND 0xFFC)"
proof -
  let ?x = "b + of_nat n :: u32"
  have "of_nat n < (4096 :: u32)"
    using assms(2) unat_of_nat_small [of n] by (simp add: word_less_nat_alt)
  from page_offset(1) [OF assms(1) this] have off: "?x AND 0xFFF = of_nat n" .
  show base: "?x AND NOT PAGE_OFFSET_MASK = b"
    using split_mask [of ?x PAGE_OFFSET_MASK] off by simp
  have "?x AND 3 = (?x AND 0xFFF) AND 3" "?x AND 0xFFC = (?x AND 0xFFF) AND 0xFFC"
    by (simp_all add: and.assoc)
  then show "?x AND 3 = of_nat n AND 3" and ffc: "?x AND 0xFFC = of_nat n AND 0xFFC"
    using off by simp_all
  have "p AND NOT (t AND m) = (p AND NOT m) + (p AND m AND NOT (t AND m))" for p t m :: u32
    by (subst disjunctive_add) (auto simp: bit_simps intro!: bit_word_eqI)
  from this [of ?x 3 "0xFFF"] show "?x AND NOT 3 = b + (of_nat n AND 0xFFC)"
    using base ffc by simp
qed

lemma window_byte:
  assumes "unat (address AND PAGE_OFFSET_MASK) + k < 4096"
  shows "virtual_byte ((TEMP_PAGE OR (address AND PAGE_OFFSET_MASK)) + of_nat k) (temp_map_page address s) = phys_byte s (address + of_nat k)"
    "((TEMP_PAGE OR (address AND PAGE_OFFSET_MASK)) + of_nat k) AND NOT PAGE_OFFSET_MASK = TEMP_PAGE"
proof -
  let ?n = "unat (address AND PAGE_OFFSET_MASK) + k" and ?f = "address AND NOT PAGE_OFFSET_MASK"
  have "(t AND NOT m) OR (x AND m) = (t AND NOT m) + (x AND m)" for t x m :: u32
    by (subst disjunctive_add) (auto simp: bit_simps intro!: bit_word_eqI)
  from this [of TEMP_PAGE PAGE_OFFSET_MASK address]
  have v: "(TEMP_PAGE OR (address AND PAGE_OFFSET_MASK)) + of_nat k = TEMP_PAGE + of_nat ?n"
    by (simp add: TEMP_PAGE_value del: frame_fold)
  have "?f + of_nat ?n = (?f + (address AND PAGE_OFFSET_MASK)) + of_nat k"
    by (simp add: add.assoc)
  also have "?f + (address AND PAGE_OFFSET_MASK) = address"
    by (rule split_mask [symmetric])
  finally have a: "address + of_nat k = ?f + of_nat ?n" by (rule sym)
  have al: "page_aligned TEMP_PAGE" "page_aligned ?f"
  proof -
    show "page_aligned TEMP_PAGE" by (simp add: TEMP_PAGE_value page_aligned_def)
    show "page_aligned ?f" by (rule frame_aligned [unfolded frame_def])
  qed
  note t = in_page_parts [OF al(1) assms] and f = in_page_parts [OF al(2) assms]
  show "virtual_byte ((TEMP_PAGE OR (address AND PAGE_OFFSET_MASK)) + of_nat k) (temp_map_page address s) = phys_byte s (address + of_nat k)"
    unfolding v a virtual_byte_def phys_byte_def t f temp_read_def temp_frame_map by simp
  show "((TEMP_PAGE OR (address AND PAGE_OFFSET_MASK)) + of_nat k) AND NOT PAGE_OFFSET_MASK = TEMP_PAGE"
    unfolding v by (rule t(1))
qed

text \<open>A screen with the argument \<open>1000\<close> in the vector at \<open>0x3000\<close>, and the table of commands at \<open>0x4000\<close>.\<close>

definition asked :: kernel where
  "asked = vga\<lparr>seg_ds := 0x10, syms := (syms vga)\<lparr>commands_addr := 0x4000\<rparr>,
     mem := (mem vga)(0x3000 := 0x04, 0x3001 := 0x30, 0x3004 := 49, 0x3005 := 48, 0x3006 := 48, 0x3007 := 48,
       0x4000 := 104, 0x4001 := 101, 0x4002 := 108, 0x4003 := 112, 0x4020 := 112, 0x4021 := 100, 0x4040 := 118, 0x4041 := 100)\<rparr>"

lemma asked_console: "tty_ok asked" "num_bytes asked \<inter> screen_bytes asked = {}"
proof -
  have "screen_bytes asked = screen_bytes vga" "num_bytes asked = num_bytes vga"
    by (simp_all add: asked_def screen_bytes_def)
  then show "num_bytes asked \<inter> screen_bytes asked = {}"
    using vga_bytes by simp
  show "tty_ok asked"
    using vga_ok by (simp add: asked_def tty_ok_def tty_geometry_def)
qed

lemma asked_argument: "cstr (mem asked) (load32 (mem asked) 0x3000) (digit_string 16 (unat (0x1000 :: u32)))"
proof -
  have "load32 (mem asked) 0x3000 = 0x3004"
    by (simp add: load32_def asked_def vga_def)
  moreover have "digit_string 16 0x1000 = [49, 48, 48, 48]"
    by (simp add: digit_string.simps digits_def)
  ultimately show ?thesis
    by (simp add: cstr_Cons cstr_Nil asked_def vga_def)
qed

lemma asked_dumpable: "dumpable asked 0x1000"
proof -
  have b: "screen_bytes asked = bytes_at 0xB8000 4000" "num_bytes asked = bytes_at 0x80008000 66"
    by (simp_all add: asked_def vga_def zero_kernel_def screen_bytes_def)
  have "unat (0x1000 + of_nat k :: u32) = 0x1000 + k" if "k < 256" for k
    using that unat_add_of_nat [of "0x1000" k] by simp
  then have "0x1000 + of_nat k \<notin> bytes_at 0xB8000 4000 \<and> 0x1000 + of_nat k \<notin> bytes_at 0x80008000 66" if "k < 256" for k
    using that by (simp add: bytes_at_nowrap)
  then show ?thesis
    by (simp add: dumpable_def Let_def b)
qed

lemma asked_table: "command_table asked" "cstr (mem asked) 0x4040 (lit ''vd'')"
proof -
  have "cstr (mem asked) (0x4000 + of_nat (0x20 * j)) (commands ! j)" if "j < 5" for j
  proof -
    have "j = 0 \<or> j = 1 \<or> j = 2 \<or> j = 3 \<or> j = 4" using that by linarith
    then show ?thesis
      by (auto simp: commands_def cstr_Cons cstr_Nil asked_def vga_def)
  qed
  from this [of 2] this show "command_table asked" "cstr (mem asked) 0x4040 (lit ''vd'')"
    by (auto simp: command_table_def commands_def asked_def)
qed

section \<open>Properties of the commands\<close>

text \<open>
  \<open>do_command\<close> runs the command whose name is the given string: the names are compared by \<open>strcmp\<close> with the
  table, the first three entries are commands, and everything else, the empty string too, is answered by a message.
\<close>

theorem do_command_dispatches:
  assumes "cstr (mem s) command cs" and "command_table s"
  shows "do_command command argc argv s =
    (if cs = lit ''help'' then help_command s
     else if cs = lit ''pd'' then physdump argc argv s
     else if cs = lit ''vd'' then virtdump argc argv s
     else print_format (''Invalid command'' @ newline) [] s)"
  using assms by (rule do_command_cases)

theorem do_command_dispatches_witness: "do_command 0x4040 1 0x3000 asked = virtdump 1 0x3000 asked"
  using do_command_dispatches [OF asked_table(2,1)] by simp

text \<open>
  C10: \<open>vd\<close> with one argument, the hexadecimal digits of an address, prints the 256 bytes of virtual memory from
  that address on, sixteen to a line with the data segment, the address, the bytes and the characters, and
  changes nothing else.
\<close>

theorem virtdump_prints_memory:
  assumes "tty_ok s" and "num_bytes s \<inter> screen_bytes s = {}"
    and "cstr (mem s) (load32 (mem s) argv) (digit_string 16 (unat address))" and "dumpable s address"
  shows "\<exists>s'. virtdump 1 argv s = Some s' \<and> tty_ok s' \<and> rest_num s' = rest_num s
    \<and> screen_of s' = fold put_char (dump_text (seg_ds s) address (\<lambda>k. virtual_byte (address + of_nat k) s)) (screen_of s)"
proof -
  have "parse_address (mem s) (load32 (mem s) argv) 0 = Some address"
    using parse_address_printed [of "[]" "mem s" "load32 (mem s) argv" address] assms(3) by simp
  note v = virtdump_columns [OF this]
  obtain s' where "columns 16 0 (dump_line address address) s = Some s'" "printed s s'"
    "screen_of s' = fold put_char (dump_text (seg_ds s) address (\<lambda>k. virtual_byte (address + of_nat k) s)) (screen_of s)"
    using writes_result [OF dump_lines_write [OF assms(4), of address]] assms(1,2) by blast
  then show ?thesis
    using v by (auto simp: printed_def)
qed

theorem virtdump_prints_memory_witness:
  "\<exists>s'. virtdump 1 0x3000 asked = Some s'
    \<and> screen_of s' = fold put_char (dump_text 0x10 0x1000 (\<lambda>k. virtual_byte (0x1000 + of_nat k) asked)) (screen_of asked)"
proof -
  have "seg_ds asked = 0x10"
    by (simp add: asked_def vga_def zero_kernel_def)
  then show ?thesis
    using virtdump_prints_memory [OF asked_console asked_argument asked_dumpable] by auto
qed

definition not_printed_on :: "u32 \<Rightarrow> kernel \<Rightarrow> bool" where
  "not_printed_on address s \<longleftrightarrow> (\<forall>x \<in> screen_bytes s \<union> num_bytes s. \<forall>q. translate (cr3 s) s x = Some q \<longrightarrow> page_no q \<noteq> page_no address)"

text \<open>
  C11: let the 256 bytes from a physical address on lie in one page, which is none of the pages of the
  screen or of the number buffer (\<open>phys\<close> and \<open>mem\<close> are apart in the model, so a dump of the screen while
  it is written to is no case of the theorem). Then \<open>pd\<close> with the digits of the address prints these
  bytes, and leaves the window at the page where it was.
\<close>

theorem physdump_prints_memory:
  assumes "tty_ok s" and "num_bytes s \<inter> screen_bytes s = {}"
    and "cstr (mem s) (load32 (mem s) argv) (digit_string 16 (unat address))"
    and "unat (address AND PAGE_OFFSET_MASK) + 256 \<le> 4096" and "not_printed_on address s"
  shows "\<exists>s'. physdump 1 argv s = Some s' \<and> tty_ok s' \<and> phys s' = phys s \<and> temp_frame s' = temp_frame s
    \<and> screen_of s' = fold put_char (dump_text (seg_ds s) address (\<lambda>k. phys_byte s (address + of_nat k))) (screen_of s)"
proof -
  let ?a = "temp_map_page address s" and ?base = "TEMP_PAGE OR (address AND PAGE_OFFSET_MASK)"
  have "parse_address (mem s) (load32 (mem s) argv) 0 = Some address"
    using parse_address_printed [of "[]" "mem s" "load32 (mem s) argv" address] assms(3) by simp
  then have p: "physdump 1 argv s = do { s' \<leftarrow> columns 16 0 (dump_line address ?base) ?a; Some (temp_map_page (temp_pte s) s') }"
    by (simp add: physdump_def Let_def)
  have console: "console ?a" and scr: "screen_of ?a = screen_of s" and ds: "seg_ds ?a = seg_ds s"
    using assms(1,2) by (simp_all add: temp_map_page_def screen_of_def screen_bytes_def tty_ok_def tty_geometry_def)
  have "dumpable ?a ?base"
    using window_byte(2) [of address] assms(4) by (simp add: dumpable_def)
  note lines = dump_lines_write [OF this, of address]
  have bytes: "dump_text (seg_ds s) address (\<lambda>k. virtual_byte (?base + of_nat k) ?a) = dump_text (seg_ds s) address (\<lambda>k. phys_byte s (address + of_nat k))"
    by (rule dump_text_cong) (use window_byte(1) [of address] assms(4) in simp)
  obtain b where b: "columns 16 0 (dump_line address ?base) ?a = Some b" "printed ?a b"
    "screen_of b = fold put_char (dump_text (seg_ds s) address (\<lambda>k. phys_byte s (address + of_nat k))) (screen_of s)"
    using writes_result [OF lines console] unfolding ds bytes scr by blast
  have "screen_of (temp_map_page q b) = screen_of b" "tty_ok (temp_map_page q b) = tty_ok b" for q
    by (simp_all add: temp_map_page_def screen_of_def tty_ok_def tty_geometry_def)
  moreover have "temp_frame (temp_map_page (temp_pte s) b) = temp_frame s"
    by (subst temp_frame_map) (simp add: temp_frame_def)
  ultimately show ?thesis
    using b printed_fields [OF b(2)] p by (auto simp: printed_def)
qed

text \<open>With page tables that map the screen onto itself and the page of the buffer to \<open>0x108000\<close>.\<close>

definition asked_mapped :: kernel where
  "asked_mapped = asked\<lparr>cr3 := 0x100000, phys := (\<lambda>_. 0)(0x100000 := 0x101003, 0x1012E0 := 0xB8003, 0x100800 := 0x102003, 0x102020 := 0x108003)\<rparr>"

lemma asked_mapped_apart: "not_printed_on 0x1000 asked_mapped"
  unfolding not_printed_on_def
proof (intro ballI allI impI)
  fix x q assume "translate (cr3 asked_mapped) asked_mapped x = Some q"
  then obtain a where a: "q = frame (phys asked_mapped a) + (x AND PAGE_OFFSET_MASK)" "present (phys asked_mapped a)"
    by (auto simp: translate_def pte_eq split: if_splits)
  have "phys asked_mapped a \<in> {0, 0x101003, 0xB8003, 0x102003, 0x108003}"
    by (simp add: asked_mapped_def)
  then have "frame (phys asked_mapped a) \<in> {0x101000, 0xB8000, 0x102000, 0x108000}"
    using a(2) by (auto simp: frame_def present_def simp del: frame_fold)
  moreover have "page_no q = page_no (frame (phys asked_mapped a))"
  proof -
    have "x AND PAGE_OFFSET_MASK \<le> PAGE_OFFSET_MASK"
      by (rule word_and_le1)
    then have "unat (x AND PAGE_OFFSET_MASK) < 4096"
      by (simp add: word_le_nat_alt)
    then show ?thesis
      unfolding a(1) using page_no_in_page [of "frame (phys asked_mapped a)" "unat (x AND PAGE_OFFSET_MASK)"]
      by (simp del: frame_fold)
  qed
  ultimately show "page_no q \<noteq> page_no 0x1000"
    by (auto simp: page_no_def)
qed

theorem physdump_prints_memory_witness:
  "\<exists>s'. physdump 1 0x3000 asked_mapped = Some s' \<and> temp_frame s' = temp_frame asked_mapped
    \<and> screen_of s' = fold put_char (dump_text 0x10 0x1000 (\<lambda>k. phys_byte asked_mapped (0x1000 + of_nat k))) (screen_of asked_mapped)"
proof -
  have m: "seg_ds asked_mapped = 0x10" "mem asked_mapped = mem asked" "tty_state asked_mapped = tty_state asked"
    by (simp_all add: asked_mapped_def asked_def vga_def zero_kernel_def)
  have "tty_ok asked_mapped" "num_bytes asked_mapped \<inter> screen_bytes asked_mapped = {}"
    using asked_console by (simp_all add: tty_ok_def tty_geometry_def screen_bytes_def asked_mapped_def)
  then show ?thesis
    using physdump_prints_memory [OF _ _ _ _ asked_mapped_apart, of "0x3000"] asked_argument by (auto simp: m)
qed

end
