(* ===== verification/Session.thy ===== *)
theory Session
  imports LineInput Dump
begin

text \<open>
  The shell as a whole: what one round of \<open>shell\<close> makes of the keys that come in, composed of
  \<open>clear_screen\<close>, \<open>printf\<close>, \<open>in_string\<close>, \<open>pars_input\<close>, \<open>do_command\<close> and \<open>kfree\<close>, and the dialogue of any
  number of rounds, as a function from the stream of scan codes to the screen.
\<close>

section \<open>The memory of the shell\<close>

text \<open>
  The shell works on the screen, the buffer of \<open>int_to_str\<close>, the heap and \<open>T\<close>, the table of the heap; these
  lie apart, and apart from the table of commands.
\<close>

definition work_bytes :: "u32 set \<Rightarrow> kernel \<Rightarrow> u32 set" where
  "work_bytes T s = screen_bytes s \<union> num_bytes s \<union> heap_bytes s \<union> T"

definition command_bytes :: "kernel \<Rightarrow> u32 set" where
  "command_bytes s = bytes_at (commands_addr (syms s)) 0xA0"

definition areas_apart :: "u32 set \<Rightarrow> kernel \<Rightarrow> bool" where
  "areas_apart T s \<longleftrightarrow> screen_bytes s \<inter> (heap_bytes s \<union> T) = {} \<and> num_bytes s \<inter> (screen_bytes s \<union> heap_bytes s \<union> T) = {}
     \<and> command_bytes s \<inter> work_bytes T s = {}"

text \<open>Room for \<open>k\<close> more blocks of \<open>n\<close> bytes altogether.\<close>

definition shell_ready :: "u32 set \<Rightarrow> nat \<Rightarrow> nat \<Rightarrow> kernel \<Rightarrow> run list \<Rightarrow> bool" where
  "shell_ready T k n s vs \<longleftrightarrow> heap_space k n s vs \<and> heap_table_bytes (length vs + k) s \<subseteq> T \<and> tty_ok s \<and> command_table s \<and> areas_apart T s"

lemma shell_readyD:
  assumes "shell_ready T k n s vs"
  shows "heap_space k n s vs" "heap_table_bytes (length vs + k) s \<subseteq> T" "tty_ok s" "command_table s" "areas_apart T s" "console s"
  using assms by (auto simp: shell_ready_def areas_apart_def)

text \<open>What every step of the shell leaves alone.\<close>

definition quiet :: "u32 set \<Rightarrow> kernel \<Rightarrow> kernel \<Rightarrow> bool" where
  "quiet T s t \<longleftrightarrow> same_setup s t \<and> (\<forall>x. x \<notin> work_bytes T s \<longrightarrow> mem t x = mem s x)"

lemma same_setup_bytes:
  assumes "same_setup s t"
  shows "work_bytes T t = work_bytes T s" "command_bytes t = command_bytes s" "areas_apart T t = areas_apart T s"
    "num_bytes t = num_bytes s" "seg_ds t = seg_ds s" "syms t = syms s"
proof -
  note scr = same_setup_screen [OF assms]
  from assms have f: "syms t = syms s" "heap_bytes t = heap_bytes s" and ds: "seg_ds t = seg_ds s"
    unfolding same_setup_def by blast+
  show w: "work_bytes T t = work_bytes T s"
    unfolding work_bytes_def scr f ..
  show c: "command_bytes t = command_bytes s"
    unfolding command_bytes_def f ..
  show "areas_apart T t = areas_apart T s"
    unfolding areas_apart_def w c scr f ..
  show "num_bytes t = num_bytes s" "seg_ds t = seg_ds s" "syms t = syms s"
    unfolding f ds by (rule refl)+
qed

lemma quiet_refl [simp]: "quiet T s s"
  by (simp add: quiet_def)

lemma quiet_trans:
  assumes "quiet T s t" "quiet T t u"
  shows "quiet T s u"
proof -
  have st: "same_setup s t" "\<And>x. x \<notin> work_bytes T s \<Longrightarrow> mem t x = mem s x"
    and tu: "same_setup t u" "\<And>x. x \<notin> work_bytes T t \<Longrightarrow> mem u x = mem t x"
    using assms unfolding quiet_def by blast+
  then have "mem u x = mem s x" if "x \<notin> work_bytes T s" for x
    using that same_setup_bytes(1) [OF st(1)] by simp
  then show ?thesis
    using same_setup_trans [OF st(1) tu(1)] unfolding quiet_def by blast
qed

lemma command_table_frame:
  assumes "command_table s" "syms t = syms s" "\<forall>x \<in> command_bytes s. mem t x = mem s x"
  shows "command_table t"
  unfolding command_table_def assms(2)
proof (intro allI impI)
  fix j :: nat assume j: "j < 5"
  have "length (commands ! j) < 0x20"
    using j by (auto simp: commands_def less_Suc_eq numeral_eq_Suc)
  then have sub: "bytes_at (commands_addr (syms s) + of_nat (0x20 * j)) (Suc (length (commands ! j))) \<subseteq> command_bytes s"
    unfolding command_bytes_def using j by (intro bytes_at_sub) simp_all
  show "cstr (mem t) (commands_addr (syms s) + of_nat (0x20 * j)) (commands ! j)"
    by (rule cstr_frame [of "mem s"]) (use assms(1,3) j sub in \<open>auto simp: command_table_def\<close>)
qed

lemma ready_quiet:
  assumes "shell_ready T k n s vs" "quiet T s t" "tty_ok t" "heap_space k' n' t vs'" "heap_table_bytes (length vs' + k') t \<subseteq> T"
  shows "shell_ready T k' n' t vs'"
proof -
  note r = shell_readyD [OF assms(1)]
  have same: "same_setup s t" and m: "\<And>x. x \<notin> work_bytes T s \<Longrightarrow> mem t x = mem s x"
    using assms(2) unfolding quiet_def by blast+
  note e = same_setup_bytes [OF same]
  have "\<forall>x \<in> command_bytes s. mem t x = mem s x"
    using m r(5) unfolding areas_apart_def by blast
  then have "command_table t"
    by (rule command_table_frame [OF r(4) e(6)])
  then show ?thesis
    unfolding shell_ready_def e(3) using assms(3-5) r(5) by simp
qed

section \<open>The steps\<close>

text \<open>Printing.\<close>

lemma rest_num_quiet:
  assumes "rest_num t = rest_num s"
  shows "quiet T s t" "heap_state t = heap_state s" "kbd t = kbd s"
proof -
  have f: "f (rest_num t) = f (rest_num s)" for f using assms by simp
  show h: "heap_state t = heap_state s"
    using f [of heap_state] by (simp add: rest_num_def rest_of_def address_space_def split: space.splits)
  show "kbd t = kbd s"
    using f [of kbd] by (simp add: rest_num_def rest_of_def)
  have "same_setup s t"
    using h f [of syms] f [of seg_ds] f [of phys] f [of temp_pte] f [of tty_state]
    by (simp add: same_setup_def heap_ptr_def heap_end_def) (simp add: rest_num_def rest_of_def)
  then show "quiet T s t"
    using rest_numD(3) [OF assms] unfolding quiet_def work_bytes_def by blast
qed

lemma ready_display:
  assumes "shell_ready T k n s vs" "tty_ok t" "rest_num t = rest_num s"
  shows "shell_ready T k n t vs" "quiet T s t" "kbd t = kbd s"
proof -
  note r = shell_readyD [OF assms(1)] and q = rest_num_quiet [OF assms(3)]
  have "bytes_at (heap_ptr s) (8 * length vs) \<subseteq> heap_table_bytes (length vs + k) s"
    by (rule bytes_at_mono) simp
  then have "\<forall>x \<in> bytes_at (heap_ptr s) (8 * length vs). x \<notin> screen_bytes s \<and> x \<notin> num_bytes s"
    using r(2,5) unfolding areas_apart_def by blast
  then have "\<forall>x \<in> bytes_at (heap_ptr s) (8 * length vs). mem t x = mem s x"
    using rest_numD(3) [OF assms(3)] by blast
  note sp = heap_space_cong [OF r(1) q(2) this]
  show "shell_ready T k n t vs"
    by (rule ready_quiet [OF assms(1) q(1) assms(2) sp(1)]) (unfold sp(3), rule r(2))
  show "quiet T s t" "kbd t = kbd s" by (rule q)+
qed

lemma ready_prints:
  assumes "shell_ready T k n s vs" "writes f s t"
  obtains u where "f s = Some u" "shell_ready T k n u vs" "quiet T s u" "kbd u = kbd s" "screen_of u = fold put_char t (screen_of s)"
proof -
  obtain u where u: "f s = Some u" "printed s u" "screen_of u = fold put_char t (screen_of s)"
    by (rule writes_result [OF assms(2) shell_readyD(6) [OF assms(1)]])
  then have "tty_ok u" "rest_num u = rest_num s"
    by (simp_all add: printed_def)
  with ready_display [OF assms(1) this] u that show thesis by blast
qed

lemma ready_clear:
  assumes "shell_ready T k n s vs"
  shows "shell_ready T k n (clear_screen s) vs" "quiet T s (clear_screen s)" "kbd (clear_screen s) = kbd s"
    "screen_of (clear_screen s) = wiped (screen_of s)"
proof -
  note c = clear_screen_wipes [OF shell_readyD(3) [OF assms]]
  show "shell_ready T k n (clear_screen s) vs" "quiet T s (clear_screen s)" "kbd (clear_screen s) = kbd s"
    by (rule ready_display [OF assms c(1) rest_num_rest [OF c(3)]])+
  show "screen_of (clear_screen s) = wiped (screen_of s)" by (rule c)
qed

text \<open>Operations on the heap.\<close>

lemma ready_heap:
  assumes "shell_ready T k n s vs" "heap_only T s t" "heap_space k' n' t vs'" "heap_table_bytes (length vs' + k') s \<subseteq> T"
  shows "shell_ready T k' n' t vs'" "quiet T s t" "kbd t = kbd s" "screen_of t = screen_of s"
proof -
  note r = shell_readyD [OF assms(1)] and o = heap_onlyD [OF assms(2)]
  have scr: "screen_bytes s \<inter> (heap_bytes s \<union> T) = {}"
    using r(5) unfolding areas_apart_def by blast
  note c = heap_only_screen [OF assms(2) r(3) scr]
  show q: "quiet T s t"
    using o(1,6) unfolding quiet_def work_bytes_def by blast
  show "shell_ready T k' n' t vs'"
    by (rule ready_quiet [OF assms(1) q c(2) assms(3)]) (unfold o(5), rule assms(4))
  show "kbd t = kbd s" "screen_of t = screen_of s" by (rule o(3) c(1))+
qed

lemma heap_only_mono: "heap_only S s t \<Longrightarrow> S \<subseteq> T \<Longrightarrow> heap_only T s t"
  unfolding heap_only_def by blast

lemma ready_free:
  assumes "shell_ready T k n s vs"
  obtains vs' where "shell_ready T k n (snd (kfree p s)) vs'" "quiet T s (snd (kfree p s))" "kbd (snd (kfree p s)) = kbd s"
    "screen_of (snd (kfree p s)) = screen_of s"
proof (cases "vs = []")
  case True
  have "heap_regions s []"
    using shell_readyD(1) [OF assms] True by (simp add: heap_space_def)
  then have "kfree p s = (False, s)"
    by (simp add: kfree_def kfree_loop.simps heap_regions_def heap_table_def)
  with that [of vs] assms show thesis by simp
next
  case False
  note r = shell_readyD [OF assms]
  obtain b t vs' where f: "kfree p s = (b, t)" "heap_space k n t vs'" "length vs' \<le> length vs" "heap_step (length vs) s t"
    by (rule heap_space_free [OF r(1) False, of p]) blast
  have sub: "bytes_at (heap_ptr s) (8 * length vs) \<subseteq> T" "heap_table_bytes (length vs' + k) s \<subseteq> T"
    by (rule subset_trans [OF _ r(2)], rule bytes_at_mono, use f(3) in simp)+
  show thesis
    using that [of vs'] ready_heap [OF assms heap_only_step [OF f(4) sub(1)] f(2) sub(2)] f(1) by simp
qed

text \<open>Reading a line, for a buffer that doubles up to \<open>g\<close> times.\<close>

lemma ready_input:
  assumes "shell_ready T (Suc g + k) (16 * (2 ^ Suc g - 1) + n) s vs" "keys_ok sched s" "length (codes_left sched s) \<le> buffer_size g"
    "edit [] (screen_of s) (codes_left sched s) = Some (line, sc, rest)"
  obtains p sched' t vs' where "in_string sched s = Some (p, sched', t)" "shell_ready T k n t vs'" "line_in t vs' p line"
    "quiet T s t" "keys_ok sched' t" "codes_left sched' t = rest" "screen_of t = sc"
proof -
  note r = shell_readyD [OF assms(1)]
  have "screen_bytes s \<inter> (heap_bytes s \<union> heap_table_bytes (length vs + (Suc g + k)) s) = {}"
    using r(2,5) unfolding areas_apart_def by blast
  then have room: "input_room g k n s vs"
    using r(1) by (simp add: input_room_def)
  obtain p sched' t vs' where i: "in_string sched s = Some (p, sched', t)" "heap_space k n t vs'" "line_in t vs' p line"
    "\<forall>x. x \<notin> screen_bytes s \<longrightarrow> x \<notin> heap_bytes s \<longrightarrow> x \<notin> heap_table_bytes (length vs + (Suc g + k)) s \<longrightarrow> mem t x = mem s x"
    "keys_ok sched' t" "codes_left sched' t = rest" "tty_ok t" "screen_of t = sc" "same_setup s t"
    "heap_table_bytes (length vs' + k) t \<subseteq> heap_table_bytes (length vs + (Suc g + k)) s"
    by (rule in_string_reads [OF room r(3) assms(2-4)])
  have q: "quiet T s t"
    using i(4,9) r(2) unfolding quiet_def work_bytes_def by blast
  show thesis
    by (rule that [OF i(1) ready_quiet [OF assms(1) q i(7,2) subset_trans [OF i(10) r(2)]] i(3) q i(5,6,8)])
qed

section \<open>What the shell answers\<close>

abbreviation command_of :: "u8 list \<Rightarrow> u8 list" where
  "command_of line \<equiv> word_of (after_spaces line)"
abbreviation arguments_of :: "u8 list \<Rightarrow> u8 list list" where
  "arguments_of line \<equiv> tokens (after_word (after_spaces line))"

text \<open>
  The lines that \<open>pars_input\<close> splits at their spaces: a single word, or several with none of the spaces
  in front.
\<close>

definition plain :: "u8 list \<Rightarrow> bool" where
  "plain line \<longleftrightarrow> after_word (after_spaces line) = [] \<or> hd line \<noteq> 32 \<and> arguments_of line \<noteq> []"

definition help_text :: "u8 list" where
  "help_text = lit (''pd - physical dump'' @ newline) @ lit (''vd - virtual dump'' @ newline)"

definition wrong_text :: "string \<Rightarrow> nat \<Rightarrow> u8 list" where
  "wrong_text name n = lit (name @ '' takes one value'' @ newline) @ lit ''you passed '' @ digit_string 16 n @ lit '' value'' @ lit newline"

text \<open>The 256 bytes from \<open>base\<close> on are none of those that the shell works on.\<close>

definition steady :: "u32 set \<Rightarrow> kernel \<Rightarrow> u32 \<Rightarrow> bool" where
  "steady T s base \<longleftrightarrow> (\<forall>k < 256. let va = base + of_nat k in va AND NOT PAGE_OFFSET_MASK \<noteq> TEMP_PAGE \<longrightarrow> va \<notin> work_bytes T s)"

definition dumped :: "kernel \<Rightarrow> u32 \<Rightarrow> u8 list" where
  "dumped s base = dump_text (seg_ds s) base (\<lambda>k. virtual_byte (base + of_nat k) s)"

text \<open>
  The answer to a line; \<open>None\<close> for the lines left open here: \<open>pd\<close> with an argument, a command that
  takes arguments and gets those of the line before, a number that is not up to eight digits, and a dump
  of the working memory of the shell.
\<close>

definition answer :: "u32 set \<Rightarrow> kernel \<Rightarrow> u8 list \<Rightarrow> u8 list option" where
  "answer T s line =
     (if \<not> plain line then None
      else if command_of line = lit ''help'' then Some help_text
      else if command_of line = lit ''pd'' then
        (if length (arguments_of line) < 2 then None else Some (wrong_text ''physdump'' (length (arguments_of line))))
      else if command_of line = lit ''vd'' then
        (case arguments_of line of
           [] \<Rightarrow> None
         | [a] \<Rightarrow> (if (\<forall>c \<in> set a. is_hex c) \<and> a \<noteq> [] \<and> length a \<le> 8 \<and> steady T s (of_nat (hex_value a))
                    then Some (dumped s (of_nat (hex_value a))) else None)
         | _ \<Rightarrow> Some (wrong_text ''virtdump'' (length (arguments_of line))))
      else Some (lit (''Invalid command'' @ newline)))"

lemma steady_dumpable: "steady T s base \<Longrightarrow> dumpable s base"
  by (auto simp: steady_def dumpable_def work_bytes_def Let_def)

lemma quiet_answer:
  assumes "quiet T s t"
  shows "answer T t line = answer T s line"
proof -
  have same: "same_setup s t" and m: "\<And>x. x \<notin> work_bytes T s \<Longrightarrow> mem t x = mem s x"
    using assms unfolding quiet_def by blast+
  note e = same_setup_bytes [OF same]
  have f: "phys t = phys s" "temp_pte t = temp_pte s"
    using same by (simp_all add: same_setup_def)
  have st: "steady T t base = steady T s base" for base
    unfolding steady_def e(1) ..
  have "dumped t base = dumped s base" if "steady T s base" for base
    unfolding dumped_def e(5)
  proof (rule dump_text_cong)
    fix k :: nat assume "k < 256"
    then show "virtual_byte (base + of_nat k) t = virtual_byte (base + of_nat k) s"
      using that m [of "base + of_nat k"] f
      by (auto simp: virtual_byte_def temp_read_def temp_frame_def load8_def steady_def Let_def)
  qed
  then show ?thesis
    unfolding answer_def st by (auto split: list.split)
qed

lemma help_writes: "writes help_command s help_text"
proof -
  have "writes (print_format (''pd - physical dump'' @ newline) []) s (lit (''pd - physical dump'' @ newline))"
    "writes (print_format (''vd - virtual dump'' @ newline) []) s (lit (''vd - virtual dump'' @ newline))"
    by (rule writes_format; simp)+
  from writes_bind [OF this] show ?thesis
    by (simp only: help_command_def [abs_def] help_text_def)
qed

lemma wrong_argc_writes:
  assumes "n < 2 ^ 32" "name \<in> {''physdump'', ''virtdump''}"
  shows "writes (wrong_argc name (of_nat n)) s (wrong_text name n)"
proof -
  have "writes (print_format (name @ '' takes one value'' @ newline) []) s (lit (name @ '' takes one value'' @ newline))"
    using assms(2) by (intro writes_format) auto
  moreover have "writes (print_format (''you passed %x value'' @ newline) [of_nat n]) s
      (lit ''you passed '' @ digit_string 16 n @ lit '' value'' @ lit newline)"
    by (rule writes_format) (simp_all add: conversion_text_def unat_of_nat_small [OF assms(1)])
  ultimately have "writes (\<lambda>s. do { s \<leftarrow> print_format (name @ '' takes one value'' @ newline) [] s;
      print_format (''you passed %x value'' @ newline) [of_nat n] s }) s (wrong_text name n)"
    unfolding wrong_text_def by (rule writes_bind)
  then show ?thesis
    by (simp only: wrong_argc_def [abs_def])
qed

text \<open>The bytes of the blocks that \<open>pars_input\<close> takes for a line.\<close>

definition line_room :: "u8 list \<Rightarrow> nat" where
  "line_room line = Suc (length (command_of line)) + (4 * length (arguments_of line) + args_size (arguments_of line))"

lemma ready_parse:
  assumes "shell_ready T (Suc (Suc k)) (line_room line + n) s vs" "line_in s vs p line" "plain line"
  obtains v' t vs' where "pars_input p v s = Some (v', t)" "shell_ready T k n t vs'" "cstr (mem t) (v_command v') (command_of line)"
    "arguments_of line \<noteq> [] \<longrightarrow> v_argc v' = of_nat (length (arguments_of line)) \<and> length (arguments_of line) < 2 ^ 30
       \<and> args_at (mem t) (v_argv v') 0 (4 * length (arguments_of line)) (arguments_of line)"
    "quiet T s t" "kbd t = kbd s" "screen_of t = screen_of s"
proof -
  let ?w = "command_of line" and ?args = "arguments_of line"
  let ?room = "4 * length ?args + args_size ?args"
  note r = shell_readyD [OF assms(1)]
  have sp: "heap_space (Suc (Suc k)) (Suc (length ?w) + (?room + n)) s vs"
    using r(1) by (simp only: line_room_def add.assoc)
  have tbl: "heap_table_bytes i s \<subseteq> T" if "i \<le> length vs + Suc (Suc k)" for i
    by (rule subset_trans [OF _ r(2)], rule bytes_at_mono) (use that in simp)
  show thesis
  proof (cases "after_word (after_spaces line) = []")
    case True
    obtain c t vs1 where a: "heap_space (Suc k) (?room + n) t vs1" "cstr (mem t) c ?w" "length vs1 = Suc (length vs)"
        "heap_only (heap_table_bytes (length vs + Suc (Suc k)) s) s t" "pars_input p v s = Some (v\<lparr>v_command := c\<rparr>, t)"
      by (rule pars_input_cases [OF sp assms(2), of v]) (subst (asm) if_P [OF True], blast)
    have sp': "heap_space k n t vs1"
      by (rule heap_space_mono [of 1 k ?room]) (use a(1) in simp)
    have "?args = []" unfolding True by (subst tokens_unfold) simp
    then show thesis
      using that [OF a(5)] ready_heap [OF assms(1) heap_only_mono [OF a(4) tbl] sp' tbl] a(2,3) by simp
  next
    case False
    then have hd: "hd line \<noteq> 32" and some: "?args \<noteq> []"
      using assms(3) by (auto simp: plain_def)
    have sp_line: "after_spaces line = line"
      using hd by (cases line) simp_all
    have "drop (length (word_of line)) line = after_word line"
      by (metis append_eq_conv_conj takeWhile_dropWhile_id)
    then have c: "take (length ?args) (tokens (drop (length ?w) line)) = ?args"
      unfolding sp_line by simp
    obtain q u t vs' where a: "pars_input p v s = Some (\<lparr>v_command = q, v_argc = of_nat (length ?args), v_argv = u\<rparr>, t)"
        "cstr (mem t) q ?w" "args_at (mem t) u 0 (4 * length ?args) ?args" "heap_space k n t vs'"
        "heap_only (heap_table_bytes (length vs + Suc (Suc k)) s) s t" "unat u + ?room < 2 ^ 32" "length vs' \<le> Suc (Suc (length vs))"
      by (rule pars_input_arguments [of k line n s vs p v, unfolded c, OF sp assms(2) some order_refl])
    have "length ?args < 2 ^ 30" using a(6) by simp
    then show thesis
      using that [OF a(1)] ready_heap [OF assms(1) heap_only_mono [OF a(5) tbl] a(4) tbl] a(2,3,7) by simp
  qed
qed

text \<open>Every word takes a byte for itself and one more, so the blocks of a line are bounded by its length.\<close>

lemma tokens_after_word: "tokens (after_word cs) = tokens (tl (after_word cs))"
proof (cases "after_word cs")
  case (Cons c r)
  then have "c = 32"
    using hd_dropWhile [of "\<lambda>c. c \<noteq> 32" cs] by simp
  then have "after_spaces (c # r) = after_spaces r" by simp
  then have "tokens (c # r) = tokens r"
    using tokens_after_spaces [of "c # r"] tokens_after_spaces [of r] by (simp only:)
  then show ?thesis
    unfolding Cons by simp
next
  case Nil
  then show ?thesis by (simp only: list.sel)
qed

lemma tokens_tl: "args_size (tokens (tl q)) \<le> Suc (length (tl q)) \<Longrightarrow> args_size (tokens (tl q)) \<le> length q"
proof (cases q)
  case Nil
  have "tokens [] = []" by (subst tokens_unfold) simp
  then show ?thesis by (simp add: Nil)
qed simp

lemma tokens_size: "2 * length (tokens cs) \<le> args_size (tokens cs) \<and> args_size (tokens cs) \<le> Suc (length cs)"
proof (induction cs rule: length_induct)
  case (1 cs)
  show ?case
  proof (cases "after_spaces cs")
    case Nil
    then have "tokens cs = []" by (subst tokens.simps) (simp only: list.case)
    then show ?thesis by simp
  next
    case (Cons d ds)
    have le: "Suc (length ds) \<le> length cs" "length (word_of ds) + length (after_word ds) = length ds"
      using length_dropWhile_le [of "\<lambda>c. c = 32" cs] Cons
      by (simp_all flip: length_append)
    let ?r = "tl (after_word ds)"
    have "length ?r < length cs" using le by simp
    with 1 have IH: "2 * length (tokens ?r) \<le> args_size (tokens ?r)" "args_size (tokens ?r) \<le> Suc (length ?r)" by blast+
    have "args_size (tokens ?r) \<le> length (after_word ds)"
      using IH(2) by (rule tokens_tl)
    moreover have "tokens cs = (d # word_of ds) # tokens ?r"
      by (subst tokens.simps) (simp add: Cons tokens_after_word)
    ultimately show ?thesis
      using IH(1) le by simp
  qed
qed

lemma line_room_le: "line_room line \<le> 3 * Suc (length line)"
proof -
  let ?post = "after_word (after_spaces line)"
  have sum: "Suc c + (4 * n + b) \<le> 3 * Suc l" if "c + p \<le> l" "b \<le> p" "2 * n \<le> b" for c p l n b :: nat
  proof -
    have "4 * n + b \<le> 3 * p" using that(2,3) by linarith
    moreover have "c + 3 * p \<le> 3 * l" using that(1) by linarith
    ultimately show ?thesis by simp
  qed
  have "length (command_of line) + length ?post = length (after_spaces line)"
    by (simp flip: length_append)
  then have "length (command_of line) + length ?post \<le> length line"
    using length_dropWhile_le [of "\<lambda>c. c = 32" line] by (simp only:)
  moreover have "args_size (tokens ?post) \<le> length ?post"
    unfolding tokens_after_word [of "after_spaces line"]
    by (rule tokens_tl) (rule conjunct2 [OF tokens_size])
  ultimately show ?thesis
    unfolding line_room_def by (rule sum) (rule conjunct1 [OF tokens_size])
qed

lemma physdump_wrong: "argc \<noteq> 1 \<Longrightarrow> physdump argc argv s = wrong_argc ''physdump'' argc s"
  and virtdump_wrong: "argc \<noteq> 1 \<Longrightarrow> virtdump argc argv s = wrong_argc ''virtdump'' argc s"
  by (simp_all add: physdump_def virtdump_def)

text \<open>The answer of a command.\<close>

lemma do_command_writes:
  assumes "command_table s" "cstr (mem s) command (command_of line)" "answer T s line = Some t"
    and "arguments_of line \<noteq> [] \<longrightarrow> argc = of_nat (length (arguments_of line)) \<and> length (arguments_of line) < 2 ^ 30
       \<and> args_at (mem s) argv 0 (4 * length (arguments_of line)) (arguments_of line)"
  obtains f where "do_command command argc argv s = f s" "writes f s t"
proof -
  let ?w = "command_of line" and ?args = "arguments_of line"
  note run = do_command_cases [OF assms(2,1), of argc argv]
  have wrong: "argc \<noteq> 1 \<and> argc = of_nat (length ?args) \<and> length ?args < 2 ^ 32" if "2 \<le> length ?args"
  proof -
    have a: "argc = of_nat (length ?args)" "length ?args < 2 ^ 30"
      using assms(4) that by auto
    then have "unat argc = length ?args"
      by (simp add: unat_of_nat_small)
    then have "argc \<noteq> 1" using that by auto
    then show ?thesis using a by simp
  qed
  consider (helped) "?w = lit ''help''" | (pd) "?w = lit ''pd''" | (vd) "?w = lit ''vd''"
    | (unknown) "?w \<noteq> lit ''help''" "?w \<noteq> lit ''pd''" "?w \<noteq> lit ''vd''" by blast
  then show thesis
  proof cases
    case helped
    then show thesis
      using that [of help_command] run help_writes assms(3) by (simp add: answer_def split: if_splits)
  next
    case pd
    then have two: "2 \<le> length ?args" and t: "t = wrong_text ''physdump'' (length ?args)"
      using assms(3) by (simp_all add: answer_def split: if_splits)
    have "do_command command argc argv s = wrong_argc ''physdump'' (of_nat (length ?args)) s"
      using run pd physdump_wrong [OF conjunct1 [OF wrong [OF two]], of argv s] wrong [OF two] by simp
    then show thesis
      using that wrong_argc_writes wrong [OF two] t by blast
  next
    case vd
    then have v: "do_command command argc argv s = virtdump argc argv s"
      using run by simp
    show thesis
    proof (cases "2 \<le> length ?args")
      case True
      then have "t = wrong_text ''virtdump'' (length ?args)"
        using assms(3) vd by (auto simp: answer_def split: if_splits list.splits)
      moreover have "do_command command argc argv s = wrong_argc ''virtdump'' (of_nat (length ?args)) s"
        using wrong [OF True] v virtdump_wrong [OF conjunct1 [OF wrong [OF True]], of argv s] by simp
      ultimately show thesis
        using that wrong_argc_writes wrong [OF True] by blast
    next
      case False
      then obtain a where a: "?args = [a]"
        using assms(3) vd by (cases ?args) (auto simp: answer_def split: if_splits list.splits)
      then have hex: "\<forall>c \<in> set a. is_hex c" "a \<noteq> []" "length a \<le> 8" and st: "steady T s (of_nat (hex_value a))"
        and t: "t = dumped s (of_nat (hex_value a))"
        using assms(3) vd by (auto simp: answer_def split: if_splits)
      have "argc = 1" "cstr (mem s) (load32 (mem s) argv) ([] @ a @ [])"
        using assms(4) a by simp_all
      with parse_address_digits [OF this(2), of 0] hex have "do_command command argc argv s
          = columns 16 0 (dump_line (of_nat (hex_value a)) (of_nat (hex_value a))) s"
        using v virtdump_columns by simp
      then show thesis
        using that dump_lines_write [OF steady_dumpable [OF st]] t unfolding dumped_def by blast
    qed
  next
    case unknown
    have "writes (print_format (''Invalid command'' @ newline) []) s (lit (''Invalid command'' @ newline))"
      by (rule writes_format) simp_all
    moreover have "t = lit (''Invalid command'' @ newline)"
      using unknown assms(3) by (simp add: answer_def split: if_splits del: lit_simps)
    ultimately show thesis
      using that run unknown by (simp del: lit_simps)
  qed
qed

section \<open>Rounds\<close>

text \<open>One round as a function of the screen and of the codes to come, and \<open>n\<close> rounds.\<close>

definition exchange :: "u32 set \<Rightarrow> kernel \<Rightarrow> screen \<Rightarrow> u8 list \<Rightarrow> (screen \<times> u8 list) option" where
  "exchange T s sc codes =
     do {
       (line, sc, rest) \<leftarrow> edit [] (fold put_char (lit ''$ '') sc) codes;
       t \<leftarrow> answer T s line;
       Some (fold put_char t sc, rest)
     }"

fun dialogue :: "u32 set \<Rightarrow> kernel \<Rightarrow> nat \<Rightarrow> screen \<Rightarrow> u8 list \<Rightarrow> (screen \<times> u8 list) option" where
  "dialogue T s 0 sc codes = Some (sc, codes)"
| "dialogue T s (Suc n) sc codes = do { (sc, codes) \<leftarrow> exchange T s sc codes; dialogue T s n sc codes }"

lemma quiet_exchange: "quiet T s t \<Longrightarrow> exchange T t sc codes = exchange T s sc codes"
  unfolding exchange_def by (simp add: quiet_answer cong: option.case_cong)

lemma quiet_dialogue: "quiet T s t \<Longrightarrow> dialogue T t n sc codes = dialogue T s n sc codes"
proof (induction n arbitrary: sc codes)
  case (Suc n)
  then show ?case
    by (cases "exchange T s sc codes") (auto simp: quiet_exchange)
qed simp

lemma edit_length: "edit line sc codes = Some (l, sc', rest) \<Longrightarrow> length l + length rest < length line + length codes"
proof (induction "length codes" arbitrary: line sc codes rule: less_induct)
  case less
  from less.prems show ?case
  proof (cases rule: edit_cases)
    case newline
    then show ?thesis using decode_shorter by auto
  next
    case (start r)
    then show ?thesis using less.hyps [OF start(2,4)] by simp
  next
    case (rub r)
    then show ?thesis using less.hyps [OF rub(2,4)] by simp
  next
    case (char c r)
    then show ?thesis using less.hyps [OF char(2,6)] by simp
  qed
qed

lemma ready_mono:
  assumes "shell_ready T (i + k) (j + n) s vs"
  shows "shell_ready T k n s vs"
proof -
  note r = shell_readyD [OF assms]
  have "heap_table_bytes (length vs + k) s \<subseteq> T"
    by (rule subset_trans [OF _ r(2)], rule bytes_at_mono) simp
  then show ?thesis
    using r heap_space_mono [OF r(1)] unfolding shell_ready_def by blast
qed

text \<open>The blocks and the bytes that a round takes at most, when its line is typed with at most \<open>16 * 2 ^ g\<close> codes.\<close>

abbreviation round_blocks :: "nat \<Rightarrow> nat" where "round_blocks g \<equiv> g + 3"
abbreviation round_bytes :: "nat \<Rightarrow> nat" where "round_bytes g \<equiv> 80 * 2 ^ g"

lemma round_bytes_suffice:
  assumes "length line < buffer_size g"
  obtains j where "round_bytes g + n = j + (16 * (2 ^ Suc g - 1) + (line_room line + n))"
proof -
  have "line_room line \<le> 3 * buffer_size g"
    by (rule le_trans [OF line_room_le]) (use assms in simp)
  moreover have "16 * (2 ^ Suc g - 1) \<le> 2 * buffer_size g" by simp
  ultimately have "16 * (2 ^ Suc g - 1) + (line_room line + n) \<le> round_bytes g + n" by linarith
  then show thesis
    using that by (metis le_add_diff_inverse2)
qed

lemma round_answers:
  assumes ready: "shell_ready T (round_blocks g + k) (round_bytes g + n) s vs" and keys: "keys_ok sched s"
    and len: "length (codes_left sched s) \<le> buffer_size g" and ex: "exchange T s (screen_of s) (codes_left sched s) = Some (sc, rest)"
  obtains v' sched' t vs' where "shell_round v sched s = Some (v', sched', t)" "shell_ready T k n t vs'" "quiet T s t"
    "keys_ok sched' t" "codes_left sched' t = rest" "screen_of t = sc"
proof -
  obtain line sc1 reply where ed: "edit [] (fold put_char (lit ''$ '') (screen_of s)) (codes_left sched s) = Some (line, sc1, rest)"
      and ans: "answer T s line = Some reply" and sc: "sc = fold put_char reply sc1"
    using ex unfolding exchange_def by (auto simp: Option.bind_eq_Some_conv)
  have "length line < buffer_size g"
    using edit_length [OF ed] len by simp
  then obtain j where j: "round_bytes g + n = j + (16 * (2 ^ Suc g - 1) + (line_room line + n))"
    by (rule round_bytes_suffice)
  have "round_blocks g + k = 0 + (Suc g + Suc (Suc k))" by simp
  from ready [unfolded this j]
  have r0: "shell_ready T (0 + (Suc g + Suc (Suc k))) (j + (16 * (2 ^ Suc g - 1) + (line_room line + n))) s vs" .
  have "writes (print_format ''$ '' []) s (lit ''$ '')"
    by (rule writes_format) simp_all
  then obtain a where a: "print_format ''$ '' [] s = Some a" "shell_ready T (Suc g + Suc (Suc k)) (16 * (2 ^ Suc g - 1) + (line_room line + n)) a vs"
      "quiet T s a" "kbd a = kbd s" "screen_of a = fold put_char (lit ''$ '') (screen_of s)"
    by (rule ready_prints [OF ready_mono [OF r0]])
  have ka: "keys_ok sched a" "codes_left sched a = codes_left sched s"
    using keys keys_ok_kbd [OF a(4)] by simp_all
  obtain p sched' b vb where b: "in_string sched a = Some (p, sched', b)" "shell_ready T (Suc (Suc k)) (line_room line + n) b vb"
      "line_in b vb p line" "quiet T a b" "keys_ok sched' b" "codes_left sched' b = rest" "screen_of b = sc1"
    by (rule ready_input [OF a(2) ka(1), unfolded ka(2) a(5), OF len ed])
  have "plain line"
    using ans by (simp add: answer_def split: if_splits)
  then obtain v' c vc where c: "pars_input p v b = Some (v', c)" "shell_ready T k n c vc" "cstr (mem c) (v_command v') (command_of line)"
      "arguments_of line \<noteq> [] \<longrightarrow> v_argc v' = of_nat (length (arguments_of line)) \<and> length (arguments_of line) < 2 ^ 30
         \<and> args_at (mem c) (v_argv v') 0 (4 * length (arguments_of line)) (arguments_of line)"
      "quiet T b c" "kbd c = kbd b" "screen_of c = screen_of b"
    by (rule ready_parse [OF b(2,3)])
  have qc: "quiet T s c"
    by (rule quiet_trans [OF a(3) quiet_trans [OF b(4) c(5)]])
  have "answer T c line = Some reply"
    unfolding quiet_answer [OF qc] by (rule ans)
  then obtain f where f: "do_command (v_command v') (v_argc v') (v_argv v') c = f c" "writes f c reply"
    by (rule do_command_writes [OF shell_readyD(4) [OF c(2)] c(3) _ c(4)])
  obtain d where d: "f c = Some d" "shell_ready T k n d vc" "quiet T c d" "kbd d = kbd c" "screen_of d = fold put_char reply (screen_of c)"
    by (rule ready_prints [OF c(2) f(2)])
  let ?e = "snd (kfree (v_command v') d)"
  obtain ve where e: "shell_ready T k n ?e ve" "quiet T d ?e" "kbd ?e = kbd d" "screen_of ?e = screen_of d"
    by (rule ready_free [OF d(2), of "v_command v'"])
  let ?t = "snd (kfree (v_argv v') ?e)"
  obtain vt where t: "shell_ready T k n ?t vt" "quiet T ?e ?t" "kbd ?t = kbd ?e" "screen_of ?t = screen_of ?e"
    by (rule ready_free [OF e(1), of "v_argv v'"])
  have kt: "kbd ?t = kbd b"
    using t(3) e(3) d(4) c(6) by simp
  have run: "shell_round v sched s = Some (v', sched', ?t)"
    using a(1) b(1) c(1) f(1) d(1) by (simp add: shell_round_def Let_def)
  show thesis
    by (rule that [OF run t(1) quiet_trans [OF qc quiet_trans [OF d(3) quiet_trans [OF e(2) t(2)]]]])
      (use keys_ok_kbd [OF kt] b(5,6,7) t(4) e(4) d(5) c(7) sc in simp_all)
qed

lemma exchange_length: "exchange T s sc codes = Some (sc', rest) \<Longrightarrow> length rest \<le> length codes"
  using edit_length by (fastforce simp: exchange_def Option.bind_eq_Some_conv)

lemma rounds_converse:
  assumes "shell_ready T (n * round_blocks g) (n * round_bytes g) s vs" "keys_ok sched s" "length (codes_left sched s) \<le> buffer_size g"
    "dialogue T s n (screen_of s) (codes_left sched s) = Some (sc, rest)"
  shows "\<exists>v' sched' t vs'. shell_rounds n v sched s = Some (v', sched', t) \<and> shell_ready T 0 0 t vs' \<and> quiet T s t
    \<and> keys_ok sched' t \<and> codes_left sched' t = rest \<and> screen_of t = sc"
  using assms
proof (induction n arbitrary: v sched s vs)
  case 0
  then show ?case by auto
next
  case (Suc n)
  have ready: "shell_ready T (round_blocks g + n * round_blocks g) (round_bytes g + n * round_bytes g) s vs"
    using Suc.prems(1) by (simp only: mult_Suc)
  obtain sc1 rest1 where ex: "exchange T s (screen_of s) (codes_left sched s) = Some (sc1, rest1)" "dialogue T s n sc1 rest1 = Some (sc, rest)"
    using Suc.prems(4) by (auto simp: Option.bind_eq_Some_conv)
  obtain v' sched' t vs' where r: "shell_round v sched s = Some (v', sched', t)" "shell_ready T (n * round_blocks g) (n * round_bytes g) t vs'"
      "quiet T s t" "keys_ok sched' t" "codes_left sched' t = rest1" "screen_of t = sc1"
    by (rule round_answers [OF ready Suc.prems(2,3) ex(1), of v])
  have "length (codes_left sched' t) \<le> buffer_size g"
    unfolding r(5) using exchange_length [OF ex(1)] Suc.prems(3) by (rule le_trans)
  moreover have "dialogue T t n (screen_of t) (codes_left sched' t) = Some (sc, rest)"
    unfolding quiet_dialogue [OF r(3)] r(5,6) by (rule ex(2))
  ultimately show ?case
    using Suc.IH [OF r(2,4), of v'] r(1) quiet_trans [OF r(3)] by auto
qed

section \<open>Property of the shell\<close>

text \<open>
  A screen, the heap of \<open>two_blocks\<close> with its table, the table of commands at \<open>0x4000\<close>; and the keys of the
  lines \<open>help\<close> and \<open>vd 1000\<close>, each of them released before the next is pressed.
\<close>

definition at_shell :: kernel where
  "at_shell = at_prompt\<lparr>syms := (syms at_prompt)\<lparr>commands_addr := 0x4000\<rparr>,
     mem := (mem at_prompt)(0x4000 := 104, 0x4001 := 101, 0x4002 := 108, 0x4003 := 112, 0x4020 := 112, 0x4021 := 100,
       0x4040 := 118, 0x4041 := 100)\<rparr>"

definition typed_keys :: schedule where
  "typed_keys = map (\<lambda>c. [c]) [35, 163, 18, 146, 38, 166, 25, 153, 28, 156,
     47, 175, 32, 160, 57, 185, 2, 130, 11, 139, 11, 139, 11, 139, 28, 156]"

lemma at_shell_keys: "keys_ok typed_keys at_shell" "codes_left typed_keys at_shell = concat typed_keys"
proof -
  have "kbd at_shell = kbd at_prompt"
    by (simp add: at_shell_def)
  then have "key_ok at_shell" "key_queue at_shell = []"
    using at_prompt_ok(2,3) by (simp_all add: key_ok_def key_queue_def)
  then show "keys_ok typed_keys at_shell" "codes_left typed_keys at_shell = concat typed_keys"
    by (simp_all add: keys_ok_def typed_keys_def)
qed

lemma at_shell_ready: "shell_ready (bytes_at 0x80010000 96) 8 320 at_shell the_two_blocks"
proof -
  have hs: "heap_state at_shell = heap_state two_blocks"
    by (simp add: at_shell_def at_prompt_def with_line_def address_space_def split: space.split)
  then have ptr: "heap_ptr at_shell = 0x80010000" "heap_bytes at_shell = {x. 0x80020000 \<le> unat x \<and> unat x < 0x8002A000}"
    by (simp_all add: heap_ptr_def heap_end_def)
  have low: "mem at_shell x = mem (with_line []) x" if "0x80010000 \<le> unat x" for x
    using that by (auto simp: at_shell_def at_prompt_def)
  have line_ptr: "heap_ptr (with_line []) = 0x80010000"
    by (simp add: heap_ptr_def with_line_def)
  have sp: "heap_space 8 320 at_shell the_two_blocks"
  proof (rule heap_space_cong(1))
    show "heap_space 8 320 (with_line []) the_two_blocks"
      by (rule with_line_ok(2)) simp_all
    show "heap_state at_shell = heap_state (with_line [])"
      by (simp add: hs with_line_def)
    show "\<forall>x \<in> bytes_at (heap_ptr (with_line [])) (8 * length the_two_blocks). mem at_shell x = mem (with_line []) x"
      using low by (simp add: line_ptr bytes_at_nowrap)
  qed
  have tty: "tty_ok at_shell"
    using at_prompt_ok(1) by (simp add: at_shell_def tty_ok_def tty_geometry_def)
  have sets: "screen_bytes at_shell = bytes_at 0xB8000 4000" "num_bytes at_shell = bytes_at 0x80008000 66"
    "command_bytes at_shell = bytes_at 0x4000 0xA0"
    by (simp_all add: at_shell_def at_prompt_def with_line_def two_blocks_def zero_kernel_def screen_bytes_def vga_def command_bytes_def)
  have "areas_apart (bytes_at 0x80010000 96) at_shell"
    unfolding areas_apart_def work_bytes_def sets ptr by (auto simp: bytes_at_nowrap)
  moreover have "command_table at_shell"
  proof -
    have c: "commands_addr (syms at_shell) = 0x4000"
      by (simp add: at_shell_def)
    have "cstr (mem at_shell) (0x4000 + of_nat (0x20 * j)) (commands ! j)" if "j < 5" for j
    proof -
      have "j = 0 \<or> j = 1 \<or> j = 2 \<or> j = 3 \<or> j = 4" using that by linarith
      then show ?thesis
        by (auto simp: commands_def cstr_Cons cstr_Nil at_shell_def at_prompt_def with_line_def two_blocks_def store32_def bytes_at_def)
    qed
    then show ?thesis
      unfolding command_table_def c by blast
  qed
  ultimately show ?thesis
    using sp tty unfolding shell_ready_def ptr by simp
qed

lemma at_shell_steady: "steady (bytes_at 0x80010000 96) at_shell 0x1000"
proof -
  have sets: "screen_bytes at_shell = bytes_at 0xB8000 4000" "num_bytes at_shell = bytes_at 0x80008000 66"
    by (simp_all add: at_shell_def at_prompt_def with_line_def two_blocks_def zero_kernel_def screen_bytes_def vga_def)
  have hp: "heap_bytes at_shell = {x. 0x80020000 \<le> unat x \<and> unat x < 0x8002A000}"
    by (simp add: at_shell_def at_prompt_def with_line_def address_space_def two_blocks_def zero_kernel_def heap_end_def)
  have "unat (0x1000 + of_nat k :: u32) = 0x1000 + k" if "k < 256" for k
    using that unat_add_of_nat [of "0x1000" k] by simp
  then have "0x1000 + of_nat k \<notin> work_bytes (bytes_at 0x80010000 96) at_shell" if "k < 256" for k
    unfolding work_bytes_def sets hp using that by (simp add: bytes_at_nowrap)
  then show ?thesis
    by (simp add: steady_def Let_def)
qed

text \<open>The screen after \<open>help\<close> and \<open>vd 1000\<close>.\<close>

definition shown_dialogue :: "screen \<Rightarrow> screen" where
  "shown_dialogue sc = fold put_char (lit (''$ help'' @ newline) @ help_text @ lit (''$ vd 1000'' @ newline) @ dumped at_shell 0x1000) sc"

lemma typed_keys_dialogue:
  "dialogue (bytes_at 0x80010000 96) at_shell 2 sc (concat typed_keys) = Some (shown_dialogue sc, [156])"
proof -
  let ?T = "bytes_at 0x80010000 96"
  let ?c2 = "[156, 47, 175, 32, 160, 57, 185, 2, 130, 11, 139, 11, 139, 11, 139, 28, 156] :: u8 list"
  have c: "concat typed_keys = [35, 163, 18, 146, 38, 166, 25, 153, 28] @ ?c2"
    by (simp add: typed_keys_def)
  have line1: "edit [] sc (concat typed_keys) = Some (lit ''help'', fold put_char (lit (''help'' @ newline)) sc, ?c2)" for sc
    unfolding c by (simp add: edit.simps char_of_code_def shift_after_def scancodes_def)
  have line2: "edit [] sc ?c2 = Some (lit ''vd 1000'', fold put_char (lit (''vd 1000'' @ newline)) sc, [156])" for sc
    by (simp add: edit.simps char_of_code_def shift_after_def scancodes_def)
  have "answer ?T at_shell (lit ''help'') = Some help_text"
    by (simp add: answer_def plain_def)
  then have one: "exchange ?T at_shell sc (concat typed_keys)
      = Some (fold put_char (lit (''$ help'' @ newline) @ help_text) sc, ?c2)" for sc
    by (simp add: exchange_def line1)
  have t: "tokens [32, 49, 48, 48, 48] = [[49, 48, 48, 48]]"
    by (simp add: tokens_unfold)
  have "hex_value [49, 48, 48, 48] = 0x1000"
    by (simp add: hex_value_def hex_digit_def)
  then have "answer ?T at_shell (lit ''vd 1000'') = Some (dumped at_shell 0x1000)"
    using at_shell_steady by (simp add: answer_def plain_def t is_hex_def)
  then have two: "exchange ?T at_shell sc ?c2 = Some (fold put_char (lit (''$ vd 1000'' @ newline) @ dumped at_shell 0x1000) sc, [156])" for sc
    by (simp add: exchange_def line2)
  show ?thesis
    by (simp add: numeral_2_eq_2 one two shown_dialogue_def)
qed

text \<open>
  C3: \<open>shell\<close> holds the dialogue that its specification describes. In every round it prints the prompt, reads
  the line that is typed, and prints the answer to it: the help text, a dump of 256 bytes of memory, or
  a complaint. It does so for any number of rounds, for keys that come in no faster than they are
  read, on a heap with room for the blocks of every round, and changes no memory but its own.
\<close>

theorem shell_holds_dialogue:
  assumes "shell_ready T (n * (g + 3)) (n * (80 * 2 ^ g)) s vs" and "keys_ok sched s" and "length (codes_left sched s) \<le> 16 * 2 ^ g"
    and "dialogue T s n (wiped (screen_of s)) (codes_left sched s) = Some (sc, rest)"
  shows "\<exists>v sched' t. shell n command0 argv0 sched s = Some (v, sched', t) \<and> screen_of t = sc
    \<and> keys_ok sched' t \<and> codes_left sched' t = rest \<and> tty_ok t \<and> (\<forall>x. x \<notin> work_bytes T s \<longrightarrow> mem t x = mem s x)"
proof -
  note c = ready_clear [OF assms(1)]
  note keys = keys_ok_kbd [OF c(3)]
  have "dialogue T (clear_screen s) n (screen_of (clear_screen s)) (codes_left sched (clear_screen s)) = Some (sc, rest)"
    unfolding quiet_dialogue [OF c(2)] c(4) keys by (rule assms(4))
  then obtain v sched' t vs' where r: "shell_rounds n \<lparr>v_command = command0, v_argc = 0, v_argv = argv0\<rparr> sched (clear_screen s) = Some (v, sched', t)"
      "shell_ready T 0 0 t vs'" "quiet T (clear_screen s) t" "keys_ok sched' t" "codes_left sched' t = rest" "screen_of t = sc"
    using rounds_converse [OF c(1)] assms(2,3) keys by metis
  have "quiet T s t"
    by (rule quiet_trans [OF c(2) r(3)])
  then show ?thesis
    using r shell_readyD(3) [OF r(2)] by (simp add: shell_def quiet_def)
qed

theorem shell_holds_dialogue_witness:
  "\<exists>v sched' t. shell 2 0 0 typed_keys at_shell = Some (v, sched', t) \<and> screen_of t = shown_dialogue (wiped (screen_of at_shell))"
proof -
  have ready: "shell_ready (bytes_at 0x80010000 96) (2 * (1 + 3)) (2 * (80 * 2 ^ 1)) at_shell the_two_blocks"
    using at_shell_ready by simp
  have "length (codes_left typed_keys at_shell) \<le> 16 * 2 ^ 1"
    unfolding at_shell_keys(2) by (simp add: typed_keys_def)
  from shell_holds_dialogue [OF ready at_shell_keys(1) this, unfolded at_shell_keys(2), OF typed_keys_dialogue]
  show ?thesis by blast
qed

end
