(* ===== verification/KeyEvents.thy ===== *)
theory KeyEvents
  imports Keyboard
begin

text \<open>
  The keyboard as a state machine: interrupts and polls in any order, also when the keys come in faster
  than they are read. What the ring keeps then is its shape; the codes that are read are codes that were
  put in.
\<close>

section \<open>Steps\<close>

datatype key_action = Pressed u8 | Polled u8

inductive key_step :: "kernel \<Rightarrow> key_action \<Rightarrow> kernel \<Rightarrow> bool" where
  Interrupt: "key_step s (Pressed c) (press c s)"
| Poll: "in_scancode s = (c, t) \<Longrightarrow> key_step s (Polled c) t"

inductive_cases key_step_cases [elim!]: "key_step s (Pressed c) t" "key_step s (Polled c) t"

inductive key_trace :: "kernel \<Rightarrow> key_action list \<Rightarrow> kernel \<Rightarrow> bool" where
  Start: "key_trace s [] s"
| Next: "key_trace s es t \<Longrightarrow> key_step t e u \<Longrightarrow> key_trace s (es @ [e]) u"

text \<open>The codes that come in and the answers that the readers get.\<close>

definition pressed :: "key_action list \<Rightarrow> u8 list" where
  "pressed es = concat (map (\<lambda>e. case e of Pressed c \<Rightarrow> [c] | Polled c \<Rightarrow> []) es)"

definition polled :: "key_action list \<Rightarrow> u8 list" where
  "polled es = concat (map (\<lambda>e. case e of Pressed c \<Rightarrow> [] | Polled c \<Rightarrow> [c]) es)"

lemma actions_simps [simp]:
  "pressed [] = []" "pressed (es @ [Pressed c]) = pressed es @ [c]" "pressed (es @ [Polled c]) = pressed es"
  "polled [] = []" "polled (es @ [Pressed c]) = polled es" "polled (es @ [Polled c]) = polled es @ [c]"
  by (simp_all add: pressed_def polled_def)

section \<open>The shape of the ring\<close>

text \<open>The handler keeps it even when it overruns the readers.\<close>

lemma press_shape:
  assumes "key_ok s"
  shows "key_ok (press c s)" "set (key_buffer (kbd (press c s))) \<subseteq> insert c (set (key_buffer (kbd s)))"
proof -
  note p = key_press(1-3) [OF assms, of c] key_press(4) [OF assms]
  show "key_ok (press c s)"
    using assms p(4) by (simp add: key_ok_def p(1-3))
  show "set (key_buffer (kbd (press c s))) \<subseteq> insert c (set (key_buffer (kbd s)))"
    unfolding p(3) by (rule set_update_subset_insert)
qed

lemma poll_shape:
  assumes "key_ok s" "in_scancode s = (c, t)"
  shows "key_ok t" "key_buffer (kbd t) = key_buffer (kbd s)" "c = 0 \<or> c \<in> set (key_buffer (kbd s))"
proof -
  have buf: "key_buffer (kbd t) = key_buffer (kbd s)"
    using assms(2) by (auto simp: in_scancode_def Let_def split: if_splits)
  then show "key_buffer (kbd t) = key_buffer (kbd s)" .
  have "key_ok t \<and> (c = 0 \<or> c \<in> set (key_buffer (kbd s)))"
  proof (cases "key_queue s")
    case Nil
    then show ?thesis
      using in_scancode_empty [OF assms(1)] assms by simp
  next
    case (Cons x xs)
    have "set (key_queue s) \<subseteq> set (key_buffer (kbd s))"
      using assms(1) by (auto simp: key_queue_def ring_cells_def key_ok_def)
    then have "x \<in> set (key_buffer (kbd s))"
      using Cons by simp
    then show ?thesis
      using in_scancode_take [OF assms(1) Cons] assms(2) by simp
  qed
  then show "key_ok t" "c = 0 \<or> c \<in> set (key_buffer (kbd s))" by blast+
qed

lemma key_step_shape:
  assumes "key_step s e t" "key_ok s" "set (key_buffer (kbd s)) \<subseteq> A \<union> set (pressed es)"
  shows "key_ok t" "set (key_buffer (kbd t)) \<subseteq> A \<union> set (pressed (es @ [e]))"
    "set (polled es) \<subseteq> insert 0 (A \<union> set (pressed es)) \<Longrightarrow> set (polled (es @ [e])) \<subseteq> insert 0 (A \<union> set (pressed (es @ [e])))"
proof -
  from assms(1) have "key_ok t \<and> set (key_buffer (kbd t)) \<subseteq> A \<union> set (pressed (es @ [e]))
    \<and> (set (polled es) \<subseteq> insert 0 (A \<union> set (pressed es)) \<longrightarrow> set (polled (es @ [e])) \<subseteq> insert 0 (A \<union> set (pressed (es @ [e]))))"
  proof cases
    case (Interrupt c)
    then show ?thesis
      using press_shape [OF assms(2), of c] assms(3) by auto
  next
    case (Poll c)
    then show ?thesis
      using poll_shape [OF assms(2) Poll(2)] assms(3) by auto
  qed
  then show "key_ok t" "set (key_buffer (kbd t)) \<subseteq> A \<union> set (pressed (es @ [e]))"
    "set (polled es) \<subseteq> insert 0 (A \<union> set (pressed es)) \<Longrightarrow> set (polled (es @ [e])) \<subseteq> insert 0 (A \<union> set (pressed (es @ [e])))"
    by blast+
qed

section \<open>Property of the ring\<close>

text \<open>
  C15: whatever the order of interrupts and polls, the ring keeps its sixteen cells and its indices stay
  inside them, so neither side ever leaves the buffer; it never holds more than sixteen codes; and
  every answer of a reader is 0 or a code that was in the buffer or came in.
\<close>

theorem key_trace_well_formed:
  assumes "key_trace s es t" and "key_ok s"
  shows "key_ok t \<and> length (key_queue t) \<le> 16
    \<and> set (polled es) \<subseteq> insert 0 (set (key_buffer (kbd s)) \<union> set (pressed es))"
proof -
  let ?A = "set (key_buffer (kbd s))"
  have "key_ok t \<and> set (key_buffer (kbd t)) \<subseteq> ?A \<union> set (pressed es) \<and> set (polled es) \<subseteq> insert 0 (?A \<union> set (pressed es))"
    using assms
  proof (induction rule: key_trace.induct)
    case (Next s es t e u)
    then show ?case
      using key_step_shape [OF Next.hyps(2), of "set (key_buffer (kbd s))" es] by blast
  qed simp
  moreover have "length (ring_cells h k) \<le> 16" if "h \<le> 16" "k \<le> 16" for h k
    using that by (auto simp: ring_cells_def)
  then have "length (key_queue t) \<le> 16" if "key_ok t"
    using that by (simp add: key_queue_def key_ok_def)
  ultimately show ?thesis by blast
qed

lemma key_trace_presses: "key_trace s (map Pressed cs) (fold press cs s)"
proof (induction cs rule: rev_induct)
  case (snoc c cs)
  then show ?case
    using Next [OF snoc Interrupt [of "fold press cs s" c]] by simp
qed (simp add: Start)

text \<open>Seventeen codes without a poll, which the ring cannot hold, and then a read.\<close>

theorem key_trace_well_formed_witness:
  "\<exists>c t. key_trace zero_kernel (map Pressed (replicate 17 30) @ [Polled c]) t \<and> key_ok t \<and> c \<in> {0, 30}"
proof -
  let ?s = "fold press (replicate 17 30) zero_kernel"
  obtain c t where "in_scancode ?s = (c, t)" by fastforce
  then have tr: "key_trace zero_kernel (map Pressed (replicate 17 30) @ [Polled c]) t"
    using Next [OF key_trace_presses Poll] by blast
  have buf: "set (key_buffer (kbd zero_kernel)) = {0}"
    by (simp add: zero_kernel_def)
  have es: "pressed (map Pressed (replicate 17 30) @ [Polled c]) = replicate 17 30" "polled (map Pressed (replicate 17 30) @ [Polled c]) = [c]"
    by (simp_all add: pressed_def polled_def)
  from key_trace_well_formed [OF tr zero_keys(1)] have "key_ok t" "c \<in> {0, 30}"
    unfolding es buf by auto
  with tr show ?thesis by blast
qed

end
