(* ===== verification/LinkedList.thy ===== *)
theory LinkedList
  imports Heap
begin

text \<open>
  The class template \<open>List\<close> of \<open>List.hpp\<close>: a singly linked list of items on the kernel heap, with a
  pointer to the last one. The template parameter appears as \<open>n\<close>, the size of its values in bytes; a
  value is the list of its bytes, and an argument passed by value is read at the address \<open>src\<close> of the
  parameter. The main results: \<open>insert\<close> and \<open>remove\<close> are insertion at the end and deletion on the list
  of values, as long as the last item is never removed; after that the tail points to an item that
  was given back.
\<close>

section \<open>The operations\<close>

text \<open>
  \<open>sizeof(item_t<type>)\<close> and the offset of its field \<open>next\<close>, for a type aligned to at most four bytes.
\<close>

definition item_next :: "nat \<Rightarrow> nat" where "item_next n = 4 * ((n + 3) div 4)"
definition item_size :: "nat \<Rightarrow> nat" where "item_size n = item_next n + 4"

abbreviation next_ptr :: "nat \<Rightarrow> mem \<Rightarrow> u32 \<Rightarrow> u32" where
  "next_ptr n m p \<equiv> load32 m (p + of_nat (item_next n))"

definition set_next :: "nat \<Rightarrow> u32 \<Rightarrow> u32 \<Rightarrow> mem \<Rightarrow> mem" where
  "set_next n p v m = store32 (p + of_nat (item_next n)) v m"

definition value_at :: "nat \<Rightarrow> mem \<Rightarrow> u32 \<Rightarrow> u8 list" where
  "value_at n m p = map (\<lambda>i. load8 m (p + of_nat i)) [0..<n]"

record list_object =
  l_list :: u32
  l_length :: u32
  l_head :: u32
  l_tail :: u32

definition list_new :: "nat \<Rightarrow> kernel \<Rightarrow> (list_object \<times> kernel) option" where
  "list_new n s =
     do {
       (p, s) \<leftarrow> kmalloc (of_nat n) s;
       Some (\<lparr>l_list = p, l_length = 0, l_head = NULL, l_tail = NULL\<rparr>, s)
     }"

partial_function (option) get_value_loop :: "nat \<Rightarrow> u32 \<Rightarrow> u32 \<Rightarrow> u32 \<Rightarrow> mem \<Rightarrow> u8 list option" where
  "get_value_loop n item i index m =
     (if item \<noteq> NULL then
        if i = index then Some (value_at n m item)
        else get_value_loop n (next_ptr n m item) (i + 1) index m
      else Some (replicate n 0))"

definition get_value :: "nat \<Rightarrow> u32 \<Rightarrow> list_object \<Rightarrow> kernel \<Rightarrow> u8 list option" where
  "get_value n index l s = get_value_loop n (l_head l) 0 index (mem s)"

definition list_append :: "nat \<Rightarrow> u32 \<Rightarrow> list_object \<Rightarrow> kernel \<Rightarrow> list_object \<times> kernel" where
  "list_append n item l s =
     (let (l, s) =
        (if l_length l = 0 then (l\<lparr>l_head := item, l_tail := item\<rparr>, s)
         else (l\<lparr>l_tail := item\<rparr>, s\<lparr>mem := set_next n (l_tail l) item (mem s)\<rparr>))
      in (l\<lparr>l_length := l_length l + 1\<rparr>, s))"

definition list_insert :: "nat \<Rightarrow> u32 \<Rightarrow> list_object \<Rightarrow> kernel \<Rightarrow> (u32 \<times> list_object \<times> kernel) option" where
  "list_insert n src l s =
     do {
       (item, s) \<leftarrow> kmalloc (of_nat (item_size n)) s;
       let s = s\<lparr>mem := memcpy item src (of_nat n) (mem s)\<rparr>;
       let s = s\<lparr>mem := set_next n item NULL (mem s)\<rparr>;
       let (l, s) = list_append n item l s;
       Some (item, l, s)
     }"

definition list_pop :: "list_object \<Rightarrow> u32" where
  "list_pop l = 0"

text \<open>
  The loop of \<open>remove\<close>. The local \<open>prev_item\<close> is not initialised; it is only used when the loop has
  set it, and starts as \<open>NULL\<close> here.
\<close>

partial_function (option) remove_loop :: "nat \<Rightarrow> u32 \<Rightarrow> u32 \<Rightarrow> u32 \<Rightarrow> u32 \<Rightarrow> mem \<Rightarrow> (u32 \<times> u32 \<times> u32) option" where
  "remove_loop n prev cur i index m =
     (if sint i < sint index \<and> next_ptr n m cur \<noteq> NULL
      then remove_loop n cur (next_ptr n m cur) (i + 1) index m
      else Some (prev, cur, i))"

definition list_remove :: "nat \<Rightarrow> u32 \<Rightarrow> list_object \<Rightarrow> kernel \<Rightarrow> (bool \<times> list_object \<times> kernel) option" where
  "list_remove n index l s =
     do {
       (prev, cur, i) \<leftarrow> remove_loop n NULL (l_head l) 0 index (mem s);
       Some
        (if i = 0 then
           let l = l\<lparr>l_head := next_ptr n (mem s) cur\<rparr>;
               (_, s) = kfree cur s;
               l = l\<lparr>l_length := l_length l - 1\<rparr>;
               l = (if l_length l = 1 then l\<lparr>l_tail := l_head l\<rparr> else l)
           in (True, l, s)
         else if i = l_length l then
           let (_, s) = kfree cur s;
               s = s\<lparr>mem := set_next n prev NULL (mem s)\<rparr>
           in (True, l\<lparr>l_tail := prev, l_length := l_length l - 1\<rparr>, s)
         else if i = index then
           let s = s\<lparr>mem := set_next n prev (next_ptr n (mem s) cur) (mem s)\<rparr>;
               (_, s) = kfree cur s
           in (True, l\<lparr>l_length := l_length l - 1\<rparr>, s)
         else (False, l, s))
     }"

section \<open>Items in memory\<close>

text \<open>The chain of items from \<open>p\<close> on, up to the pointer \<open>q\<close>.\<close>

fun chain :: "nat \<Rightarrow> mem \<Rightarrow> u32 \<Rightarrow> u32 list \<Rightarrow> u32 \<Rightarrow> bool" where
  "chain n m p [] q = (p = q)"
| "chain n m p (a # ps) q = (p = a \<and> a \<noteq> NULL \<and> chain n m (next_ptr n m a) ps q)"

abbreviation item_bytes :: "nat \<Rightarrow> u32 \<Rightarrow> u32 set" where
  "item_bytes n p \<equiv> bytes_at p (item_size n)"

lemma chain_append [simp]:
  "chain n m p (ps @ qs) r = (\<exists>q. chain n m p ps q \<and> chain n m q qs r)"
  by (induction ps arbitrary: p) auto

lemma item_parts:
  assumes "item_size n \<le> 2 ^ 32"
  shows "bytes_at (p + of_nat (item_next n)) 4 \<subseteq> item_bytes n p" "bytes_at p n \<subseteq> item_bytes n p"
    "bytes_at p n \<inter> bytes_at (p + of_nat (item_next n)) 4 = {}"
proof -
  have n: "n \<le> item_next n" unfolding item_next_def by linarith
  then show "bytes_at p n \<subseteq> item_bytes n p"
    by (intro bytes_at_mono) (simp add: item_size_def)
  show "bytes_at (p + of_nat (item_next n)) 4 \<subseteq> item_bytes n p"
    using assms by (intro bytes_at_sub) (simp_all add: item_size_def)
  show "bytes_at p n \<inter> bytes_at (p + of_nat (item_next n)) 4 = {}"
    using bytes_at_offset [of "item_next n" 4 _ p] n assms by (auto simp: item_size_def bytes_at_def)
qed

lemma chain_cong:
  assumes "\<And>a x. a \<in> set ps \<Longrightarrow> x \<in> item_bytes n a \<Longrightarrow> m x = m' x" and "item_size n \<le> 2 ^ 32"
  shows "chain n m p ps q = chain n m' p ps q"
  using assms(1)
proof (induction ps arbitrary: p)
  case (Cons a ps)
  have "next_ptr n m a = next_ptr n m' a"
    using item_parts(1) [OF assms(2), of a] Cons.prems by (intro cell32.ld_cong) (metis list.set_intros(1) subsetD)
  moreover have "chain n m (next_ptr n m' a) ps q = chain n m' (next_ptr n m' a) ps q"
    by (rule Cons.IH) (rule Cons.prems, simp_all)
  ultimately show ?case by simp
qed simp

lemma value_at_cong:
  assumes "\<And>x. x \<in> bytes_at p n \<Longrightarrow> m x = m' x" and "n < 2 ^ 32"
  shows "value_at n m p = value_at n m' p"
proof -
  have "p + of_nat i \<in> bytes_at p n" if "i < n" for i
    using that assms(2) by (simp add: bytes_at_def unat_of_nat_small)
  then have "m (p + of_nat i) = m' (p + of_nat i)" if "i < n" for i
    using that by (intro assms(1))
  then show ?thesis
    by (simp add: value_at_def load8_def)
qed

lemma item_value_cong:
  assumes "\<And>x. x \<in> item_bytes n p \<Longrightarrow> m x = m' x" and "item_size n \<le> 2 ^ 32"
  shows "value_at n m p = value_at n m' p"
  using item_parts(2) [OF assms(2), of p] assms by (intro value_at_cong) (auto simp: item_size_def item_next_def)

section \<open>The loops\<close>

lemma get_value_loop_chain:
  assumes "chain n m p ps NULL" and "j + length ps < 2 ^ 32"
  shows "get_value_loop n p (of_nat j) index m
    = Some (if j \<le> unat index \<and> unat index < j + length ps then value_at n m (ps ! (unat index - j)) else replicate n 0)"
  using assms
proof (induction ps arbitrary: p j)
  case Nil
  then show ?case by (subst get_value_loop.simps) auto
next
  case (Cons a ps)
  have a: "p = a" "a \<noteq> NULL" "chain n m (next_ptr n m a) ps NULL"
    using Cons.prems by simp_all
  have eq: "(of_nat j = index) = (unat index = j)"
    using Cons.prems(2) by (auto simp: unat_of_nat_small)
  show ?case
  proof (cases "unat index = j")
    case True
    then show ?thesis
      using a eq by (subst get_value_loop.simps) simp
  next
    case False
    have "get_value_loop n p (of_nat j) index m = get_value_loop n (next_ptr n m a) (of_nat (Suc j)) index m"
      using a eq False by (subst get_value_loop.simps) (simp add: add.commute)
    also have "\<dots> = Some (if Suc j \<le> unat index \<and> unat index < Suc j + length ps
        then value_at n m (ps ! (unat index - Suc j)) else replicate n 0)"
      using Cons.IH [OF a(3), of "Suc j"] Cons.prems(2) by simp
    finally show ?thesis
      using False by (auto simp: nth_Cons')
  qed
qed

lemma sint_of_nat_small: "j < 2 ^ 31 \<Longrightarrow> sint (of_nat j :: u32) = int j"
  by (simp add: signed_of_nat signed_take_bit_int_eq_self)

lemma remove_loop_chain:
  assumes "chain n m p ps NULL" and "k < length ps" and "j + k < 2 ^ 31"
  shows "remove_loop n prev p (of_nat j) (of_nat (j + k)) m
    = Some (if k = 0 then prev else ps ! (k - 1), ps ! k, of_nat (j + k))"
  using assms
proof (induction k arbitrary: p ps j prev)
  case 0
  then obtain qs where "ps = p # qs" by (cases ps) auto
  then show ?case by (subst remove_loop.simps) simp
next
  case (Suc k)
  then obtain a b rest where ps: "ps = a # b # rest"
    by (cases ps; cases "tl ps") auto
  then have c: "p = a" "next_ptr n m a = b" "b \<noteq> NULL" "chain n m b (b # rest) NULL"
    using Suc.prems(1) by auto
  have "sint (of_nat j :: u32) < sint (of_nat (j + Suc k) :: u32)"
    using Suc.prems(3) by (simp add: sint_of_nat_small del: of_nat_Suc)
  then have "remove_loop n prev p (of_nat j) (of_nat (j + Suc k)) m = remove_loop n a b (of_nat (Suc j)) (of_nat (Suc j + k)) m"
    using c(1-3) by (subst remove_loop.simps) (simp add: add.commute)
  also have "\<dots> = Some (if k = 0 then a else (b # rest) ! (k - 1), (b # rest) ! k, of_nat (Suc j + k))"
    using Suc.prems by (intro Suc.IH [OF c(4)]) (simp_all add: ps)
  finally show ?case
    by (cases k) (simp_all add: ps)
qed

section \<open>Lists on a sound heap\<close>

text \<open>
  The object \<open>l\<close> stands for the list \<open>xs\<close> of values: its items \<open>ps\<close> are distinct blocks of the heap,
  linked from the head, with the last one at the tail.
\<close>

definition linked :: "nat \<Rightarrow> mem \<Rightarrow> list_object \<Rightarrow> u32 list \<Rightarrow> bool" where
  "linked n m l ps \<longleftrightarrow> chain n m (l_head l) ps NULL \<and> l_length l = of_nat (length ps)
     \<and> (ps \<noteq> [] \<longrightarrow> l_tail l = last ps)"

definition items_in :: "nat \<Rightarrow> run list \<Rightarrow> u32 list \<Rightarrow> bool" where
  "items_in n vs ps \<longleftrightarrow> distinct ps \<and> (\<forall>p \<in> set ps. (p, of_nat (item_size n)) \<in> set vs)"

definition list_ok :: "nat \<Rightarrow> kernel \<Rightarrow> list_object \<Rightarrow> u8 list list \<Rightarrow> run list \<Rightarrow> bool" where
  "list_ok n s l xs vs \<longleftrightarrow> (\<exists>ps. linked n (mem s) l ps \<and> items_in n vs ps \<and> map (value_at n (mem s)) ps = xs)"

lemma heap_space_regions: "heap_space k r s vs \<Longrightarrow> heap_regions s vs"
  by (simp add: heap_space_def)

lemma heap_space_bound:
  assumes "heap_space k (n + r) s vs"
  shows "n < 2 ^ 32"
proof -
  have "n \<le> unat (heap_end s)"
    using assms by (simp add: heap_space_def)
  from order_le_less_trans [OF this unat_less_32] show ?thesis by simp
qed

lemma item_block:
  assumes "heap_regions s vs" "(p, of_nat (item_size n)) \<in> set vs" "item_size n < 2 ^ 32"
  shows "item_bytes n p \<subseteq> heap_bytes s" "item_bytes n p = block_bytes (p, of_nat (item_size n))"
proof -
  have u: "unat (of_nat (item_size n) :: u32) = item_size n"
    using assms(3) by (rule unat_of_nat_small)
  note b = block_in_heap [OF assms(1,2)]
  then show "item_bytes n p = block_bytes (p, of_nat (item_size n))"
    using block_bytes_eq [of p "of_nat (item_size n)"] u by simp
  with b(1) show "item_bytes n p \<subseteq> heap_bytes s" by blast
qed

lemma items_apart:
  assumes "heap_regions s vs" "items_in n vs ps" "item_size n < 2 ^ 32" "p \<in> set ps" "q \<in> set ps" "p \<noteq> q"
  shows "item_bytes n p \<inter> item_bytes n q = {}"
proof -
  have "(p, of_nat (item_size n)) \<in> set vs" "(q, of_nat (item_size n)) \<in> set vs"
    using assms(2,4,5) by (auto simp: items_in_def)
  then show ?thesis
    using blocks_disjoint [OF assms(1)] item_block(2) [OF assms(1)] assms(3,6) by fastforce
qed

text \<open>Nothing but the bytes of its items matters for a list.\<close>

lemma items_cong:
  assumes "\<forall>p \<in> set ps. \<forall>x \<in> item_bytes n p. m' x = m x" "item_size n < 2 ^ 32"
  shows "chain n m' p ps q = chain n m p ps q" "map (value_at n m') ps = map (value_at n m) ps"
proof -
  show "chain n m' p ps q = chain n m p ps q"
    using assms by (intro chain_cong) auto
  have "value_at n m' a = value_at n m a" if "a \<in> set ps" for a
    using assms that by (intro item_value_cong) auto
  then show "map (value_at n m') ps = map (value_at n m) ps"
    by simp
qed

text \<open>A new link in the last item of a chain of distinct items.\<close>

lemma set_next_other: "x \<notin> item_bytes n p \<Longrightarrow> item_size n \<le> 2 ^ 32 \<Longrightarrow> set_next n p v m x = m x"
  using item_parts(1) [of n p] unfolding set_next_def by (intro cell32.st_other) blast

lemma set_next_same: "next_ptr n (set_next n p v m) p = v"
  by (simp add: set_next_def load32_store32_same)

lemma set_next_value:
  assumes "item_size n \<le> 2 ^ 32"
  shows "value_at n (set_next n p v m) p = value_at n m p"
proof (rule value_at_cong)
  show "n < 2 ^ 32" using assms by (simp add: item_size_def item_next_def)
  show "set_next n p v m x = m x" if "x \<in> bytes_at p n" for x
    using that item_parts(3) [OF assms, of p] unfolding set_next_def by (intro cell32.st_other) blast
qed

lemma set_next_chain:
  assumes "chain n m p (ps @ [a]) q" "a \<notin> set ps" "item_size n < 2 ^ 32"
    and "\<And>b. b \<in> set ps \<Longrightarrow> item_bytes n b \<inter> item_bytes n a = {}"
  shows "chain n (set_next n a v m) p (ps @ [a]) v"
    "map (value_at n (set_next n a v m)) (ps @ [a]) = map (value_at n m) (ps @ [a])"
proof -
  have other: "\<forall>b \<in> set ps. \<forall>x \<in> item_bytes n b. set_next n a v m x = m x"
    using assms(3,4) by (intro ballI set_next_other) auto
  show "chain n (set_next n a v m) p (ps @ [a]) v"
    using assms(1) items_cong(1) [OF other assms(3)] by (auto simp: set_next_same)
  show "map (value_at n (set_next n a v m)) (ps @ [a]) = map (value_at n m) (ps @ [a])"
    using items_cong(2) [OF other assms(3)] assms(3) by (simp add: set_next_value less_imp_le)
qed

lemma list_append_linked:
  assumes l: "linked n (mem s) l ps" "length ps < 2 ^ 31" "distinct ps" and n: "item_size n < 2 ^ 32"
    and apart: "\<And>p q. p \<in> set ps \<Longrightarrow> q \<in> set ps \<Longrightarrow> p \<noteq> q \<Longrightarrow> item_bytes n p \<inter> item_bytes n q = {}"
    and r: "\<And>p. p \<in> set ps \<Longrightarrow> item_bytes n p \<inter> item_bytes n r = {}" "r \<noteq> NULL" "next_ptr n (mem s) r = NULL"
  obtains l' m' where "list_append n r l s = (l', s\<lparr>mem := m'\<rparr>)" "linked n m' l' (ps @ [r])"
    "map (value_at n m') (ps @ [r]) = map (value_at n (mem s)) (ps @ [r])"
    "\<And>x. \<forall>p \<in> set ps. x \<notin> item_bytes n p \<Longrightarrow> m' x = mem s x"
proof (cases ps rule: rev_cases)
  case Nil
  then have "list_append n r l s = (l\<lparr>l_head := r, l_tail := r, l_length := 1\<rparr>, s)"
    using l(1) by (simp add: list_append_def linked_def)
  then show thesis
    using that [of "l\<lparr>l_head := r, l_tail := r, l_length := 1\<rparr>" "mem s"] Nil r(2,3) by (simp add: linked_def)
next
  case (snoc qs a)
  define m' where "m' = set_next n a r (mem s)"
  have "l_length l \<noteq> 0" "l_tail l = a" "chain n (mem s) (l_head l) (qs @ [a]) NULL"
    using l(1,2) snoc unat_of_nat_small [of "length ps"] by (auto simp: linked_def)
  then have "list_append n r l s = (l\<lparr>l_tail := r, l_length := l_length l + 1\<rparr>, s\<lparr>mem := m'\<rparr>)"
    by (simp add: list_append_def m'_def)
  moreover have "a \<notin> set qs" "\<And>b. b \<in> set qs \<Longrightarrow> item_bytes n b \<inter> item_bytes n a = {}"
    using l(3) apart snoc by auto
  note new = set_next_chain [OF \<open>chain n (mem s) (l_head l) (qs @ [a]) NULL\<close> this(1) n this(2), of r, folded m'_def]
  have old: "m' x = mem s x" if "x \<notin> item_bytes n a" for x
    unfolding m'_def using that n by (intro set_next_other) auto
  have "m' x = mem s x" if "x \<in> item_bytes n r" for x
    using that r(1) [of a] snoc by (intro old) auto
  then have "next_ptr n m' r = next_ptr n (mem s) r" "value_at n m' r = value_at n (mem s) r"
    using item_parts(1) [of n r] n by (auto intro!: cell32.ld_cong item_value_cong)
  ultimately show thesis
    using that [of "l\<lparr>l_tail := r, l_length := l_length l + 1\<rparr>" m'] new r(2,3) l(1) snoc old by (auto simp: linked_def)
qed

text \<open>The new item: its value is copied and its link cleared, and no other byte changes.\<close>

lemma new_item:
  fixes m :: mem
  assumes "unat r + item_size n \<le> 2 ^ 32" "unat src + n \<le> 2 ^ 32"
  defines "m' \<equiv> set_next n r NULL (memcpy r src (of_nat n) m)"
  shows "next_ptr n m' r = NULL" "value_at n m' r = value_at n m src" "x \<notin> item_bytes n r \<Longrightarrow> m' x = m x"
proof -
  have n: "n \<le> item_size n" "item_size n \<le> 2 ^ 32" "n < 2 ^ 32"
    using assms(1) by (simp_all add: item_size_def item_next_def)
  then have "unat (of_nat n :: u32) = n"
    by (intro unat_of_nat_small)
  then have mv: "memcpy r src (of_nat n) m = moved r src 0 n m"
    using assms(1,2) n by (subst memcpy_moved) simp_all
  show "next_ptr n m' r = NULL"
    unfolding m'_def by (rule set_next_same)
  have "moved r src 0 n m (r + of_nat i) = m (src + of_nat i)" if "i < n" for i
    using that assms(1) n(1) by (simp add: moved_dest)
  then show "value_at n m' r = value_at n m src"
    unfolding m'_def mv by (subst set_next_value [OF n(2)]) (simp add: value_at_def load8_def)
  show "m' x = m x" if "x \<notin> item_bytes n r"
  proof -
    have "x \<notin> bytes_at r n"
      using that item_parts(2) [OF n(2), of r] by blast
    then show ?thesis
      unfolding m'_def mv using that n(2) by (subst set_next_other) (simp_all add: moved_other)
  qed
qed

text \<open>The item that \<open>insert\<close> allocates: a block apart from all the others, with the value and no link.\<close>

lemma item_granted:
  assumes sp: "heap_space (Suc k) (item_size n + rest) s vs" and src: "unat src + n \<le> 2 ^ 32"
  obtains r s1 vs1 m where "kmalloc (of_nat (item_size n)) s = Some (r, s1)" "m = set_next n r NULL (memcpy r src (of_nat n) (mem s1))"
    "heap_space k rest (s1\<lparr>mem := m\<rparr>) vs1" "set vs1 = insert (r, of_nat (item_size n)) (set vs)" "r \<in> item_bytes n r"
    "next_ptr n m r = NULL" "value_at n m r = value_at n (mem s1) src" "item_bytes n r \<subseteq> heap_bytes s"
    "\<forall>v \<in> set vs. item_bytes n r \<inter> block_bytes v = {}" "heap_bytes (s1\<lparr>mem := m\<rparr>) = heap_bytes s"
    "\<forall>x \<in> heap_bytes s. x \<notin> item_bytes n r \<longrightarrow> m x = mem s x"
    "\<forall>x. x \<notin> heap_table_bytes (length vs + Suc k) s \<longrightarrow> mem s1 x = mem s x"
proof -
  obtain r s1 vs1 where k: "kmalloc (of_nat (item_size n)) s = Some (r, s1)" "heap_space k rest s1 vs1"
      "set vs1 = insert (r, of_nat (item_size n)) (set vs)" "unat r + item_size n < 2 ^ 32" "item_bytes n r \<subseteq> heap_bytes s"
      "\<forall>v \<in> set vs. item_bytes n r \<inter> block_bytes v = {}" "heap_bytes s1 = heap_bytes s"
      "\<forall>x \<in> heap_bytes s. mem s1 x = mem s x"
      "\<forall>x. x \<notin> heap_table_bytes (length vs + Suc k) s \<longrightarrow> mem s1 x = mem s x"
    by (rule heap_space_alloc [OF sp]) (auto simp: item_size_def)
  define m where "m = set_next n r NULL (memcpy r src (of_nat n) (mem s1))"
  note item = new_item [OF less_imp_le [OF k(4)] src(1), where m = "mem s1", folded m_def]
  have "\<forall>x. x \<notin> heap_bytes s1 \<longrightarrow> m x = mem s1 x"
    using item(3) k(5) unfolding k(7) by blast
  note w = heap_space_write [OF k(2) this, unfolded k(7)]
  have "r \<in> item_bytes n r"
    by (simp add: bytes_at_def item_size_def)
  moreover have "\<forall>x \<in> heap_bytes s. x \<notin> item_bytes n r \<longrightarrow> m x = mem s x"
    using item(3) k(8) by simp
  ultimately show thesis
    by (rule that [OF k(1) m_def w(1) k(3) _ item(1,2) k(5,6) w(2) _ k(9)])
qed

section \<open>Taking an item out\<close>

text \<open>
  The chain and the values after \<open>remove\<close>; the tail stays as it was, unless one item is left after
  the removal of the first.
\<close>

lemma unlink_item:
  assumes "chain n m p (as @ c # bs) NULL" "as \<noteq> []" "item_size n < 2 ^ 32" "distinct (as @ c # bs)"
    and "\<And>u v. u \<in> set (as @ c # bs) \<Longrightarrow> v \<in> set (as @ c # bs) \<Longrightarrow> u \<noteq> v \<Longrightarrow> item_bytes n u \<inter> item_bytes n v = {}"
  defines "m' \<equiv> set_next n (last as) (next_ptr n m c) m"
  shows "chain n m' p (as @ bs) NULL" "map (value_at n m') (as @ bs) = map (value_at n m) (as @ bs)"
    "\<And>x. x \<notin> item_bytes n (last as) \<Longrightarrow> m' x = m x"
proof -
  obtain as' a where as: "as = as' @ [a]"
    using assms(2) by (cases as rule: rev_cases) auto
  have c: "chain n m p (as' @ [a]) c" "chain n m (next_ptr n m c) bs NULL"
    using assms(1) by (auto simp: as)
  show old: "\<And>x. x \<notin> item_bytes n (last as) \<Longrightarrow> m' x = m x"
    unfolding m'_def using assms(3) by (intro set_next_other) auto
  have "\<forall>b \<in> set bs. \<forall>x \<in> item_bytes n b. m' x = m x"
    using assms(4) assms(5) [of _ a] by (intro ballI old) (auto simp: as)
  note rest = items_cong [OF this assms(3)]
  have "a \<notin> set as'" "\<And>b. b \<in> set as' \<Longrightarrow> item_bytes n b \<inter> item_bytes n a = {}"
    using assms(4,5) by (auto simp: as)
  from set_next_chain [OF c(1) this(1) assms(3) this(2), of "next_ptr n m c"]
  have h: "chain n m' p as (next_ptr n m c)" "map (value_at n m') as = map (value_at n m) as"
    by (simp_all add: m'_def as)
  show "chain n m' p (as @ bs) NULL" "map (value_at n m') (as @ bs) = map (value_at n m) (as @ bs)"
    using h rest c(2) by auto
qed

lemma list_remove_items:
  assumes sp: "heap_space k r s vs" and l: "linked n (mem s) l (as @ c # bs)" "items_in n vs (as @ c # bs)"
    and len: "length (as @ c # bs) < 2 ^ 31" and n: "item_size n < 2 ^ 32"
  obtains l' s' vs' where "list_remove n (of_nat (length as)) l s = Some (True, l', s')" "heap_space k r s' vs'"
    "chain n (mem s') (l_head l') (as @ bs) NULL" "map (value_at n (mem s')) (as @ bs) = map (value_at n (mem s)) (as @ bs)"
    "items_in n vs' (as @ bs)" "l_length l' = of_nat (length (as @ bs))"
    "l_tail l' = (if as = [] \<and> length bs = 1 then l_head l' else l_tail l)"
proof -
  have inv: "heap_regions s vs" "vs \<noteq> []"
    using sp l(2) by (auto simp: heap_space_def items_in_def)
  have ch: "chain n (mem s) (l_head l) (as @ c # bs) NULL" "l_length l = of_nat (length as) + 1 + of_nat (length bs)"
    using l(1) by (simp_all add: linked_def)
  have dist: "distinct (as @ c # bs)"
    using l(2) by (simp add: items_in_def)
  have at_heap: "item_bytes n p \<subseteq> heap_bytes s" if "p \<in> set (as @ c # bs)" for p
    using item_block(1) [OF inv(1) _ n, of p] l(2) that unfolding items_in_def by blast
  have small: "(of_nat j :: u32) = of_nat j' \<longleftrightarrow> j = j'" if "j < 2 ^ 31" "j' < 2 ^ 31" for j j'
    using that by (metis sint_of_nat_small of_nat_eq_iff)
  define m1 where "m1 = (if as = [] then mem s else set_next n (last as) (next_ptr n (mem s) c) (mem s))"
  have frame: "\<forall>x. x \<notin> heap_bytes s \<longrightarrow> m1 x = mem s x"
  proof (cases "as = []")
    case False
    then have "item_bytes n (last as) \<subseteq> heap_bytes s"
      by (intro at_heap) simp
    then show ?thesis
      using n False by (auto simp: m1_def intro!: set_next_other)
  qed (simp add: m1_def)
  note w = heap_space_write [OF sp frame]
  obtain b s2 vs' where f: "kfree c (s\<lparr>mem := m1\<rparr>) = (b, s2)" "heap_space k r s2 vs'" "set vs' \<subseteq> set vs"
      "\<forall>(q, z) \<in> set vs. q \<noteq> c \<longrightarrow> (q, z) \<in> set vs'" "heap_bytes s2 = heap_bytes (s\<lparr>mem := m1\<rparr>)"
      "\<forall>x \<in> heap_bytes (s\<lparr>mem := m1\<rparr>). mem s2 x = mem (s\<lparr>mem := m1\<rparr>) x"
    by (rule heap_space_free [OF w(1) inv(2)]) blast
  have f6: "mem s2 x = m1 x" if "x \<in> heap_bytes s" for x
  proof -
    have "x \<in> heap_bytes (s\<lparr>mem := m1\<rparr>)"
      by (subst w(2)) (rule that)
    with f(6) show ?thesis by fastforce
  qed
  have item_in: "items_in n vs' (as @ bs)"
    using l(2) f(4) by (fastforce simp: items_in_def)
  have mem2: "\<forall>p \<in> set (as @ bs). \<forall>x \<in> item_bytes n p. mem s2 x = m1 x"
  proof (intro ballI f6)
    fix p x assume "p \<in> set (as @ bs)" "x \<in> item_bytes n p"
    with at_heap [of p] show "x \<in> heap_bytes s" by auto
  qed
  note cong = items_cong [OF mem2 n]
  have loop: "remove_loop n NULL (l_head l) 0 (of_nat (length as)) (mem s)
      = Some (if as = [] then NULL else last as, c, of_nat (length as))"
    using remove_loop_chain [OF ch(1), of "length as" 0 NULL] len
    by (auto simp: last_conv_nth nth_append)
  show thesis
  proof (cases "as = []")
    case True
    define l' where "l' = l\<lparr>l_head := next_ptr n (mem s) c, l_length := of_nat (length bs),
      l_tail := if length bs = 1 then next_ptr n (mem s) c else l_tail l\<rparr>"
    have "(of_nat (length bs) = (1 :: u32)) = (length bs = 1)"
      using small [of "length bs" 1] len by simp
    then have "list_remove n (of_nat (length as)) l s = Some (True, l', s2)"
      using loop f(1) True ch(2) by (simp add: list_remove_def m1_def l'_def)
    moreover have "chain n m1 (l_head l') (as @ bs) NULL"
      using ch(1) True by (simp add: l'_def m1_def)
    ultimately show thesis
      using that [of l' s2 vs'] f(2) item_in cong True by (simp add: l'_def m1_def)
  next
    case False
    define l' where "l' = l\<lparr>l_length := of_nat (length (as @ bs))\<rparr>"
    have idx: "of_nat (length as) \<noteq> (0 :: u32)" "of_nat (length as) \<noteq> l_length l"
      using small [of "length as" 0] small [of "length as" "length (as @ c # bs)"] len False l(1)
      by (simp_all add: linked_def)
    have "list_remove n (of_nat (length as)) l s = Some (True, l', s2)"
      using loop f(1) False idx ch(2) by (simp add: list_remove_def m1_def l'_def)
    moreover note u = unlink_item [OF ch(1) False n dist items_apart [OF inv(1) l(2) n]]
    have "chain n m1 (l_head l') (as @ bs) NULL" "map (value_at n m1) (as @ bs) = map (value_at n (mem s)) (as @ bs)"
      using u(1,2) False by (simp_all add: l'_def m1_def)
    ultimately show thesis
      using that [of l' s2 vs'] f(2) item_in cong False by (simp add: l'_def)
  qed
qed

section \<open>Properties of the list\<close>

text \<open>
  A list of two words, 7 and 9, in the first two blocks of a heap of 10 pages.
\<close>

definition two_items :: kernel where
  "two_items = two_blocks\<lparr>mem :=
     store32 0x8002000C 0 (store32 0x80020008 9 (store32 0x80020004 0x80020008 (store32 0x80020000 7
     (store32 0x8001000C 8 (store32 0x80010008 0x80020008 (store32 0x80010004 8 (store32 0x80010000 0x80020000 (\<lambda>_. 0))))))))\<rparr>"

abbreviation the_list :: list_object where
  "the_list \<equiv> \<lparr>l_list = 0x80020100, l_length = 2, l_head = 0x80020000, l_tail = 0x80020008\<rparr>"

abbreviation item_blocks :: "run list" where "item_blocks \<equiv> [(0x80020000, 8), (0x80020008, 8)]"

lemma two_items_loads:
  "load32 (mem two_items) 0x80020000 = 7" "load32 (mem two_items) 0x80020004 = 0x80020008"
  "load32 (mem two_items) 0x80020008 = 9" "load32 (mem two_items) 0x8002000C = 0"
  "load32 (mem two_items) 0x80010000 = 0x80020000" "load32 (mem two_items) 0x80010004 = 8"
  "load32 (mem two_items) 0x80010008 = 0x80020008" "load32 (mem two_items) 0x8001000C = 8"
  by (simp_all add: two_items_def load32_store32_apart load32_store32_same)

lemma no_value: "replicate 4 (0 :: u8) = [0, 0, 0, 0]"
  by (simp add: numeral_eq_Suc)

lemma two_items_ok:
  "heap_space 1 8 two_items item_blocks" "list_ok 4 two_items the_list [[7, 0, 0, 0], [9, 0, 0, 0]] item_blocks"
  "NULL \<notin> heap_bytes two_items" "bytes_at 0x80030000 4 \<inter> heap_table_bytes (length item_blocks + Suc 0) two_items = {}"
proof -
  have f: "heap_state two_items = heap_state two_blocks" "heap_end two_items = heap_end two_blocks" "heap_ptr two_items = 0x80010000"
    by (simp_all add: two_items_def heap_end_def heap_ptr_def)
  have "table (mem two_items) 0x80010000 item_blocks"
    using two_items_loads by (simp add: table_def ofs_def nth_Cons split: nat.split)
  moreover have "bytes_at 0x80010000 40 \<inter> {x. unat x \<in> {0x80020000 ..< 0x8002A000}} = {}"
    by (auto simp: bytes_at_nowrap)
  ultimately show "heap_space 1 8 two_items item_blocks"
    unfolding heap_space_def heap_regions_def heap_table_def heap_room_def f two_blocks_simps by simp
  show "NULL \<notin> heap_bytes two_items" "bytes_at 0x80030000 4 \<inter> heap_table_bytes (length item_blocks + Suc 0) two_items = {}"
    unfolding f two_blocks_simps by (auto simp: NULL_def bytes_at_nowrap)
  have s: "item_next 4 = 4" "item_size 4 = 8"
    by (simp_all add: item_next_def item_size_def)
  have "mem two_items 0x80020000 = 7" "mem two_items 0x80020001 = 0" "mem two_items 0x80020002 = 0" "mem two_items 0x80020003 = 0"
    "mem two_items 0x80020008 = 9" "mem two_items 0x80020009 = 0" "mem two_items 0x8002000A = 0" "mem two_items 0x8002000B = 0"
    by (simp_all add: two_items_def store32_def)
  then have "map (value_at 4 (mem two_items)) [0x80020000, 0x80020008] = [[7, 0, 0, 0], [9, 0, 0, 0]]"
    by (simp add: value_at_def load8_def upt_rec)
  moreover have "linked 4 (mem two_items) the_list [0x80020000, 0x80020008]"
    using two_items_loads by (simp add: linked_def s NULL_def)
  ultimately show "list_ok 4 two_items the_list [[7, 0, 0, 0], [9, 0, 0, 0]] item_blocks"
    unfolding list_ok_def by (intro exI [of _ "[0x80020000, 0x80020008]"]) (simp add: items_in_def s)
qed

text \<open>
  C18: \<open>insert\<close> on a list of fewer than \<open>2^31\<close> values, on a sound heap with room for one item more and
  without the address 0, of a value that lies outside the table of the heap and does not wrap around: the call returns the new
  item, a fresh block, at the end of the list, with the argument as its value; the values before it
  are as they were.
\<close>

theorem list_insert_appends:
  assumes sp: "heap_space (Suc k) (item_size n + rest) s vs" and l: "list_ok n s l xs vs" and "length xs < 2 ^ 31"
    and null: "NULL \<notin> heap_bytes s" and src: "unat src + n \<le> 2 ^ 32"
      "bytes_at src n \<inter> heap_table_bytes (length vs + Suc k) s = {}"
  shows "\<exists>p l' s' vs'. list_insert n src l s = Some (p, l', s') \<and> heap_space k rest s' vs'
    \<and> list_ok n s' l' (xs @ [value_at n (mem s) src]) vs' \<and> l_tail l' = p
    \<and> (p, of_nat (item_size n)) \<in> set vs' - set vs"
proof -
  obtain ps where ps: "linked n (mem s) l ps" "items_in n vs ps" "map (value_at n (mem s)) ps = xs"
    using l by (auto simp: list_ok_def)
  obtain r s1 vs1 m where k: "kmalloc (of_nat (item_size n)) s = Some (r, s1)" "m = set_next n r NULL (memcpy r src (of_nat n) (mem s1))"
    "heap_space k rest (s1\<lparr>mem := m\<rparr>) vs1" "set vs1 = insert (r, of_nat (item_size n)) (set vs)" "r \<in> item_bytes n r"
    "next_ptr n m r = NULL" "value_at n m r = value_at n (mem s1) src" "item_bytes n r \<subseteq> heap_bytes s"
    "\<forall>v \<in> set vs. item_bytes n r \<inter> block_bytes v = {}" "heap_bytes (s1\<lparr>mem := m\<rparr>) = heap_bytes s"
    "\<forall>x \<in> heap_bytes s. x \<notin> item_bytes n r \<longrightarrow> m x = mem s x"
    "\<forall>x. x \<notin> heap_table_bytes (length vs + Suc k) s \<longrightarrow> mem s1 x = mem s x"
    by (rule item_granted [OF sp src(1)])
  note inv = heap_space_regions [OF sp] and n = heap_space_bound [OF sp]
  have away: "item_bytes n p \<inter> item_bytes n r = {}" "item_bytes n p \<subseteq> heap_bytes s" if "p \<in> set ps" for p
    using that ps(2) k(9) item_block [OF inv _ n, of p] unfolding items_in_def by blast+
  have "\<forall>p \<in> set ps. \<forall>x \<in> item_bytes n p. m x = mem s x"
    using away k(11) by blast
  note cong = items_cong [OF this n]
  have arg: "value_at n (mem s1) src = value_at n (mem s) src"
    using k(12) src(2) n by (intro value_at_cong) (blast, simp add: item_size_def item_next_def)
  have r: "r \<noteq> NULL" "r \<notin> set ps"
    using null k(5,8) away(1) by blast+
  have "linked n (mem (s1\<lparr>mem := m\<rparr>)) l ps" "length ps < 2 ^ 31" "distinct ps" "next_ptr n (mem (s1\<lparr>mem := m\<rparr>)) r = NULL"
    using ps cong(1) assms(3) k(6) by (auto simp: linked_def items_in_def)
  then obtain l' m' where a: "list_append n r l (s1\<lparr>mem := m\<rparr>) = (l', s1\<lparr>mem := m\<rparr>\<lparr>mem := m'\<rparr>)"
    "linked n m' l' (ps @ [r])" "map (value_at n m') (ps @ [r]) = map (value_at n (mem (s1\<lparr>mem := m\<rparr>))) (ps @ [r])"
    "\<And>x. \<forall>p \<in> set ps. x \<notin> item_bytes n p \<Longrightarrow> m' x = mem (s1\<lparr>mem := m\<rparr>) x"
    using list_append_linked [of n "s1\<lparr>mem := m\<rparr>" l ps r] n items_apart [OF inv ps(2) n] away(1) r(1) by metis
  have "list_insert n src l s = Some (r, l', s1\<lparr>mem := m'\<rparr>)"
    using k(1,2) a(1) by (simp add: list_insert_def)
  moreover have "\<forall>x. x \<notin> heap_bytes (s1\<lparr>mem := m\<rparr>) \<longrightarrow> m' x = mem (s1\<lparr>mem := m\<rparr>) x"
    using a(4) away(2) unfolding k(10) by blast
  then have "heap_space k rest (s1\<lparr>mem := m'\<rparr>) vs1"
    using heap_space_write(1) [OF k(3)] by simp
  moreover have "map (value_at n m') (ps @ [r]) = xs @ [value_at n (mem s) src]"
    using a(3) cong(2) ps(3) k(7) arg by simp
  then have "list_ok n (s1\<lparr>mem := m'\<rparr>) l' (xs @ [value_at n (mem s) src]) vs1"
    unfolding list_ok_def using a(2) ps(2) r(2) k(4) by (intro exI [of _ "ps @ [r]"]) (simp add: items_in_def)
  moreover have "l_tail l' = r" "(r, of_nat (item_size n)) \<notin> set vs"
    using a(2) k(5,9) item_block(2) [OF inv _ n, of r] by (simp add: linked_def, blast)
  ultimately show ?thesis
    using k(4) by blast
qed

theorem list_insert_appends_witness:
  "\<exists>p l' s' vs'. list_insert 4 0x80030000 the_list two_items = Some (p, l', s')
    \<and> list_ok 4 s' l' [[7, 0, 0, 0], [9, 0, 0, 0], value_at 4 (mem two_items) 0x80030000] vs'"
proof -
  have "heap_space (Suc 0) (item_size 4 + 0) two_items item_blocks"
    using two_items_ok(1) by (simp add: item_size_def item_next_def)
  from list_insert_appends [OF this two_items_ok(2) _ two_items_ok(3) _ two_items_ok(4)] show ?thesis
    by auto
qed

text \<open>
  \<open>get_value\<close> returns on every list, with the value at the index, or the null value when the
  index is not below the length.
\<close>

theorem get_value_reads:
  assumes "list_ok n s l xs vs" and "length xs < 2 ^ 32"
  shows "get_value n index l s = Some (if unat index < length xs then xs ! unat index else replicate n 0)"
proof -
  obtain ps where "chain n (mem s) (l_head l) ps NULL" "map (value_at n (mem s)) ps = xs"
    using assms(1) by (auto simp: list_ok_def linked_def)
  then show ?thesis
    using get_value_loop_chain [of n "mem s" "l_head l" ps 0 index] assms(2) by (auto simp: get_value_def)
qed

theorem get_value_reads_witness:
  "get_value 4 1 the_list two_items = Some [9, 0, 0, 0] \<and> get_value 4 2 the_list two_items = Some [0, 0, 0, 0]"
  using get_value_reads [OF two_items_ok(2), of 1] get_value_reads [OF two_items_ok(2), of 2] no_value
  by simp

text \<open>
  C19: \<open>remove\<close> of the first item, or of any item but the last, answers true and takes the value at the
  index out of the list.
\<close>

theorem list_remove_deletes:
  assumes sp: "heap_space k r s vs" and l: "list_ok n s l xs vs" and len: "length xs < 2 ^ 31" and n: "item_size n < 2 ^ 32"
    and i: "i < length xs" "i = 0 \<or> Suc i < length xs"
  shows "\<exists>l' s' vs'. list_remove n (of_nat i) l s = Some (True, l', s') \<and> heap_space k r s' vs'
    \<and> list_ok n s' l' (take i xs @ drop (Suc i) xs) vs'"
proof -
  obtain ps where ps: "linked n (mem s) l ps" "items_in n vs ps" "map (value_at n (mem s)) ps = xs"
    using l by (auto simp: list_ok_def)
  define as bs where "as = take i ps" and "bs = drop (Suc i) ps"
  have split: "ps = as @ ps ! i # bs" and la: "length as = i"
    using i(1) ps(3) by (auto simp: as_def bs_def id_take_nth_drop)
  have small: "length (as @ ps ! i # bs) < 2 ^ 31"
    using len ps(3) split by (metis length_map)
  have items: "linked n (mem s) l (as @ ps ! i # bs)" "items_in n vs (as @ ps ! i # bs)"
    using ps(1,2) split by simp_all
  obtain l' s' vs' where rm:
    "list_remove n (of_nat (length as)) l s = Some (True, l', s')" "heap_space k r s' vs'"
    "chain n (mem s') (l_head l') (as @ bs) NULL" "map (value_at n (mem s')) (as @ bs) = map (value_at n (mem s)) (as @ bs)"
    "items_in n vs' (as @ bs)" "l_length l' = of_nat (length (as @ bs))"
    "l_tail l' = (if as = [] \<and> length bs = 1 then l_head l' else l_tail l)"
    by (rule list_remove_items [OF sp items small n])
  have "l_tail l' = last (as @ bs)" if "as @ bs \<noteq> []"
  proof (cases "as = [] \<and> length bs = 1")
    case True
    then show ?thesis
      using rm(3,7) by (cases bs) auto
  next
    case False
    have "bs \<noteq> []"
      using that i(2) la ps(3) by (auto simp: bs_def as_def)
    moreover have "l_tail l = last (as @ ps ! i # bs)"
      using items(1) by (simp add: linked_def)
    moreover have "l_tail l' = l_tail l"
      unfolding rm(7) using False by (rule if_not_P)
    ultimately show ?thesis
      by simp
  qed
  then have "linked n (mem s') l' (as @ bs)"
    using rm(3,6) by (simp add: linked_def)
  moreover have "map (value_at n (mem s')) (as @ bs) = take i xs @ drop (Suc i) xs"
    unfolding rm(4) using ps(3) by (auto simp: as_def bs_def take_map drop_map)
  ultimately have "list_ok n s' l' (take i xs @ drop (Suc i) xs) vs'"
    unfolding list_ok_def using rm(5) by blast
  with rm(1,2) la show ?thesis by blast
qed

theorem list_remove_deletes_witness:
  "\<exists>l' s' vs'. list_remove 4 0 the_list two_items = Some (True, l', s') \<and> list_ok 4 s' l' [[9, 0, 0, 0]] vs'"
  using list_remove_deletes [OF two_items_ok(1,2), of 0] by (auto simp: item_size_def item_next_def)

lemma append_after_lost_tail:
  assumes sp: "heap_space (Suc k) (item_size n + rest) s vs" and ch: "chain n (mem s) (l_head l) as NULL" and inm: "items_in n vs as"
    and len: "l_length l = of_nat (length as)" "as \<noteq> []" "length as < 2 ^ 31" and src: "unat src + n \<le> 2 ^ 32"
    and lost: "\<And>a. a \<in> set as \<Longrightarrow> item_bytes n a \<inter> item_bytes n (l_tail l) = {}"
  obtains p l' s' where "list_insert n src l s = Some (p, l', s')" "l_length l' = of_nat (length as) + 1"
    "get_value n (of_nat (length as)) l' s' = Some (replicate n 0)"
proof -
  obtain r s1 vs1 m where k: "kmalloc (of_nat (item_size n)) s = Some (r, s1)" "m = set_next n r NULL (memcpy r src (of_nat n) (mem s1))"
    "\<forall>v \<in> set vs. item_bytes n r \<inter> block_bytes v = {}" "\<forall>x \<in> heap_bytes s. x \<notin> item_bytes n r \<longrightarrow> m x = mem s x"
    by (rule item_granted [OF sp src])
  note inv = heap_space_regions [OF sp] and n = heap_space_bound [OF sp]
  let ?m = "set_next n (l_tail l) r m" and ?l = "l\<lparr>l_tail := r, l_length := l_length l + 1\<rparr>"
  have small: "length as < 2 ^ 32" and nz: "l_length l \<noteq> 0"
    using len unat_of_nat_small [of "length as"] by auto
  have "?m x = mem s x" if a: "a \<in> set as" "x \<in> item_bytes n a" for a x
  proof -
    have "(a, of_nat (item_size n)) \<in> set vs"
      using a(1) inm by (simp add: items_in_def)
    then have "x \<in> heap_bytes s" "x \<notin> item_bytes n r"
      using item_block [OF inv _ n, of a] a(2) k(3) by blast+
    moreover have "?m x = m x"
      using a lost n by (intro set_next_other) auto
    ultimately show ?thesis
      using k(4) by simp
  qed
  then have "chain n ?m (l_head l) as NULL"
    using items_cong(1) [of as n ?m "mem s"] ch n by simp
  with small have "get_value_loop n (l_head l) (of_nat 0) (of_nat (length as)) ?m = Some (replicate n 0)"
    using get_value_loop_chain [of n ?m "l_head l" as 0] unat_of_nat_small [OF small] by simp
  moreover have "list_insert n src l s = Some (r, ?l, s1\<lparr>mem := ?m\<rparr>)"
    using k(1,2) nz by (simp add: list_insert_def list_append_def)
  ultimately show thesis
    using that [of r ?l "s1\<lparr>mem := ?m\<rparr>"] len(1) by (simp add: get_value_def)
qed

text \<open>
  After the last item of a list of two or more has been removed, the tail still points to it: the
  next value that is inserted is linked to the item given back and cannot be reached from the head.
\<close>

theorem list_insert_after_remove_lost:
  assumes sp: "heap_space (Suc k) (item_size n + rest) s vs" and l: "list_ok n s l xs vs"
    and len: "2 \<le> length xs" "length xs < 2 ^ 31" and src: "unat src + n \<le> 2 ^ 32"
  shows "\<exists>l1 s1 p l2 s2. list_remove n (of_nat (length xs - 1)) l s = Some (True, l1, s1)
    \<and> list_insert n src l1 s1 = Some (p, l2, s2) \<and> l_length l2 = of_nat (length xs)
    \<and> get_value n (of_nat (length xs - 1)) l2 s2 = Some (replicate n 0)"
proof -
  note inv = heap_space_regions [OF sp] and n = heap_space_bound [OF sp]
  obtain ps where ps: "linked n (mem s) l ps" "items_in n vs ps" "map (value_at n (mem s)) ps = xs"
    using l by (auto simp: list_ok_def)
  then obtain as c where as: "ps = as @ [c]"
    using len by (cases ps rule: rev_cases) auto
  have la: "length as = length xs - 1" "as \<noteq> []"
    using ps(3) as len by auto
  obtain l1 s1 vs1 where rm: "list_remove n (of_nat (length as)) l s = Some (True, l1, s1)"
    "heap_space (Suc k) (item_size n + rest) s1 vs1" "chain n (mem s1) (l_head l1) (as @ []) NULL"
    "items_in n vs1 (as @ [])" "l_length l1 = of_nat (length (as @ []))" "l_tail l1 = l_tail l"
    by (rule list_remove_items [OF sp, of n l as c "[]"]) (use ps(1,2) as n la len ps(3) in auto)
  have "l_tail l1 = c"
    using rm(6) ps(1) as by (simp add: linked_def)
  then have "item_bytes n a \<inter> item_bytes n (l_tail l1) = {}" if "a \<in> set as" for a
    using items_apart [OF inv ps(2) n, of a c] that ps(2) as by (auto simp: items_in_def)
  then obtain p l2 s2 where ins: "list_insert n src l1 s1 = Some (p, l2, s2)" "l_length l2 = of_nat (length as) + 1"
      "get_value n (of_nat (length as)) l2 s2 = Some (replicate n 0)"
    by (rule append_after_lost_tail [OF rm(2), of l1 as, rotated 6]) (use rm(3-5) la len src in simp_all)
  have "of_nat (length as) + 1 = (of_nat (length xs) :: u32)"
    using la len by (simp add: of_nat_diff)
  then show ?thesis
    using rm(1) ins unfolding la(1) by auto
qed

theorem list_insert_after_remove_lost_witness:
  "\<exists>l1 s1 p l2 s2. list_remove 4 1 the_list two_items = Some (True, l1, s1)
    \<and> list_insert 4 0x80030000 l1 s1 = Some (p, l2, s2) \<and> l_length l2 = 2 \<and> get_value 4 1 l2 s2 = Some [0, 0, 0, 0]"
proof -
  have "heap_space (Suc 0) (item_size 4 + 0) two_items item_blocks"
    using two_items_ok(1) by (simp add: item_size_def item_next_def)
  from list_insert_after_remove_lost [OF this two_items_ok(2), of "0x80030000"] show ?thesis
    using no_value by simp
qed

end
