(* ===== verification/ATA.thy ===== *)
theory ATA
  imports Heap "HOL-Library.Signed_Division"
begin

text \<open>
  The disk driver \<open>ATA.c\<close>. The status register is polled at most 6000 times; every poll is a read of
  the port environment, so a device is any stream of status bytes. A 16-bit access to a port is an
  access to the port and to the one after it. The numbers \<open>int\<close> and \<open>size_t\<close> are 32-bit words: the
  loops compare \<open>j < lba + count\<close>, which C does on the unsigned type. A device that the C code points
  to is its number in \<open>ata_devices\<close>. \<open>rep insw\<close> and \<open>rep outsw\<close> are loops over the words.
\<close>

section \<open>The operations\<close>

abbreviation (input) HD_DATA_OFFSET :: u32 where "HD_DATA_OFFSET \<equiv> 0"
abbreviation (input) HD_NSECTOR_OFFSET :: u32 where "HD_NSECTOR_OFFSET \<equiv> 2"
abbreviation (input) LBA_0_7_OFFSET :: u32 where "LBA_0_7_OFFSET \<equiv> 3"
abbreviation (input) LBA_8_15_OFFSET :: u32 where "LBA_8_15_OFFSET \<equiv> 4"
abbreviation (input) LBA_16_23_OFFSET :: u32 where "LBA_16_23_OFFSET \<equiv> 5"
abbreviation (input) HD_CURRENT_OFFSET :: u32 where "HD_CURRENT_OFFSET \<equiv> 6"
abbreviation (input) HD_STATUS_OFFSET :: u32 where "HD_STATUS_OFFSET \<equiv> 7"
abbreviation (input) IDENTIFY_COMMAND :: u32 where "IDENTIFY_COMMAND \<equiv> 0xEC"
abbreviation (input) READ_COMMAND :: u32 where "READ_COMMAND \<equiv> 0x20"
abbreviation (input) WRITE_COMMAND :: u32 where "WRITE_COMMAND \<equiv> 0x30"
abbreviation (input) SECTOR_SIZE :: u32 where "SECTOR_SIZE \<equiv> 0x200"

text \<open>
  The loop that the three tests share: read, count down, go on while \<open>again\<close> holds and \<open>i\<close> is not 0.
  The result is \<open>i\<close>; the loops start at 6000, so the first equation is not reached.
\<close>

fun poll_status :: "nat \<Rightarrow> (u8 \<Rightarrow> bool) \<Rightarrow> u32 \<Rightarrow> kernel \<Rightarrow> nat \<times> kernel" where
  "poll_status 0 again port s = (0, s)"
| "poll_status (Suc i) again port s =
     (let (status, s) = inportb (ucast (port + HD_STATUS_OFFSET)) s
      in if again status \<and> i \<noteq> 0 then poll_status i again port s else (i, s))"

definition hd_busy :: "u32 \<Rightarrow> kernel \<Rightarrow> bool \<times> kernel" where
  "hd_busy port s = (let (i, s) = poll_status 6000 (\<lambda>status. status AND 0x80 \<noteq> 0) port s in (i = 0, s))"

definition hd_ready :: "u32 \<Rightarrow> kernel \<Rightarrow> bool \<times> kernel" where
  "hd_ready port s = (let (i, s) = poll_status 6000 (\<lambda>status. \<not> status AND 0x40 \<noteq> 0) port s in (i \<noteq> 0, s))"

definition hd_drq :: "u32 \<Rightarrow> kernel \<Rightarrow> bool \<times> kernel" where
  "hd_drq port s = (let (i, s) = poll_status 6000 (\<lambda>status. \<not> status AND 0x8 \<noteq> 0) port s in (i \<noteq> 0, s))"

definition send_command :: "u32 \<Rightarrow> u32 \<Rightarrow> u32 \<Rightarrow> u32 \<Rightarrow> u32 \<Rightarrow> kernel \<Rightarrow> bool \<times> kernel" where
  "send_command port slave_bit hd_nsector lba command s =
     (let (busy, s) = hd_busy port s in
      if busy then (False, s)
      else let s = outportb (ucast (port + HD_CURRENT_OFFSET))
                     (ucast (0xE0 OR push_bit 4 slave_bit OR (drop_bit 24 lba AND 0xF))) s;
               (ready, s) = hd_ready port s in
      if \<not> ready then (False, s)
      else let (busy, s) = hd_busy port s in
      if busy then (False, s)
      else let s = outportb (ucast (port + HD_NSECTOR_OFFSET)) (ucast hd_nsector) s;
               s = outportb (ucast (port + LBA_0_7_OFFSET)) (ucast lba) s;
               s = outportb (ucast (port + LBA_8_15_OFFSET)) (ucast (drop_bit 8 lba)) s;
               s = outportb (ucast (port + LBA_16_23_OFFSET)) (ucast (drop_bit 16 lba)) s;
               s = outportb (ucast (port + HD_STATUS_OFFSET)) (ucast command) s;
               (_, s) = hd_busy port s;
               (_, s) = hd_drq port s
           in (True, s))"

definition inportw :: "u16 \<Rightarrow> kernel \<Rightarrow> u16 \<times> kernel" where
  "inportw port s = (ucast (port_in s (in_count s) port) OR push_bit 8 (ucast (port_in s (in_count s) (port + 1))),
     s\<lparr>in_count := Suc (in_count s)\<rparr>)"

definition outportw :: "u16 \<Rightarrow> u16 \<Rightarrow> kernel \<Rightarrow> kernel" where
  "outportw port val s = outportb (port + 1) (ucast (drop_bit 8 val)) (outportb port (ucast val) s)"

primrec rep_insw :: "nat \<Rightarrow> u32 \<Rightarrow> u16 \<Rightarrow> kernel \<Rightarrow> kernel" where
  "rep_insw 0 edi port s = s"
| "rep_insw (Suc ecx) edi port s =
     (let (w, s) = inportw port s in rep_insw ecx (edi + 2) port (s\<lparr>mem := store16 edi w (mem s)\<rparr>))"

primrec rep_outsw :: "nat \<Rightarrow> u32 \<Rightarrow> u16 \<Rightarrow> kernel \<Rightarrow> kernel" where
  "rep_outsw 0 esi port s = s"
| "rep_outsw (Suc ecx) esi port s = rep_outsw ecx (esi + 2) port (outportw port (load16 (mem s) esi) s)"

text \<open>\<open>count * SECTOR_SIZE / 2\<close> on the signed type\<close>

definition sector_words :: "u32 \<Rightarrow> nat" where
  "sector_words count = unat (word_of_int (sint (count * SECTOR_SIZE) sdiv 2) :: u32)"

partial_function (option) write_loop :: "u32 \<Rightarrow> AtaDevice \<Rightarrow> u32 \<Rightarrow> u32 \<Rightarrow> u32 \<Rightarrow> kernel \<Rightarrow> kernel option" where
  "write_loop j ata_device lba count buffer s =
     (if j < lba + count then
        let (_, s) = send_command (ata_port ata_device) (ata_slave_bit ata_device) count lba WRITE_COMMAND s;
            s = rep_outsw (sector_words count) buffer (ucast (ata_port ata_device)) s
        in write_loop (j + 0x100) ata_device lba count buffer s
      else Some s)"

definition write_ATA :: "AtaDevice \<Rightarrow> u32 \<Rightarrow> u32 \<Rightarrow> u32 \<Rightarrow> kernel \<Rightarrow> kernel option" where
  "write_ATA ata_device lba count buffer s =
     (if sint count \<ge> 0x100 then write_loop lba ata_device lba count buffer s else Some s)"

partial_function (option) read_loop :: "u32 \<Rightarrow> AtaDevice \<Rightarrow> u32 \<Rightarrow> u32 \<Rightarrow> u32 \<Rightarrow> kernel \<Rightarrow> kernel option" where
  "read_loop j ata_device lba count buffer s =
     (if j < lba + count then
        let (_, s) = send_command (ata_port ata_device) (ata_slave_bit ata_device) count lba READ_COMMAND s;
            s = rep_insw (sector_words count) buffer (ucast (ata_port ata_device)) s
        in read_loop (j + 0x100) ata_device lba count buffer s
      else Some s)"

definition read_ATA :: "AtaDevice \<Rightarrow> u32 \<Rightarrow> u32 \<Rightarrow> u32 \<Rightarrow> kernel \<Rightarrow> kernel option" where
  "read_ATA ata_device lba count buffer s = read_loop lba ata_device lba count buffer s"

definition set_ata :: "nat \<Rightarrow> (AtaDevice \<Rightarrow> AtaDevice) \<Rightarrow> kernel \<Rightarrow> kernel" where
  "set_ata n f s = s\<lparr>ata_devices := (ata_devices s)[n := f (ata_devices s ! n)]\<rparr>"

text \<open>The elements of the buffer are \<open>short\<close>, so the three factors are sign-extended.\<close>

definition init_ATA_device :: "u32 \<Rightarrow> u8 \<Rightarrow> nat \<Rightarrow> kernel \<Rightarrow> kernel option" where
  "init_ATA_device port slave_bit n s =
     (if n < length (ata_devices s) then
        let (ok, s) = send_command port (scast slave_bit) 0 0 IDENTIFY_COMMAND s;
            s = set_ata n (\<lambda>d. d\<lparr>ata_available := of_bool ok\<rparr>) s
        in if ata_available (ata_devices s ! n) = 0 then Some s
           else do {
             (buffer, s) \<leftarrow> kmalloc 0x200 s;
             let s = rep_insw 256 buffer (ucast (port + HD_DATA_OFFSET)) s;
             let s = set_ata n (\<lambda>d. d\<lparr>ata_port := port\<rparr>) s;
             let s = set_ata n (\<lambda>d. d\<lparr>ata_slave_bit := scast slave_bit\<rparr>) s;
             let short = (\<lambda>i. scast (load16 (mem s) (buffer + 2 * i)) :: u32);
             let s = set_ata n (\<lambda>d. d\<lparr>ata_sector_nubmer := short 1 * short 3 * short 6\<rparr>) s;
             let s = set_ata n (\<lambda>d. d\<lparr>ata_is_lba48_supported := (if short 83 AND 0x400 \<noteq> 0 then 1 else 0)\<rparr>) s;
             Some (snd (kfree buffer s))
           }
      else None)"

definition init_ATA_devices :: "kernel \<Rightarrow> kernel option" where
  "init_ATA_devices s = do {
     s \<leftarrow> init_ATA_device 0x1F0 0 0 s;
     s \<leftarrow> init_ATA_device 0x1F0 1 1 s;
     s \<leftarrow> init_ATA_device 0x170 0 2 s;
     init_ATA_device 0x170 1 3 s
   }"

section \<open>Polling\<close>

text \<open>The \<open>k\<close>-th status byte that polling in state \<open>s\<close> will read.\<close>

definition status_at :: "u32 \<Rightarrow> kernel \<Rightarrow> nat \<Rightarrow> u8" where
  "status_at port s k = port_in s (in_count s + k) (ucast (port + HD_STATUS_OFFSET))"

definition reads :: "nat \<Rightarrow> kernel \<Rightarrow> kernel" where
  "reads n s = s\<lparr>in_count := in_count s + n\<rparr>"

lemma reads_simps [simp]:
  "reads 0 s = s" "reads m (reads n s) = reads (n + m) s" "in_count (reads n s) = in_count s + n"
  "port_in (reads n s) = port_in s" "out_log (reads n s) = out_log s" "mem (reads n s) = mem s"
  "ata_devices (reads n s) = ata_devices s"
  "status_at port (reads n s) k = status_at port s (n + k)"
  by (simp_all add: reads_def status_at_def add.assoc)

lemma poll_status_correct:
  "(\<exists>k < n. \<not> again (status_at port s k) \<and> (\<forall>j < k. again (status_at port s j))
      \<and> poll_status (Suc n) again port s = (n - k, reads (Suc k) s))
   \<or> (\<forall>k < n. again (status_at port s k)) \<and> poll_status (Suc n) again port s = (0, reads (Suc n) s)"
proof (induction n arbitrary: s)
  case 0
  show ?case by (simp add: inportb_def reads_def)
next
  case (Suc n)
  have step: "poll_status (Suc (Suc n)) again port s
      = (if again (status_at port s 0) then poll_status (Suc n) again port (reads 1 s) else (Suc n, reads 1 s))"
    by (simp add: inportb_def status_at_def reads_def Let_def)
  show ?case
  proof (cases "again (status_at port s 0)")
    case False
    then show ?thesis
      by (intro disjI1 exI [of _ 0]) (simp only: step, simp)
  next
    case True
    from Suc.IH [of "reads 1 s"] show ?thesis
    proof (elim disjE exE conjE)
      fix k assume k: "k < n" "\<not> again (status_at port (reads 1 s) k)" "\<forall>j < k. again (status_at port (reads 1 s) j)"
        "poll_status (Suc n) again port (reads 1 s) = (n - k, reads (Suc k) (reads 1 s))"
      have "\<forall>j < Suc k. again (status_at port s j)"
        using True k(3) by (auto simp: less_Suc_eq_0_disj)
      with k show ?thesis
        by (intro disjI1 exI [of _ "Suc k"]) (simp only: step True, simp)
    next
      assume k: "\<forall>k < n. again (status_at port (reads 1 s) k)"
        "poll_status (Suc n) again port (reads 1 s) = (0, reads (Suc n) (reads 1 s))"
      then have "\<forall>k < Suc n. again (status_at port s k)"
        using True by (auto simp: less_Suc_eq_0_disj)
      with k show ?thesis
        by (intro disjI2) (simp only: step True, simp)
    qed
  qed
qed

text \<open>The number of polls a test makes: up to the first answer among the first 5999, or all 6000.\<close>

declare poll_status.simps [simp del]

lemma poll_6000:
  obtains n where "1 \<le> n" "n \<le> 6000" "snd (poll_status 6000 again port s) = reads n s"
    "fst (poll_status 6000 again port s) = 0 \<longleftrightarrow> (\<forall>k < 5999. again (status_at port s k))"
proof -
  have six: "poll_status 6000 again port s = poll_status (Suc 5999) again port s"
    by (rule arg_cong [where f = "\<lambda>n. poll_status n again port s"]) simp
  define r where "r = poll_status 6000 again port s"
  have "(\<exists>k < 5999. \<not> again (status_at port s k) \<and> r = (5999 - k, reads (Suc k) s))
      \<or> (\<forall>k < 5999. again (status_at port s k)) \<and> r = (0, reads 6000 s)"
    using poll_status_correct [of 5999 again port s] unfolding r_def six
    by (elim disj_forward) (blast, simp del: poll_status.simps)
  then have "\<exists>n. 1 \<le> n \<and> n \<le> 6000 \<and> snd r = reads n s \<and> (fst r = 0 \<longleftrightarrow> (\<forall>k < 5999. again (status_at port s k)))"
  proof
    assume "\<exists>k < 5999. \<not> again (status_at port s k) \<and> r = (5999 - k, reads (Suc k) s)"
    then obtain k where k: "k < 5999" "\<not> again (status_at port s k)" "r = (5999 - k, reads (Suc k) s)"
      by blast
    then have "\<not> (\<forall>k < 5999. again (status_at port s k))" by blast
    with k show ?thesis
      by (intro exI [of _ "Suc k"]) (simp del: reads_simps)
  next
    assume "(\<forall>k < 5999. again (status_at port s k)) \<and> r = (0, reads 6000 s)"
    then show ?thesis
      by (intro exI [of _ 6000]) simp
  qed
  then show ?thesis
    unfolding r_def by (elim exE conjE) (rule that)
qed

text \<open>Each of the tests: its answer, and the reads it makes.\<close>

lemma hd_tests:
  "\<exists>n. 1 \<le> n \<and> n \<le> 6000 \<and> hd_busy port s = (\<forall>k < 5999. status_at port s k AND 0x80 \<noteq> 0, reads n s)"
  "\<exists>n. 1 \<le> n \<and> n \<le> 6000 \<and> hd_ready port s = (\<exists>k < 5999. status_at port s k AND 0x40 \<noteq> 0, reads n s)"
  "\<exists>n. 1 \<le> n \<and> n \<le> 6000 \<and> hd_drq port s = (\<exists>k < 5999. status_at port s k AND 0x8 \<noteq> 0, reads n s)"
proof -
  show "\<exists>n. 1 \<le> n \<and> n \<le> 6000 \<and> hd_busy port s = (\<forall>k < 5999. status_at port s k AND 0x80 \<noteq> 0, reads n s)"
    by (rule poll_6000 [of "\<lambda>st. st AND 0x80 \<noteq> 0" port s]) (auto simp: hd_busy_def case_prod_unfold)
  show "\<exists>n. 1 \<le> n \<and> n \<le> 6000 \<and> hd_ready port s = (\<exists>k < 5999. status_at port s k AND 0x40 \<noteq> 0, reads n s)"
    by (rule poll_6000 [of "\<lambda>st. \<not> st AND 0x40 \<noteq> 0" port s]) (auto simp: hd_ready_def case_prod_unfold)
  show "\<exists>n. 1 \<le> n \<and> n \<le> 6000 \<and> hd_drq port s = (\<exists>k < 5999. status_at port s k AND 0x8 \<noteq> 0, reads n s)"
    by (rule poll_6000 [of "\<lambda>st. \<not> st AND 0x8 \<noteq> 0" port s]) (auto simp: hd_drq_def case_prod_unfold)
qed

section \<open>Commands\<close>

definition logged :: "(u16 \<times> u8) list \<Rightarrow> kernel \<Rightarrow> kernel" where
  "logged log s = s\<lparr>out_log := log @ out_log s\<rparr>"

lemma logged_simps [simp]:
  "logged [] s = s" "outportb p v s = logged [(p, v)] s" "logged xs (logged ys s) = logged (xs @ ys) s"
  "reads n (logged xs s) = logged xs (reads n s)" "in_count (logged xs s) = in_count s"
  "port_in (logged xs s) = port_in s" "mem (logged xs s) = mem s" "out_log (logged xs s) = xs @ out_log s"
  "ata_devices (logged xs s) = ata_devices s"
  "status_at port (logged xs s) k = status_at port s k"
  by (simp_all add: logged_def outportb_def reads_def status_at_def)

definition drive_select :: "u32 \<Rightarrow> u32 \<Rightarrow> u32 \<Rightarrow> u16 \<times> u8" where
  "drive_select port slave_bit lba =
     (ucast (port + HD_CURRENT_OFFSET), ucast (0xE0 OR push_bit 4 slave_bit OR (drop_bit 24 lba AND 0xF)))"

text \<open>The writes of a whole command, latest first.\<close>

definition command_log :: "u32 \<Rightarrow> u32 \<Rightarrow> u32 \<Rightarrow> u32 \<Rightarrow> u32 \<Rightarrow> (u16 \<times> u8) list" where
  "command_log port slave_bit nsector lba command =
     [(ucast (port + HD_STATUS_OFFSET), ucast command), (ucast (port + LBA_16_23_OFFSET), ucast (drop_bit 16 lba)),
      (ucast (port + LBA_8_15_OFFSET), ucast (drop_bit 8 lba)), (ucast (port + LBA_0_7_OFFSET), ucast lba),
      (ucast (port + HD_NSECTOR_OFFSET), ucast nsector), drive_select port slave_bit lba]"

lemma send_command_cases:
  obtains (busy) n where "n \<le> 6000" "\<forall>k < 5999. status_at port s k AND 0x80 \<noteq> 0"
      "send_command port sl ns lba cmd s = (False, reads n s)"
  | (selected) n k where "n \<le> 18000" "k < 5999" "status_at port s k AND 0x80 = 0"
      "send_command port sl ns lba cmd s = (False, logged [drive_select port sl lba] (reads n s))"
      "\<not> (\<forall>k. status_at port s k AND 0x80 = 0 \<and> status_at port s k AND 0x40 \<noteq> 0)"
  | (sent) n k where "n \<le> 30000" "k < 5999" "status_at port s k AND 0x80 = 0"
      "send_command port sl ns lba cmd s = (True, logged (command_log port sl ns lba cmd) (reads n s))"
proof -
  define b1 where "b1 = (\<forall>k < 5999. status_at port s k AND 0x80 \<noteq> 0)"
  obtain n1 where n1: "n1 \<le> 6000" "hd_busy port s = (b1, reads n1 s)"
    using hd_tests(1) [of port s] unfolding b1_def by blast
  let ?s1 = "logged [drive_select port sl lba] (reads n1 s)"
  define b2 where "b2 = (\<exists>k < 5999. status_at port s (n1 + k) AND 0x40 \<noteq> 0)"
  obtain n2 where n2: "n2 \<le> 6000" "hd_ready port ?s1 = (b2, reads n2 ?s1)"
    using hd_tests(2) [of port ?s1] unfolding b2_def by auto
  let ?s2 = "logged [drive_select port sl lba] (reads (n1 + n2) s)"
  define b3 where "b3 = (\<forall>k < 5999. status_at port s (n1 + n2 + k) AND 0x80 \<noteq> 0)"
  obtain n3 where n3: "n3 \<le> 6000" "hd_busy port ?s2 = (b3, reads n3 ?s2)"
    using hd_tests(1) [of port ?s2] unfolding b3_def by auto
  let ?s3 = "logged (command_log port sl ns lba cmd) (reads (n1 + n2 + n3) s)"
  obtain n4 b4 where n4: "n4 \<le> 6000" "hd_busy port ?s3 = (b4, reads n4 ?s3)"
    using hd_tests(1) [of port ?s3] by blast
  obtain n5 b5 where n5: "n5 \<le> 6000" "hd_drq port (reads n4 ?s3) = (b5, reads n5 (reads n4 ?s3))"
    using hd_tests(3) [of port "reads n4 ?s3"] by blast
  have c: "send_command port sl ns lba cmd s =
      (if b1 then (False, reads n1 s)
       else if \<not> b2 then (False, logged [drive_select port sl lba] (reads (n1 + n2) s))
       else if b3 then (False, logged [drive_select port sl lba] (reads (n1 + n2 + n3) s))
       else (True, logged (command_log port sl ns lba cmd) (reads (n1 + n2 + n3 + n4 + n5) s)))"
    using n1(2) n2(2) n3(2) n4(2) n5(2)
    by (simp add: send_command_def drive_select_def command_log_def)
  show ?thesis
  proof (cases b1)
    case True
    with c n1(1) show ?thesis by (intro busy [of n1]) (simp_all add: b1_def)
  next
    case False
    then obtain k where k: "k < 5999" "status_at port s k AND 0x80 = 0"
      unfolding b1_def by blast
    have no: "\<not> (\<forall>k. status_at port s k AND 0x80 = 0 \<and> status_at port s k AND 0x40 \<noteq> 0)" if "\<not> b2 \<or> b3"
      using that unfolding b2_def b3_def by (meson zero_less_numeral)
    consider "\<not> b2" | "b2" "b3" | "b2" "\<not> b3" by blast
    then show ?thesis
    proof cases
      case 1
      with c False n1(1) n2(1) show ?thesis
        by (intro selected [OF _ k _ no, of "n1 + n2"]) simp_all
    next
      case 2
      with c False n1(1) n2(1) n3(1) show ?thesis
        by (intro selected [OF _ k _ no, of "n1 + n2 + n3"]) simp_all
    next
      case 3
      with c False n1(1) n2(1) n3(1) n4(1) n5(1) show ?thesis
        by (intro sent [OF _ k, of "n1 + n2 + n3 + n4 + n5"]) simp_all
    qed
  qed
qed

section \<open>Transfers\<close>

definition word_at :: "u16 \<Rightarrow> kernel \<Rightarrow> nat \<Rightarrow> u16" where
  "word_at port s i = fst (inportw port (reads i s))"

lemma rep_insw_snoc:
  "rep_insw (Suc n) edi port s = (let s' = rep_insw n edi port s
     in (reads 1 s')\<lparr>mem := store16 (edi + of_nat (2 * n)) (fst (inportw port s')) (mem s')\<rparr>)"
proof (induction n arbitrary: edi s)
  case 0
  show ?case by (simp add: inportw_def reads_def Let_def)
next
  case (Suc n)
  have "rep_insw (Suc (Suc n)) edi port s
      = rep_insw (Suc n) (edi + 2) port (snd (inportw port s)\<lparr>mem := store16 edi (fst (inportw port s)) (mem s)\<rparr>)"
    by (simp add: inportw_def)
  also have "\<dots> = (let s' = rep_insw (Suc n) edi port s
     in (reads 1 s')\<lparr>mem := store16 (edi + of_nat (2 * Suc n)) (fst (inportw port s')) (mem s')\<rparr>)"
    by (subst Suc.IH) (simp add: inportw_def Let_def algebra_simps)
  finally show ?case .
qed

lemma rep_insw_fill:
  "rep_insw n edi port s = (reads n s)\<lparr>mem := cell16.fill edi (word_at port s) n (mem s)\<rparr>"
proof (induction n)
  case 0
  show ?case by (simp add: cell16.fill_def)
next
  case (Suc n)
  have "fst (inportw port ((reads n s)\<lparr>mem := m\<rparr>)) = word_at port s n" for m
    by (simp add: word_at_def inportw_def)
  with Suc.IH show ?case
    by (simp add: rep_insw_snoc cell16.fill_def Let_def reads_def del: rep_insw.simps)
qed

text \<open>The loop of the two transfers: it advances by 256 sectors, and the body does not depend on \<open>j\<close>.\<close>

lemma sector_loop:
  fixes lba count :: u32
  assumes step: "\<And>j s. L j s = (if j < lba + count then L (j + 0x100) (body s) else Some s)"
    and fits: "unat lba + unat count + 0x100 \<le> 2 ^ 32"
  shows "L lba s = Some ((body ^^ ((unat count + 255) div 256)) s)"
proof -
  have "L (lba + of_nat (256 * i)) s = Some ((body ^^ r) s)"
    if "r = (unat count + 255) div 256 - i" "256 * i < unat count + 256" for r i s
    using that
  proof (induction r arbitrary: i s)
    case 0
    then have "unat count \<le> 256 * i" by simp
    moreover have "unat (lba + of_nat (256 * i)) = unat lba + 256 * i"
      using 0 fits by (intro unat_add_of_nat) simp
    moreover have "unat (lba + count) = unat lba + unat count"
      using fits by (intro unat_add_nowrap) simp
    ultimately have "\<not> lba + of_nat (256 * i) < lba + count"
      by (simp add: word_less_nat_alt)
    then show ?case by (subst step) simp
  next
    case (Suc r)
    then have lt: "256 * i < unat count" by simp
    moreover have "unat (lba + of_nat (256 * i)) = unat lba + 256 * i"
      using Suc.prems fits by (intro unat_add_of_nat) simp
    moreover have "unat (lba + count) = unat lba + unat count"
      using fits by (intro unat_add_nowrap) simp
    ultimately have "lba + of_nat (256 * i) < lba + count"
      by (simp add: word_less_nat_alt)
    moreover have "L (lba + of_nat (256 * Suc i)) (body s) = Some ((body ^^ r) (body s))"
      using Suc.prems lt by (intro Suc.IH) auto
    moreover have "lba + of_nat (256 * Suc i) = lba + of_nat (256 * i) + 0x100"
      by (simp add: algebra_simps)
    ultimately show ?case
      by (subst step) (simp add: funpow_swap1 add.assoc add.commute [of "0x100"])
  qed
  from this [of _ 0] show ?thesis by simp
qed

definition read_round :: "AtaDevice \<Rightarrow> u32 \<Rightarrow> u32 \<Rightarrow> u32 \<Rightarrow> kernel \<Rightarrow> kernel" where
  "read_round d lba count buffer s = rep_insw (sector_words count) buffer (ucast (ata_port d))
     (snd (send_command (ata_port d) (ata_slave_bit d) count lba READ_COMMAND s))"

definition write_round :: "AtaDevice \<Rightarrow> u32 \<Rightarrow> u32 \<Rightarrow> u32 \<Rightarrow> kernel \<Rightarrow> kernel" where
  "write_round d lba count buffer s = rep_outsw (sector_words count) buffer (ucast (ata_port d))
     (snd (send_command (ata_port d) (ata_slave_bit d) count lba WRITE_COMMAND s))"

lemma transfer_rounds:
  assumes "unat lba + unat count + 0x100 \<le> 2 ^ 32"
  shows "read_loop lba d lba count buffer s = Some ((read_round d lba count buffer ^^ ((unat count + 255) div 256)) s)"
    "write_loop lba d lba count buffer s = Some ((write_round d lba count buffer ^^ ((unat count + 255) div 256)) s)"
proof -
  show "read_loop lba d lba count buffer s = Some ((read_round d lba count buffer ^^ ((unat count + 255) div 256)) s)"
    by (rule sector_loop [OF _ assms]) (subst read_loop.simps, simp add: read_round_def case_prod_unfold)
  show "write_loop lba d lba count buffer s = Some ((write_round d lba count buffer ^^ ((unat count + 255) div 256)) s)"
    by (rule sector_loop [OF _ assms]) (subst write_loop.simps, simp add: write_round_def case_prod_unfold)
qed

lemma sector_words_eq: "unat count < 2 ^ 22 \<Longrightarrow> sector_words count = 256 * unat count"
proof -
  assume c: "unat count < 2 ^ 22"
  have u: "unat (count * 0x200) = unat count * 512"
    using c by (subst unat_mult_nowrap) simp_all
  moreover have "sint (count * 0x200) = int (unat (count * 0x200))"
  proof -
    have "uint (count * 0x200) = int (unat (count * 0x200))" by simp
    moreover have "int (unat (count * 0x200)) < int (2 ^ 31)"
      unfolding of_nat_less_iff using u c by simp
    ultimately show ?thesis
      by (simp add: sint_uint signed_take_bit_int_eq_self del: int_nat_eq of_nat_unat)
  qed
  moreover have "int (unat count * 512) sdiv 2 = int (256 * unat count)"
    by (cases "unat count") (simp_all add: signed_divide_int_def)
  ultimately have "sint (count * 0x200) sdiv 2 = int (256 * unat count)"
    by (simp only:)
  moreover have "unat (of_nat (256 * unat count) :: u32) = 256 * unat count"
    using c by (intro unat_of_nat_small) simp
  ultimately show ?thesis
    by (simp add: sector_words_def)
qed

text \<open>One round of a read: a command, and the words that the data port gives, in the buffer.\<close>

lemma read_round_words:
  fixes d :: AtaDevice and s :: kernel
  assumes "unat count < 2 ^ 22" "unat buffer + 512 * unat count \<le> 2 ^ 32"
  defines "port \<equiv> ucast (ata_port d) :: u16"
  shows "\<exists>n log. n \<le> 30000 \<and> read_round d lba count buffer s
      = (logged log (reads (n + 256 * unat count) s))\<lparr>mem := mem (read_round d lba count buffer s)\<rparr>
    \<and> (\<forall>i < 256 * unat count. load16 (mem (read_round d lba count buffer s)) (buffer + of_nat (2 * i)) = word_at port s (n + i))
    \<and> (\<forall>x. x \<notin> bytes_at buffer (512 * unat count) \<longrightarrow> mem (read_round d lba count buffer s) x = mem s x)
    \<and> ((\<forall>k. status_at (ata_port d) s k AND 0x80 = 0 \<and> status_at (ata_port d) s k AND 0x40 \<noteq> 0) \<longrightarrow>
        log = command_log (ata_port d) (ata_slave_bit d) count lba READ_COMMAND)"
proof -
  obtain n log where c: "n \<le> 30000"
      "snd (send_command (ata_port d) (ata_slave_bit d) count lba READ_COMMAND s) = logged log (reads n s)"
      "(\<forall>k. status_at (ata_port d) s k AND 0x80 = 0 \<and> status_at (ata_port d) s k AND 0x40 \<noteq> 0) \<longrightarrow>
        log = command_log (ata_port d) (ata_slave_bit d) count lba READ_COMMAND"
  proof (cases rule: send_command_cases [of "ata_port d" s "ata_slave_bit d" count lba READ_COMMAND])
    case (busy n)
    then have "\<not> (\<forall>k. status_at (ata_port d) s k AND 0x80 = 0 \<and> status_at (ata_port d) s k AND 0x40 \<noteq> 0)"
      by (meson zero_less_numeral)
    with busy that [of n "[]"] show ?thesis by simp
  next
    case (selected n k)
    with that [of n] show ?thesis by auto
  next
    case (sent n k)
    with that [of n] show ?thesis by auto
  qed
  let ?m = "cell16.fill buffer (word_at port (logged log (reads n s))) (256 * unat count) (mem s)"
  have r: "read_round d lba count buffer s = (logged log (reads (n + 256 * unat count) s))\<lparr>mem := ?m\<rparr>"
    using c(2) by (simp add: read_round_def rep_insw_fill sector_words_eq [OF assms(1)] port_def)
  have w: "word_at port (logged log (reads n s)) i = word_at port s (n + i)" for i
    by (simp add: word_at_def inportw_def add.assoc)
  show ?thesis
    using c(1,3) assms(2) cell16.fill_ld [of buffer "256 * unat count"] cell16.fill_other [of buffer "256 * unat count"]
    unfolding r by (intro exI [of _ n] exI [of _ log]) (simp add: w)
qed

text \<open>The list of devices through the calls of \<open>init_ATA_device\<close>.\<close>

lemma kfree_loop_devices: "ata_devices (snd (kfree_loop p ptr i s)) = ata_devices s"
proof (induction p ptr i s rule: kfree_loop.induct)
  case (1 p ptr i s)
  then show ?case by (subst kfree_loop.simps) (simp add: Let_def)
qed

lemma kfree_devices: "ata_devices (snd (kfree ptr s)) = ata_devices s"
  by (simp add: kfree_def kfree_loop_devices)

lemma set_ata_simps [simp]:
  "set_ata n f (set_ata n g s) = set_ata n (f o g) s"
  "length (ata_devices (set_ata n f s)) = length (ata_devices s)"
  "n < length (ata_devices s) \<Longrightarrow> ata_devices (set_ata n f s) ! n = f (ata_devices s ! n)"
  "mem (set_ata n f s) = mem s"
  by (cases "n < length (ata_devices s)") (simp_all add: set_ata_def not_less list_update_beyond)

lemma send_command_form: "\<exists>log n. snd (send_command port sl ns lba cmd s) = logged log (reads n s)"
proof (cases rule: send_command_cases [of port s sl ns lba cmd])
  case (busy n)
  then show ?thesis by (intro exI [of _ "[]"] exI [of _ n]) simp
qed (simp, blast)+

lemma heap_state_frame [simp]:
  "heap_state (logged log s) = heap_state s" "heap_state (reads n s) = heap_state s"
  "heap_state (set_ata n f s) = heap_state s" "port_in (set_ata n f s) = port_in s"
  by (auto simp: logged_def reads_def set_ata_def address_space_def split: space.splits)

lemma send_command_devices: "ata_devices (snd (send_command port sl ns lba cmd s)) = ata_devices s"
  by (cases rule: send_command_cases [of port s sl ns lba cmd]) simp_all

section \<open>Properties\<close>

text \<open>
  C37: every test of the status register ends after at most 6000 reads. It answers by the first 5999
  of them only: when the last read is the first good one, the count has reached 0 and the device is
  given up although it answered.
\<close>

theorem hd_polls_bounded:
  "(fst (hd_busy port s) \<longleftrightarrow> (\<forall>k < 5999. status_at port s k AND 0x80 \<noteq> 0))
    \<and> (fst (hd_ready port s) \<longleftrightarrow> (\<exists>k < 5999. status_at port s k AND 0x40 \<noteq> 0))
    \<and> (fst (hd_drq port s) \<longleftrightarrow> (\<exists>k < 5999. status_at port s k AND 0x8 \<noteq> 0))
    \<and> (\<exists>n \<in> {1..6000}. snd (hd_busy port s) = reads n s)
    \<and> (\<exists>n \<in> {1..6000}. snd (hd_ready port s) = reads n s)
    \<and> (\<exists>n \<in> {1..6000}. snd (hd_drq port s) = reads n s)"
proof -
  obtain n1 where n1: "1 \<le> n1 \<and> n1 \<le> 6000 \<and> hd_busy port s = (\<forall>k < 5999. status_at port s k AND 0x80 \<noteq> 0, reads n1 s)"
    using hd_tests(1) ..
  obtain n2 where n2: "1 \<le> n2 \<and> n2 \<le> 6000 \<and> hd_ready port s = (\<exists>k < 5999. status_at port s k AND 0x40 \<noteq> 0, reads n2 s)"
    using hd_tests(2) ..
  obtain n3 where n3: "1 \<le> n3 \<and> n3 \<le> 6000 \<and> hd_drq port s = (\<exists>k < 5999. status_at port s k AND 0x8 \<noteq> 0, reads n3 s)"
    using hd_tests(3) ..
  note eqs = n1 [THEN conjunct2, THEN conjunct2] n2 [THEN conjunct2, THEN conjunct2] n3 [THEN conjunct2, THEN conjunct2]
  show ?thesis
    unfolding eqs fst_conv snd_conv
    using n1 n2 n3 by (intro conjI refl bexI [of _ n1] bexI [of _ n2] bexI [of _ n3]) simp_all
qed

text \<open>A device whose busy bit falls with the 6000th read counts as busy.\<close>

theorem hd_polls_bounded_witness:
  "fst (hd_busy 0x1F0 (zero_kernel\<lparr>port_in := \<lambda>n p. if n < 5999 then 0x80 else 0\<rparr>))
    \<and> status_at 0x1F0 (zero_kernel\<lparr>port_in := \<lambda>n p. if n < 5999 then 0x80 else 0\<rparr>) 5999 = 0"
  using hd_polls_bounded [of "0x1F0" "zero_kernel\<lparr>port_in := \<lambda>n p. if n < 5999 then 0x80 else 0\<rparr>"]
  by (simp add: status_at_def zero_kernel_def)

text \<open>
  C36: \<open>send_command\<close> returns after at most 30000 reads. When it answers true it has written the six
  registers of the command, in the order drive, number of sectors, three bytes of the sector number,
  command; when it answers false it has sent no command and at most selected the drive. A device
  that is never busy and always ready gets the command, whether or not it ever raises \<open>DRQ\<close>: the
  result of the last two tests is not used. A device that stays busy gets nothing.
\<close>

theorem send_command_programs_device:
  "\<exists>n log. n \<le> 30000 \<and> snd (send_command port sl ns lba cmd s) = s\<lparr>in_count := in_count s + n, out_log := log @ out_log s\<rparr>
    \<and> (fst (send_command port sl ns lba cmd s) \<longrightarrow> log = command_log port sl ns lba cmd)
    \<and> (\<not> fst (send_command port sl ns lba cmd s) \<longrightarrow> log = [] \<or> log = [drive_select port sl lba])
    \<and> ((\<forall>k. status_at port s k AND 0x80 = 0 \<and> status_at port s k AND 0x40 \<noteq> 0) \<longrightarrow> fst (send_command port sl ns lba cmd s))
    \<and> ((\<forall>k < 5999. status_at port s k AND 0x80 \<noteq> 0) \<longrightarrow> \<not> fst (send_command port sl ns lba cmd s) \<and> log = [])"
proof (cases rule: send_command_cases [of port s sl ns lba cmd])
  case (busy n)
  then have "\<not> (\<forall>k. status_at port s k AND 0x80 = 0 \<and> status_at port s k AND 0x40 \<noteq> 0)"
    by (meson zero_less_numeral)
  with busy show ?thesis
    by (intro exI [of _ n] exI [of _ "[]"]) (simp add: reads_def)
next
  case (selected n k)
  then have "\<not> (\<forall>k < 5999. status_at port s k AND 0x80 \<noteq> 0)" by blast
  with selected show ?thesis
    by (intro exI [of _ n] exI [of _ "[drive_select port sl lba]"]) (simp add: reads_def logged_def)
next
  case (sent n k)
  then have "\<not> (\<forall>k < 5999. status_at port s k AND 0x80 \<noteq> 0)" by blast
  with sent show ?thesis
    by (intro exI [of _ n] exI [of _ "command_log port sl ns lba cmd"]) (simp add: reads_def logged_def)
qed

theorem send_command_programs_device_witness:
  "fst (send_command 0x1F0 1 8 0x0A123456 0x20 (zero_kernel\<lparr>port_in := \<lambda>_ _. 0x40\<rparr>))
    \<and> out_log (snd (send_command 0x1F0 1 8 0x0A123456 0x20 (zero_kernel\<lparr>port_in := \<lambda>_ _. 0x40\<rparr>)))
      = [(0x1F7, 0x20), (0x1F5, 0x12), (0x1F4, 0x34), (0x1F3, 0x56), (0x1F2, 8), (0x1F6, 0xFA)]"
  using send_command_programs_device [of "0x1F0" 1 8 "0x0A123456" "0x20" "zero_kernel\<lparr>port_in := \<lambda>_ _. 0x40\<rparr>"]
  by (auto simp: status_at_def zero_kernel_def command_log_def drive_select_def)

text \<open>
  C38: a read of up to 256 sectors returns with the words of the data port in the buffer, in order,
  and changes no other byte of memory. It does so also when the command could not be sent: what the
  port then gives ends up in the buffer.
\<close>

theorem read_ATA_reads_sectors:
  assumes "0 < unat count" "unat count \<le> 256" "unat lba + unat count + 0x100 \<le> 2 ^ 32"
    and "unat buffer + 512 * unat count \<le> 2 ^ 32"
  shows "\<exists>n s'. n \<le> 30000 \<and> read_ATA d lba count buffer s = Some s'
    \<and> (\<forall>i < 256 * unat count. load16 (mem s') (buffer + of_nat (2 * i)) = word_at (ucast (ata_port d)) s (n + i))
    \<and> (\<forall>x. x \<notin> bytes_at buffer (512 * unat count) \<longrightarrow> mem s' x = mem s x)
    \<and> in_count s' = in_count s + n + 256 * unat count"
proof -
  have "(unat count + 255) div 256 = 1"
    using assms(1,2) by simp
  then have "read_ATA d lba count buffer s = Some (read_round d lba count buffer s)"
    using transfer_rounds(1) [OF assms(3), of d buffer s] by (simp add: read_ATA_def)
  moreover have "unat count < 2 ^ 22"
    using assms(2) by simp
  from read_round_words [OF this assms(4), of d lba s] obtain n log where n: "n \<le> 30000"
    "read_round d lba count buffer s
      = (logged log (reads (n + 256 * unat count) s))\<lparr>mem := mem (read_round d lba count buffer s)\<rparr>"
    "\<forall>i < 256 * unat count. load16 (mem (read_round d lba count buffer s)) (buffer + of_nat (2 * i))
      = word_at (ucast (ata_port d)) s (n + i)"
    "\<forall>x. x \<notin> bytes_at buffer (512 * unat count) \<longrightarrow> mem (read_round d lba count buffer s) x = mem s x"
    by blast
  moreover have "in_count (read_round d lba count buffer s) = in_count s + n + 256 * unat count"
    by (subst n(2)) simp
  ultimately show ?thesis
    by blast
qed

theorem read_ATA_reads_sectors_witness:
  "\<exists>n s'. n \<le> 30000
    \<and> read_ATA \<lparr>ata_available = 1, ata_port = 0x1F0, ata_slave_bit = 0, ata_sector_nubmer = 100,
        ata_is_lba48_supported = 0\<rparr> 7 1 0x80030000 (zero_kernel\<lparr>port_in := \<lambda>n p. of_nat n\<rparr>) = Some s'
    \<and> load16 (mem s') 0x80030002 = ucast (of_nat (n + 1) :: u8) OR push_bit 8 (ucast (of_nat (n + 1) :: u8))"
proof -
  let ?d = "\<lparr>ata_available = 1, ata_port = 0x1F0, ata_slave_bit = 0, ata_sector_nubmer = 100, ata_is_lba48_supported = 0\<rparr>"
  let ?s = "zero_kernel\<lparr>port_in := \<lambda>n p. of_nat n\<rparr>"
  have w: "word_at (ucast (ata_port ?d)) ?s k = ucast (of_nat k :: u8) OR push_bit 8 (ucast (of_nat k :: u8))" for k
    by (simp add: word_at_def inportw_def zero_kernel_def)
  obtain n s' where r: "n \<le> 30000" "read_ATA ?d 7 1 0x80030000 ?s = Some s'"
    "\<forall>i < 256 * unat (1 :: u32). load16 (mem s') (0x80030000 + of_nat (2 * i)) = word_at (ucast (ata_port ?d)) ?s (n + i)"
    using read_ATA_reads_sectors [of 1 7 "0x80030000" ?d ?s] by auto
  have "load16 (mem s') 0x80030002 = word_at (ucast (ata_port ?d)) ?s (n + 1)"
    using r(3) [rule_format, of 1] by (simp del: word_at_def)
  with r(1,2) show ?thesis
    unfolding w by blast
qed

text \<open>
  A read of more than 256 sectors does not read that many: to a ready device it sends the same
  command, with the same first sector and the same count modulo 256, once per 256 sectors begun, and
  every time it fills the buffer from its start.
\<close>

theorem read_ATA_repeats_command:
  assumes "unat count < 2 ^ 22" "unat lba + unat count + 0x100 \<le> 2 ^ 32"
    and "unat buffer + 512 * unat count \<le> 2 ^ 32"
    and "\<forall>k. status_at (ata_port d) s k AND 0x80 = 0 \<and> status_at (ata_port d) s k AND 0x40 \<noteq> 0"
  shows "\<exists>s'. read_ATA d lba count buffer s = Some s'
    \<and> out_log s' = concat (replicate ((unat count + 255) div 256)
         (command_log (ata_port d) (ata_slave_bit d) count lba READ_COMMAND)) @ out_log s
    \<and> (\<forall>x. x \<notin> bytes_at buffer (512 * unat count) \<longrightarrow> mem s' x = mem s x)"
proof -
  let ?r = "read_round d lba count buffer" and ?c = "command_log (ata_port d) (ata_slave_bit d) count lba READ_COMMAND"
  have "out_log ((?r ^^ n) s) = concat (replicate n ?c) @ out_log s
      \<and> (\<forall>x. x \<notin> bytes_at buffer (512 * unat count) \<longrightarrow> mem ((?r ^^ n) s) x = mem s x)
      \<and> (\<forall>k. status_at (ata_port d) ((?r ^^ n) s) k AND 0x80 = 0 \<and> status_at (ata_port d) ((?r ^^ n) s) k AND 0x40 \<noteq> 0)"
    for n
  proof (induction n)
    case 0
    with assms(4) show ?case by simp
  next
    case (Suc n)
    let ?t = "(?r ^^ n) s"
    obtain k where k: "?r ?t = (logged ?c (reads k ?t))\<lparr>mem := mem (?r ?t)\<rparr>"
      "\<forall>x. x \<notin> bytes_at buffer (512 * unat count) \<longrightarrow> mem (?r ?t) x = mem ?t x"
      using read_round_words [OF assms(1,3), of d lba ?t] Suc.IH by blast
    have "out_log (?r ?t) = ?c @ out_log ?t"
      by (subst k(1)) simp
    moreover have "status_at (ata_port d) (?r ?t) j = status_at (ata_port d) ?t (k + j)" for j
      by (subst k(1)) (simp add: status_at_def add.assoc)
    ultimately show ?case
      using Suc.IH k(2) by simp
  qed
  then show ?thesis
    using transfer_rounds(1) [OF assms(2), of d buffer s] by (simp add: read_ATA_def)
qed

theorem read_ATA_repeats_command_witness:
  "\<exists>s'. read_ATA \<lparr>ata_available = 1, ata_port = 0x1F0, ata_slave_bit = 0, ata_sector_nubmer = 1000,
      ata_is_lba48_supported = 0\<rparr> 7 512 0x80030000 (zero_kernel\<lparr>port_in := \<lambda>_ _. 0x40\<rparr>) = Some s'
    \<and> out_log s' = command_log 0x1F0 0 512 7 0x20 @ command_log 0x1F0 0 512 7 0x20"
proof -
  let ?d = "\<lparr>ata_available = 1, ata_port = 0x1F0, ata_slave_bit = 0, ata_sector_nubmer = 1000,
      ata_is_lba48_supported = 0\<rparr>"
  have s: "\<forall>k. status_at (ata_port ?d) (zero_kernel\<lparr>port_in := \<lambda>_ _. 0x40\<rparr>) k AND 0x80 = 0
      \<and> status_at (ata_port ?d) (zero_kernel\<lparr>port_in := \<lambda>_ _. 0x40\<rparr>) k AND 0x40 \<noteq> 0"
    by (simp add: status_at_def)
  obtain s' where "read_ATA ?d 7 512 0x80030000 (zero_kernel\<lparr>port_in := \<lambda>_ _. 0x40\<rparr>) = Some s'"
    "out_log s' = concat (replicate 2 (command_log 0x1F0 0 512 7 0x20)) @ []"
    using read_ATA_repeats_command [OF _ _ _ s, of 512 7 "0x80030000"] by (auto simp: zero_kernel_def)
  then show ?thesis
    by (intro exI [of _ s']) (simp add: numeral_2_eq_2)
qed

text \<open>
  \<open>write_ATA\<close> sends nothing at all for fewer than 256 sectors, whatever the device. From 256 on it
  sends a write command and the words of the buffer, and repeats both once per 256 sectors begun.
\<close>

theorem write_ATA_needs_256_sectors:
  "(sint count < 0x100 \<longrightarrow> write_ATA d lba count buffer s = Some s)
    \<and> (0x100 \<le> unat count \<and> unat count < 2 ^ 22 \<and> unat lba + unat count + 0x100 \<le> 2 ^ 32 \<longrightarrow>
        write_ATA d lba count buffer s = Some (((\<lambda>s. rep_outsw (256 * unat count) buffer (ucast (ata_port d))
          (snd (send_command (ata_port d) (ata_slave_bit d) count lba WRITE_COMMAND s)))
            ^^ ((unat count + 255) div 256)) s))"
proof (intro conjI impI)
  show "sint count < 0x100 \<Longrightarrow> write_ATA d lba count buffer s = Some s"
    by (simp add: write_ATA_def)
next
  assume c: "0x100 \<le> unat count \<and> unat count < 2 ^ 22 \<and> unat lba + unat count + 0x100 \<le> 2 ^ 32"
  then have "sint count = int (unat count)"
  proof -
    have "uint count = int (unat count)" by simp
    moreover have "int (unat count) < int (2 ^ 31)"
      unfolding of_nat_less_iff using c by simp
    ultimately show ?thesis
      by (simp add: sint_uint signed_take_bit_int_eq_self del: int_nat_eq of_nat_unat)
  qed
  moreover have "int 0x100 \<le> int (unat count)"
    unfolding of_nat_le_iff using c by simp
  moreover have "write_round d lba count buffer = (\<lambda>s. rep_outsw (256 * unat count) buffer (ucast (ata_port d))
          (snd (send_command (ata_port d) (ata_slave_bit d) count lba WRITE_COMMAND s)))"
    using c by (simp add: fun_eq_iff write_round_def sector_words_eq)
  ultimately show "write_ATA d lba count buffer s = Some (((\<lambda>s. rep_outsw (256 * unat count) buffer (ucast (ata_port d))
          (snd (send_command (ata_port d) (ata_slave_bit d) count lba WRITE_COMMAND s)))
            ^^ ((unat count + 255) div 256)) s)"
    using transfer_rounds(2) [of lba count d buffer s] c by (simp add: write_ATA_def)
qed

theorem write_ATA_needs_256_sectors_witness:
  "write_ATA (ata_devices zero_kernel ! 0) 7 255 0x80030000 zero_kernel = Some zero_kernel
    \<and> write_ATA (ata_devices zero_kernel ! 0) 7 256 0x80030000 zero_kernel
      = Some (rep_outsw 65536 0x80030000 0 (snd (send_command 0 0 256 7 0x30 zero_kernel)))"
proof -
  let ?d = "ata_devices zero_kernel ! 0"
  have d: "ata_port ?d = 0" "ata_slave_bit ?d = 0"
    by (simp_all add: zero_kernel_def)
  have "write_ATA ?d 7 255 0x80030000 zero_kernel = Some zero_kernel"
    using write_ATA_needs_256_sectors [of 255 ?d 7 "0x80030000" zero_kernel] by simp
  moreover have "write_ATA ?d 7 256 0x80030000 zero_kernel
      = Some (rep_outsw 65536 0x80030000 0 (snd (send_command 0 0 256 7 0x30 zero_kernel)))"
    using write_ATA_needs_256_sectors [of 256 ?d 7 "0x80030000" zero_kernel] unfolding d
    by simp
  ultimately show ?thesis ..
qed

text \<open>
  \<open>init_ATA_device\<close> of a device that takes the command fills its entry from the words 1, 3, 6 and
  83 that the device sends, the factors sign-extended; of one that does not, it only clears
  \<open>available\<close>. No other entry changes. The hypothesis on \<open>kmalloc\<close> is what it promises.
\<close>

theorem init_ATA_device_reads_identity:
  fixes n :: nat and sl :: u8 and port :: u32 and s :: kernel
  assumes "n < length (ata_devices s)"
    and "kmalloc 0x200 (set_ata n (\<lambda>d. d\<lparr>ata_available := 1\<rparr>) (snd (send_command port (scast sl) 0 0 IDENTIFY_COMMAND s)))
      = Some (buf, s2)"
    and "heap_step k (set_ata n (\<lambda>d. d\<lparr>ata_available := 1\<rparr>) (snd (send_command port (scast sl) 0 0 IDENTIFY_COMMAND s))) s2"
    and "unat buf + 512 \<le> 2 ^ 32"
  shows "\<exists>s'. init_ATA_device port sl n s = Some s'
    \<and> (fst (send_command port (scast sl) 0 0 IDENTIFY_COMMAND s) \<longrightarrow>
        ata_devices s' = (ata_devices s)[n := \<lparr>ata_available = 1, ata_port = port, ata_slave_bit = scast sl,
          ata_sector_nubmer = scast (word_at (ucast port) s2 1) * scast (word_at (ucast port) s2 3)
            * scast (word_at (ucast port) s2 6),
          ata_is_lba48_supported = (if bit (word_at (ucast port) s2 83) 10 then 1 else 0)\<rparr>])
    \<and> (\<not> fst (send_command port (scast sl) 0 0 IDENTIFY_COMMAND s) \<longrightarrow>
        ata_devices s' = (ata_devices s)[n := (ata_devices s ! n)\<lparr>ata_available := 0\<rparr>])"
proof -
  let ?w = "word_at (ucast port) s2"
  obtain c s1 where c: "send_command port (scast sl) 0 0 IDENTIFY_COMMAND s = (c, s1)"
    by fastforce
  have s1: "ata_devices s1 = ata_devices s"
    using send_command_devices [of port "scast sl" 0 0 IDENTIFY_COMMAND s] by (simp add: c)
  show ?thesis
  proof (cases c)
    case False
    then show ?thesis
      using assms(1) c s1 by (simp add: init_ATA_device_def) (simp add: set_ata_def)
  next
    case True
    let ?m = "cell16.fill buf ?w 256 (mem s2)"
    have dev: "ata_devices s2 = (ata_devices s)[n := (ata_devices s ! n)\<lparr>ata_available := 1\<rparr>]"
      using heap_step_fields(17) [OF assms(3)] by (simp add: c set_ata_def s1)
    have ld: "load16 ?m (buf + 2 * i) = ?w (unat i)" if "unat i < 256" for i :: u32
      using cell16.fill_ld [of buf 256 "unat i" ?w "mem s2"] assms(4) that by simp
    have words: "load16 ?m (buf + 2) = ?w 1" "load16 ?m (buf + 6) = ?w 3" "load16 ?m (buf + 12) = ?w 6"
      "load16 ?m (buf + 166) = ?w 83"
      using ld [of 1] ld [of 3] ld [of 6] ld [of 83] by simp_all
    have bit: "(scast w :: u32) AND 0x400 = 0 \<longleftrightarrow> \<not> bit w 10" for w :: u16
    proof -
      have "(0x400 :: u32) = 2 ^ 10" by simp
      then show ?thesis
        by (simp only: and_exp_eq_0_iff_not_bit) (simp add: bit_simps)
    qed
    show ?thesis
      using True assms(1,2) c s1 dev
      by (cases "ata_devices s ! n")
        (simp add: init_ATA_device_def rep_insw_fill Let_def words bit kfree_devices set_ata_def)
  qed
qed

theorem init_ATA_device_reads_identity_witness:
  "\<exists>s'. init_ATA_device 0x1F0 1 2 (no_blocks\<lparr>port_in := \<lambda>_ _. 0x40\<rparr>) = Some s'
    \<and> ata_available (ata_devices s' ! 2) = 1 \<and> ata_port (ata_devices s' ! 2) = 0x1F0
    \<and> ata_is_lba48_supported (ata_devices s' ! 2) = 0"
proof -
  let ?s = "no_blocks\<lparr>port_in := \<lambda>_ _. 0x40\<rparr>"
  let ?c = "send_command 0x1F0 (scast (1 :: u8)) 0 0 IDENTIFY_COMMAND ?s"
  define s1 where "s1 = set_ata 2 (\<lambda>d. d\<lparr>ata_available := 1\<rparr>) (snd ?c)"
  have sent: "fst ?c"
    using send_command_programs_device [of "0x1F0" "scast (1 :: u8)" 0 0 IDENTIFY_COMMAND ?s] by (auto simp: status_at_def)
  obtain log n where "snd ?c = logged log (reads n ?s)"
    using send_command_form by blast
  moreover have "heap_state ?s = heap_state no_blocks"
    by (simp add: no_blocks_def two_blocks_def zero_kernel_def address_space_def)
  ultimately have env: "heap_state s1 = heap_state no_blocks" "port_in s1 = (\<lambda>_ _. 0x40)"
    by (simp_all add: s1_def)
  have d: "heap_state no_blocks = \<lparr>d_block_count = 0, d_blocks = 0x80010000, d_table_size = 1,
      d_heap = 0x80020000, d_heap_size = 10\<rparr>"
    by (simp add: no_blocks_def two_blocks_def zero_kernel_def address_space_def)
  let ?m = "put_block 0x80010000 0x80020000 0x200 (mem s1)"
  define s2 where "s2 = heap_put ?m s1"
  have "\<not> heap_full s1"
    by (simp add: heap_full_def env(1) d)
  then have k: "kmalloc 0x200 s1 = Some (0x80020000, s2)"
    using heap_enter_put [of "0x80010000" "0x80020000" "0x200" "mem s1" s1]
    by (simp add: kmalloc_no_growth kmalloc_place_def Let_def block_ptr_def s2_def env(1) d)
  have "table (mem s1) 0x80010000 []" and ptr: "heap_ptr s1 = 0x80010000"
    by (simp_all add: table_def heap_ptr_def env(1) d)
  from table_insert(2) [OF this(1), where j = 0 and c = 0 and b = "0x80020000" and n = "0x200"]
  have "x \<notin> bytes_at 0x80010000 (8 * 2) \<Longrightarrow> ?m x = mem s1 x" for x
    by (auto simp: ofs_def bytes_at_def)
  then have st: "heap_step 2 s1 (s2)"
    unfolding heap_step_def s2_def heap_put_def ptr by blast
  have n: "2 < length (ata_devices ?s)"
    by (simp add: no_blocks_def two_blocks_def zero_kernel_def)
  have w: "word_at 0x1F0 s2 i = 0x4040" for i
    by (simp add: word_at_def inportw_def s2_def heap_put_def env(2))
  from init_ATA_device_reads_identity [OF n k [unfolded s1_def] st [unfolded s1_def]] sent show ?thesis
    using n by (auto simp: w)
qed

end
