(* ===== verification/Gdt.thy ===== *)
theory Gdt
  imports Paging
begin

text \<open>
  The segment descriptors and the task state segment of \<open>gdt.c\<close>. The table \<open>gdt\<close> is a list of six
  entries, and a number outside it is \<open>None\<close>. The task state segment is 104 bytes at \<open>tss_addr\<close>. The
  C compiler may evaluate the two calls of \<open>get_physaddr\<close> among the arguments in either order, which
  matters for the page that the window shows last but not for their values; they are taken from
  right to left, as the arguments are pushed. The instructions of the inline assembly succeed only
  where the processor accepts the table and the selectors; else the result is \<open>None\<close>.
\<close>

section \<open>The macros of the header\<close>

abbreviation (input) SEG_SAVL :: "u8 \<Rightarrow> u8" where "SEG_SAVL x \<equiv> push_bit 0 x"
abbreviation (input) SEG_LONG :: "u8 \<Rightarrow> u8" where "SEG_LONG x \<equiv> push_bit 1 x"
abbreviation (input) SEG_SIZE :: "u8 \<Rightarrow> u8" where "SEG_SIZE x \<equiv> push_bit 2 x"
abbreviation (input) SEG_GRAN :: "u8 \<Rightarrow> u8" where "SEG_GRAN x \<equiv> push_bit 3 x"
abbreviation (input) SEG_DESCTYPE :: "u8 \<Rightarrow> u8" where "SEG_DESCTYPE x \<equiv> push_bit 4 x"
abbreviation (input) SEG_PRIV :: "u8 \<Rightarrow> u8" where "SEG_PRIV x \<equiv> push_bit 5 (x AND 0x03)"
abbreviation (input) SEG_PRES :: "u8 \<Rightarrow> u8" where "SEG_PRES x \<equiv> push_bit 7 x"
abbreviation (input) SEG_DATA_RDWR :: u8 where "SEG_DATA_RDWR \<equiv> 0x02"
abbreviation (input) SEG_CODE_EXRD :: u8 where "SEG_CODE_EXRD \<equiv> 0x0A"

abbreviation (input) GDT_FLAGS :: u8 where "GDT_FLAGS \<equiv> SEG_GRAN 1 OR SEG_SIZE 1 OR SEG_LONG 0 OR SEG_SAVL 0"
abbreviation (input) GDT_ACCESS_CODE_PL0 :: u8 where
  "GDT_ACCESS_CODE_PL0 \<equiv> SEG_DESCTYPE 1 OR SEG_PRES 1 OR SEG_PRIV 0 OR SEG_CODE_EXRD"
abbreviation (input) GDT_ACCESS_DATA_PL0 :: u8 where
  "GDT_ACCESS_DATA_PL0 \<equiv> SEG_DESCTYPE 1 OR SEG_PRES 1 OR SEG_PRIV 0 OR SEG_DATA_RDWR"
abbreviation (input) GDT_ACCESS_CODE_PL3 :: u8 where
  "GDT_ACCESS_CODE_PL3 \<equiv> SEG_DESCTYPE 1 OR SEG_PRES 1 OR SEG_PRIV 3 OR SEG_CODE_EXRD"
abbreviation (input) GDT_ACCESS_DATA_PL3 :: u8 where
  "GDT_ACCESS_DATA_PL3 \<equiv> SEG_DESCTYPE 1 OR SEG_PRES 1 OR SEG_PRIV 3 OR SEG_DATA_RDWR"

text \<open>The fields of the task state segment in the order of the struct, with their sizes.\<close>

definition tss_entry :: "(string \<times> nat) list" where
  "tss_entry = [(''prevTss'', 4), (''esp0'', 4), (''ss0'', 4), (''esp1'', 4), (''ss1'', 4), (''esp2'', 4), (''ss2'', 4),
     (''cr3'', 4), (''eip'', 4), (''eflags'', 4), (''eax'', 4), (''ecx'', 4), (''edx'', 4), (''ebx'', 4), (''esp'', 4),
     (''ebp'', 4), (''esi'', 4), (''edi'', 4), (''es'', 4), (''cs'', 4), (''ss'', 4), (''ds'', 4), (''fs'', 4), (''gs'', 4),
     (''ldt'', 4), (''trap'', 2), (''iomap'', 2)]"

definition tss_field :: "string \<Rightarrow> u32" where
  "tss_field f = of_nat (field_offset f tss_entry)"

lemma tss_fields [simp]:
  "tss_field ''esp0'' = 4" "tss_field ''ss0'' = 8" "tss_field ''es'' = 72" "tss_field ''cs'' = 76"
  "tss_field ''ss'' = 80" "tss_field ''ds'' = 84" "tss_field ''fs'' = 88" "tss_field ''gs'' = 92"
  "struct_size tss_entry = 104"
  by (simp_all add: tss_field_def tss_entry_def struct_size_def)

section \<open>The operations\<close>

definition create_descriptor :: "u16 \<Rightarrow> u32 \<Rightarrow> u32 \<Rightarrow> u8 \<Rightarrow> u8 \<Rightarrow> kernel \<Rightarrow> kernel option" where
  "create_descriptor num base limit acc flags s =
     (if unat num < length (gdt s) then
        let e = gdt s ! unat num;
            e = e\<lparr>limit_low := ucast (limit AND 0xFFFF)\<rparr>;
            e = e\<lparr>granularity := ucast (drop_bit 16 limit) AND 0x0F\<rparr>;
            e = e\<lparr>base_low := ucast (base AND 0xFFFF)\<rparr>;
            e = e\<lparr>base_middle := ucast (drop_bit 16 base AND 0xFF)\<rparr>;
            e = e\<lparr>access := acc\<rparr>;
            e = e\<lparr>granularity := granularity e OR push_bit 4 flags\<rparr>
        in Some (s\<lparr>gdt := (gdt s)[unat num := e]\<rparr>)
      else None)"

text \<open>
  The instructions of the inline assembly. \<open>lgdt\<close> and the loads of segment registers read memory at the
  addresses they are given, through the page tables in use; the code gives them physical addresses,
  so that they reach \<open>_gp\<close> and \<open>gdt\<close> only where low memory is mapped onto itself. A selector is accepted
  when it names an entry inside the limit of the table, of a type that fits the register; everything
  else is a fault, or a read of memory that is none of the kernel's data (\<open>None\<close>). The processor is in
  ring 0. The check of the target of the far jump against the limit of its segment is left out.
\<close>

definition sees :: "u32 \<Rightarrow> u32 \<Rightarrow> nat \<Rightarrow> kernel \<Rightarrow> bool" where
  "sees p va n s \<longleftrightarrow> (\<forall>k < n. translate (cr3 s) s (p + of_nat k) \<noteq> None
     \<and> translate (cr3 s) s (p + of_nat k) = translate (cr3 s) s (va + of_nat k))"

definition lgdt :: "u32 \<Rightarrow> kernel \<Rightarrow> kernel option" where
  "lgdt ptr s = (if sees ptr (gp_addr (syms s)) 6 s then Some (s\<lparr>gdtr := gp s\<rparr>) else None)"

definition selected :: "u16 \<Rightarrow> kernel \<Rightarrow> gdt_entry option" where
  "selected sel s =
     (if sel AND 0xFFF8 \<noteq> 0 \<and> sel AND 4 = 0 \<and> unat (sel AND 0xFFF8) + 7 \<le> unat (gp_limit (gdtr s))
         \<and> unat (drop_bit 3 sel) < length (gdt s) \<and> sees (gp_base (gdtr s)) (gdt_addr (syms s)) (8 * length (gdt s)) s
      then Some (gdt s ! unat (drop_bit 3 sel)) else None)"

text \<open>Present writable data, and present code, of ring 0. The stack register has the strictest rule of the data registers.\<close>

definition load_data_segments :: "u16 \<Rightarrow> kernel \<Rightarrow> kernel option" where
  "load_data_segments sel s =
     do {
       e \<leftarrow> selected sel s;
       if access e AND 0xFA = 0x92
       then Some (s\<lparr>seg_ds := sel, seg_es := sel, seg_fs := sel, seg_gs := sel, seg_ss := sel\<rparr>) else None
     }"

definition far_jump :: "u16 \<Rightarrow> kernel \<Rightarrow> kernel option" where
  "far_jump sel s = do { e \<leftarrow> selected sel s; if access e AND 0xF8 = 0x98 then Some (s\<lparr>seg_cs := sel\<rparr>) else None }"

text \<open>\<open>ltr\<close> takes the selector of a present task state segment that is not busy, and marks it busy.\<close>

definition ltr :: "u16 \<Rightarrow> kernel \<Rightarrow> kernel option" where
  "ltr sel s =
     do {
       e \<leftarrow> selected sel s;
       if access e AND 0x97 = 0x81
       then Some (s\<lparr>task_register := sel, gdt := (gdt s)[unat (drop_bit 3 sel) := e\<lparr>access := access e OR 2\<rparr>]\<rparr>) else None
     }"

definition flush_gdtr :: "u32 \<Rightarrow> kernel \<Rightarrow> kernel option" where
  "flush_gdtr ptr s = do { s \<leftarrow> lgdt ptr s; s \<leftarrow> load_data_segments 0x10 s; far_jump 0x8 s }"

text \<open>\<open>ltr (,%0,)\<close> has a memory operand: the selector is read from memory at the address \<open>sel\<close>.\<close>

definition flush_tss :: "u32 \<Rightarrow> kernel \<Rightarrow> kernel option" where
  "flush_tss sel s = do { w \<leftarrow> virtual_load16 sel s; ltr w s }"

definition tss_install :: "u32 \<Rightarrow> u16 \<Rightarrow> u16 \<Rightarrow> kernel \<Rightarrow> kernel option" where
  "tss_install idx kernelSS kernelESP s =
     (let base = tss_addr (syms s);
          (limit, s) = get_physaddr (of_nat (struct_size tss_entry)) s;
          (pbase, s) = get_physaddr base s
      in do {
        s \<leftarrow> create_descriptor (ucast idx) pbase limit 0x89 0x0 s;
        let m = memset base 0 (of_nat (struct_size tss_entry)) (mem s);
        let m = store32 (base + tss_field ''ss0'') (ucast kernelSS) m;
        let m = store32 (base + tss_field ''esp0'') (ucast kernelESP) m;
        let m = store32 (base + tss_field ''cs'') 0x0b m;
        let m = store32 (base + tss_field ''ss'') 0x13 m;
        let m = store32 (base + tss_field ''es'') 0x13 m;
        let m = store32 (base + tss_field ''ds'') 0x13 m;
        let m = store32 (base + tss_field ''fs'') 0x13 m;
        let m = store32 (base + tss_field ''gs'') 0x13 m;
        Some (s\<lparr>mem := m\<rparr>)
      })"

definition gdt_install :: "kernel \<Rightarrow> kernel option" where
  "gdt_install s =
     (let s = s\<lparr>gp := (gp s)\<lparr>gp_limit := 8 * 6 - 1\<rparr>\<rparr>;
          (base, s) = get_physaddr (gdt_addr (syms s)) s;
          s = s\<lparr>gp := (gp s)\<lparr>gp_base := base\<rparr>\<rparr>
      in do {
        s \<leftarrow> create_descriptor 0 0 0 0 0 s;
        s \<leftarrow> create_descriptor 1 0 0xFFFFFFFF GDT_ACCESS_CODE_PL0 GDT_FLAGS s;
        s \<leftarrow> create_descriptor 2 0 0xFFFFFFFF GDT_ACCESS_DATA_PL0 GDT_FLAGS s;
        s \<leftarrow> create_descriptor 3 0 0xFFFFFFFF GDT_ACCESS_CODE_PL3 GDT_FLAGS s;
        s \<leftarrow> create_descriptor 4 0 0xFFFFFFFF GDT_ACCESS_DATA_PL3 GDT_FLAGS s;
        s \<leftarrow> tss_install 5 0x10 0 s;
        let (ptr, s) = get_physaddr (gp_addr (syms s)) s;
        s \<leftarrow> flush_gdtr ptr s;
        flush_tss 0x2b s
      })"

section \<open>The descriptor the processor reads\<close>

definition entry_base :: "gdt_entry \<Rightarrow> u32" where
  "entry_base e = ucast (base_low e) OR push_bit 16 (ucast (base_middle e)) OR push_bit 24 (ucast (base_high e))"

definition entry_limit :: "gdt_entry \<Rightarrow> u32" where
  "entry_limit e = ucast (limit_low e) OR push_bit 16 (ucast (granularity e AND 0x0F))"

definition entry_flags :: "gdt_entry \<Rightarrow> u8" where
  "entry_flags e = drop_bit 4 (granularity e)"

definition descriptor :: "u32 \<Rightarrow> u32 \<Rightarrow> u8 \<Rightarrow> u8 \<Rightarrow> gdt_entry \<Rightarrow> gdt_entry" where
  "descriptor base limit acc flags e = e\<lparr>limit_low := ucast (limit AND 0xFFFF), base_low := ucast (base AND 0xFFFF),
     base_middle := ucast (drop_bit 16 base AND 0xFF), access := acc,
     granularity := ucast (drop_bit 16 limit) AND 0x0F OR push_bit 4 flags\<rparr>"

lemma create_descriptor_update:
  "unat num < length (gdt s) \<Longrightarrow> create_descriptor num base limit acc flags s
     = Some (s\<lparr>gdt := (gdt s)[unat num := descriptor base limit acc flags (gdt s ! unat num)]\<rparr>)"
  by (simp add: create_descriptor_def descriptor_def Let_def)

lemma mask_numerals:
  "(0xFFFF :: u32) = mask 16" "(0xFF :: u32) = mask 8" "(0x0F :: u8) = mask 4" "(0xFFFFF :: u32) = mask 20"
  "(0xFFFFFF :: u32) = mask 24"
  by (simp_all add: mask_eq_exp_minus_1)

lemma descriptor_limit: "entry_limit (descriptor base limit acc flags e) = limit AND 0xFFFFF"
proof (rule bit_word_eqI)
  fix n assume "n < LENGTH(32)"
  then show "bit (entry_limit (descriptor base limit acc flags e)) n = bit (limit AND 0xFFFFF) n"
    by (auto simp: entry_limit_def descriptor_def mask_numerals bit_simps simp del: mask_eq_exp_minus_1)
qed

lemma descriptor_base:
  "entry_base (descriptor base limit acc flags e) = (base AND 0xFFFFFF) OR push_bit 24 (ucast (base_high e))"
proof (rule bit_word_eqI)
  fix n assume "n < LENGTH(32)"
  then show "bit (entry_base (descriptor base limit acc flags e)) n
      = bit ((base AND 0xFFFFFF) OR push_bit 24 (ucast (base_high e))) n"
    by (auto simp: entry_base_def descriptor_def mask_numerals bit_simps)
qed

lemma descriptor_flags:
  "entry_flags (descriptor base limit acc flags e) = flags AND 0x0F" "access (descriptor base limit acc flags e) = acc"
  "base_high (descriptor base limit acc flags e) = base_high e"
proof -
  show "entry_flags (descriptor base limit acc flags e) = flags AND 0x0F"
  proof (rule bit_word_eqI)
    fix n assume "n < LENGTH(8)"
    then show "bit (entry_flags (descriptor base limit acc flags e)) n = bit (flags AND 0x0F) n"
      by (auto simp: entry_flags_def descriptor_def mask_numerals bit_simps)
  qed
qed (simp_all add: descriptor_def)

text \<open>\<open>get_physaddr\<close> reads the page tables only and moves the window.\<close>

lemma get_physaddr_any:
  assumes "phys t = phys s" "page_dir (cur_space t) = page_dir (cur_space s)"
  shows "\<exists>q. get_physaddr va t = (fst (get_physaddr va s), t\<lparr>temp_pte := q\<rparr>)"
  using assms by (auto simp: get_physaddr_def Let_def temp_map_page_def temp_read_def temp_frame_def)

lemma get_physaddr_fst:
  "fst (get_physaddr va s) = frame (phys s (frame (phys s (frame (page_dir (cur_space s)) + 4 * pd_index va))
     + 4 * pt_index va)) + (va AND 0xFFF)"
  by (simp add: get_physaddr_def Let_def temp_read_map)

lemma cur_space_gdt [simp]:
  "address_space sp (s\<lparr>gdt := g\<rparr>) = address_space sp s" "address_space sp (s\<lparr>gp := p\<rparr>) = address_space sp s"
  by (cases sp; simp add: address_space_def)+

text \<open>The six entries that \<open>gdt_install\<close> leaves, one update of the table each.\<close>

lemma gdt_entries:
  assumes "length g = 6"
  shows "g[0 := a, Suc 0 := b, 2 := c, 3 := d, 4 := e, 5 := f] = [a, b, c, d, e, f]"
proof -
  obtain x0 x1 x2 x3 x4 x5 where "g = [x0, x1, x2, x3, x4, x5]"
    using assms by (auto simp: length_Suc_conv numeral_eq_Suc)
  then show ?thesis by simp
qed

text \<open>The task state segment that \<open>tss_install\<close> writes.\<close>

definition tss_image :: "u32 \<Rightarrow> u16 \<Rightarrow> u16 \<Rightarrow> mem \<Rightarrow> mem" where
  "tss_image base kernelSS kernelESP m =
     fold (\<lambda>(off, v). store32 (base + off) v)
       [(8, ucast kernelSS), (4, ucast kernelESP), (76, 0x0b), (80, 0x13), (72, 0x13), (84, 0x13), (88, 0x13), (92, 0x13)]
       (memset base 0 104 m)"

lemma tss_image_fields:
  "load32 (tss_image base kss kesp m) (base + 4) = ucast kesp"
  "load32 (tss_image base kss kesp m) (base + 8) = ucast kss"
  "load32 (tss_image base kss kesp m) (base + 76) = 0x0b"
  "load32 (tss_image base kss kesp m) (base + 80) = 0x13"
  "load32 (tss_image base kss kesp m) (base + 84) = 0x13"
proof -
  have d: "bytes_at (base + a) 4 \<inter> bytes_at (base + b) 4 = {}" if "unat a + 4 \<le> unat b" "unat b + 4 \<le> 2 ^ 32" for a b :: u32
  proof -
    have "base + b - (base + a) = b - a" by simp
    then show ?thesis
      using that bytes_at_offset [of "unat a" 4 _ base] bytes_at_offset [of "unat b" 4 _ base]
      by (fastforce simp: bytes_at_offset)
  qed
  have d': "bytes_at (base + b) 4 \<inter> bytes_at (base + a) 4 = {}" if "unat a + 4 \<le> unat b" "unat b + 4 \<le> 2 ^ 32" for a b :: u32
    using d [OF that] by blast
  show "load32 (tss_image base kss kesp m) (base + 4) = ucast kesp"
    "load32 (tss_image base kss kesp m) (base + 8) = ucast kss"
    "load32 (tss_image base kss kesp m) (base + 76) = 0x0b"
    "load32 (tss_image base kss kesp m) (base + 80) = 0x13"
    "load32 (tss_image base kss kesp m) (base + 84) = 0x13"
    by (simp_all add: tss_image_def cell32.ld_st_same cell32.ld_st_disjoint d d')
qed

lemma tss_image_other:
  assumes "unat base + 104 \<le> 2 ^ 32" "x \<notin> bytes_at base 104"
  shows "tss_image base kss kesp m x = m x"
proof -
  have "x \<notin> bytes_at (base + of_nat k) 4" if "k + 4 \<le> 104" for k
    using bytes_at_sub [of k 4 104 base] that assms(2) by auto
  from this [of 4] this [of 8] this [of 76] this [of 80] this [of 72] this [of 84] this [of 88] this [of 92]
  have "x \<notin> bytes_at (base + c) 4" if "c \<in> {4, 8, 76, 80, 72, 84, 88, 92}" for c
    using that by auto
  moreover have "memset base 0 104 m x = m x"
    using cell8.fill_other [of base 104 x "\<lambda>_. 0" m] assms by (simp add: memset_fill)
  ultimately show ?thesis
    by (simp add: tss_image_def cell32.st_other)
qed

lemma tss_install_steps:
  assumes "unat (ucast idx :: u16) < length (gdt s)"
  shows "\<exists>t. tss_install idx kss kesp s = Some (s\<lparr>temp_pte := t,
    gdt := (gdt s)[unat (ucast idx :: u16) := descriptor (fst (get_physaddr (tss_addr (syms s)) s))
      (fst (get_physaddr 104 s)) 0x89 0 (gdt s ! unat (ucast idx :: u16))],
    mem := tss_image (tss_addr (syms s)) kss kesp (mem s)\<rparr>)"
proof -
  obtain t where l: "get_physaddr 104 s = (fst (get_physaddr 104 s), s\<lparr>temp_pte := t\<rparr>)"
    using get_physaddr_any [of s s 104] by auto
  obtain t' where "get_physaddr (tss_addr (syms s)) (s\<lparr>temp_pte := t\<rparr>)
      = (fst (get_physaddr (tss_addr (syms s)) s), s\<lparr>temp_pte := t'\<rparr>)"
    using get_physaddr_any [of "s\<lparr>temp_pte := t\<rparr>" s "tss_addr (syms s)"] by auto
  then show ?thesis
    using assms by (subst tss_install_def, unfold tss_fields of_nat_numeral, subst l) (auto simp: create_descriptor_update tss_image_def Let_def intro!: exI [of _ t'])
qed

section \<open>Properties\<close>

text \<open>
  \<open>create_descriptor\<close> writes the entry so that the processor reads back the limit (20 bits), the
  access byte and the flags (4 bits) that were given, and no other entry changes. Of the base it
  writes the low 24 bits only: \<open>base_high\<close> keeps its old value, so a base of 16 MB or more is cut off.
\<close>

theorem create_descriptor_fields:
  assumes "unat num < length (gdt s)"
  shows "\<exists>e. create_descriptor num base limit acc flags s = Some (s\<lparr>gdt := (gdt s)[unat num := e]\<rparr>)
    \<and> entry_limit e = limit AND 0xFFFFF \<and> access e = acc \<and> entry_flags e = flags AND 0x0F
    \<and> entry_base e = (base AND 0xFFFFFF) OR push_bit 24 (ucast (base_high (gdt s ! unat num)))"
  using create_descriptor_update [OF assms]
  by (intro exI [of _ "descriptor base limit acc flags (gdt s ! unat num)"])
    (simp only: descriptor_limit descriptor_base descriptor_flags simp_thms)

theorem create_descriptor_fields_witness:
  "\<exists>e. create_descriptor 3 0x12345678 0xFFFFFFFF 0xFA 0x0C zero_kernel
      = Some (zero_kernel\<lparr>gdt := (gdt zero_kernel)[3 := e]\<rparr>)
    \<and> entry_limit e = 0xFFFFF \<and> access e = 0xFA \<and> entry_flags e = 0x0C \<and> entry_base e = 0x345678"
proof -
  have "unat (3 :: u16) < length (gdt zero_kernel)" by (simp add: zero_kernel_def)
  from create_descriptor_fields [OF this, of "0x12345678" "0xFFFFFFFF" "0xFA" "0x0C"] show ?thesis
    by (simp add: zero_kernel_def)
qed

text \<open>What the loads of \<open>gdt_install\<close> find in the table that it has filled.\<close>

lemma translate_updates [simp]:
  "translate d (s\<lparr>temp_pte := t\<rparr>) = translate d s" "translate d (s\<lparr>gp := p\<rparr>) = translate d s" "translate d (s\<lparr>gdt := g\<rparr>) = translate d s"
  "translate d (s\<lparr>mem := m\<rparr>) = translate d s" "translate d (s\<lparr>gdtr := p\<rparr>) = translate d s" "translate d (s\<lparr>seg_cs := c\<rparr>) = translate d s"
  "translate d (s\<lparr>seg_ds := c\<rparr>) = translate d s" "translate d (s\<lparr>seg_es := c\<rparr>) = translate d s" "translate d (s\<lparr>seg_fs := c\<rparr>) = translate d s"
  "translate d (s\<lparr>seg_gs := c\<rparr>) = translate d s" "translate d (s\<lparr>seg_ss := c\<rparr>) = translate d s"
  by (intro ext, simp add: translate_def pte_eq pde_def)+

lemma virtual_load16_cong:
  "cr3 t = cr3 s \<Longrightarrow> phys t = phys s \<Longrightarrow> virtual_load16 a t = virtual_load16 a s"
  by (simp add: virtual_load16_def virtual_load8_def virtual_cell_def translate_def pte_eq pde_def)

lemma sees_cong: "translate (cr3 t) t = translate (cr3 s) s \<Longrightarrow> sees p va n t = sees p va n s"
  by (simp add: sees_def)

lemma selector_index:
  fixes w :: u16
  shows "unat (w AND 0xFFF8) = 8 * unat (drop_bit 3 w)" "w AND 4 = 0 \<Longrightarrow> w AND 0xFFFC = w AND 0xFFF8"
proof -
  have m: "(0xFFF8 :: u16) = NOT (mask 3)"
    by (simp add: mask_eq_exp_minus_1)
  have b: "w AND 0xFFF8 = push_bit 3 (drop_bit 3 w)"
    unfolding m by (rule bit_word_eqI) (auto simp: bit_simps simp del: mask_eq_exp_minus_1 push_bit_of_1)
  have "unat (drop_bit 3 w) = unat w div 8"
    unfolding unat_drop_bit_eq by (simp add: drop_bit_eq_div)
  then show "unat (w AND 0xFFF8) = 8 * unat (drop_bit 3 w)"
  proof -
    have "unat w < 2 ^ LENGTH(16)" by (rule unsigned_less)
    then have "unat w div 8 * 8 < 65536"
      using div_times_less_eq_dividend [of "unat w" 8] by simp
    then show ?thesis
      using \<open>unat (drop_bit 3 w) = unat w div 8\<close> unfolding b push_bit_eq_mult by (simp add: unat_word_ariths)
  qed
  assume "w AND 4 = 0"
  moreover have "w AND 0xFFFC = (w AND 0xFFF8) OR (w AND 4)"
    by (simp add: and.assoc [symmetric] bit.conj_disj_distrib [symmetric])
  ultimately show "w AND 0xFFFC = w AND 0xFFF8" by simp
qed

text \<open>The six entries, with a task state segment that is not busy, in a table of 48 bytes that the processor sees.\<close>

definition table_loaded :: "kernel \<Rightarrow> bool" where
  "table_loaded s \<longleftrightarrow> gp_limit (gdtr s) = 47 \<and> map access (gdt s) = [0, 0x9A, 0x92, 0xFA, 0xF2, 0x89]
     \<and> sees (gp_base (gdtr s)) (gdt_addr (syms s)) 48 s"

lemma selected_loaded:
  assumes "table_loaded s"
  shows "selected w s = (if w AND 4 = 0 \<and> unat (drop_bit 3 w) \<in> {1..5} then Some (gdt s ! unat (drop_bit 3 w)) else None)"
proof -
  have len: "length (gdt s) = 6"
    using arg_cong [of _ _ length, OF conjunct1 [OF conjunct2 [OF assms [unfolded table_loaded_def]]]] by simp
  have z: "w AND 0xFFF8 \<noteq> 0 \<longleftrightarrow> unat (drop_bit 3 w) \<noteq> 0"
    using selector_index(1) [of w] by (simp add: unat_eq_0 [symmetric] del: unat_eq_0)
  show ?thesis
    using assms len z selector_index(1) [of w] by (auto simp: selected_def table_loaded_def)
qed

lemma access_loaded:
  assumes "table_loaded s" "i < 6"
  shows "access (gdt s ! i) = [0, 0x9A, 0x92, 0xFA, 0xF2, 0x89] ! i"
proof -
  have "map access (gdt s) ! i = [0, 0x9A, 0x92, 0xFA, 0xF2, 0x89] ! i" and "length (map access (gdt s)) = 6"
    using assms(1) by (simp_all add: table_loaded_def)
  then show ?thesis using assms(2) by simp
qed

lemma loads_loaded:
  assumes "table_loaded s"
  shows "load_data_segments 0x10 s = Some (s\<lparr>seg_ds := 0x10, seg_es := 0x10, seg_fs := 0x10, seg_gs := 0x10, seg_ss := 0x10\<rparr>)"
    "far_jump 0x8 s = Some (s\<lparr>seg_cs := 0x8\<rparr>)"
    "ltr w s = (if w AND 0xFFFC = 0x28
       then Some (s\<lparr>task_register := w, gdt := (gdt s)[5 := (gdt s ! 5)\<lparr>access := 0x8B\<rparr>]\<rparr>) else None)"
proof -
  note acc = access_loaded [OF assms]
  show "load_data_segments 0x10 s = Some (s\<lparr>seg_ds := 0x10, seg_es := 0x10, seg_fs := 0x10, seg_gs := 0x10, seg_ss := 0x10\<rparr>)"
    using acc [of 2] by (simp add: load_data_segments_def selected_loaded [OF assms])
  show "far_jump 0x8 s = Some (s\<lparr>seg_cs := 0x8\<rparr>)"
    using acc [of 1] by (simp add: far_jump_def selected_loaded [OF assms])
  have i: "w AND 0xFFFC = 0x28 \<longleftrightarrow> w AND 4 = 0 \<and> unat (drop_bit 3 w) = 5"
  proof
    assume w: "w AND 0xFFFC = 0x28"
    have "w AND 4 = (w AND 0xFFFC) AND 4" "w AND 0xFFF8 = (w AND 0xFFFC) AND 0xFFF8"
      by (simp_all add: and.assoc)
    then have "w AND 4 = 0" "w AND 0xFFF8 = 0x28" unfolding w by simp_all
    then show "w AND 4 = 0 \<and> unat (drop_bit 3 w) = 5"
      using selector_index(1) [of w] by simp
  next
    assume w: "w AND 4 = 0 \<and> unat (drop_bit 3 w) = 5"
    then have "unat (w AND 0xFFF8) = unat (0x28 :: u16)"
      using selector_index(1) [of w] by simp
    then show "w AND 0xFFFC = 0x28"
      using selector_index(2) [of w] w by (simp only: word_unat_eq_iff)
  qed
  consider "unat (drop_bit 3 w) \<notin> {1..5} \<or> w AND 4 \<noteq> 0" | "w AND 4 = 0" "unat (drop_bit 3 w) \<in> {1..4}" | "w AND 4 = 0" "unat (drop_bit 3 w) = 5"
    by fastforce
  then show "ltr w s = (if w AND 0xFFFC = 0x28
      then Some (s\<lparr>task_register := w, gdt := (gdt s)[5 := (gdt s ! 5)\<lparr>access := 0x8B\<rparr>]\<rparr>) else None)"
  proof cases
    case 1
    then have nc: "\<not> (w AND 4 = 0 \<and> unat (drop_bit 3 w) \<in> {1..5})" by blast
    have none: "selected w s = None"
      unfolding selected_loaded [OF assms] by (rule if_not_P [OF nc])
    have "w AND 0xFFFC \<noteq> 0x28"
    proof
      assume "w AND 0xFFFC = 0x28"
      then have "w AND 4 = 0" "unat (drop_bit 3 w) = 5" using i by blast+
      then show False using nc by simp
    qed
    then show ?thesis using none by (simp add: ltr_def)
  next
    case 2
    then have "unat (drop_bit 3 w) = 1 \<or> unat (drop_bit 3 w) = 2 \<or> unat (drop_bit 3 w) = 3 \<or> unat (drop_bit 3 w) = 4" by auto
    then show ?thesis
      using 2(1) i acc [of 1] acc [of 2] acc [of 3] acc [of 4]
      by (elim disjE) (simp_all add: ltr_def selected_loaded [OF assms])
  next
    case 3
    then show ?thesis
      using i acc [of 5] by (simp add: ltr_def selected_loaded [OF assms])
  qed
qed

text \<open>The entries before the last is marked busy, and the state in which they are loaded.\<close>

definition filled :: "gdt_entry list \<Rightarrow> u32 \<Rightarrow> u32 \<Rightarrow> bool" where
  "filled g base limit \<longleftrightarrow> (\<exists>a b c d e f. g = [a, b, c, d, e, f] \<and> map access g = [0, 0x9A, 0x92, 0xFA, 0xF2, 0x89]
     \<and> map entry_base [a, b, c, d, e] = [0, 0, 0, 0, 0] \<and> map entry_limit [a, b, c, d, e] = [0, 0xFFFFF, 0xFFFFF, 0xFFFFF, 0xFFFFF]
     \<and> map entry_flags g = [0, 0xC, 0xC, 0xC, 0xC, 0] \<and> entry_base f = base AND 0xFFFFFF \<and> entry_limit f = limit AND 0xFFFFF)"

lemma access_update [simp]:
  "entry_base (e\<lparr>access := a\<rparr>) = entry_base e" "entry_limit (e\<lparr>access := a\<rparr>) = entry_limit e" "entry_flags (e\<lparr>access := a\<rparr>) = entry_flags e"
  by (simp_all add: entry_base_def entry_limit_def entry_flags_def)

lemma gdt_install_fills:
  assumes "length (gdt s) = 6" and "\<forall>i < 6. base_high (gdt s ! i) = 0"
  obtains g t where "gdt_install s = do {
      s' \<leftarrow> flush_gdtr (fst (get_physaddr (gp_addr (syms s)) s)) (s\<lparr>temp_pte := t,
        gp := \<lparr>gp_limit = 47, gp_base = fst (get_physaddr (gdt_addr (syms s)) s)\<rparr>, gdt := g,
        mem := tss_image (tss_addr (syms s)) 0x10 0 (mem s)\<rparr>);
      flush_tss 0x2b s' }"
    "filled g (fst (get_physaddr (tss_addr (syms s)) s)) (fst (get_physaddr 104 s))"
proof -
  obtain g0 g1 g2 g3 g4 g5 where g: "gdt s = [g0, g1, g2, g3, g4, g5]"
    using assms(1) by (auto simp: length_Suc_conv numeral_eq_Suc)
  have high: "base_high g0 = 0" "base_high g1 = 0" "base_high g2 = 0" "base_high g3 = 0" "base_high g4 = 0"
    "base_high g5 = 0"
    using assms(2) [rule_format, of 0] assms(2) [rule_format, of 1] assms(2) [rule_format, of 2]
      assms(2) [rule_format, of 3] assms(2) [rule_format, of 4] assms(2) [rule_format, of 5] by (simp_all add: g)
  let ?s1 = "s\<lparr>gp := (gp s)\<lparr>gp_limit := 47\<rparr>\<rparr>"
  obtain t1 where p1: "get_physaddr (gdt_addr (syms s)) ?s1
      = (fst (get_physaddr (gdt_addr (syms s)) s), ?s1\<lparr>temp_pte := t1\<rparr>)"
    using get_physaddr_any [of ?s1 s] by force
  let ?d = "\<lambda>a. descriptor 0 0xFFFFFFFF a 0x0C"
  let ?g = "[descriptor 0 0 0 0 g0, ?d 0x9A g1, ?d 0x92 g2, ?d 0xFA g3, ?d 0xF2 g4, g5]"
  let ?gp = "\<lparr>gp_limit = 47, gp_base = fst (get_physaddr (gdt_addr (syms s)) s)\<rparr>"
  let ?s2 = "s\<lparr>temp_pte := t1, gp := ?gp, gdt := ?g\<rparr>"
  have same: "fst (get_physaddr va ?s2) = fst (get_physaddr va s)" for va
    using get_physaddr_any [of ?s2 s va] by force
  let ?tss = "descriptor (fst (get_physaddr (tss_addr (syms s)) s)) (fst (get_physaddr 104 s)) 0x89 0"
  obtain t2 where t2: "tss_install 5 0x10 0 ?s2
      = Some (?s2\<lparr>temp_pte := t2, gdt := take 5 ?g @ [?tss g5], mem := tss_image (tss_addr (syms s)) 0x10 0 (mem s)\<rparr>)"
    using tss_install_steps [of 5 ?s2 "0x10" 0] by (auto simp: same)
  let ?s3 = "?s2\<lparr>temp_pte := t2, gdt := take 5 ?g @ [?tss g5], mem := tss_image (tss_addr (syms s)) 0x10 0 (mem s)\<rparr>"
  obtain t3 where t3: "get_physaddr (gp_addr (syms s)) ?s3 = (fst (get_physaddr (gp_addr (syms s)) s), ?s3\<lparr>temp_pte := t3\<rparr>)"
    using get_physaddr_any [of ?s3 s] by force
  have gp_eq: "gp s\<lparr>gp_limit := 47, gp_base := b\<rparr> = \<lparr>gp_limit = 47, gp_base = b\<rparr>" for b
    by (cases "gp s"; simp)
  have run: "gdt_install s = do { s' \<leftarrow> flush_gdtr (fst (get_physaddr (gp_addr (syms s)) s)) (?s3\<lparr>temp_pte := t3\<rparr>); flush_tss 0x2b s' }"
    using t2 t3 by (simp add: gdt_install_def p1 create_descriptor_update g gp_eq)
  have "filled (take 5 ?g @ [?tss g5]) (fst (get_physaddr (tss_addr (syms s)) s)) (fst (get_physaddr 104 s))"
    using high by (simp add: filled_def descriptor_limit descriptor_base descriptor_flags)
  moreover have "?s3\<lparr>temp_pte := t3\<rparr> = s\<lparr>temp_pte := t3, gp := ?gp, gdt := take 5 ?g @ [?tss g5],
      mem := tss_image (tss_addr (syms s)) 0x10 0 (mem s)\<rparr>" by simp
  ultimately show thesis
    using that [of "take 5 ?g @ [?tss g5]" t3] run by (simp only:)
qed

text \<open>
  C35: \<open>gdt_install\<close>, where the processor sees \<open>_gp\<close> and \<open>gdt\<close> at their physical addresses and the address
  \<open>0x2b\<close> is mapped. It fills the table with four flat segments (base 0, limit \<open>0xFFFFF\<close> in pages) with the
  access bytes of kernel and user code and data, and a task state segment at the physical address of
  \<open>TSS\<close> (cut to 24 bits), and the loads of the table and of the segment registers succeed. The limit of the last entry is
  the physical address (cut to 20 bits) of the \<^emph>\<open>virtual\<close> address 104, not the size 104. The task register is loaded with
  the word that memory holds at address \<open>0x2b\<close>, not with the selector \<open>0x2b\<close>: the function returns exactly
  when that word happens to select the sixth entry, and faults otherwise.
\<close>

theorem gdt_install_flat_segments:
  assumes "length (gdt s) = 6" and "\<forall>i < 6. base_high (gdt s ! i) = 0"
    and "unat (tss_addr (syms s)) + 104 \<le> 2 ^ 32"
    and "sees (fst (get_physaddr (gp_addr (syms s)) s)) (gp_addr (syms s)) 6 s"
    and "sees (fst (get_physaddr (gdt_addr (syms s)) s)) (gdt_addr (syms s)) 48 s"
    and "virtual_load16 0x2b s = Some w"
  shows "(w AND 0xFFFC \<noteq> 0x28 \<longrightarrow> gdt_install s = None)
    \<and> (w AND 0xFFFC = 0x28 \<longrightarrow> (\<exists>s'. gdt_install s = Some s'
    \<and> map entry_base (take 5 (gdt s')) = [0, 0, 0, 0, 0]
    \<and> map entry_limit (take 5 (gdt s')) = [0, 0xFFFFF, 0xFFFFF, 0xFFFFF, 0xFFFFF]
    \<and> map access (gdt s') = [0, 0x9A, 0x92, 0xFA, 0xF2, 0x8B]
    \<and> map entry_flags (gdt s') = [0, 0xC, 0xC, 0xC, 0xC, 0]
    \<and> entry_base (gdt s' ! 5) = fst (get_physaddr (tss_addr (syms s)) s) AND 0xFFFFFF
    \<and> entry_limit (gdt s' ! 5) = fst (get_physaddr 104 s) AND 0xFFFFF
    \<and> gdtr s' = \<lparr>gp_limit = 47, gp_base = fst (get_physaddr (gdt_addr (syms s)) s)\<rparr>
    \<and> seg_cs s' = 0x8 \<and> seg_ds s' = 0x10 \<and> seg_ss s' = 0x10 \<and> task_register s' = w
    \<and> load32 (mem s') (tss_addr (syms s) + 8) = 0x10
    \<and> (\<forall>x. x \<notin> bytes_at (tss_addr (syms s)) 104 \<longrightarrow> mem s' x = mem s x)))"
proof -
  let ?ptr = "fst (get_physaddr (gp_addr (syms s)) s)" and ?m = "tss_image (tss_addr (syms s)) 0x10 0 (mem s)"
  let ?gp = "\<lparr>gp_limit = 47, gp_base = fst (get_physaddr (gdt_addr (syms s)) s)\<rparr>"
  obtain g t where g: "gdt_install s = do { s' \<leftarrow> flush_gdtr ?ptr (s\<lparr>temp_pte := t, gp := ?gp, gdt := g, mem := ?m\<rparr>); flush_tss 0x2b s' }"
      "filled g (fst (get_physaddr (tss_addr (syms s)) s)) (fst (get_physaddr 104 s))"
    by (rule gdt_install_fills [OF assms(1,2)])
  let ?s1 = "s\<lparr>temp_pte := t, gp := ?gp, gdt := g, mem := ?m\<rparr>"
  let ?s2 = "?s1\<lparr>gdtr := ?gp\<rparr>"
  let ?s3 = "?s2\<lparr>seg_ds := 0x10, seg_es := 0x10, seg_fs := 0x10, seg_gs := 0x10, seg_ss := 0x10, seg_cs := 0x8\<rparr>"
  have acc: "map access g = [0, 0x9A, 0x92, 0xFA, 0xF2, 0x89]" "length g = 6"
    using g(2) by (auto simp: filled_def)
  have "sees ?ptr (gp_addr (syms s)) 6 ?s1"
    using assms(4) sees_cong [of ?s1 s] by (simp del: get_physaddr_fst)
  then have "lgdt ?ptr ?s1 = Some ?s2"
    by (simp add: lgdt_def del: get_physaddr_fst)
  moreover have "sees (fst (get_physaddr (gdt_addr (syms s)) s)) (gdt_addr (syms s)) 48 ?s2"
      "sees (fst (get_physaddr (gdt_addr (syms s)) s)) (gdt_addr (syms s)) 48 ?s3"
      "sees (fst (get_physaddr (gdt_addr (syms s)) s)) (gdt_addr (syms s)) 48 (?s2\<lparr>seg_ds := 0x10, seg_es := 0x10, seg_fs := 0x10, seg_gs := 0x10, seg_ss := 0x10\<rparr>)"
    using assms(5) by (subst sees_cong [of _ s]; simp del: get_physaddr_fst)+
  then have "table_loaded ?s2" "table_loaded ?s3" "table_loaded (?s2\<lparr>seg_ds := 0x10, seg_es := 0x10, seg_fs := 0x10, seg_gs := 0x10, seg_ss := 0x10\<rparr>)"
    using acc by (simp_all add: table_loaded_def del: get_physaddr_fst)
  moreover have "virtual_load16 0x2b ?s3 = Some w"
    using assms(6) virtual_load16_cong [of ?s3 s] by simp
  ultimately have run: "gdt_install s = (if w AND 0xFFFC = 0x28
      then Some (?s3\<lparr>task_register := w, gdt := g[5 := (g ! 5)\<lparr>access := 0x8B\<rparr>]\<rparr>) else None)"
    unfolding g(1) by (simp add: flush_gdtr_def flush_tss_def loads_loaded)
  have m: "\<forall>x. x \<notin> bytes_at (tss_addr (syms s)) 104 \<longrightarrow> ?m x = mem s x" "load32 ?m (tss_addr (syms s) + 8) = 0x10"
    using tss_image_other [OF assms(3)] tss_image_fields(2) by simp_all
  obtain a b c d e f where f: "g = [a, b, c, d, e, f]" "map access g = [0, 0x9A, 0x92, 0xFA, 0xF2, 0x89]"
      "map entry_base [a, b, c, d, e] = [0, 0, 0, 0, 0]" "map entry_limit [a, b, c, d, e] = [0, 0xFFFFF, 0xFFFFF, 0xFFFFF, 0xFFFFF]"
      "map entry_flags g = [0, 0xC, 0xC, 0xC, 0xC, 0]" "entry_base f = fst (get_physaddr (tss_addr (syms s)) s) AND 0xFFFFFF"
      "entry_limit f = fst (get_physaddr 104 s) AND 0xFFFFF"
    using g(2) unfolding filled_def by (elim exE conjE) (rule that; assumption)
  define s' where "s' = ?s3\<lparr>task_register := w, gdt := g[5 := (g ! 5)\<lparr>access := 0x8B\<rparr>]\<rparr>"
  have g': "gdt s' = [a, b, c, d, e, f\<lparr>access := 0x8B\<rparr>]" and fields: "mem s' = ?m" "gdtr s' = ?gp" "task_register s' = w"
      "seg_cs s' = 0x8" "seg_ds s' = 0x10" "seg_ss s' = 0x10"
    by (simp_all add: s'_def f(1))
  have "map access (gdt s') = [0, 0x9A, 0x92, 0xFA, 0xF2, 0x8B]" "map entry_flags (gdt s') = [0, 0xC, 0xC, 0xC, 0xC, 0]"
      "map entry_base (take 5 (gdt s')) = [0, 0, 0, 0, 0]" "map entry_limit (take 5 (gdt s')) = [0, 0xFFFFF, 0xFFFFF, 0xFFFFF, 0xFFFFF]"
      "entry_base (gdt s' ! 5) = fst (get_physaddr (tss_addr (syms s)) s) AND 0xFFFFFF"
      "entry_limit (gdt s' ! 5) = fst (get_physaddr 104 s) AND 0xFFFFF"
    unfolding g' using f(2-7) [unfolded f(1)] by (simp_all del: get_physaddr_fst)
  then show ?thesis
    unfolding run s'_def [symmetric] using fields m by (auto simp del: get_physaddr_fst)
qed

text \<open>
  The first megabytes are mapped at 0 and at \<open>0x80000000\<close>. The word at \<open>0x2b\<close> happens to be \<open>0x28\<close>; with
  any other word there, such as the zero word of empty memory, the function ends in a fault.
\<close>

definition flat_state :: "u32 \<Rightarrow> kernel" where
  "flat_state v = zero_kernel\<lparr>cr3 := 0x100000, kernel_address_space := zero_space\<lparr>page_dir := 0x100000\<rparr>,
     phys := (\<lambda>_. 0)(0x100000 := 0x101003, 0x100800 := 0x101003, 0x101000 := 3, 0x101020 := 0x8003, 0x28 := v)\<rparr>"

lemma flat_translate:
  assumes "pd_index va = 0 \<or> pd_index va = 0x200" "pt_index va = 0 \<or> pt_index va = 8"
  shows "translate (cr3 (flat_state v)) (flat_state v) va = Some (0x1000 * pt_index va + (va AND 0xFFF))"
proof -
  have "frame 0x100000 = 0x100000" "frame 0x101003 = 0x101000" "frame 3 = 0" "frame 0x8003 = 0x8000"
    by (simp_all add: frame_def del: frame_fold)
  then show ?thesis
    using assms by (elim disjE) (simp_all add: translate_def pte_eq pde_def present_def flat_state_def)
qed

lemma flat_indices:
  assumes "k < 48" "c \<in> {0x8100, 0x8200, 0x80008100, 0x80008200}"
  shows "pd_index (c + of_nat k) = 0 \<or> pd_index (c + of_nat k) = 0x200" "pt_index (c + of_nat k) = 8"
    "(c + of_nat k) AND 0xFFF = (c AND 0xFFF) + of_nat k"
proof -
  have u: "unat (c + of_nat k) = unat c + k" "unat (of_nat k :: u32) = k"
    using assms by (auto simp: unat_word_ariths unat_of_nat)
  have "unat (pd_index (c + of_nat k)) = (unat c + k) div 2 ^ 22"
    unfolding pd_index_def unat_drop_bit_eq u by (rule drop_bit_eq_div)
  also have "\<dots> = 0 \<or> \<dots> = 0x200"
    using assms by auto
  finally show "pd_index (c + of_nat k) = 0 \<or> pd_index (c + of_nat k) = 0x200"
    by (auto simp: word_unat_eq_iff)
  have m: "(0x3FF :: u32) = mask 10" "(0xFFF :: u32) = mask 12"
    by (simp_all add: mask_eq_exp_minus_1)
  have "unat (pt_index (c + of_nat k)) = (unat c + k) div 2 ^ 12 mod 2 ^ 10"
    unfolding pt_index_def m take_bit_eq_mask [symmetric] unsigned_take_bit_eq unat_drop_bit_eq u by (simp add: take_bit_eq_mod drop_bit_eq_div)
  moreover have "(unat c + k) div 2 ^ 12 = 8 \<or> (unat c + k) div 2 ^ 12 = 0x80008"
    using assms by auto
  ultimately show "pt_index (c + of_nat k) = 8"
    by (auto simp: word_unat_eq_iff)
  have "unat ((c + of_nat k) AND 0xFFF) = (unat c + k) mod 4096"
    unfolding m take_bit_eq_mask [symmetric] unsigned_take_bit_eq u by (simp add: take_bit_eq_mod)
  also have "\<dots> = unat (c AND 0xFFF) + k"
  proof -
    obtain q where "unat c = 4096 * q + unat (c AND 0xFFF)" "unat (c AND 0xFFF) + k < 4096"
      using assms that [of 8] that [of "0x80008"] by auto
    then show ?thesis by (simp only: add.assoc mod_mult_self4 mod_less)
  qed
  also have "\<dots> = unat ((c AND 0xFFF) + of_nat k)"
    using assms u(2) by (auto simp: unat_word_ariths)
  finally show "(c + of_nat k) AND 0xFFF = (c AND 0xFFF) + of_nat k"
    by (simp only: word_unat_eq_iff)
qed

lemma flat_sees:
  "sees 0x8100 0x80008100 48 (flat_state v)" "sees 0x8200 0x80008200 6 (flat_state v)"
  using flat_indices [of _ "0x8100"] flat_indices [of _ "0x80008100"] flat_indices [of _ "0x8200"] flat_indices [of _ "0x80008200"]
  by (simp_all add: sees_def flat_translate)

theorem gdt_install_flat_segments_witness:
  "(\<exists>s'. gdt_install (flat_state 0x28000000) = Some s' \<and> task_register s' = 0x28 \<and> seg_cs s' = 8
      \<and> map access (gdt s') = [0, 0x9A, 0x92, 0xFA, 0xF2, 0x8B])
   \<and> gdt_install (flat_state 0) = None"
proof -
  have addrs: "gp_addr (syms (flat_state v)) = 0x80008200" "gdt_addr (syms (flat_state v)) = 0x80008100"
      "tss_addr (syms (flat_state v)) = 0x80008300" "gdt (flat_state v) = gdt zero_kernel" for v
    by (simp_all add: flat_state_def zero_kernel_def)
  have frames: "frame 0x100000 = 0x100000" "frame 0x101003 = 0x101000" "frame 3 = 0" "frame 0x8003 = 0x8000"
    by (simp_all add: frame_def del: frame_fold)
  have st: "page_dir (cur_space (flat_state v)) = 0x100000" "phys (flat_state v) 0x100800 = 0x101003"
      "phys (flat_state v) 0x101020 = 0x8003" "phys (flat_state v) 0x28 = v" "phys (flat_state v) 0x2c = 0" for v
    by (simp_all add: flat_state_def zero_kernel_def address_space_def)
  have at: "fst (get_physaddr (gp_addr (syms (flat_state v))) (flat_state v)) = 0x8200"
      "fst (get_physaddr (gdt_addr (syms (flat_state v))) (flat_state v)) = 0x8100"
      "virtual_load16 0x2b (flat_state v) = Some (ucast (ucast (drop_bit 24 v) :: u8))" for v
  proof -
    show "fst (get_physaddr (gp_addr (syms (flat_state v))) (flat_state v)) = 0x8200"
      "fst (get_physaddr (gdt_addr (syms (flat_state v))) (flat_state v)) = 0x8100"
      unfolding addrs get_physaddr_fst st by (simp_all add: pd_index_def pt_index_def st frames)
    have "translate (cr3 (flat_state v)) (flat_state v) 0x28 = Some 0x28" "translate (cr3 (flat_state v)) (flat_state v) 0x2c = Some 0x2c"
      using flat_translate [of "0x28" v] flat_translate [of "0x2c" v] by (simp_all add: pd_index_def pt_index_def)
    then show "virtual_load16 0x2b (flat_state v) = Some (ucast (ucast (drop_bit 24 v) :: u8))"
      by (simp add: virtual_load16_def virtual_load8_def virtual_cell_def st)
  qed
  have h: "length (gdt (flat_state v)) = 6" "\<forall>i < 6. base_high (gdt (flat_state v) ! i) = 0"
      "unat (tss_addr (syms (flat_state v))) + 104 \<le> 2 ^ 32"
      "sees (fst (get_physaddr (gp_addr (syms (flat_state v))) (flat_state v))) (gp_addr (syms (flat_state v))) 6 (flat_state v)"
      "sees (fst (get_physaddr (gdt_addr (syms (flat_state v))) (flat_state v))) (gdt_addr (syms (flat_state v))) 48 (flat_state v)" for v
    unfolding at unfolding addrs by (simp_all add: zero_kernel_def flat_sees)
  note run = gdt_install_flat_segments [OF h at(3)]
  have w: "ucast (ucast (drop_bit 24 (0x28000000 :: u32)) :: u8) = (0x28 :: u16)" "ucast (ucast (drop_bit 24 (0 :: u32)) :: u8) = (0 :: u16)"
    by simp_all
  have c: "(0x28 :: u16) AND 0xFFFC = 0x28"
    by simp
  have "\<exists>s'. gdt_install (flat_state 0x28000000) = Some s' \<and> task_register s' = 0x28 \<and> seg_cs s' = 8
      \<and> map access (gdt s') = [0, 0x9A, 0x92, 0xFA, 0xF2, 0x8B]"
    using mp [OF run [of "0x28000000", THEN conjunct2, unfolded w] c] by (elim ex_forward conjE) (intro conjI; assumption)
  moreover have "gdt_install (flat_state 0) = None"
    using run [of 0, THEN conjunct1, unfolded w] by (elim impE) simp_all
  ultimately show ?thesis by blast
qed

end
