(* ===== verification/Tss.thy ===== *)
theory Tss
  imports Gdt
begin

text \<open>
  \<open>tss.c\<close> and \<open>tss.h\<close>. The file repeats \<open>flush_tss\<close>, \<open>tss_install\<close> and the variable \<open>TSS\<close> of
  \<open>gdt.c\<close>; the makefile does not link it, and as it includes both headers the struct is defined
  twice. Its functions are modelled under names of their own and shown to do what those of \<open>gdt.c\<close> do.
\<close>

section \<open>The functions of the file\<close>

definition tss_h_entry :: "(string \<times> nat) list" where
  "tss_h_entry = [(''prevTss'', 4), (''esp0'', 4), (''ss0'', 4), (''esp1'', 4), (''ss1'', 4), (''esp2'', 4), (''ss2'', 4),
     (''cr3'', 4), (''eip'', 4), (''eflags'', 4), (''eax'', 4), (''ecx'', 4), (''edx'', 4), (''ebx'', 4), (''esp'', 4),
     (''ebp'', 4), (''esi'', 4), (''edi'', 4), (''es'', 4), (''cs'', 4), (''ss'', 4), (''ds'', 4), (''fs'', 4), (''gs'', 4),
     (''ldt'', 4), (''trap'', 2), (''iomap'', 2)]"

definition tss_h_field :: "string \<Rightarrow> u32" where
  "tss_h_field f = of_nat (field_offset f tss_h_entry)"

lemma tss_h_fields [simp]:
  "tss_h_field ''esp0'' = 4" "tss_h_field ''ss0'' = 8" "tss_h_field ''es'' = 72" "tss_h_field ''cs'' = 76"
  "tss_h_field ''ss'' = 80" "tss_h_field ''ds'' = 84" "tss_h_field ''fs'' = 88" "tss_h_field ''gs'' = 92"
  "struct_size tss_h_entry = 104"
  by (simp_all add: tss_h_field_def tss_h_entry_def struct_size_def)

definition tss_c_flush :: "u32 \<Rightarrow> kernel \<Rightarrow> kernel option" where
  "tss_c_flush sel s = do { w \<leftarrow> virtual_load16 sel s; ltr w s }"

definition tss_c_install :: "u32 \<Rightarrow> u16 \<Rightarrow> u16 \<Rightarrow> kernel \<Rightarrow> kernel option" where
  "tss_c_install idx kernelSS kernelESP s =
     (let base = tss_addr (syms s);
          (limit, s) = get_physaddr (of_nat (struct_size tss_h_entry)) s;
          (pbase, s) = get_physaddr base s
      in do {
        s \<leftarrow> create_descriptor (ucast idx) pbase limit 0x89 0x0 s;
        let m = memset base 0 (of_nat (struct_size tss_h_entry)) (mem s);
        let m = store32 (base + tss_h_field ''ss0'') (ucast kernelSS) m;
        let m = store32 (base + tss_h_field ''esp0'') (ucast kernelESP) m;
        let m = store32 (base + tss_h_field ''cs'') 0x0b m;
        let m = store32 (base + tss_h_field ''ss'') 0x13 m;
        let m = store32 (base + tss_h_field ''es'') 0x13 m;
        let m = store32 (base + tss_h_field ''ds'') 0x13 m;
        let m = store32 (base + tss_h_field ''fs'') 0x13 m;
        let m = store32 (base + tss_h_field ''gs'') 0x13 m;
        Some (s\<lparr>mem := m\<rparr>)
      })"

lemma tss_c_is_gdt_c: "tss_c_flush = flush_tss" "tss_c_install = tss_install"
  by (intro ext; simp add: tss_c_flush_def flush_tss_def)
    (intro ext; simp only: tss_c_install_def tss_install_def tss_fields tss_h_fields)

section \<open>The stack that the processor finds\<close>

text \<open>
  A call with a number of the table enters one descriptor, of type \<open>0x89\<close> at the physical address of
  the segment, and leaves in the segment the stack of the kernel that was given and the selectors
  \<open>0x0b\<close> and \<open>0x13\<close>; a number outside the table is out of bounds. Memory outside the segment and the
  other descriptors are kept.
\<close>

theorem tss_c_install_segment:
  assumes "unat (tss_addr (syms s)) + 104 \<le> 2 ^ 32"
  shows "(unat (ucast idx :: u16) \<ge> length (gdt s) \<longrightarrow> tss_c_install idx kss kesp s = None)
    \<and> (unat (ucast idx :: u16) < length (gdt s) \<longrightarrow> (\<exists>e s'. tss_c_install idx kss kesp s = Some s'
        \<and> gdt s' = (gdt s)[unat (ucast idx :: u16) := e] \<and> access e = 0x89
        \<and> entry_limit e = fst (get_physaddr 104 s) AND 0xFFFFF
        \<and> load32 (mem s') (tss_addr (syms s) + 4) = ucast kesp \<and> load32 (mem s') (tss_addr (syms s) + 8) = ucast kss
        \<and> load32 (mem s') (tss_addr (syms s) + 76) = 0x0b \<and> load32 (mem s') (tss_addr (syms s) + 80) = 0x13
        \<and> (\<forall>x. x \<notin> bytes_at (tss_addr (syms s)) 104 \<longrightarrow> mem s' x = mem s x)))"
proof (intro conjI impI)
  assume "unat (ucast idx :: u16) < length (gdt s)"
  from tss_install_steps [OF this, of kss kesp] obtain t where "tss_c_install idx kss kesp s = Some (s\<lparr>temp_pte := t,
    gdt := (gdt s)[unat (ucast idx :: u16) := descriptor (fst (get_physaddr (tss_addr (syms s)) s))
      (fst (get_physaddr 104 s)) 0x89 0 (gdt s ! unat (ucast idx :: u16))],
    mem := tss_image (tss_addr (syms s)) kss kesp (mem s)\<rparr>)" (is "_ = Some ?s'")
    unfolding tss_c_is_gdt_c by blast
  then show "\<exists>e s'. tss_c_install idx kss kesp s = Some s'
        \<and> gdt s' = (gdt s)[unat (ucast idx :: u16) := e] \<and> access e = 0x89
        \<and> entry_limit e = fst (get_physaddr 104 s) AND 0xFFFFF
        \<and> load32 (mem s') (tss_addr (syms s) + 4) = ucast kesp \<and> load32 (mem s') (tss_addr (syms s) + 8) = ucast kss
        \<and> load32 (mem s') (tss_addr (syms s) + 76) = 0x0b \<and> load32 (mem s') (tss_addr (syms s) + 80) = 0x13
        \<and> (\<forall>x. x \<notin> bytes_at (tss_addr (syms s)) 104 \<longrightarrow> mem s' x = mem s x)"
    using tss_image_other [OF assms] descriptor_flags(2) descriptor_limit
    by (intro exI [of _ "gdt ?s' ! unat (ucast idx :: u16)"] exI [of _ ?s'])
      (simp add: tss_image_fields \<open>unat (ucast idx :: u16) < length (gdt s)\<close>)
next
  assume "length (gdt s) \<le> unat (ucast idx :: u16)"
  then show "tss_c_install idx kss kesp s = None"
    by (simp add: tss_c_install_def create_descriptor_def get_physaddr_def Let_def temp_map_page_def split: prod.splits)
qed

theorem tss_c_install_segment_witness:
  "\<exists>s'. tss_c_install 5 0x10 0x8000 zero_kernel = Some s' \<and> load32 (mem s') 0x80008304 = 0x8000
    \<and> load32 (mem s') 0x80008308 = 0x10"
proof -
  have a: "tss_addr (syms zero_kernel) = 0x80008300" "length (gdt zero_kernel) = 6"
    by (simp_all add: zero_kernel_def)
  have "unat (tss_addr (syms zero_kernel)) + 104 \<le> 2 ^ 32"
    by (simp add: a)
  from tss_c_install_segment [OF this, of 5 "0x10" "0x8000"] show ?thesis
    unfolding a by auto
qed

end
