(* ===== verification/Cpu.thy ===== *)
theory Cpu
  imports Machine
begin

text \<open>
  The processor as far as the inline assembly of the kernel drives it: the stack, the interrupt flag
  and the return from an interrupt. The stack lies in the byte memory \<open>mem\<close>.
\<close>

abbreviation (input) IF_FLAG :: u32 where "IF_FLAG \<equiv> 0x200"

definition cli :: "kernel \<Rightarrow> kernel" where
  "cli s = s\<lparr>eflags := eflags s AND NOT IF_FLAG\<rparr>"

lemma cli_frame [simp]:
  "address_space sp (cli s) = address_space sp s" "cur_address_space (cli s) = cur_address_space s"
  "mem (cli s) = mem s" "syms (cli s) = syms s" "idt (cli s) = idt s" "idtr (cli s) = idtr s" "esp (cli s) = esp s"
  "seg_cs (cli s) = seg_cs s" "eflags (cli s) = eflags s AND NOT IF_FLAG"
  by (cases sp; simp add: cli_def address_space_def)+

definition push32 :: "u32 \<Rightarrow> kernel \<Rightarrow> kernel" where
  "push32 v s = s\<lparr>esp := esp s - 4, mem := store32 (esp s - 4) v (mem s)\<rparr>"

definition pop32 :: "kernel \<Rightarrow> u32 \<times> kernel" where
  "pop32 s = (load32 (mem s) (esp s), s\<lparr>esp := esp s + 4\<rparr>)"

text \<open>
  \<open>iretl\<close>: a return to a less privileged ring takes the stack pointer and its segment from the stack
  as well. The result is the address at which the execution goes on.
\<close>

definition iretl :: "kernel \<Rightarrow> u32 \<times> kernel" where
  "iretl s =
     (let ring = seg_cs s AND 3;
          (eip, s) = pop32 s;
          (cs, s) = pop32 s;
          (flags, s) = pop32 s;
          s = s\<lparr>seg_cs := ucast cs, eflags := flags\<rparr>
      in if ring < seg_cs s AND 3 then
           let (sp, s) = pop32 s;
               (ss, s) = pop32 s
           in (eip, s\<lparr>esp := sp, seg_ss := ucast ss\<rparr>)
         else (eip, s))"

section \<open>A stack of pushed words\<close>

text \<open>The words on the stack, the one on the top first.\<close>

fun words_at :: "mem \<Rightarrow> u32 \<Rightarrow> u32 list \<Rightarrow> bool" where
  "words_at m p [] = True"
| "words_at m p (v # vs) = (load32 m p = v \<and> words_at m (p + 4) vs)"

abbreviation stack_has :: "kernel \<Rightarrow> u32 list \<Rightarrow> bool" where
  "stack_has s vs \<equiv> words_at (mem s) (esp s) vs"

lemma words_at_cong:
  assumes "\<And>x. x \<in> bytes_at p (4 * length vs) \<Longrightarrow> m x = m' x" and "4 * length vs \<le> 2 ^ 32"
  shows "words_at m p vs = words_at m' p vs"
  using assms
proof (induction vs arbitrary: p)
  case (Cons v vs)
  have "bytes_at p 4 \<subseteq> bytes_at p (4 * length (v # vs))"
    by (rule bytes_at_mono) simp
  then have "load32 m p = load32 m' p"
    using Cons.prems(1) by (intro cell32.ld_cong) blast
  moreover have "bytes_at (p + 4) (4 * length vs) \<subseteq> bytes_at p (4 * length (v # vs))"
    using bytes_at_sub [of 4 "4 * length vs" "4 * length (v # vs)" p] Cons.prems(2) by simp
  then have "words_at m (p + 4) vs = words_at m' (p + 4) vs"
    using Cons.prems by (intro Cons.IH) auto
  ultimately show ?case by simp
qed simp

lemma push32_has:
  assumes "stack_has s vs" and "4 * Suc (length vs) \<le> 2 ^ 32"
  shows "stack_has (push32 v s) (v # vs)"
proof -
  have "x \<notin> bytes_at (esp s - 4) 4" if "x \<in> bytes_at (esp s) (4 * length vs)" for x
    using that bytes_at_offset [of 4 "4 * length vs" x "esp s - 4"] assms(2) by (auto simp: bytes_at_def)
  then have "words_at (store32 (esp s - 4) v (mem s)) (esp s) vs = words_at (mem s) (esp s) vs"
    using assms(2) by (intro words_at_cong) (simp_all add: cell32.st_other)
  then show ?thesis
    using assms(1) by (simp add: push32_def load32_store32_same)
qed

lemma push32_frame [simp]:
  "esp (push32 v s) = esp s - 4" "syms (push32 v s) = syms s" "eflags (push32 v s) = eflags s" "seg_cs (push32 v s) = seg_cs s"
  "x \<notin> bytes_at (esp s - 4) 4 \<Longrightarrow> mem (push32 v s) x = mem s x"
  by (simp_all add: push32_def cell32.st_other)

lemma pop32_has:
  assumes "stack_has s (v # vs)"
  shows "pop32 s = (v, s\<lparr>esp := esp s + 4\<rparr>)" and "stack_has (s\<lparr>esp := esp s + 4\<rparr>) vs"
  using assms by (simp_all add: pop32_def)

text \<open>A return to an outer ring takes five words from the stack, any other return three.\<close>

lemma iretl_outer:
  assumes "stack_has s (eip # cs # flags # sp # ss # vs)" and "seg_cs s AND 3 < ucast cs AND 3"
  shows "iretl s = (eip, s\<lparr>seg_cs := ucast cs, eflags := flags, esp := sp, seg_ss := ucast ss\<rparr>)"
  using assms by (simp add: iretl_def pop32_def Let_def add.assoc)

lemma iretl_same_ring:
  assumes "stack_has s (eip # cs # flags # vs)" and "\<not> seg_cs s AND 3 < ucast cs AND 3"
  shows "iretl s = (eip, s\<lparr>seg_cs := ucast cs, eflags := flags, esp := esp s + 12\<rparr>)"
  using assms by (simp add: iretl_def pop32_def Let_def add.assoc)

end
