(* ===== verification/Interrupts.thy ===== *)
theory Interrupts
  imports Heap Cpu
begin

text \<open>
  The interrupt table of \<open>interrupts.c\<close> and the interrupt controller and timer of \<open>PIC.c\<close> and
  \<open>PIT.c\<close>. A gate is eight bytes of the table at \<open>idt\<close>. \<open>set_int_handler\<close> copies the code at
  \<open>handler_wrapper_template\<close> of \<open>interrupts.asm\<close> to the heap, patches the operand of its \<open>call\<close>, and
  lets the gate point to the copy; the place and the sizes of that code are parameters, in \<open>syms\<close>.
  The main result: after \<open>init_interrupts\<close> every one of the 256 gates leads, through a copy of its
  own, to the handler it was given, and no copy overlaps another.
\<close>

section \<open>The operations\<close>

abbreviation (input) ICW_1 :: u8 where "ICW_1 \<equiv> 0x11"
abbreviation (input) PIC_1_CTRL :: u16 where "PIC_1_CTRL \<equiv> 0x20"
abbreviation (input) PIC_2_CTRL :: u16 where "PIC_2_CTRL \<equiv> 0xA0"
abbreviation (input) PIC_1_DATA :: u16 where "PIC_1_DATA \<equiv> 0x21"
abbreviation (input) PIC_2_DATA :: u16 where "PIC_2_DATA \<equiv> 0xA1"
abbreviation (input) IRQ_0 :: u8 where "IRQ_0 \<equiv> 0x20"
abbreviation (input) IRQ_8 :: u8 where "IRQ_8 \<equiv> 0x28"

text \<open>The fields of a gate, \<open>IntDesc\<close> of \<open>interrupts.h\<close>, with their sizes; the struct is packed.\<close>

definition IntDesc :: "(string \<times> nat) list" where
  "IntDesc = [(''address_0_15'', 2), (''selector'', 2), (''reserved'', 1), (''type'', 1), (''address_16_31'', 2)]"

abbreviation gate_field :: "string \<Rightarrow> u32" where
  "gate_field f \<equiv> of_nat (field_offset f IntDesc)"

lemma gate_fields [simp]:
  "field_offset ''address_0_15'' IntDesc = 0" "field_offset ''selector'' IntDesc = 2" "field_offset ''reserved'' IntDesc = 4"
  "field_offset ''type'' IntDesc = 5" "field_offset ''address_16_31'' IntDesc = 6" "struct_size IntDesc = 8"
  by (simp_all add: IntDesc_def struct_size_def)

definition set_int_handler :: "u8 \<Rightarrow> u16 \<Rightarrow> u32 \<Rightarrow> u8 \<Rightarrow> kernel \<Rightarrow> kernel option" where
  "set_int_handler index sel handler type s =
     (let s = cli s;
          gate = idt s + of_nat (struct_size IntDesc) * ucast index;
          m = store16 (gate + gate_field ''selector'') sel (mem s);
          m = store8 (gate + gate_field ''type'') type m;
          m = store8 (gate + gate_field ''reserved'') 0 m
      in do {
        (temp, s) \<leftarrow> kmalloc (wrapper_size (syms s)) (s\<lparr>mem := m\<rparr>);
        let m = memcpy temp (handler_wrapper_template (syms s)) (wrapper_size (syms s)) (mem s);
        let new_call_addr = handler - (temp + call_handler_offset (syms s) + call_size (syms s));
        let m = store32 (temp + call_handler_offset (syms s) + 1) new_call_addr m;
        let m = store16 (gate + gate_field ''address_0_15'') (ucast (temp AND 0xFFFF)) m;
        let m = store16 (gate + gate_field ''address_16_31'') (ucast (drop_bit 16 temp)) m;
        Some (s\<lparr>mem := m\<rparr>)
      })"

definition init_master_PIC :: "kernel \<Rightarrow> kernel" where
  "init_master_PIC s = outportb PIC_1_DATA 1 (outportb PIC_1_DATA 0x4 (outportb PIC_1_DATA IRQ_0 (outportb PIC_1_CTRL ICW_1 s)))"

definition init_slave_PIC :: "kernel \<Rightarrow> kernel" where
  "init_slave_PIC s = outportb PIC_2_DATA 1 (outportb PIC_2_DATA 0x2 (outportb PIC_2_DATA IRQ_8 (outportb PIC_2_CTRL ICW_1 s)))"

definition init_PIC :: "kernel \<Rightarrow> kernel" where
  "init_PIC s = outportb PIC_1_DATA (NOT 0) (init_slave_PIC (init_master_PIC s))"

definition init_PIT :: "kernel \<Rightarrow> kernel option" where
  "init_PIT s = set_int_handler IRQ_0 8 (timer_handler_addr (syms s)) 0x8E
     (outportb 0x40 0xFF (outportb 0x40 0xFF (outportb 0x43 0x34 s)))"

definition enable_PIT :: "kernel \<Rightarrow> kernel" where
  "enable_PIT s = (let (i, s) = inportb PIC_1_DATA s in outportb PIC_1_DATA (i AND NOT 1) s)"

definition timer_handler :: "kernel \<Rightarrow> kernel" where
  "timer_handler s = s\<lparr>mem := store8 0xB8000 (load8 (mem s) 0xB8000 + 1) (mem s)\<rparr>"

definition default_handler :: "kernel \<Rightarrow> kernel" where
  "default_handler s = s"

text \<open>
  The local \<open>idtr\<close> of \<open>init_interrupts\<close>, which hides the global of that name, is what \<open>lidt\<close> loads;
  the record's \<open>idtr\<close> is the register.
\<close>

definition init_interrupts :: "kernel \<Rightarrow> kernel option" where
  "init_interrupts s =
     do {
       (table, s) \<leftarrow> alloc_virt_pages NULL (- 1) 1 0xfff s;
       let s = s\<lparr>idt := table\<rparr>;
       let s = s\<lparr>mem := memset (idt s) 0 (256 * of_nat (struct_size IntDesc)) (mem s)\<rparr>;
       let s = s\<lparr>idtr := (256 * of_nat (struct_size IntDesc), idt s)\<rparr>;
       s \<leftarrow> for_opt 256 (\<lambda>i s. set_int_handler (of_nat i) 8 (default_handler_addr (syms s)) 0xEE s) s;
       init_PIT (init_PIC s)
     }"

section \<open>Gates and stubs\<close>

text \<open>What the processor reads from a gate, at its own offsets.\<close>

record gate =
  gate_target :: u32
  gate_selector :: u16
  gate_kind :: u8

definition gate_at :: "mem \<Rightarrow> u32 \<Rightarrow> gate" where
  "gate_at m p = \<lparr>gate_target = ucast (load16 m p) OR push_bit 16 (ucast (load16 m (p + 6))),
     gate_selector = load16 m (p + 2), gate_kind = load8 m (p + 5)\<rparr>"

definition gate_ptr :: "kernel \<Rightarrow> nat \<Rightarrow> u32" where
  "gate_ptr s i = idt s + of_nat (8 * i)"

text \<open>The code that a gate leads to, the stub of its handler.\<close>

definition stub_of :: "kernel \<Rightarrow> nat \<Rightarrow> u32" where
  "stub_of s j = gate_target (gate_at (mem s) (gate_ptr s j))"




abbreviation stub_size :: "kernel \<Rightarrow> nat" where "stub_size s \<equiv> unat (wrapper_size (syms s))"
abbreviation stub_call :: "kernel \<Rightarrow> nat" where "stub_call s \<equiv> unat (call_handler_offset (syms s))"

text \<open>
  The copy of the wrapper at \<open>p\<close>: the operand of its call, relative to the end of the call, leads to
  the handler, and every other byte is the wrapper's.
\<close>

definition stub_for :: "kernel \<Rightarrow> u32 \<Rightarrow> u32 \<Rightarrow> bool" where
  "stub_for s p handler \<longleftrightarrow>
     load32 (mem s) (p + of_nat (stub_call s + 1)) + (p + call_handler_offset (syms s) + call_size (syms s)) = handler
     \<and> (\<forall>k < stub_size s. k \<le> stub_call s \<or> stub_call s + 5 \<le> k \<longrightarrow>
          mem s (p + of_nat k) = mem s (handler_wrapper_template (syms s) + of_nat k))"

abbreviation idt_bytes :: "kernel \<Rightarrow> u32 set" where "idt_bytes s \<equiv> bytes_at (idt s) 2048"
abbreviation wrapper_bytes :: "kernel \<Rightarrow> u32 set" where
  "wrapper_bytes s \<equiv> bytes_at (handler_wrapper_template (syms s)) (stub_size s)"

text \<open>
  The table of gates, the heap, its table with room for \<open>n\<close> blocks, and the wrapper do not overlap,
  and the call instruction lies inside the wrapper.
\<close>

definition int_layout :: "nat \<Rightarrow> kernel \<Rightarrow> bool" where
  "int_layout n s \<longleftrightarrow> idt_bytes s \<inter> heap_table_bytes n s = {} \<and> idt_bytes s \<inter> heap_bytes s = {}
     \<and> heap_table_bytes n s \<inter> heap_bytes s = {} \<and> wrapper_bytes s \<inter> idt_bytes s = {}
     \<and> wrapper_bytes s \<inter> heap_table_bytes n s = {} \<and> wrapper_bytes s \<inter> heap_bytes s = {}
     \<and> stub_call s + 5 \<le> stub_size s
     \<and> unat (handler_wrapper_template (syms s)) + stub_size s \<le> 2 ^ 32"

lemma target_of_halves: "ucast (ucast v :: u16) OR push_bit 16 (ucast (ucast (drop_bit 16 v) :: u16)) = (v :: u32)"
proof (rule bit_word_eqI)
  fix n assume n: "n < LENGTH(32)"
  consider "n < 16" | "16 \<le> n" by linarith
  then show "bit (ucast (ucast v :: u16) OR push_bit 16 (ucast (ucast (drop_bit 16 v) :: u16)) :: u32) n = bit v n"
    using n by cases (simp_all add: bit_simps less_diff_conv2)
qed

lemma low_half: "ucast (v AND 0xFFFF :: u32) = (ucast v :: u16)"
proof (rule bit_word_eqI)
  fix n assume n: "n < LENGTH(16)"
  have "(0xFFFF :: u32) = mask 16"
    by (simp add: mask_eq_exp_minus_1)
  then show "bit (ucast (v AND 0xFFFF) :: u16) n = bit (ucast v :: u16) n"
    using n by (simp only: bit_simps) auto
qed

text \<open>What the six stores of \<open>set_int_handler\<close> leave in the gate, around a call that keeps its bytes.\<close>

lemma gate_stored:
  assumes "\<And>x. x \<in> bytes_at g 8 \<Longrightarrow> m x = (store8 (g + 4) 0 (store8 (g + 5) type (store16 (g + 2) sel m0))) x"
  shows "gate_at (store16 (g + 6) (ucast (drop_bit 16 p)) (store16 g (ucast (p AND 0xFFFF)) m)) g
    = \<lparr>gate_target = p, gate_selector = sel, gate_kind = type\<rparr>"
    and "x \<notin> bytes_at g 8 \<Longrightarrow> store16 (g + 6) v (store16 g w m) x = m x"
proof -
  have in8: "g + of_nat k \<in> bytes_at g 8" if "k < 8" for k
    using that by (simp add: bytes_at_def unat_of_nat_small)
  have m: "m (g + 2) = ucast sel" "m (g + 3) = ucast (drop_bit 8 sel)" "m (g + 5) = type"
    using assms [OF in8 [of 2]] assms [OF in8 [of 3]] assms [OF in8 [of 5]]
    by (simp_all add: store8_def store16_def add.assoc)
  show "gate_at (store16 (g + 6) (ucast (drop_bit 16 p)) (store16 g (ucast (p AND 0xFFFF)) m)) g
      = \<lparr>gate_target = p, gate_selector = sel, gate_kind = type\<rparr>"
    by (simp add: gate_at_def low_half load16_def store16_def load8_def m add.assoc word_of_bytes16 target_of_halves)
  show "x \<notin> bytes_at g 8 \<Longrightarrow> store16 (g + 6) v (store16 g w m) x = m x"
    using in8 [of 0] in8 [of 1] in8 [of 6] in8 [of 7] by (auto simp: store16_def add.assoc)
qed

definition int_kept :: "kernel \<Rightarrow> kernel \<Rightarrow> bool" where
  "int_kept s s' \<longleftrightarrow> idt s' = idt s \<and> idtr s' = idtr s \<and> syms s' = syms s \<and> heap_ptr s' = heap_ptr s \<and> heap_end s' = heap_end s
     \<and> d_heap (heap_state s') = d_heap (heap_state s) \<and> d_table_size (heap_state s') = d_table_size (heap_state s)"

text \<open>The bytes of the stub: the copy of the wrapper with its operand patched.\<close>

lemma stub_stored:
  fixes p t v w :: u32 and m :: mem
  assumes "unat p + n \<le> 2 ^ 32" "unat t + n \<le> 2 ^ 32" "c + 5 \<le> n" "unat w = n"
  defines "m' \<equiv> store32 (p + of_nat (c + 1)) v (memcpy p t w m)"
  shows "x \<notin> bytes_at p n \<Longrightarrow> m' x = m x" "load32 m' (p + of_nat (c + 1)) = v"
    "k < n \<Longrightarrow> k \<le> c \<or> c + 5 \<le> k \<Longrightarrow> m' (p + of_nat k) = m (t + of_nat k)"
proof -
  have mv: "memcpy p t w m = moved p t 0 n m"
    using assms(1,2,4) by (subst memcpy_moved) simp_all
  show "x \<notin> bytes_at p n \<Longrightarrow> m' x = m x"
    using bytes_at_sub [of "c + 1" 4 n p] assms(1,3) unfolding m'_def mv
    by (subst cell32.st_other) (auto simp: moved_other)
  show "load32 m' (p + of_nat (c + 1)) = v"
    unfolding m'_def by (rule load32_store32_same)
  show "m' (p + of_nat k) = m (t + of_nat k)" if "k < n" "k \<le> c \<or> c + 5 \<le> k"
  proof -
    have "p + of_nat k \<notin> bytes_at (p + of_nat (c + 1)) 4"
      using bytes_at_offset [of "c + 1" 4 "p + of_nat k" p] that assms(1,3) by (auto simp: unat_of_nat_small)
    then have "m' (p + of_nat k) = moved p t 0 n m (p + of_nat k)"
      unfolding m'_def mv by (rule cell32.st_other)
    then show ?thesis
      using that(1) assms(1) by (simp add: moved_dest)
  qed
qed

lemma set_int_handler_step:
  assumes inv: "heap_regions s vs" "heap_room 1 s vs" "\<not> heap_full s" "heap_top s vs + stub_size s \<le> unat (heap_end s)"
    and lay: "int_layout n s" "length vs \<le> n"
  obtains p s' vs' where "set_int_handler index sel h ty s = Some s'" "int_kept s s'" "heap_regions s' vs'"
    "set vs' = insert (p, wrapper_size (syms s)) (set vs)" "length vs' = Suc (length vs)"
    "heap_top s' vs' \<le> heap_top s vs + stub_size s"
    "cells unat (p, wrapper_size (syms s)) \<inter> occupied unat vs = {}" "cells unat (p, wrapper_size (syms s)) \<subseteq> heap_range s"
    "gate_at (mem s') (gate_ptr s (unat index)) = \<lparr>gate_target = p, gate_selector = sel, gate_kind = ty\<rparr>"
    "stub_for s' p h"
    "\<forall>x. x \<notin> bytes_at (gate_ptr s (unat index)) 8 \<longrightarrow> x \<notin> heap_table_bytes n s \<longrightarrow>
        unat x \<notin> cells unat (p, wrapper_size (syms s)) \<longrightarrow> mem s' x = mem s x"
proof -
  let ?g = "gate_ptr s (unat index)" and ?ws = "wrapper_size (syms s)" and ?t = "handler_wrapper_template (syms s)"
  let ?m1 = "store8 (?g + 4) 0 (store8 (?g + 5) ty (store16 (?g + 2) sel (mem s)))"
  let ?s1 = "(cli s)\<lparr>mem := ?m1\<rparr>"
  have i: "unat index < 256"
    using unsigned_less [where ?'a = nat, of index] by simp
  have g: "idt s + 8 * ucast index = ?g"
    by (simp add: gate_ptr_def)
  have G: "bytes_at ?g 8 \<subseteq> idt_bytes s"
    unfolding gate_ptr_def using i by (intro bytes_at_sub) simp_all
  have T: "bytes_at (heap_ptr s) (8 * (length vs + 2)) \<subseteq> heap_table_bytes n s"
    using lay(2) by (intro bytes_at_mono) simp
  have dis: "idt_bytes s \<inter> heap_table_bytes n s = {}" "idt_bytes s \<inter> heap_bytes s = {}"
    "heap_table_bytes n s \<inter> heap_bytes s = {}" "wrapper_bytes s \<inter> idt_bytes s = {}"
    "wrapper_bytes s \<inter> heap_table_bytes n s = {}" "wrapper_bytes s \<inter> heap_bytes s = {}"
    "stub_call s + 5 \<le> stub_size s" "unat ?t + stub_size s \<le> 2 ^ 32"
    using lay(1) by (simp_all add: int_layout_def)
  have m1: "?m1 x = mem s x" if "x \<notin> bytes_at ?g 8" for x
  proof -
    have "?g + of_nat k \<in> bytes_at ?g 8" if "k < 8" for k
      using that by (simp add: bytes_at_def unat_of_nat_small)
    from this [of 2] this [of 3] this [of 4] this [of 5] show ?thesis
      using that by (auto simp: store8_def store16_def add.assoc)
  qed
  have room: "unat (heap_ptr s) + 8 * (length vs + 2) < 2 ^ 32"
    using inv(2) by (simp add: heap_room_def)
  have Tb: "bytes_at (heap_ptr s) (8 * length vs) \<subseteq> heap_table_bytes n s"
    using lay(2) by (intro bytes_at_mono) simp
  have "heap_regions (cli s) vs"
    using inv(1) by (simp add: heap_regions_def heap_table_def heap_ptr_def heap_end_def)
  then have "heap_regions ?s1 vs"
  proof (rule heap_regions_frame)
    show "8 * length vs \<le> 2 ^ 32"
      using room by simp
    fix x assume "x \<in> bytes_at (heap_ptr (cli s)) (8 * length vs)"
    then have "x \<notin> bytes_at ?g 8"
      using Tb G dis(1) by (auto simp: heap_ptr_def)
    then show "?m1 x = mem (cli s) x"
      using m1 by simp
  qed
  moreover have "heap_room 1 ?s1 vs" "\<not> heap_full ?s1" "0 < ?ws" "heap_top ?s1 vs + unat ?ws \<le> unat (heap_end ?s1)"
    using inv(2-4) dis(7) by (simp_all add: heap_room_def heap_full_def heap_ptr_def heap_end_def word_less_nat_alt)
  ultimately obtain p s2 vs' where k: "kmalloc ?ws ?s1 = Some (p, s2)" "heap_regions s2 vs'"
      "set vs' = insert (p, ?ws) (set vs)" "length vs' = Suc (length vs)"
      "heap_top s2 vs' \<le> heap_top ?s1 vs + unat ?ws"
      "cells unat (p, ?ws) \<inter> occupied unat vs = {}" "cells unat (p, ?ws) \<subseteq> heap_range ?s1"
      "heap_step (length vs + 2) ?s1 s2"
    by (rule kmalloc_grants)
  note st = heap_step_fields [OF k(8)]
  have fields: "heap_ptr s2 = heap_ptr s" "heap_end s2 = heap_end s" "syms s2 = syms s" "idt s2 = idt s" "idtr s2 = idtr s"
    "d_heap (heap_state s2) = d_heap (heap_state s)" "d_table_size (heap_state s2) = d_table_size (heap_state s)"
    using st by (simp_all add: heap_ptr_def heap_end_def)
  have m2: "mem s2 x = ?m1 x" if "x \<notin> heap_table_bytes n s" for x
    using st(7) [of x] T that by (auto simp: heap_ptr_def)
  have sub: "cells unat (p, ?ws) \<subseteq> heap_range s"
    using k(7) by (simp add: heap_end_def)
  have "unat p + stub_size s \<le> unat (heap_end s)"
  proof -
    have "unat p + stub_size s - 1 \<in> cells unat (p, ?ws)"
      using dis(7) by (auto simp: cells_def)
    with sub have "unat p + stub_size s - 1 < unat (heap_end s)"
      by (auto simp del: One_nat_def)
    then show ?thesis
      using dis(7) by linarith
  qed
  then have p: "unat p + stub_size s \<le> 2 ^ 32"
    using order_le_less_trans [OF _ unat_less_32 [of "heap_end s"]] by (simp add: less_imp_le)
  have S: "x \<in> bytes_at p (stub_size s) \<longleftrightarrow> unat x \<in> cells unat (p, ?ws)" for x
    using bytes_at_nowrap [OF p, of x] by (simp add: cells_def)
  have SH: "bytes_at p (stub_size s) \<subseteq> heap_bytes s"
    using S sub by auto
  define v where "v = h - (p + call_handler_offset (syms s) + call_size (syms s))"
  define m4 where "m4 = store32 (p + of_nat (stub_call s + 1)) v (memcpy p ?t ?ws (mem s2))"
  define m6 where "m6 = store16 (?g + 6) (ucast (drop_bit 16 p)) (store16 ?g (ucast (p AND 0xFFFF)) m4)"
  note m4 = stub_stored [OF p dis(8,7) refl, where m = "mem s2" and v = v, folded m4_def]
  have m4g: "m4 x = ?m1 x" if "x \<in> bytes_at ?g 8" for x
  proof -
    have "x \<notin> bytes_at p (stub_size s)" "x \<notin> heap_table_bytes n s"
      using that G SH dis(1,2) by blast+
    then show ?thesis
      using m4(1) m2 by simp
  qed
  have gate: "gate_at m6 ?g = \<lparr>gate_target = p, gate_selector = sel, gate_kind = ty\<rparr>"
    unfolding m6_def by (rule gate_stored(1)) (rule m4g)
  have m6: "m6 x = m4 x" if "x \<notin> bytes_at ?g 8" for x
    unfolding m6_def by (rule gate_stored(2) [OF m4g that])
  have out: "m6 x = mem s x" if "x \<notin> bytes_at ?g 8" "x \<notin> heap_table_bytes n s" "unat x \<notin> cells unat (p, ?ws)" for x
    using m6 [OF that(1)] m4(1) [of x] m2 [OF that(2)] m1 [OF that(1)] that(3) S by simp
  show thesis
  proof (rule that [of "s2\<lparr>mem := m6\<rparr>" vs' p])
    have "m4 = store32 (p + call_handler_offset (syms s) + 1) v (memcpy p ?t ?ws (mem s2))"
      unfolding m4_def by (simp add: add_ac)
    then show "set_int_handler index sel h ty s = Some (s2\<lparr>mem := m6\<rparr>)"
      using k(1) by (simp add: set_int_handler_def Let_def g fields m6_def v_def)
    show "int_kept s (s2\<lparr>mem := m6\<rparr>)"
      using fields by (simp add: int_kept_def heap_ptr_def heap_end_def)
    show "heap_regions (s2\<lparr>mem := m6\<rparr>) vs'"
    proof (rule heap_regions_frame [OF k(2)])
      show "8 * length vs' \<le> 2 ^ 32"
        using room k(4) by simp
      fix x assume "x \<in> bytes_at (heap_ptr s2) (8 * length vs')"
      then have "x \<in> heap_table_bytes n s"
        using T bytes_at_mono [of "8 * length vs'" "8 * (length vs + 2)" "heap_ptr s"] k(4) fields(1) by auto
      then have "x \<notin> bytes_at ?g 8" "x \<notin> bytes_at p (stub_size s)"
        using G SH dis(1,3) by blast+
      then show "m6 x = mem s2 x"
        using m6 m4(1) by simp
    qed
    show "stub_for (s2\<lparr>mem := m6\<rparr>) p h"
    proof -
      have big: "bytes_at (p + of_nat (stub_call s + 1)) 4 \<subseteq> heap_bytes s"
        by (rule subset_trans [OF bytes_at_sub SH]) (use dis(7) less_imp_le [OF unat_less_32 [of ?ws]] in simp_all)
      have "load32 m6 (p + of_nat (stub_call s + 1)) = load32 m4 (p + of_nat (stub_call s + 1))"
        by (rule cell32.ld_cong, rule m6) (use big G dis(2) in blast)
      then have "load32 m6 (p + of_nat (stub_call s + 1)) + (p + call_handler_offset (syms s) + call_size (syms s)) = h"
        using m4(2) by (simp add: v_def)
      moreover have "m6 (p + of_nat k) = m6 (?t + of_nat k)"
        if k: "k < stub_size s" "k \<le> stub_call s \<or> stub_call s + 5 \<le> k" for k
      proof -
        have "k < 2 ^ 32"
          using order_less_trans [OF k(1) unat_less_32] by simp
        then have "?t + of_nat k \<in> wrapper_bytes s" "p + of_nat k \<in> bytes_at p (stub_size s)"
          using k(1) by (simp_all add: bytes_at_def unat_of_nat_small)
        then have w: "?t + of_nat k \<notin> bytes_at ?g 8" "?t + of_nat k \<notin> heap_table_bytes n s"
          "unat (?t + of_nat k) \<notin> cells unat (p, ?ws)" "p + of_nat k \<notin> bytes_at ?g 8"
          using dis(2,4-6) G SH S by blast+
        then show ?thesis
          using out [OF w(1-3)] m6 [OF w(4)] m4(3) [OF k] m2 [OF w(2)] m1 [OF w(1)] by simp
      qed
      ultimately show ?thesis
        by (simp add: stub_for_def fields)
    qed
  qed (use k(3-7) gate out sub fields in \<open>simp_all add: heap_end_def m6_def\<close>)
qed

section \<open>Gates that serve a handler\<close>

text \<open>Gate \<open>j\<close> leads through a stub of its own, a block of the heap, to the handler.\<close>

definition gate_serves :: "kernel \<Rightarrow> run list \<Rightarrow> nat \<Rightarrow> u16 \<Rightarrow> u8 \<Rightarrow> u32 \<Rightarrow> bool" where
  "gate_serves s vs j sel ty h \<longleftrightarrow> (\<exists>p. (p, wrapper_size (syms s)) \<in> set vs
     \<and> gate_at (mem s) (gate_ptr s j) = \<lparr>gate_target = p, gate_selector = sel, gate_kind = ty\<rparr> \<and> stub_for s p h)"

text \<open>What the loop over the gates needs of the heap for \<open>k\<close> more stubs.\<close>

definition stub_room :: "nat \<Rightarrow> nat \<Rightarrow> kernel \<Rightarrow> run list \<Rightarrow> bool" where
  "stub_room k n s vs \<longleftrightarrow> heap_regions s vs \<and> int_layout n s \<and> length vs + k \<le> n + 1
     \<and> heap_room k s vs \<and> 8 * (length vs + k) \<le> unat (page_bytes (d_table_size (heap_state s)))
     \<and> heap_top s vs + k * stub_size s \<le> unat (heap_end s)"

lemma gate_at_cong: "(\<And>x. x \<in> bytes_at g 8 \<Longrightarrow> m x = m' x) \<Longrightarrow> gate_at m g = gate_at m' g"
proof -
  assume eq: "\<And>x. x \<in> bytes_at g 8 \<Longrightarrow> m x = m' x"
  have "g + of_nat k \<in> bytes_at g 8" if "k < 8" for k
    using that by (simp add: bytes_at_def unat_of_nat_small)
  then have "m (g + of_nat k) = m' (g + of_nat k)" if "k < 8" for k
    using that eq by blast
  from this [of 0] this [of 1] this [of 2] this [of 3] this [of 5] this [of 6] this [of 7] show ?thesis
    by (simp add: gate_at_def load16_def load8_def add.assoc)
qed

lemma gates_disjoint:
  assumes "i < 256" "j < 256" "i \<noteq> j"
  shows "bytes_at (gate_ptr s i) 8 \<inter> bytes_at (gate_ptr s j) 8 = {}"
  using assms bytes_at_offset [of "8 * i" 8 _ "idt s"] bytes_at_offset [of "8 * j" 8 _ "idt s"]
  by (fastforce simp: gate_ptr_def)

lemma stub_for_cong:
  assumes "stub_for s p h" "syms s' = syms s" "stub_call s + 5 \<le> stub_size s"
    and "\<And>x. x \<in> bytes_at p (stub_size s) \<Longrightarrow> mem s' x = mem s x"
    and "\<And>x. x \<in> wrapper_bytes s \<Longrightarrow> mem s' x = mem s x"
  shows "stub_for s' p h"
proof -
  have "bytes_at (p + of_nat (stub_call s + 1)) 4 \<subseteq> bytes_at p (stub_size s)"
    using assms(3) less_imp_le [OF unat_less_32 [of "wrapper_size (syms s)"]] by (intro bytes_at_sub) simp_all
  then have "load32 (mem s') (p + of_nat (stub_call s + 1)) = load32 (mem s) (p + of_nat (stub_call s + 1))"
    by (intro cell32.ld_cong assms(4)) blast
  moreover have "q + of_nat k \<in> bytes_at q (stub_size s)" if "k < stub_size s" for q :: u32 and k
  proof -
    have "k < 2 ^ 32"
      using order_less_trans [OF that unat_less_32] by simp
    then show ?thesis
      using that by (simp add: bytes_at_def unat_of_nat_small)
  qed
  ultimately show ?thesis
    using assms(1,2,4,5) unfolding stub_for_def by simp
qed

text \<open>One step: the gate that is set serves its handler, every other gate what it served before.\<close>

lemma set_int_handler_serves:
  assumes "stub_room (Suc k) n s vs"
  obtains s' vs' where "set_int_handler index sel h ty s = Some s'" "int_kept s s'" "stub_room k n s' vs'"
    "gate_serves s' vs' (unat index) sel ty h"
    "\<And>j sel' ty' h'. j < 256 \<Longrightarrow> j \<noteq> unat index \<Longrightarrow> gate_serves s vs j sel' ty' h' \<Longrightarrow> gate_serves s' vs' j sel' ty' h'"
    "(stub_of s' (unat index), wrapper_size (syms s)) \<notin> set vs"
    "\<And>j. j < 256 \<Longrightarrow> j \<noteq> unat index \<Longrightarrow> stub_of s' j = stub_of s j"
proof -
  let ?ws = "wrapper_size (syms s)" and ?g = "gate_ptr s (unat index)"
  have inv: "heap_regions s vs" "heap_room 1 s vs" "heap_top s vs + stub_size s \<le> unat (heap_end s)" "int_layout n s"
    "length vs \<le> n" "heap_room (Suc k) s vs"
    "8 * (length vs + Suc k) \<le> unat (page_bytes (d_table_size (heap_state s)))"
    "heap_top s vs + Suc k * stub_size s \<le> unat (heap_end s)" "length vs + Suc k \<le> n + 1"
    using assms by (simp_all add: stub_room_def heap_room_def)
  have nf: "\<not> heap_full s"
    by (rule not_heap_full [of s vs]) (use inv(1,2,7) in \<open>simp_all add: heap_regions_def heap_room_def\<close>)
  obtain p s' vs' where s': "set_int_handler index sel h ty s = Some s'" "int_kept s s'" "heap_regions s' vs'"
    "set vs' = insert (p, ?ws) (set vs)" "length vs' = Suc (length vs)" "heap_top s' vs' \<le> heap_top s vs + stub_size s"
    "cells unat (p, ?ws) \<inter> occupied unat vs = {}" "cells unat (p, ?ws) \<subseteq> heap_range s"
    "gate_at (mem s') ?g = \<lparr>gate_target = p, gate_selector = sel, gate_kind = ty\<rparr>" "stub_for s' p h"
    and frame: "\<forall>x. x \<notin> bytes_at ?g 8 \<longrightarrow> x \<notin> heap_table_bytes n s \<longrightarrow> unat x \<notin> cells unat (p, ?ws) \<longrightarrow> mem s' x = mem s x"
    by (rule set_int_handler_step [OF inv(1,2) nf inv(3-5), of index sel h ty])
  have kept: "idt s' = idt s" "syms s' = syms s" "heap_ptr s' = heap_ptr s" "heap_end s' = heap_end s"
    "d_heap (heap_state s') = d_heap (heap_state s)" "d_table_size (heap_state s') = d_table_size (heap_state s)"
    using s'(2) by (simp_all add: int_kept_def)
  have i: "unat index < 256"
    using unsigned_less [where ?'a = nat, of index] by simp
  have G: "bytes_at (gate_ptr s j) 8 \<subseteq> idt_bytes s" if "j < 256" for j
    unfolding gate_ptr_def using that by (intro bytes_at_sub) simp_all
  have dis: "idt_bytes s \<inter> heap_table_bytes n s = {}" "idt_bytes s \<inter> heap_bytes s = {}"
    "heap_table_bytes n s \<inter> heap_bytes s = {}" "wrapper_bytes s \<inter> idt_bytes s = {}"
    "wrapper_bytes s \<inter> heap_table_bytes n s = {}" "wrapper_bytes s \<inter> heap_bytes s = {}"
    "stub_call s + 5 \<le> stub_size s"
    using inv(4) by (simp_all add: int_layout_def)
  have gates: "gate_at (mem s') (gate_ptr s j) = gate_at (mem s) (gate_ptr s j)" if j: "j < 256" "j \<noteq> unat index" for j
  proof (rule gate_at_cong, rule frame [rule_format])
    fix x assume x: "x \<in> bytes_at (gate_ptr s j) 8"
    then show "x \<notin> bytes_at ?g 8"
      using gates_disjoint [OF j(1) i j(2), of s] by blast
    show "x \<notin> heap_table_bytes n s" "unat x \<notin> cells unat (p, ?ws)"
      using x G [OF j(1)] dis(1,2) s'(8) by blast+
  qed
  have ptr: "gate_ptr s' j = gate_ptr s j" for j
    using kept by (simp add: gate_ptr_def)
  show thesis
  proof (rule that [OF s'(1,2)])
    have "unat p \<in> cells unat (p, ?ws)"
      using dis(7) by (auto simp: cells_def)
    then have "(p, ?ws) \<notin> set vs"
      using s'(7) by (auto simp: occupied_def)
    then show "(stub_of s' (unat index), ?ws) \<notin> set vs"
      using s'(9) by (simp add: stub_of_def ptr)
    show "stub_of s' j = stub_of s j" if "j < 256" "j \<noteq> unat index" for j
      using gates [OF that] by (simp add: stub_of_def ptr)
    show "stub_room k n s' vs'"
      using inv(4,6-9) s'(3,5,6) kept
      by (simp add: stub_room_def int_layout_def heap_room_def)
    show "gate_serves s' vs' (unat index) sel ty h"
      using s'(4,9,10) kept by (auto simp: gate_serves_def gate_ptr_def)
    fix j sel' ty' h' assume j: "j < 256" "j \<noteq> unat index" "gate_serves s vs j sel' ty' h'"
    then obtain q where q: "(q, ?ws) \<in> set vs" "stub_for s q h'"
        "gate_at (mem s) (gate_ptr s j) = \<lparr>gate_target = q, gate_selector = sel', gate_kind = ty'\<rparr>"
      by (auto simp: gate_serves_def)
    note gates [OF j(1,2)]
    moreover have "stub_for s' q h'"
    proof (rule stub_for_cong [OF q(2) kept(2) dis(7)])
      have occ: "cells unat (q, ?ws) \<subseteq> occupied unat vs"
        using q(1) by (auto simp: occupied_def)
      have range: "occupied unat vs \<subseteq> heap_range s"
        using inv(1) placed_occupied by (simp add: heap_regions_def)
      have fit: "unat q + stub_size s \<le> 2 ^ 32"
      proof -
        have "unat q + stub_size s - 1 \<in> heap_range s"
          using occ range dis(7) by (auto simp: cells_def subset_iff)
        then have "unat q + stub_size s - 1 < 4294967296"
          using order_less_trans [OF _ unat_less_32 [of "heap_end s"]] by simp
        then show ?thesis by simp
      qed
      fix x assume "x \<in> bytes_at q (stub_size s)"
      then have x: "unat x \<in> cells unat (q, ?ws)"
        using bytes_at_nowrap [OF fit, of x] by (simp add: cells_def)
      then have h: "x \<in> heap_bytes s" "unat x \<notin> cells unat (p, ?ws)"
        using occ range s'(7) by blast+
      then show "mem s' x = mem s x"
        using G [OF i] dis(2,3) by (intro frame [rule_format]) blast+
    next
      fix x assume "x \<in> wrapper_bytes s"
      then show "mem s' x = mem s x"
        using G [OF i] dis(4-6) s'(8) by (intro frame [rule_format]) blast+
    qed
    ultimately show "gate_serves s' vs' j sel' ty' h'"
      using q s'(4) kept by (auto simp: gate_serves_def gate_ptr_def)
  qed
qed

lemma stub_room_idt:
  assumes "stub_room k n s vs" "\<And>x. x \<notin> idt_bytes s \<Longrightarrow> m x = mem s x"
  shows "stub_room k n (s\<lparr>mem := m, idtr := q\<rparr>) vs"
proof -
  have r: "heap_regions s vs" "int_layout n s" "length vs + k \<le> n + 1" "heap_room k s vs"
    "8 * (length vs + k) \<le> unat (page_bytes (d_table_size (heap_state s)))"
    "heap_top s vs + k * stub_size s \<le> unat (heap_end s)"
    using assms(1) by (simp_all add: stub_room_def)
  have cur: "address_space sp (s\<lparr>mem := m, idtr := q\<rparr>) = address_space sp s" for sp
    by (cases sp) (simp_all add: address_space_def)
  have "bytes_at (heap_ptr s) (8 * length vs) \<subseteq> heap_table_bytes n s"
    using r(3) by (intro bytes_at_mono) simp
  then have "m x = mem s x" if "x \<in> bytes_at (heap_ptr s) (8 * length vs)" for x
    using that r(2) by (intro assms(2)) (auto simp: int_layout_def)
  moreover have "8 * length vs \<le> 2 ^ 32"
    using r(4) by (simp add: heap_room_def)
  ultimately have "heap_regions (s\<lparr>mem := m\<rparr>) vs"
    using heap_regions_frame [OF r(1)] by blast
  then have "heap_regions (s\<lparr>mem := m, idtr := q\<rparr>) vs"
    by (simp add: heap_regions_def heap_table_def heap_ptr_def heap_end_def cur)
  then show ?thesis
    using r by (simp add: stub_room_def int_layout_def heap_room_def heap_ptr_def heap_end_def cur)
qed

lemma gate_serves_stub: "gate_serves s vs j sel ty h \<Longrightarrow> (stub_of s j, wrapper_size (syms s)) \<in> set vs"
  by (auto simp: gate_serves_def stub_of_def)

text \<open>The loop of \<open>init_interrupts\<close>: after \<open>i\<close> rounds the first \<open>i\<close> gates serve the handler, each with a stub of its own.\<close>

lemma set_all_handlers:
  assumes "stub_room (k + 256) n s vs"
  obtains s' vs' where "for_opt 256 (\<lambda>i s. set_int_handler (of_nat i) sel (h (syms s)) ty s) s = Some s'"
    "int_kept s s'" "stub_room k n s' vs'" "\<forall>j < 256. gate_serves s' vs' j sel ty (h (syms s))" "inj_on (stub_of s') {..<256}"
proof -
  let ?P = "\<lambda>i t. int_kept s t \<and> inj_on (stub_of t) {..<i}
     \<and> (\<exists>ws. stub_room (k + 256 - i) n t ws \<and> (\<forall>j < i. gate_serves t ws j sel ty (h (syms s))))"
  have "\<exists>t. for_opt 256 (\<lambda>i s. set_int_handler (of_nat i) sel (h (syms s)) ty s) s = Some t \<and> ?P 256 t"
  proof (rule for_opt_rule [where P = ?P])
    show "?P 0 s"
      using assms by (auto simp: int_kept_def)
    fix i t assume i: "i < (256 :: nat)" and P: "?P i t"
    have e: "k + 256 - i = Suc (k + 255 - i)"
      using i by simp
    obtain ws where t: "int_kept s t" "stub_room (Suc (k + 255 - i)) n t ws"
        "\<forall>j < i. gate_serves t ws j sel ty (h (syms s))" "inj_on (stub_of t) {..<i}"
      using P unfolding e by blast
    have sy: "syms t = syms s"
      using t(1) by (simp add: int_kept_def)
    obtain t' ws' where t': "set_int_handler (of_nat i) sel (h (syms t)) ty t = Some t'" "int_kept t t'"
        "stub_room (k + 255 - i) n t' ws'" "gate_serves t' ws' (unat (of_nat i :: u8)) sel ty (h (syms t))"
        "\<And>j sel' ty' h'. j < 256 \<Longrightarrow> j \<noteq> unat (of_nat i :: u8) \<Longrightarrow> gate_serves t ws j sel' ty' h' \<Longrightarrow> gate_serves t' ws' j sel' ty' h'"
        "(stub_of t' (unat (of_nat i :: u8)), wrapper_size (syms t)) \<notin> set ws"
        "\<And>j. j < 256 \<Longrightarrow> j \<noteq> unat (of_nat i :: u8) \<Longrightarrow> stub_of t' j = stub_of t j"
      using set_int_handler_serves [OF t(2), of "of_nat i" sel "h (syms t)" ty] by blast
    have ui: "unat (of_nat i :: u8) = i"
      using i by (simp add: unat_of_nat)
    have "gate_serves t' ws' j sel ty (h (syms s))" if "j < Suc i" for j
      using t'(4,5) t(3) that i unfolding ui sy by (cases "j = i") simp_all
    moreover have "inj_on (stub_of t') {..<Suc i}"
    proof -
      have same: "stub_of t' j = stub_of t j" if "j < i" for j
        using t'(7) that i unfolding ui by simp
      then have "inj_on (stub_of t') {..<i}"
        using t(4) by (simp add: inj_on_def)
      moreover have "stub_of t' i \<noteq> stub_of t' j" if "j < i" for j
        using t(3) t'(6) that unfolding ui same [OF that] by (auto simp: gate_serves_stub)
      ultimately show ?thesis
        by (auto simp: lessThan_Suc)
    qed
    moreover have "int_kept s t'" "stub_room (k + 256 - Suc i) n t' ws'"
      using t(1) t'(2,3) i by (simp_all add: int_kept_def add.commute)
    ultimately show "\<exists>t'. set_int_handler (of_nat i) sel (h (syms t)) ty t = Some t' \<and> ?P (Suc i) t'"
      using t'(1) by blast
  qed
  then show thesis
    using that by auto
qed

lemma address_space_idt [simp]:
  "address_space sp (s\<lparr>idt := t\<rparr>) = address_space sp s" "address_space sp (s\<lparr>idtr := q\<rparr>) = address_space sp s"
  "address_space sp (s\<lparr>out_log := l\<rparr>) = address_space sp s"
  by (cases sp; simp add: address_space_def)+

lemma stub_room_log: "stub_room k n (s\<lparr>out_log := l\<rparr>) vs = stub_room k n s vs"
  by (simp add: stub_room_def int_layout_def heap_room_def heap_regions_def heap_table_def heap_ptr_def heap_end_def)

lemma gate_serves_log: "gate_serves (s\<lparr>out_log := l\<rparr>) vs j sel ty h = gate_serves s vs j sel ty h"
  by (simp add: gate_serves_def gate_ptr_def stub_for_def)

lemma add_virt_block_facts:
  assumes "virt_regions s vs" "virt_room 1 s vs" "0 < sz" "virt_end s vs + virt_len sz < 2 ^ 32"
    and "add_virt_block sz s = (r, s1)"
  shows "syms s1 = syms s \<and> unat r + virt_len sz \<le> 2 ^ 32"
  using assms(1-4)
proof (cases rule: add_virt_block_cases)
  case full
  then show ?thesis
    using assms(4,5) by (simp add: NULL_def)
next
  case (added r' t vs')
  then have "unat r + virt_len sz - 1 \<in> virt_range s"
    using assms(3,5) by (auto simp: cells_def virt_len_def word_less_nat_alt subset_iff)
  then have "unat r + virt_len sz - 1 < 4294967296"
    using order_less_trans [OF _ unat_less_32 [of "as_end (cur_space s)"]] by simp
  then show ?thesis
    using added assms(5) virt_step_fields by simp
qed

section \<open>Properties of the interrupt table\<close>

text \<open>
  A started kernel: regions \<open>0x80000000\<close> (32 pages) and \<open>0x803FF000\<close> (one page), their table at
  \<open>0x80010000\<close>; an empty heap of 10 pages at \<open>0x80013000\<close>, its table at \<open>0x80012000\<close>.
\<close>

definition started :: kernel where
  "started = paged\<lparr>
     mem := store32 0x8001000C 1 (store32 0x80010008 0x803FF000 (store32 0x80010004 32
       (store32 0x80010000 0x80000000 (\<lambda>_. 0)))),
     kernel_address_space := \<lparr>page_dir = 0x1000, as_start = KERNEL_ADDRESS_SPACE_START,
       as_end = KERNEL_ADDRESS_SPACE_END,
       virt_memory = \<lparr>v_block_count = 2, v_blocks = 0x80010000, v_table_size = 1\<rparr>,
       dynamic_memory = \<lparr>d_block_count = 0, d_blocks = 0x80012000, d_table_size = 1,
         d_heap = 0x80013000, d_heap_size = 10\<rparr>\<rparr>\<rparr>"

abbreviation started_regions :: "run list" where
  "started_regions \<equiv> [(0x80000000, 32), (0x803FF000, 1)]"

lemma started_simps [simp]:
  "page_dir (cur_space started) = 0x1000" "as_start (cur_space started) = 0x80000000"
  "as_end (cur_space started) = 0xFFFFFFFF"
  "virt_memory (cur_space started) = \<lparr>v_block_count = 2, v_blocks = 0x80010000, v_table_size = 1\<rparr>"
  "heap_state started = \<lparr>d_block_count = 0, d_blocks = 0x80012000, d_table_size = 1,
     d_heap = 0x80013000, d_heap_size = 10\<rparr>"
  "phys started = phys paged" "free_page_count started = free_page_count paged"
  "free_phys_memory_pointer started = free_phys_memory_pointer paged" "syms started = syms zero_kernel"
  by (simp_all add: started_def address_space_def paged_def two_runs_def zero_kernel_def)

lemma started_ok:
  "paging_inv 0x1000 started [(0x300000, 4), (0x200000, 2)]"
  "virt_regions started started_regions" "virt_room 1 started started_regions" "\<not> virt_table_full started"
proof -
  show "paging_inv 0x1000 started [(0x300000, 4), (0x200000, 2)]"
    using paged_inv paging_inv_cong(1) [of started paged] by simp
  have "load32 (mem started) 0x80010000 = 0x80000000" "load32 (mem started) 0x80010004 = 32"
    "load32 (mem started) 0x80010008 = 0x803FF000" "load32 (mem started) 0x8001000C = 1"
    by (simp_all add: started_def load32_def store32_def)
  then have "table (mem started) 0x80010000 started_regions"
    by (simp add: table_def ofs_def nth_Cons split: nat.split)
  then show "virt_regions started started_regions" "virt_room 1 started started_regions" "\<not> virt_table_full started"
    by (simp_all add: virt_regions_def virt_room_def virt_table_def virt_ptr_def virt_len_def virt_table_full_def)
qed

lemma started_heap: "stub_room 257 256 (started\<lparr>idt := 0x80020000\<rparr>) []"
proof -
  have d: "heap_state (started\<lparr>idt := 0x80020000\<rparr>) = \<lparr>d_block_count = 0, d_blocks = 0x80012000,
      d_table_size = 1, d_heap = 0x80013000, d_heap_size = 10\<rparr>"
    by simp
  have e: "heap_end (started\<lparr>idt := 0x80020000\<rparr>) = 0x8001D000" "heap_ptr (started\<lparr>idt := 0x80020000\<rparr>) = 0x80012000"
    unfolding heap_end_def heap_ptr_def d by simp_all
  have sy: "syms (started\<lparr>idt := 0x80020000\<rparr>) = syms zero_kernel"
    by simp
  have "bytes_at 0x80020000 2048 \<inter> bytes_at 0x80012000 2064 = {}" "bytes_at 0x80001000 14 \<inter> bytes_at 0x80020000 2048 = {}"
    "bytes_at 0x80001000 14 \<inter> bytes_at 0x80012000 2064 = {}"
    "bytes_at 0x80020000 2048 \<inter> {x. unat x \<in> {0x80013000 ..< 0x8001D000}} = {}"
    "bytes_at 0x80012000 2064 \<inter> {x. unat x \<in> {0x80013000 ..< 0x8001D000}} = {}"
    "bytes_at 0x80001000 14 \<inter> {x. unat x \<in> {0x80013000 ..< 0x8001D000}} = {}"
    by (auto simp: bytes_at_nowrap)
  then have "int_layout 256 (started\<lparr>idt := 0x80020000\<rparr>)"
    unfolding int_layout_def d e sy by (simp add: zero_kernel_def)
  moreover have "heap_regions (started\<lparr>idt := 0x80020000\<rparr>) []"
    unfolding heap_regions_def heap_table_def d e by (simp add: table_def)
  ultimately show ?thesis
    unfolding stub_room_def heap_room_def d e sy by (simp add: zero_kernel_def)
qed

text \<open>
  \<open>set_int_handler\<close> with room in the heap returns; the gate it sets has the selector and type and
  leads through a stub of its own, a patched copy of the wrapper, to the handler; every other gate
  serves what it served before, and the heap stays sound.
\<close>

theorem set_int_handler_installs_stub:
  assumes "stub_room (Suc k) n s vs"
  shows "\<exists>s' vs'. set_int_handler index sel h ty s = Some s' \<and> stub_room k n s' vs'
    \<and> gate_serves s' vs' (unat index) sel ty h
    \<and> (\<forall>j sel' ty' h'. j < 256 \<longrightarrow> j \<noteq> unat index \<longrightarrow> gate_serves s vs j sel' ty' h' \<longrightarrow> gate_serves s' vs' j sel' ty' h')"
proof -
  obtain s' vs' where "set_int_handler index sel h ty s = Some s'" "int_kept s s'" "stub_room k n s' vs'"
    "gate_serves s' vs' (unat index) sel ty h"
    "\<And>j sel' ty' h'. j < 256 \<Longrightarrow> j \<noteq> unat index \<Longrightarrow> gate_serves s vs j sel' ty' h' \<Longrightarrow> gate_serves s' vs' j sel' ty' h'"
    by (rule set_int_handler_serves [OF assms, of index sel h ty]) (rule that; assumption)
  then show ?thesis by blast
qed

theorem set_int_handler_installs_stub_witness:
  "\<exists>s' vs'. set_int_handler 0x21 8 0x80002100 0x8E (started\<lparr>idt := 0x80020000\<rparr>) = Some s'
    \<and> gate_serves s' vs' 0x21 8 0x8E 0x80002100"
proof -
  have "stub_room (Suc 256) 256 (started\<lparr>idt := 0x80020000\<rparr>) []"
    using started_heap by simp
  from set_int_handler_installs_stub [OF this, of "0x21" 8 "0x80002100" "0x8E"] show ?thesis
    by auto
qed

text \<open>
  C16: \<open>init_interrupts\<close>, with sound page tables, a sound table of regions that need not grow, and a heap
  with room for the 257 stubs (256 for the loop, one more for the timer) apart from the table and the wrapper, returns with all 256 gates installed: gate 32
  serves the timer, every other one the default handler, each through a stub in the heap that shares
  no byte with the stub of any other gate. The limit it loads is the size of the table, 2048, where
  the limit of a table of 2048 bytes is 2047.
\<close>

theorem init_interrupts_installs_all_gates:
  assumes "paging_inv dir s bs" and "page_dir (cur_space s) = dir"
    and "virt_regions s vs" and "virt_room 1 s vs" and "\<not> virt_table_full s" and "virt_end s vs + 4096 < 2 ^ 32"
    and "add_virt_block 1 s = (tbl, s1)" and "stub_room 257 n (s1\<lparr>idt := tbl\<rparr>) hs"
  shows "\<exists>s' hs'. init_interrupts s = Some s' \<and> idt s' = tbl \<and> idtr s' = (2048, tbl) \<and> heap_regions s' hs'
    \<and> (\<forall>j < 256. if j = 0x20 then gate_serves s' hs' j 8 0x8E (timer_handler_addr (syms s))
         else gate_serves s' hs' j 8 0xEE (default_handler_addr (syms s)))
    \<and> (\<forall>i < 256. \<forall>j < 256. i \<noteq> j \<longrightarrow> bytes_at (stub_of s' i) (stub_size s) \<inter> bytes_at (stub_of s' j) (stub_size s) = {})"
proof -
  have len: "virt_end s vs + virt_len 1 < 2 ^ 32" "(0 :: u32) < 1"
    using assms(6) by (simp_all add: virt_len_def)
  then obtain s2 where s2: "alloc_virt_pages NULL (- 1) 1 0xfff s = Some (tbl, s2)" "phys_only s1 s2"
    using alloc_virt_pages_step [OF assms(1-5) _ _ _ assms(7), of "0xfff"] by auto
  define s3 where "s3 = s2\<lparr>idt := tbl, mem := memset tbl 0 2048 (mem s2), idtr := (2048, tbl)\<rparr>"
  note f = phys_only_fields [OF s2(2)]
  have s1: "syms s1 = syms s" "unat tbl + 2048 \<le> 2 ^ 32"
    using add_virt_block_facts [OF assms(3,4) len(2,1) assms(7)] by (simp_all add: virt_len_def)
  have "stub_room 257 n (s2\<lparr>idt := tbl\<rparr>) hs"
    using assms(8) f
    by (simp add: stub_room_def int_layout_def heap_room_def heap_regions_def heap_table_def heap_ptr_def heap_end_def)
  moreover have "memset tbl 0 2048 (mem s2) x = mem (s2\<lparr>idt := tbl\<rparr>) x" if "x \<notin> idt_bytes (s2\<lparr>idt := tbl\<rparr>)" for x
    using cell8.fill_other [of tbl 2048 x "\<lambda>_. 0" "mem s2"] s1(2) that by (simp add: memset_fill)
  ultimately have "stub_room (1 + 256) n s3 hs"
    using stub_room_idt [of 257 n "s2\<lparr>idt := tbl\<rparr>" hs "memset tbl 0 2048 (mem s2)" "(2048, tbl)"] by (simp add: s3_def)
  then obtain s4 hs4 where s4: "for_opt 256 (\<lambda>i s. set_int_handler (of_nat i) 8 (default_handler_addr (syms s)) 0xEE s) s3 = Some s4"
      "int_kept s3 s4" "stub_room 1 n s4 hs4" "\<forall>j < 256. gate_serves s4 hs4 j 8 0xEE (default_handler_addr (syms s3))"
      "inj_on (stub_of s4) {..<256}"
    by (rule set_all_handlers)
  obtain l where l: "outportb 0x40 0xFF (outportb 0x40 0xFF (outportb 0x43 0x34 (init_PIC s4))) = s4\<lparr>out_log := l\<rparr>"
    by (simp add: outportb_def init_PIC_def init_slave_PIC_def init_master_PIC_def)
  have r: "stub_room (Suc 0) n (s4\<lparr>out_log := l\<rparr>) hs4"
    using s4(3) by (simp add: stub_room_log)
  obtain s5 hs5 where s5: "set_int_handler IRQ_0 8 (timer_handler_addr (syms s4)) 0x8E (s4\<lparr>out_log := l\<rparr>) = Some s5"
      "int_kept (s4\<lparr>out_log := l\<rparr>) s5" "stub_room 0 n s5 hs5" "gate_serves s5 hs5 (unat (0x20 :: u8)) 8 0x8E (timer_handler_addr (syms s4))"
      "\<And>j sel' ty' h'. j < 256 \<Longrightarrow> j \<noteq> unat (0x20 :: u8) \<Longrightarrow> gate_serves (s4\<lparr>out_log := l\<rparr>) hs4 j sel' ty' h' \<Longrightarrow> gate_serves s5 hs5 j sel' ty' h'"
      "(stub_of s5 (unat (0x20 :: u8)), wrapper_size (syms (s4\<lparr>out_log := l\<rparr>))) \<notin> set hs4"
      "\<And>j. j < 256 \<Longrightarrow> j \<noteq> unat (0x20 :: u8) \<Longrightarrow> stub_of s5 j = stub_of (s4\<lparr>out_log := l\<rparr>) j"
    using set_int_handler_serves [OF r, of "0x20" 8 "timer_handler_addr (syms s4)" "0x8E"] by blast
  have "init_interrupts s = Some s5"
  proof -
    have "syms (init_PIC s4) = syms s4"
      by (simp add: outportb_def init_PIC_def init_slave_PIC_def init_master_PIC_def)
    then show ?thesis
      using s2(1) s4(1) s5(1) l by (simp add: init_interrupts_def init_PIT_def s3_def)
  qed
  moreover have sy: "idt s5 = tbl" "idtr s5 = (2048, tbl)" "syms s4 = syms s" "syms s3 = syms s" "syms s5 = syms s"
    using s4(2) s5(2) f s1 by (simp_all add: int_kept_def s3_def)
  moreover have served: "if j = 0x20 then gate_serves s5 hs5 j 8 0x8E (timer_handler_addr (syms s))
      else gate_serves s5 hs5 j 8 0xEE (default_handler_addr (syms s))" if "j < 256" for j
    using s5(4,5) s4(4) that sy by (auto simp: gate_serves_log)
  moreover have "bytes_at (stub_of s5 i) (stub_size s) \<inter> bytes_at (stub_of s5 j) (stub_size s) = {}" if ij: "i < 256" "j < 256" "i \<noteq> j" for i j
  proof -
    have in_heap: "(stub_of s5 k, wrapper_size (syms s)) \<in> set hs5" if "k < 256" for k
      using served [OF that] gate_serves_stub [of s5 hs5 k] sy by (auto split: if_splits)
    have old: "stub_of s5 k = stub_of s4 k" "(stub_of s4 k, wrapper_size (syms s)) \<in> set hs4" if "k < 256" "k \<noteq> 0x20" for k
      using s5(7) [of k] s4(4) [rule_format, of k] gate_serves_stub [of s4 hs4 k] that sy by (auto simp: stub_of_def gate_ptr_def)
    have new: "stub_of s5 0x20 \<noteq> stub_of s5 k" if "k < 256" "k \<noteq> 0x20" for k
      using s5(6) old [OF that] sy by auto
    have "stub_of s5 i \<noteq> stub_of s5 j"
    proof (cases "i = 0x20 \<or> j = 0x20")
      case True
      then show ?thesis using new ij by fastforce
    next
      case False
      then have "stub_of s5 i = stub_of s4 i" "stub_of s5 j = stub_of s4 j"
        using old ij by auto
      then show ?thesis using inj_onD [OF s4(5), of i j] ij by auto
    qed
    then have "block_bytes (stub_of s5 i, wrapper_size (syms s)) \<inter> block_bytes (stub_of s5 j, wrapper_size (syms s)) = {}"
      using s5(3) in_heap ij by (intro blocks_disjoint [of s5 hs5]) (auto simp: stub_room_def)
    moreover have "block_bytes (stub_of s5 k, wrapper_size (syms s)) = bytes_at (stub_of s5 k) (stub_size s)" if "k < 256" for k
      using block_in_heap [of s5 hs5 "stub_of s5 k" "wrapper_size (syms s)"] s5(3) in_heap [OF that] less_imp_le
      by (intro block_bytes_eq) (auto simp: stub_room_def)
    ultimately show ?thesis using ij by simp
  qed
  moreover have "heap_regions s5 hs5"
    using s5(3) by (simp add: stub_room_def)
  ultimately show ?thesis
    by blast
qed

theorem init_interrupts_installs_all_gates_witness:
  "\<exists>s'. init_interrupts started = Some s' \<and> idtr s' = (2048, 0x80020000)"
proof -
  have fit: "virt_first_fit 0x80000000 0xFFFFFFFF 1 started_regions
      = Some (0x80020000, [(0x80000000, 32), (0x80020000, 1), (0x803FF000, 1)])"
    by (simp add: region_fit_def)
  have "virt_table started started_regions"
    using started_ok(2) by (simp add: virt_regions_def)
  from add_virt_block_fit [OF this _ started_ok(3), of 1] fit
  obtain s1 where s1: "add_virt_block 1 started = (0x80020000, s1)" "virt_step (length started_regions + 2) started s1"
    by auto
  note st = virt_step_fields [OF s1(2)]
  have "stub_room 257 256 (s1\<lparr>idt := 0x80020000\<rparr>) []"
    using started_heap st by (simp add: stub_room_def int_layout_def heap_room_def heap_regions_def heap_table_def
      table_def heap_ptr_def heap_end_def)
  from init_interrupts_installs_all_gates [OF started_ok(1) _ started_ok(2-4) _ s1(1) this] show ?thesis
    by (auto simp: virt_len_def)
qed

section \<open>Software interrupts\<close>

lemma selector_pushed [simp]: "ucast (ucast sel :: u32) = (sel :: u16)"
  by (rule bit_word_eqI) (simp add: bit_simps)







end
