(* ===== verification/Task.thy ===== *)
theory Task
  imports Cpu
begin

text \<open>
  \<open>task.c\<close>: the way to ring 3. The inline assembly is followed instruction by instruction; the value
  that \<open>push %esp\<close> pushes is the stack pointer before the push. \<open>None\<close> is a return to another address
  than the label after \<open>iretl\<close>.
\<close>

definition enter_usermode :: "kernel \<Rightarrow> kernel option" where
  "enter_usermode s =
     (let s = cli s;
          s = s\<lparr>seg_ds := 0x23, seg_es := 0x23, seg_fs := 0x23, seg_gs := 0x23\<rparr>;
          s = push32 0x23 s;
          s = push32 (esp s) s;
          s = push32 (eflags s) s;
          (eax, s) = pop32 s;
          eax = eax OR IF_FLAG;
          s = push32 eax s;
          s = push32 0x1b s;
          s = push32 (usermode_label (syms s)) s;
          (eip, s) = iretl s
      in if eip = usermode_label (syms s) then Some (s\<lparr>esp := esp s + 4\<rparr>) else None)"

text \<open>The five words that \<open>enter_usermode\<close> leaves on the stack for \<open>iretl\<close>.\<close>

lemma enter_usermode_pushes:
  fixes s :: kernel
  defines "s0 \<equiv> (cli s)\<lparr>seg_ds := 0x23, seg_es := 0x23, seg_fs := 0x23, seg_gs := 0x23\<rparr>"
  obtains t where
    "enter_usermode s = (let (eip, u) = iretl t in
       if eip = usermode_label (syms u) then Some (u\<lparr>esp := esp u + 4\<rparr>) else None)"
    "stack_has t [usermode_label (syms s), 0x1b, eflags s0 OR IF_FLAG, esp s - 4, 0x23]"
    "t = s0\<lparr>esp := esp s - 20, mem := mem t\<rparr>"
    "\<And>x. x \<notin> bytes_at (esp s - 20) 20 \<Longrightarrow> mem t x = mem s x"
proof -
  define s2 where "s2 = push32 (esp s - 4) (push32 0x23 s0)"
  define s3 where "s3 = push32 (eflags s0) s2"
  define s4 where "s4 = s3\<lparr>esp := esp s3 + 4\<rparr>"
  define t where "t = push32 (usermode_label (syms s)) (push32 0x1b (push32 (eflags s0 OR IF_FLAG) s4))"
  have s0: "esp s0 = esp s" "mem s0 = mem s" "syms s0 = syms s"
    by (simp_all add: s0_def cli_def)
  have "stack_has (push32 0x23 s0) [0x23]"
    by (rule push32_has) simp_all
  then have "stack_has s2 [esp s - 4, 0x23]"
    unfolding s2_def by (rule push32_has) simp
  then have "stack_has s3 [eflags s0, esp s - 4, 0x23]"
    unfolding s3_def by (rule push32_has) simp
  note h = pop32_has [OF this, folded s4_def]
  have "stack_has t [usermode_label (syms s), 0x1b, eflags s0 OR IF_FLAG, esp s - 4, 0x23]"
    unfolding t_def by (intro push32_has h(2)) simp_all
  moreover have "t = s0\<lparr>esp := esp s - 20, mem := mem t\<rparr>"
    by (simp add: t_def s4_def s3_def s2_def push32_def s0)
  moreover have "mem t x = mem s x" if x: "x \<notin> bytes_at (esp s - 20) 20" for x
  proof -
    have "x \<notin> bytes_at (esp s - 20 + of_nat k) 4" if "k + 4 \<le> 20" for k
      using bytes_at_sub [of k 4 20 "esp s - 20"] that x by auto
    from this [of 0] this [of 4] this [of 8] this [of 12] this [of 16]
    show ?thesis
      by (simp add: t_def s4_def s3_def s2_def s0)
  qed
  moreover have f: "push32 (esp (push32 0x23 s0)) (push32 0x23 s0) = s2" "push32 (eflags s2) s2 = s3"
    "push32 (usermode_label (syms (push32 0x1b (push32 (eflags s0 OR IF_FLAG) s4)))) (push32 0x1b (push32 (eflags s0 OR IF_FLAG) s4)) = t"
    by (simp_all add: t_def s4_def s3_def s2_def s0)
  have "enter_usermode s = (let (eip, u) = iretl t in
       if eip = usermode_label (syms u) then Some (u\<lparr>esp := esp u + 4\<rparr>) else None)"
    unfolding enter_usermode_def Let_def s0_def [symmetric] f h(1) prod.case ..
  ultimately show thesis
    using that by blast
qed

text \<open>
  C20: called in ring 0, \<open>enter_usermode\<close> comes back in ring 3 with the flat user segments, interrupts
  on and the stack pointer it was called with; of the memory it writes only the 20 bytes below the
  stack pointer.
\<close>

theorem enter_usermode_ring3:
  assumes "seg_cs s AND 3 = 0"
  shows "\<exists>m. enter_usermode s = Some (s\<lparr>seg_cs := 0x1b, seg_ds := 0x23, seg_es := 0x23, seg_fs := 0x23, seg_gs := 0x23,
      seg_ss := 0x23, eflags := eflags s OR IF_FLAG, mem := m\<rparr>)
    \<and> (\<forall>x. x \<notin> bytes_at (esp s - 20) 20 \<longrightarrow> m x = mem s x)"
proof -
  obtain t where t: "enter_usermode s = (let (eip, u) = iretl t in
       if eip = usermode_label (syms u) then Some (u\<lparr>esp := esp u + 4\<rparr>) else None)"
    "stack_has t [usermode_label (syms s), 0x1b, eflags (cli s) OR IF_FLAG, esp s - 4, 0x23]"
    "t = (cli s)\<lparr>seg_ds := 0x23, seg_es := 0x23, seg_fs := 0x23, seg_gs := 0x23, esp := esp s - 20, mem := mem t\<rparr>"
    "\<And>x. x \<notin> bytes_at (esp s - 20) 20 \<Longrightarrow> mem t x = mem s x"
    by (rule enter_usermode_pushes [of s]) auto
  have f: "eflags (cli s) OR IF_FLAG = eflags s OR IF_FLAG"
    unfolding cli_def by (rule bit_word_eqI) (auto simp: bit_simps)
  have c: "seg_cs t = seg_cs s" "syms t = syms s"
    by (subst t(3), simp add: cli_def)+
  then have "seg_cs t AND 3 < ucast (0x1b :: u32) AND 3"
    using assms by simp
  from iretl_outer [OF t(2) this] have "enter_usermode s
      = Some (t\<lparr>seg_cs := 0x1b, eflags := eflags s OR IF_FLAG, esp := esp s, seg_ss := 0x23\<rparr>)"
    using c t(1) f by simp
  also have "t\<lparr>seg_cs := 0x1b, eflags := eflags s OR IF_FLAG, esp := esp s, seg_ss := 0x23\<rparr>
      = s\<lparr>seg_cs := 0x1b, seg_ds := 0x23, seg_es := 0x23, seg_fs := 0x23, seg_gs := 0x23,
      seg_ss := 0x23, eflags := eflags s OR IF_FLAG, mem := mem t\<rparr>"
    by (subst t(3)) (simp add: cli_def)
  finally show ?thesis
    using t(4) by (intro exI [of _ "mem t"]) simp
qed

theorem enter_usermode_ring3_witness:
  "\<exists>s'. enter_usermode zero_kernel = Some s' \<and> seg_cs s' = 0x1b \<and> eflags s' = 0x202 \<and> esp s' = 0x80009000"
  using enter_usermode_ring3 [of zero_kernel] by (auto simp: zero_kernel_def)

end
