(* ===== verification/Budget.thy ===== *)
theory Budget
  imports VirtMem
begin

text \<open>
  How many physical pages an operation uses up at most: \<open>alloc_phys_pages\<close> is the only place that
  lowers \<open>free_page_count\<close>, so the bounds follow from the text of the operations alone.
\<close>

definition pages_used :: "nat \<Rightarrow> kernel \<Rightarrow> kernel \<Rightarrow> bool" where
  "pages_used k s s' \<longleftrightarrow> unat (free_page_count s) \<le> unat (free_page_count s') + k"

lemma pages_used_refl: "free_page_count s' = free_page_count s \<Longrightarrow> pages_used 0 s s'"
  by (simp add: pages_used_def)

lemma pages_used_trans: "pages_used j s t \<Longrightarrow> pages_used k t u \<Longrightarrow> pages_used (j + k) s u"
  by (simp add: pages_used_def)

lemma pages_used_mono: "pages_used j s t \<Longrightarrow> j \<le> k \<Longrightarrow> pages_used k s t"
  by (simp add: pages_used_def)

text \<open>On a sound free list the count is the number of free pages.\<close>

lemma run_total_card: "runs_ok bs \<Longrightarrow> run_total bs = card (free_pages bs)"
proof (induction bs)
  case (Cons r bs)
  obtain b n where r: "r = (b, n)" by (cases r)
  have apart: "run_pages (b, n) \<inter> free_pages bs = {}"
  proof -
    have "run_pages (b, n) \<inter> run_pages q = {}" if "q \<in> set bs" for q
    proof -
      obtain c k where q: "q = (c, k)" by (cases q)
      have "above (b, n) (c, k)" "run_ok (b, n)" "run_ok (c, k)"
        using Cons.prems that unfolding runs_ok_def r q by auto
      then show ?thesis
        by (auto simp: q page_aligned_dvd elim!: dvdE)
    qed
    then show ?thesis by (auto simp: free_pages_def)
  qed
  have fin: "finite (free_pages bs)" "finite (run_pages (b, n))" for bs
    by (auto simp: free_pages_def run_pages_def)
  have "card (free_pages (r # bs)) = card (run_pages (b, n)) + card (free_pages bs)"
    unfolding r free_pages_simps by (rule card_Un_disjoint [OF fin(2,1) apart])
  then show ?case
    using Cons by (simp add: r run_pages_def)
qed simp

lemma free_count_card:
  assumes "paging_inv dir s bs"
  shows "unat (free_page_count s) = card (free_pages bs)"
  using assms run_total_card phys_inv_runs_ok unfolding paging_inv_def phys_inv_def by metis

section \<open>The operations\<close>

lemma alloc_phys_loop_count:
  assumes "alloc_phys_loop count b s = Some (r, s')"
  shows "free_page_count s' = free_page_count s"
proof -
  have take: "free_page_count (alloc_take_block b s) = free_page_count s" for b s
    by (simp add: alloc_take_block_def Let_def)
  have "free_page_count (snd p) = free_page_count s" if "alloc_phys_loop count b s = Some p" for p
  proof (rule alloc_phys_loop.raw_induct [where P = "\<lambda>count b s p. free_page_count (snd p) = free_page_count s", OF _ that], goal_cases)
    case (1 loop count b s p)
    have again: "free_page_count (snd p) = free_page_count s" if "loop count c (temp_map_page b s) = Some p" for c
      using 1(1) [OF that] by simp
    show ?case
      using 1(2) by (auto simp: Let_def take split: if_splits dest: again)
  qed
  from this [OF assms] show ?thesis by simp
qed

lemma alloc_phys_pages_used:
  assumes "alloc_phys_pages 1 s = Some (r, s')"
  shows "pages_used 1 s s'"
proof -
  have "unat x \<le> Suc (unat (x - 1))" for x :: u32
    by (cases "x = 0") (simp_all add: unat_minus_one)
  then show ?thesis
    using assms alloc_phys_loop_count [of 1 "free_phys_memory_pointer s" s]
    by (auto simp: alloc_phys_pages_def pages_used_def split: if_splits bind_splits)
qed

lemma map_pages_used:
  assumes "map_pages va pa 1 flags s = Some (ok, s')"
  shows "pages_used 1 s s'"
proof -
  have e: "pages_used 1 t t'" if "map_ensure_table dir va t = Some (ok', t')" for dir t t' ok'
    using that alloc_phys_pages_used [of "temp_map_page dir t"]
    by (auto simp: map_ensure_table_def Let_def pages_used_def split: if_splits bind_splits)
  let ?dir = "page_dir (cur_space s)"
  have "map_page ?dir flags (va, pa) s = Some (ok, s')"
    using assms by (cases "map_page ?dir flags (va, pa) s") (auto simp: map_pages_def split: if_splits)
  then obtain ok' t where t: "map_ensure_table ?dir va s = Some (ok', t)"
      "s' = (if ok' then map_set_entry va pa flags t else t)"
    by (auto simp: map_page_def split: if_splits bind_splits)
  have "free_page_count (map_set_entry va pa flags t) = free_page_count t"
    by (simp add: map_set_entry_def)
  then show ?thesis
    using e [OF t(1)] t(2) by (simp add: pages_used_def)
qed

lemma map_fresh_pages_used:
  assumes "map_fresh_pages va count flags s = Some s'"
  shows "pages_used (2 * unat count) s s'"
proof -
  have "pages_used (2 * n) s t" if "for_opt n (\<lambda>i s. do {
      (page, s) \<leftarrow> alloc_phys_pages 1 s;
      (ok, s) \<leftarrow> map_pages (va + of_nat i * PAGE_SIZE) page 1 flags s; Some s }) s = Some t" for n t
    using that
  proof (induction n arbitrary: t)
    case (Suc n)
    then obtain u p v ok where u: "pages_used (2 * n) s u" "alloc_phys_pages 1 u = Some (p, v)"
        "map_pages (va + of_nat n * PAGE_SIZE) p 1 flags v = Some (ok, t)"
      by (auto split: bind_splits)
    show ?case
      using pages_used_trans [OF pages_used_trans [OF u(1) alloc_phys_pages_used [OF u(2)]] map_pages_used [OF u(3)]] by simp
  qed (simp add: pages_used_refl)
  then show ?thesis
    using assms by (auto simp: map_fresh_pages_def)
qed

end
