(* ===== verification/KernelSpace.thy ===== *)
theory KernelSpace
  imports Heap Budget
begin

text \<open>
  The part of \<open>init_memory_manager\<close> that sets up the kernel's address space: the table of regions with
  its first three entries, and the table and the memory of the heap.
\<close>

section \<open>The steps\<close>

text \<open>\<open>blocks[block_count].base = base; blocks[block_count].size = sz; block_count++\<close>\<close>

definition enter_region :: "u32 \<Rightarrow> u32 \<Rightarrow> kernel \<Rightarrow> kernel" where
  "enter_region base sz s =
     (let v = virt_memory (kernel_address_space s);
          p = block_ptr (v_blocks v) (v_block_count v);
          m = set_block_size p sz (set_block_base p base (mem s))
      in s\<lparr>mem := m, kernel_address_space :=
           (kernel_address_space s)\<lparr>virt_memory := v\<lparr>v_block_count := v_block_count v + 1\<rparr>\<rparr>\<rparr>)"

definition set_kernel_dynamic :: "(DynamicMemory \<Rightarrow> DynamicMemory) \<Rightarrow> kernel \<Rightarrow> kernel" where
  "set_kernel_dynamic f s = s\<lparr>kernel_address_space :=
     (kernel_address_space s)\<lparr>dynamic_memory := f (dynamic_memory (kernel_address_space s))\<rparr>\<rparr>"

definition init_kernel_space :: "kernel \<Rightarrow> kernel" where
  "init_kernel_space s =
     (let s = s\<lparr>cur_address_space := Kernel_Space\<rparr>
      in s\<lparr>kernel_address_space := (kernel_address_space s)\<lparr>page_dir := kernel_page_dir s,
           as_start := KERNEL_ADDRESS_SPACE_START, as_end := KERNEL_ADDRESS_SPACE_END,
           virt_memory := \<lparr>v_block_count = 0, v_blocks = KERNEL_VIRT_BLOCK_TABLE (syms s), v_table_size = 1\<rparr>\<rparr>\<rparr>)"

definition init_virtual :: "kernel \<Rightarrow> kernel option" where
  "init_virtual s =
     do {
       (frame, s) \<leftarrow> alloc_phys_pages (v_table_size (virt_memory (kernel_address_space s))) s;
       (_, s) \<leftarrow> map_pages (v_blocks (virt_memory (kernel_address_space s))) frame 1 0xfff s;
       (_, s) \<leftarrow> map_pages TEMP_PAGE 0 1 0xfff s;
       let s = enter_region KERNEL_BASE_VMA (drop_bit PAGE_OFFSET_BITS (KERNEL_END (syms s) - KERNEL_BASE_VMA)) s;
       let s = enter_region (v_blocks (virt_memory (kernel_address_space s)))
                 (v_table_size (virt_memory (kernel_address_space s))) s;
       Some (enter_region TEMP_PAGE 1 s)
     }"

definition init_dynamic :: "kernel \<Rightarrow> kernel option" where
  "init_dynamic s =
     do {
       let s = set_kernel_dynamic (\<lambda>d. d\<lparr>d_block_count := 0, d_table_size := 1\<rparr>) s;
       (tbl, s) \<leftarrow> alloc_virt_pages NULL (- 1) (d_table_size (dynamic_memory (kernel_address_space s))) 0xfff s;
       let s = set_kernel_dynamic (\<lambda>d. d\<lparr>d_blocks := tbl, d_heap_size := 10\<rparr>) s;
       (heap, s) \<leftarrow> alloc_virt_pages NULL (- 1) (d_heap_size (dynamic_memory (kernel_address_space s))) 0xfff s;
       Some (set_kernel_dynamic (\<lambda>d. d\<lparr>d_heap := heap\<rparr>) s)
     }"

definition init_kernel_memory :: "kernel \<Rightarrow> kernel option" where
  "init_kernel_memory s = do { s \<leftarrow> init_virtual (init_kernel_space s); init_dynamic s }"

section \<open>Entering the first regions\<close>

lemma enter_region_fields [simp]:
  "v_blocks (virt_memory (kernel_address_space (enter_region b n s))) = v_blocks (virt_memory (kernel_address_space s))"
  "v_table_size (virt_memory (kernel_address_space (enter_region b n s))) = v_table_size (virt_memory (kernel_address_space s))"
  "free_page_count (enter_region b n s) = free_page_count s" "cr3 (enter_region b n s) = cr3 s"
  by (simp_all add: enter_region_def Let_def)

lemma enter_region_put:
  assumes "cur_address_space s = Kernel_Space" "virt_table s vs"
  shows "enter_region b n s = virt_put (put_block (ofs (virt_ptr s) (8 * length vs)) b n (mem s)) s"
proof -
  have "v_block_count (virt_memory (kernel_address_space s)) = of_nat (length vs)"
    "v_blocks (virt_memory (kernel_address_space s)) = virt_ptr s"
    using assms by (simp_all add: virt_table_def virt_ptr_def address_space_def)
  then show ?thesis
    using assms(1) by (simp add: enter_region_def Let_def virt_put_def put_block_def block_ptr_nat set_cur_virt_def
        set_address_space_def address_space_def)
qed

lemma enter_region_table:
  assumes "cur_address_space s = Kernel_Space" "virt_table s vs" "virt_room 1 s vs"
  shows "virt_table (enter_region b n s) (vs @ [(b, n)])" "virt_step (length vs + 1) s (enter_region b n s)"
proof -
  let ?t = "virt_ptr s"
  let ?m = "put_block (ofs ?t (8 * length vs)) b n (mem s)"
  have "table (mem s) ?t vs" "unat ?t + 8 * (length vs + 2) < 2 ^ 32"
    using assms(2,3) by (simp_all add: virt_table_def virt_room_def)
  from table_insert [OF this(1) order_refl this(2), where c = 0 and b = b and n = n]
  have m: "table ?m ?t (vs @ [(b, n)])" "\<forall>x. x \<notin> bytes_at ?t (8 * (length vs + 1)) \<longrightarrow> ?m x = mem s x"
    by simp_all
  show "virt_table (enter_region b n s) (vs @ [(b, n)])" "virt_step (length vs + 1) s (enter_region b n s)"
    unfolding enter_region_put [OF assms(1,2)] using virt_put_correct [OF assms(2) m(1) _ m(2)] by simp_all
qed

lemma virt_room_step:
  "virt_step k s s' \<Longrightarrow> virt_room (Suc j) s vs \<Longrightarrow> length vs' = Suc (length vs) \<Longrightarrow> virt_room j s' vs'"
  using virt_step_fields(1) by (simp add: virt_room_def)

text \<open>What the start of the kernel's address space leaves alone while it enters regions and maps pages.\<close>

definition space_kept :: "kernel \<Rightarrow> kernel \<Rightarrow> bool" where
  "space_kept s s' \<longleftrightarrow> cur_address_space s' = cur_address_space s \<and> syms s' = syms s
     \<and> page_dir (cur_space s') = page_dir (cur_space s) \<and> as_start (cur_space s') = as_start (cur_space s)
     \<and> as_end (cur_space s') = as_end (cur_space s) \<and> dynamic_memory (cur_space s') = dynamic_memory (cur_space s)
     \<and> virt_table_size s' = virt_table_size s \<and> virt_ptr s' = virt_ptr s
     \<and> (\<forall>x. x \<notin> bytes_at (virt_ptr s) 4096 \<longrightarrow> mem s' x = mem s x)"

lemma space_kept_trans: "space_kept s t \<Longrightarrow> space_kept t u \<Longrightarrow> space_kept s u"
  unfolding space_kept_def by metis

lemma space_kept_heap: "space_kept s t \<Longrightarrow> heap_state t = heap_state s"
  unfolding space_kept_def by blast

lemma space_kept_phys: "phys_only s t \<Longrightarrow> space_kept s t"
  using phys_only_fields [of s t] by (simp add: space_kept_def virt_ptr_def)

lemma space_kept_virt:
  assumes "virt_step k s s'" "k \<le> 512"
  shows "space_kept s s'"
proof -
  have "bytes_at (virt_ptr s) (8 * k) \<subseteq> bytes_at (virt_ptr s) 4096"
    using assms(2) by (intro bytes_at_mono) simp
  then show ?thesis
    using virt_step_fields [OF assms(1)] by (auto simp: space_kept_def)
qed

lemma virt_room_kept: "space_kept s s' \<Longrightarrow> virt_room k s vs \<Longrightarrow> length vs' + j \<le> length vs + k \<Longrightarrow> virt_room j s' vs'"
  by (simp add: space_kept_def virt_room_def)

text \<open>
  A step of the start: it uses up at most \<open>k\<close> pages, keeps the directory in use, and every mapping below
  the addresses of the kernel.
\<close>

definition early_step :: "nat \<Rightarrow> u32 \<Rightarrow> kernel \<Rightarrow> kernel \<Rightarrow> bool" where
  "early_step k dir s s' \<longleftrightarrow> pages_used k s s' \<and> cr3 s' = cr3 s
     \<and> (\<forall>va. unat va < 0x80000000 \<longrightarrow> pte dir s va \<noteq> None \<longrightarrow> pte dir s' va = pte dir s va)"

lemma early_step_trans: "early_step j dir s t \<Longrightarrow> early_step k dir t u \<Longrightarrow> early_step (j + k) dir s u"
  unfolding early_step_def using pages_used_trans by metis

lemma early_step_same:
  "free_page_count s' = free_page_count s \<Longrightarrow> cr3 s' = cr3 s \<Longrightarrow> (\<And>va. pte dir s' va = pte dir s va) \<Longrightarrow> early_step 0 dir s s'"
  by (simp add: early_step_def pages_used_refl)

lemma early_step_virt:
  assumes "virt_step k s s'"
  shows "early_step 0 dir s s'"
  using virt_step_fields(10) [OF assms] virt_step_paging(2) [OF assms] assms
  by (intro early_step_same) (auto simp: virt_step_def set_cur_virt_def)

lemma high_page:
  assumes "0x80000000 \<le> unat w" "drop_bit 12 va = drop_bit 12 (w :: u32)"
  shows "0x80000000 \<le> unat va"
proof -
  have iff: "0x80000 \<le> x div 4096 \<longleftrightarrow> 0x80000000 \<le> x" for x :: nat
    using less_eq_div_iff_mult_less_eq [of 4096 "0x80000" x] by simp
  have "unat va div 4096 = unat w div 4096"
    using assms(2) drop_bit_12_unat by metis
  then show ?thesis using assms(1) iff by metis
qed

lemma early_step_map:
  assumes "paging_inv dir s bs" "page_dir (cur_space s) = dir" "map_pages va pa 1 flags s = Some (ok, s')" "0x80000000 \<le> unat va"
  shows "early_step 1 dir s s'"
proof -
  from map_one [OF assms(1,2), of va pa flags]
  have k: "phys_only s s' \<and> (\<forall>vb. drop_bit 12 vb \<noteq> drop_bit 12 va \<longrightarrow> pte dir s vb \<noteq> None \<longrightarrow> pte dir s' vb = pte dir s vb)"
    using assms(3) by (elim disjE exE conjE) simp_all
  have "drop_bit 12 vb \<noteq> drop_bit 12 va" if "unat vb < 0x80000000" for vb
    using high_page [OF assms(4), of vb] that by auto
  then show ?thesis
    using k map_pages_used [OF assms(3)] phys_only_fields(5) [of s s'] by (simp add: early_step_def)
qed

lemma early_step_fresh:
  assumes m: "map_fresh_pages r count flags s = Some t" "mapped_upto dir r flags ps s (unat count) t bs"
    and r: "0x80000000 \<le> unat r" "unat r + virt_len count < 2 ^ 32"
  shows "early_step (2 * unat count) dir s t"
proof -
  have "0x80000000 \<le> unat (r + of_nat i * PAGE_SIZE)" if "i < unat count" for i
  proof -
    have "i * 4096 < unat count * 4096" using that by simp
    then have "unat r + i * 4096 < 2 ^ 32" using r(2) by (simp add: virt_len_def)
    then have "unat (r + of_nat i * PAGE_SIZE) = unat r + i * 4096"
      by (simp add: unat_word_ariths unat_of_nat)
    then show ?thesis using r(1) by simp
  qed
  then have "\<forall>i < unat count. drop_bit 12 va \<noteq> drop_bit 12 (r + of_nat i * PAGE_SIZE)" if "unat va < 0x80000000" for va
    using high_page that by (metis linorder_not_less)
  then show ?thesis
    using m(2) map_fresh_pages_used [OF m(1)] phys_only_fields(5) [of s t] unfolding early_step_def mapped_upto_def by blast
qed

section \<open>Regions at page boundaries\<close>

lemma gap_fit_base:
  "gap_fit bytes strict hi sz vs = Some (r, zs) \<Longrightarrow> \<exists>(b, n) \<in> set vs. r = b + bytes n"
proof (induction vs arbitrary: zs)
  case (Cons q vs)
  obtain b n where q: "q = (b, n)" by (cases q)
  have "r = b + bytes n \<or> (\<exists>zs'. gap_fit bytes strict hi sz vs = Some (r, zs'))"
    using Cons.prems by (cases vs) (auto simp: q split: if_splits prod.splits simp del: gap_fit.simps(2) [of _ _ _ _ _ _ "_ # _"])
  then show ?case
    using Cons.IH q by fastforce
qed simp

lemma page_aligned_end: "page_aligned b \<Longrightarrow> page_aligned (b + page_bytes n)"
  using page_aligned_add [of b "unat n"] by (simp add: push_bit_eq_mult mult.commute)

lemma add_virt_block_aligned:
  assumes "virt_regions s vs" "virt_room 1 s vs" "add_virt_block sz s = (r, s1)"
    and "page_aligned (as_start (cur_space s))" "\<forall>(b, n) \<in> set vs. page_aligned b"
  shows "page_aligned r"
proof -
  let ?lo = "as_start (cur_space s)" and ?hi = "as_end (cur_space s)"
  have "virt_table s vs" "vs \<noteq> []" using assms(1) by (simp_all add: virt_regions_def)
  note fit = add_virt_block_fit [OF this assms(2), of sz]
  show ?thesis
  proof (cases "virt_first_fit ?lo ?hi sz vs")
    case None
    then show ?thesis using fit assms(3) by (simp add: NULL_def page_aligned_def)
  next
    case (Some q)
    then obtain zs where f: "virt_first_fit ?lo ?hi sz vs = Some (r, zs)"
      using fit assms(3) by (cases q) auto
    have "r = ?lo \<or> (\<exists>zs. gap_fit page_bytes True ?hi sz vs = Some (r, zs))"
      using f unfolding region_fit_def by (simp split: if_split_asm)
    then show ?thesis
      using assms(4,5) gap_fit_base [of page_bytes True ?hi sz vs r] page_aligned_end by blast
  qed
qed

section \<open>The regions of the kernel, of the table and of the window\<close>

text \<open>The layout of \<open>script.ld\<close>: the table of regions follows the kernel, both below the window.\<close>

definition kernel_layout :: "kernel \<Rightarrow> bool" where
  "kernel_layout s \<longleftrightarrow> KERNEL_VIRT_BLOCK_TABLE (syms s) = KERNEL_END (syms s) \<and> page_aligned (KERNEL_END (syms s))
     \<and> 0x80001000 \<le> unat (KERNEL_END (syms s)) \<and> unat (KERNEL_END (syms s)) + 0x1000 \<le> unat TEMP_PAGE"

abbreviation kernel_pages :: "kernel \<Rightarrow> u32" where
  "kernel_pages s \<equiv> drop_bit PAGE_OFFSET_BITS (KERNEL_END (syms s) - KERNEL_BASE_VMA)"

definition first_regions :: "kernel \<Rightarrow> run list" where
  "first_regions s = [(KERNEL_BASE_VMA, kernel_pages s), (KERNEL_END (syms s), 1), (TEMP_PAGE, 1)]"

lemma kernel_pages_len:
  assumes "kernel_layout s"
  shows "0x80000000 + virt_len (kernel_pages s) = unat (KERNEL_END (syms s))" "0 < kernel_pages s"
proof -
  let ?e = "KERNEL_END (syms s)"
  have d: "unat (?e - 0x80000000) = unat ?e - 0x80000000"
    using assms by (subst unat_sub) (simp_all add: kernel_layout_def word_le_nat_alt)
  have "4096 dvd unat ?e"
    using assms by (simp add: kernel_layout_def page_aligned_dvd)
  then obtain j where j: "unat ?e = 4096 * j" ..
  have k: "unat (kernel_pages s) = unat ?e div 4096 - 0x80000"
    unfolding drop_bit_eq_div unat_div_distrib d by (simp add: j)
  then show "0x80000000 + virt_len (kernel_pages s) = unat ?e" "0 < kernel_pages s"
    using assms j by (auto simp: virt_len_def kernel_layout_def word_less_nat_alt)
qed

lemma first_regions_placed:
  assumes "kernel_layout s"
  shows "placed virt_len 0x80000000 0xFFFFFFFF (first_regions s)" "\<forall>(b, n) \<in> set (first_regions s). 0 < n"
    "end_of virt_len lo (first_regions s) = 0x80400000"
  using kernel_pages_len [OF assms] assms
  by (auto simp: first_regions_def kernel_layout_def TEMP_PAGE_value virt_len_def)

text \<open>The state in which the address space has been filled in and its table of regions is empty.\<close>

definition space_empty :: "u32 \<Rightarrow> kernel \<Rightarrow> bool" where
  "space_empty dir s \<longleftrightarrow> cur_address_space s = Kernel_Space \<and> page_dir (cur_space s) = dir
     \<and> as_start (cur_space s) = 0x80000000 \<and> as_end (cur_space s) = 0xFFFFFFFF
     \<and> virt_memory (cur_space s) = \<lparr>v_block_count = 0, v_blocks = KERNEL_END (syms s), v_table_size = 1\<rparr>"

lemma space_emptyD:
  assumes "space_empty dir s"
  shows "cur_address_space s = Kernel_Space" "page_dir (cur_space s) = dir" "as_start (cur_space s) = 0x80000000"
    "as_end (cur_space s) = 0xFFFFFFFF" "virt_ptr s = KERNEL_END (syms s)" "virt_table_size s = 1" "virt_table s []"
proof -
  have "virt_memory (cur_space s) = \<lparr>v_block_count = 0, v_blocks = KERNEL_END (syms s), v_table_size = 1\<rparr>"
    using assms unfolding space_empty_def by blast
  then show "virt_ptr s = KERNEL_END (syms s)" "virt_table_size s = 1" "virt_table s []"
    by (simp_all add: virt_ptr_def virt_table_def table_def)
qed (use assms space_empty_def in blast)+

lemma init_kernel_space_empty:
  assumes "kernel_layout s"
  shows "space_empty (kernel_page_dir s) (init_kernel_space s)" "syms (init_kernel_space s) = syms s"
    "paging_inv dir (init_kernel_space s) bs = paging_inv dir s bs" "mem (init_kernel_space s) = mem s"
    "pte dir (init_kernel_space s) va = pte dir s va"
  using assms paging_inv_cong [of "init_kernel_space s" s]
  by (simp_all add: space_empty_def init_kernel_space_def kernel_layout_def address_space_def)

text \<open>The three entries, one after the other.\<close>

lemma enter_first_regions:
  assumes "space_empty dir s" "kernel_layout s" "space_kept s t" "virt_table t []"
  defines "u \<equiv> enter_region TEMP_PAGE 1 (enter_region (KERNEL_END (syms s)) 1 (enter_region KERNEL_BASE_VMA (kernel_pages s) t))"
  shows "space_kept t u" "virt_regions u (first_regions s)" "paging_inv d u bs = paging_inv d t bs" "pte d u va = pte d t va"
    "free_page_count u = free_page_count t" "cr3 u = cr3 t"
proof -
  show "free_page_count u = free_page_count t" "cr3 u = cr3 t"
    by (simp_all add: u_def)
  note e = space_emptyD [OF assms(1)]
  have cur: "cur_address_space t = Kernel_Space" and ptr: "unat (virt_ptr t) + 8 * 5 < 2 ^ 32"
    using assms(2,3) e by (simp_all add: space_kept_def kernel_layout_def TEMP_PAGE_value)
  let ?a = "enter_region KERNEL_BASE_VMA (kernel_pages s) t"
  let ?b = "enter_region (KERNEL_END (syms s)) 1 ?a"
  have "virt_room 1 t []" using ptr by (simp add: virt_room_def)
  note a = enter_region_table [OF cur assms(4) this, of KERNEL_BASE_VMA "kernel_pages s", simplified]
  have "cur_address_space ?a = Kernel_Space" "virt_room 1 ?a [(KERNEL_BASE_VMA, kernel_pages s)]"
    using ptr virt_step_fields(1,9) [OF a(2)] cur by (simp_all add: virt_room_def)
  note b = enter_region_table [OF this(1) a(1) this(2), of "KERNEL_END (syms s)" 1, simplified]
  have "cur_address_space ?b = Kernel_Space" "virt_room 1 ?b [(KERNEL_BASE_VMA, kernel_pages s), (KERNEL_END (syms s), 1)]"
    using ptr virt_step_fields(1,9) [OF a(2)] virt_step_fields(1,9) [OF b(2)] cur by (simp_all add: virt_room_def)
  note c = enter_region_table [OF this(1) b(1) this(2), of TEMP_PAGE 1, folded u_def, simplified]
  show k: "space_kept t u"
    using space_kept_trans [OF space_kept_trans [OF space_kept_virt [OF a(2)] space_kept_virt [OF b(2)]] space_kept_virt [OF c(2)]]
    by simp
  have "as_start (cur_space u) = 0x80000000" "as_end (cur_space u) = 0xFFFFFFFF"
    using k assms(3) e unfolding space_kept_def by metis+
  then show "virt_regions u (first_regions s)"
    using c(1) first_regions_placed [OF assms(2)] by (simp add: virt_regions_def) (simp add: first_regions_def)
  show "paging_inv d u bs = paging_inv d t bs" "pte d u va = pte d t va"
    using virt_step_paging [OF a(2)] virt_step_paging [OF b(2)] virt_step_paging [OF c(2)] by simp_all
qed

lemma alloc_page_paging:
  assumes inv: "paging_inv dir s bs"
  obtains f s' bs' where "alloc_phys_pages 1 s = Some (f, s')" "phys_only s s'" "paging_inv dir s' bs'"
    "free_pages bs' \<subseteq> free_pages bs" "early_step 1 dir s s'"
proof -
  have "phys_inv s bs" using inv by (simp add: paging_inv_def)
  then obtain f s' bs' where a: "alloc_phys_pages 1 s = Some (f, s')" "phys_inv s' bs'" "phys_step bs s s'" "free_pages bs' \<subseteq> free_pages bs"
    by (rule alloc_phys_pages_cases [of s bs 1]) auto
  have po: "phys_only s s'" using a(3) by (simp add: phys_step_def)
  have "early_step 1 dir s s'"
    using alloc_phys_pages_used [OF a(1)] phys_only_fields(5) [OF po] tables_step(2) [OF inv a(3)] by (simp add: early_step_def)
  then show thesis
    using that a(1,4) po tables_step(3) [OF inv a(3,2,4)] by blast
qed

lemma init_virtual_regions:
  assumes e: "space_empty dir s" and lay: "kernel_layout s" and inv: "paging_inv dir s bs"
  obtains s' bs' where "init_virtual s = Some s'" "paging_inv dir s' bs'" "free_pages bs' \<subseteq> free_pages bs"
    "space_kept s s'" "virt_regions s' (first_regions s)" "early_step 3 dir s s'"
proof -
  note sp = space_emptyD [OF e]
  have k: "kernel_address_space t = cur_space t" if "cur_address_space t = Kernel_Space" for t
    using that by (simp add: address_space_def)
  obtain f s1 bs1 where a: "alloc_phys_pages 1 s = Some (f, s1)" "phys_only s s1" "paging_inv dir s1 bs1" "free_pages bs1 \<subseteq> free_pages bs"
      "early_step 1 dir s s1"
    by (rule alloc_page_paging [OF inv])
  have d1: "page_dir (cur_space s1) = dir"
    using sp(2) phys_only_fields(1) [OF a(2)] by simp
  obtain ok s2 bs2 where b: "map_pages (KERNEL_END (syms s)) f 1 0xfff s1 = Some (ok, s2)" "phys_only s1 s2"
      "paging_inv dir s2 bs2" "free_pages bs2 \<subseteq> free_pages bs1"
    using map_one [OF a(3) d1, of "KERNEL_END (syms s)" f "0xfff"] by blast
  have d2: "page_dir (cur_space s2) = dir"
    using d1 phys_only_fields(1) [OF b(2)] by simp
  obtain ok' s3 bs3 where c: "map_pages TEMP_PAGE 0 1 0xfff s2 = Some (ok', s3)" "phys_only s2 s3"
      "paging_inv dir s3 bs3" "free_pages bs3 \<subseteq> free_pages bs2"
    using map_one [OF b(3) d2, of TEMP_PAGE 0 "0xfff"] by blast
  have k1: "space_kept s s1" and k3: "space_kept s s3"
    using space_kept_phys phys_only_trans a(2) b(2) c(2) by blast+
  have t3: "virt_table s3 []"
    using sp(7) phys_only_fields(1) [OF phys_only_trans [OF a(2) phys_only_trans [OF b(2) c(2)]]]
    by (simp add: virt_table_def table_def)
  let ?u = "enter_region TEMP_PAGE 1 (enter_region (KERNEL_END (syms s)) 1 (enter_region KERNEL_BASE_VMA (kernel_pages s) s3))"
  note u = enter_first_regions [OF e lay k3 t3]
  have kv: "v_blocks (virt_memory (kernel_address_space t)) = KERNEL_END (syms s)" "v_table_size (virt_memory (kernel_address_space t)) = 1"
    if "space_kept s t" for t
    using that sp unfolding space_kept_def virt_ptr_def by (metis k)+
  have "syms s3 = syms s" using k3 by (simp add: space_kept_def)
  moreover have "space_kept s s" by (simp add: space_kept_def)
  ultimately have "init_virtual s = Some ?u"
    using a(1) b(1) c(1) kv [OF k1] kv [OF k3] kv [of s] by (simp add: init_virtual_def)
  moreover have "early_step 3 dir s ?u"
  proof -
    have high: "0x80000000 \<le> unat (KERNEL_END (syms s))" "0x80000000 \<le> unat TEMP_PAGE"
      using lay by (simp_all add: kernel_layout_def TEMP_PAGE_value)
    have "early_step 0 dir s3 ?u"
      using u(4,5,6) by (intro early_step_same) simp_all
    from early_step_trans [OF early_step_trans [OF early_step_trans [OF a(5) early_step_map [OF a(3) d1 b(1) high(1)]]
        early_step_map [OF b(3) d2 c(1) high(2)]] this]
    show ?thesis by (simp add: numeral_3_eq_3)
  qed
  ultimately show thesis
    using that [of ?u bs3] u a(4) b(4) c(3,4) space_kept_trans [OF k3 u(1)] by blast
qed

section \<open>A region of fresh pages where the address space has room\<close>

lemma alloc_region_fits:
  assumes inv: "paging_inv dir s bs" "page_dir (cur_space s) = dir"
    and reg: "virt_regions s vs" "virt_room 1 s vs" "\<not> virt_table_full s" "length vs \<le> 500"
    and cnt: "0 < count" "unat count \<le> 2 ^ 20" "virt_end s vs + virt_len count < 2 ^ 32"
    and fit: "unat (as_start (cur_space s)) \<le> a" "a + virt_len count \<le> unat (as_end (cur_space s))"
      "{a ..< a + virt_len count} \<inter> occupied virt_len vs = {}"
  obtains r s1 s' bs' vs' ps where "alloc_virt_pages NULL (- 1) count flags s = Some (r, s')" "space_kept s s'"
    "virt_regions s' vs'" "set vs' = insert (r, count) (set vs)" "cells virt_len (r, count) \<inter> occupied virt_len vs = {}"
    "length vs' = Suc (length vs)" "virt_end s' vs' \<le> virt_end s vs + virt_len count" "cells virt_len (r, count) \<subseteq> virt_range s"
    "add_virt_block count s = (r, s1)" "early_step 0 dir s s1" "map_fresh_pages r count flags s1 = Some s'"
    "length ps = unat count" "fresh_pages ps (free_pages bs) bs'" "mapped_upto dir r flags ps s1 (unat count) s' bs'"
    "free_pages bs' \<subseteq> free_pages bs"
  using reg(1,2) cnt(1,3)
proof (cases rule: add_virt_block_cases [of s vs count])
  case full
  then show thesis using fit by blast
next
  case (added r s1 vs')
  note v = virt_step_paging [OF added(8)] virt_step_fields [OF added(8)]
  have "paging_inv dir s1 bs" "page_dir (cur_space s1) = dir"
    using inv v by simp_all
  from map_fresh_pages_correct [OF this cnt(2), of r flags] obtain t ps bs' where
    t: "map_fresh_pages r count flags s1 = Some t" "length ps = unat count"
      "mapped_upto dir r flags ps s1 (unat count) t bs'" "fresh_pages ps (free_pages bs) bs'"
      "free_pages bs' \<subseteq> free_pages bs"
    by blast
  have po: "phys_only s1 t"
    using t(3) unfolding mapped_upto_def by blast
  have kept: "space_kept s t"
    using space_kept_trans [OF space_kept_virt [OF added(8)] space_kept_phys [OF po]] reg(4) by simp
  have "virt_regions t vs'" "virt_end t vs' \<le> virt_end s vs + virt_len count"
    using added(2,5) phys_only_virt(1) [OF po] phys_only_fields(1) [OF po] by simp_all
  then show thesis
    using that [OF _ kept _ added(3,6,4) _ added(7,1) early_step_virt [OF added(8)] t(1,2,4,3,5)] t(1) alloc_virt_pages_no_growth [OF reg(3) added(1)]
    by simp
qed

text \<open>With twice as many free pages as the region has, one for each page and one for its table, none is left out.\<close>

lemma fresh_pages_enough:
  assumes "paging_inv dir s bs" "paging_inv dir s' bs'" "pages_used k s s'" "k < card (free_pages bs)"
  shows "bs' \<noteq> []"
  using assms(3,4) free_count_card [OF assms(1)] free_count_card [OF assms(2)] by (auto simp: pages_used_def)

text \<open>
  C22: \<open>alloc_virt_pages\<close> of \<open>count\<close> fresh pages, when the table of regions is sound, has at most 500 entries
  and need not grow, some place of the address space is free for the region, no sum wraps around, and
  more than twice as many physical pages are free: it answers the base of a new region of the size asked, inside the address
  space and apart from all others; its pages are mapped, with the flags given, to distinct pages that
  were free and no longer are; every other mapping and all invariants are kept.
\<close>

theorem alloc_virt_pages_fresh:
  assumes inv: "paging_inv dir s bs" "page_dir (cur_space s) = dir"
    and reg: "virt_regions s vs" "virt_room 1 s vs" "\<not> virt_table_full s" "length vs \<le> 500"
    and cnt: "0 < count" "unat count \<le> 2 ^ 20" "virt_end s vs + virt_len count < 2 ^ 32"
    and fit: "unat (as_start (cur_space s)) \<le> a" "a + virt_len count \<le> unat (as_end (cur_space s))"
      "{a ..< a + virt_len count} \<inter> occupied virt_len vs = {}"
    and enough: "2 * unat count < card (free_pages bs)"
  shows "\<exists>r s' bs' vs' ps. alloc_virt_pages NULL (- 1) count flags s = Some (r, s')
    \<and> virt_regions s' vs' \<and> set vs' = insert (r, count) (set vs)
    \<and> cells virt_len (r, count) \<subseteq> virt_range s \<and> cells virt_len (r, count) \<inter> occupied virt_len vs = {}
    \<and> length ps = unat count \<and> distinct (map page_no ps) \<and> page_no ` set ps \<subseteq> free_pages bs - free_pages bs'
    \<and> (\<forall>i < unat count. pte dir s' (r + of_nat i * PAGE_SIZE) = Some (frame (ps ! i) OR flags))
    \<and> (\<forall>vb. (\<forall>i < unat count. drop_bit 12 vb \<noteq> drop_bit 12 (r + of_nat i * PAGE_SIZE)) \<longrightarrow>
         pte dir s vb \<noteq> None \<longrightarrow> pte dir s' vb = pte dir s vb)
    \<and> paging_inv dir s' bs' \<and> free_pages bs' \<subseteq> free_pages bs"
proof -
  obtain r s1 s' bs' vs' ps where a: "alloc_virt_pages NULL (- 1) count flags s = Some (r, s')" "virt_regions s' vs'"
      "set vs' = insert (r, count) (set vs)" "cells virt_len (r, count) \<inter> occupied virt_len vs = {}"
      "cells virt_len (r, count) \<subseteq> virt_range s" "add_virt_block count s = (r, s1)" "early_step 0 dir s s1"
      "map_fresh_pages r count flags s1 = Some s'" "length ps = unat count" "fresh_pages ps (free_pages bs) bs'"
      "mapped_upto dir r flags ps s1 (unat count) s' bs'" "free_pages bs' \<subseteq> free_pages bs"
    by (rule alloc_region_fits [OF inv reg cnt fit, of flags]) (rule that; assumption)
  have inv': "paging_inv dir s' bs'" using a(11) by (simp add: mapped_upto_def)
  have "pages_used (2 * unat count) s s'"
    using a(7) map_fresh_pages_used [OF a(8)] unfolding early_step_def pages_used_def by linarith
  from fresh_pages_enough [OF inv(1) inv' this enough] have ne: "bs' \<noteq> []" .
  have "pte dir s1 vb = pte dir s vb" for vb
    using add_virt_block_paging(2) [OF reg(1,2) cnt(1,3) a(6)] .
  then show ?thesis
    using a(1-5,9,10,12) a(11) [unfolded mapped_upto_def] inv' ne unfolding fresh_pages_def
    by (intro exI [of _ r] exI [of _ s'] exI [of _ bs'] exI [of _ vs'] exI [of _ ps]) auto
qed

theorem alloc_virt_pages_fresh_witness:
  "\<exists>r s' ps. alloc_virt_pages NULL (- 1) 2 3 booted = Some (r, s') \<and> 0x80000000 \<le> unat r \<and> length ps = 2
    \<and> distinct (map page_no ps) \<and> set (map page_no ps) \<subseteq> {0x300, 0x301, 0x302, 0x303, 0x200, 0x201}
    \<and> pte 0x1000 s' r = Some (frame (ps ! 0) OR 3) \<and> pte 0x1000 s' (r + PAGE_SIZE) = Some (frame (ps ! 1) OR 3)"
proof -
  have fp: "free_pages [(0x300000, 4), (0x200000, 2)] = {0x300, 0x301, 0x302, 0x303, 0x200, 0x201}"
    by (auto simp: free_pages_def run_pages_def)
  have c: "length [(0x80000000 :: u32, 16 :: u32), (0x80020000, 1)] \<le> 500" "(0 :: u32) < 2" "unat (2 :: u32) \<le> 2 ^ 20"
    "virt_end booted [(0x80000000, 16), (0x80020000, 1)] + virt_len 2 < 2 ^ 32"
    "unat (as_start (cur_space booted)) \<le> 0x90000000" "0x90000000 + virt_len 2 \<le> unat (as_end (cur_space booted))"
    "2 * unat (2 :: u32) < card (free_pages [(0x300000, 4), (0x200000, 2)])"
    unfolding booted_space(1) fp by (simp_all add: virt_len_def)
  have d: "{0x90000000 ..< 0x90000000 + virt_len 2} \<inter> occupied virt_len [(0x80000000, 16), (0x80020000, 1)] = {}"
    by (auto simp: occupied_def cells_def virt_len_def)
  from alloc_virt_pages_fresh [OF booted_ok c(1-6) d c(7), of 3] show ?thesis
  proof (elim exE conjE)
    fix r s' bs' vs' ps
    assume r: "alloc_virt_pages NULL (- 1) 2 3 booted = Some (r, s')" "cells virt_len (r, 2) \<subseteq> virt_range booted"
      "length ps = unat (2 :: u32)" "distinct (map page_no ps)"
      "page_no ` set ps \<subseteq> free_pages [(0x300000, 4), (0x200000, 2)] - free_pages bs'"
      "\<forall>i < unat (2 :: u32). pte 0x1000 s' (r + of_nat i * PAGE_SIZE) = Some (frame (ps ! i) OR 3)"
    have "0x80000000 \<le> unat r"
      using r(2) unfolding booted_space(1) by (simp add: cells_def virt_len_def)
    moreover have "set (map page_no ps) \<subseteq> {0x300, 0x301, 0x302, 0x303, 0x200, 0x201}"
      using r(5) unfolding fp by auto
    ultimately show ?thesis
      using r(1,3,4) r(6) [rule_format, of 0] r(6) [rule_format, of 1]
      by (intro exI [of _ r] exI [of _ s'] exI [of _ ps]) simp
  qed
qed

section \<open>The heap\<close>

lemma set_kernel_dynamic_keeps:
  assumes "cur_address_space s = Kernel_Space"
  shows "heap_state (set_kernel_dynamic f s) = f (heap_state s)" "cur_address_space (set_kernel_dynamic f s) = Kernel_Space"
    "virt_regions (set_kernel_dynamic f s) vs = virt_regions s vs" "virt_ptr (set_kernel_dynamic f s) = virt_ptr s"
    "paging_inv dir (set_kernel_dynamic f s) bs = paging_inv dir s bs" "pte dir (set_kernel_dynamic f s) va = pte dir s va"
    "page_dir (cur_space (set_kernel_dynamic f s)) = page_dir (cur_space s)" "syms (set_kernel_dynamic f s) = syms s"
    "as_start (cur_space (set_kernel_dynamic f s)) = as_start (cur_space s)" "as_end (cur_space (set_kernel_dynamic f s)) = as_end (cur_space s)"
    "virt_memory (cur_space (set_kernel_dynamic f s)) = virt_memory (cur_space s)" "mem (set_kernel_dynamic f s) = mem s"
    "dynamic_memory (kernel_address_space (set_kernel_dynamic f s)) = f (dynamic_memory (kernel_address_space s))"
    "early_step 0 dir s (set_kernel_dynamic f s)"
  using assms paging_inv_cong [of "set_kernel_dynamic f s" s]
  by (simp_all add: set_kernel_dynamic_def address_space_def virt_regions_def virt_table_def virt_ptr_def early_step_same)

text \<open>The kernel's address space with the regions \<open>vs\<close>.\<close>

definition space_with :: "u32 \<Rightarrow> u32 \<Rightarrow> run list \<Rightarrow> kernel \<Rightarrow> bool" where
  "space_with dir e vs s \<longleftrightarrow> cur_address_space s = Kernel_Space \<and> page_dir (cur_space s) = dir
     \<and> as_start (cur_space s) = 0x80000000 \<and> as_end (cur_space s) = 0xFFFFFFFF \<and> virt_ptr s = e
     \<and> virt_table_size s = 1 \<and> virt_regions s vs \<and> unat e \<le> 0x80400000 \<and> (\<forall>(b, n) \<in> set vs. page_aligned b)"

lemma space_withD:
  assumes "space_with dir e vs s"
  shows "cur_address_space s = Kernel_Space" "virt_ptr s = e" "page_dir (cur_space s) = dir" "virt_regions s vs"
    "unat (as_start (cur_space s)) = 0x80000000" "placed virt_len 0x80000000 0xFFFFFFFF vs"
proof -
  show "cur_address_space s = Kernel_Space" "virt_ptr s = e" "page_dir (cur_space s) = dir" and v: "virt_regions s vs"
    using assms unfolding space_with_def by blast+
  have "as_start (cur_space s) = 0x80000000" "as_end (cur_space s) = 0xFFFFFFFF"
    using assms unfolding space_with_def by blast+
  then have b: "unat (as_start (cur_space s)) = 0x80000000" "unat (as_end (cur_space s)) = 0xFFFFFFFF"
    by simp_all
  then show "unat (as_start (cur_space s)) = 0x80000000" by simp
  show "placed virt_len 0x80000000 0xFFFFFFFF vs"
    using v unfolding virt_regions_def b by simp
qed

lemma space_with_dynamic: "space_with dir e vs s \<Longrightarrow> space_with dir e vs (set_kernel_dynamic f s)"
  using set_kernel_dynamic_keeps [where s = s and f = f] unfolding space_with_def by metis

lemma space_with_kept:
  "space_with dir e vs s \<Longrightarrow> space_kept s t \<Longrightarrow> virt_regions t vs' \<Longrightarrow> \<forall>(b, n) \<in> set vs'. page_aligned b \<Longrightarrow> space_with dir e vs' t"
  unfolding space_with_def space_kept_def by metis

lemma cells_within:
  assumes "cells len (r, n) \<subseteq> {a ..< b}" "0 < len n"
  shows "a \<le> unat r \<and> unat r + len n \<le> b"
  using assms by (simp add: cells_def)

lemma space_with_alloc:
  assumes w: "space_with dir e vs s" and len: "length vs = 3 \<or> length vs = 4" and inv: "paging_inv dir s bs"
    and cnt: "0 < count" "unat count \<le> 16" "virt_end s vs \<le> 0x80500000"
    and fit: "0x80000000 \<le> a" "a + virt_len count \<le> 0xFFFFFFFF" "{a ..< a + virt_len count} \<inter> occupied virt_len vs = {}"
  obtains r s' bs' vs' ps where "alloc_virt_pages NULL (- 1) count flags s = Some (r, s')" "space_kept s s'"
    "space_with dir e vs' s'" "paging_inv dir s' bs'" "free_pages bs' \<subseteq> free_pages bs" "set vs' = insert (r, count) (set vs)"
    "length vs' = Suc (length vs)" "virt_end s' vs' \<le> virt_end s vs + virt_len count"
    "0x80000000 \<le> unat r \<and> unat r + virt_len count \<le> 0xFFFFFFFF" "length ps = unat count" "fresh_pages ps (free_pages bs) bs'"
    "bs' \<noteq> [] \<Longrightarrow> \<forall>i < unat count. pte dir s' (r + of_nat i * PAGE_SIZE) = Some (frame (ps ! i) OR flags)"
    "early_step (2 * unat count) dir s s'"
proof -
  have sp: "page_dir (cur_space s) = dir" "virt_regions s vs" "virt_table_size s = 1" "unat (virt_ptr s) \<le> 0x80400000"
    and bounds: "unat (as_start (cur_space s)) = 0x80000000" "unat (as_end (cur_space s)) = 0xFFFFFFFF"
    and al: "page_aligned (as_start (cur_space s))" "\<forall>(b, n) \<in> set vs. page_aligned b"
    using w by (auto simp: space_with_def page_aligned_def)
  have "v_block_count (virt_memory (cur_space s)) = of_nat (length vs)"
    using sp(2) by (simp add: virt_regions_def virt_table_def)
  then have room: "virt_room 1 s vs" "\<not> virt_table_full s" "length vs \<le> 500"
    using len sp(3,4) by (auto simp: virt_room_def virt_table_full_def)
  have n: "unat count \<le> 2 ^ 20" "virt_end s vs + virt_len count < 2 ^ 32" "0 < virt_len count"
    using cnt by (simp_all add: virt_len_def word_less_nat_alt)
  obtain r s1 s' bs' vs' ps where r: "alloc_virt_pages NULL (- 1) count flags s = Some (r, s')" "space_kept s s'"
    "virt_regions s' vs'" "set vs' = insert (r, count) (set vs)"
    "length vs' = Suc (length vs)" "virt_end s' vs' \<le> virt_end s vs + virt_len count" "cells virt_len (r, count) \<subseteq> virt_range s"
    "add_virt_block count s = (r, s1)" "early_step 0 dir s s1" "map_fresh_pages r count flags s1 = Some s'"
    "length ps = unat count" "fresh_pages ps (free_pages bs) bs'" "mapped_upto dir r flags ps s1 (unat count) s' bs'"
    "free_pages bs' \<subseteq> free_pages bs"
    by (rule alloc_region_fits [OF inv sp(1,2) room cnt(1) n(1,2) fit [folded bounds], of flags]) (rule that; assumption)
  have rb: "0x80000000 \<le> unat r" "unat r + virt_len count \<le> 0xFFFFFFFF"
    using cells_within [OF r(7) n(3)] unfolding bounds by simp_all
  have "page_aligned r"
    by (rule add_virt_block_aligned [OF sp(2) room(1) r(8) al])
  then have "\<forall>(b, n) \<in> set vs'. page_aligned b"
    using al(2) r(4) by auto
  note w' = space_with_kept [OF w r(2,3) this]
  have "early_step (0 + 2 * unat count) dir s s'"
    using early_step_trans [OF r(9) early_step_fresh [OF r(10,13) rb(1)]] rb(2) by simp
  moreover have "paging_inv dir s' bs'"
    "bs' \<noteq> [] \<Longrightarrow> \<forall>i < unat count. pte dir s' (r + of_nat i * PAGE_SIZE) = Some (frame (ps ! i) OR flags)"
    using r(13) unfolding mapped_upto_def by blast+
  ultimately show thesis
    using that [OF r(1,2) w' _ r(14,4,5,6) _ r(11,12)] rb by simp
qed

lemma space_with_first:
  assumes "space_empty dir s" "kernel_layout s" "space_kept s t" "virt_regions t (first_regions s)"
  shows "space_with dir (KERNEL_END (syms s)) (first_regions s) t"
proof -
  have "unat (KERNEL_END (syms s)) \<le> 0x80400000" "\<forall>(b, n) \<in> set (first_regions s). page_aligned b"
    using assms(2) by (simp_all add: kernel_layout_def first_regions_def TEMP_PAGE_value page_aligned_def)
  then show ?thesis
    using space_emptyD [OF assms(1)] assms(3,4) unfolding space_kept_def space_with_def by metis
qed

text \<open>Beside the first regions and one page more there is room for the heap.\<close>

lemma room_beside:
  fixes r n :: nat
  assumes "n \<le> 0x1000000" "used \<subseteq> {..<0x80400000} \<union> {r ..< r + 0x1000}"
  obtains c where "0x80500000 \<le> c" "c \<le> 0xA0000000" "{c ..< c + n} \<inter> used = {}"
proof (cases "r < 0x90000000")
  case True
  have "{0xA0000000 ..< 0xA0000000 + n} \<inter> ({..<0x80400000} \<union> {r ..< r + 0x1000}) = {}"
    using True by auto
  then show thesis using assms(2) that [of "0xA0000000"] by auto
next
  case False
  have "{0x80500000 ..< 0x80500000 + n} \<inter> ({..<0x80400000} \<union> {r ..< r + 0x1000}) = {}"
    using False assms(1) by auto
  then show thesis using assms(2) that [of "0x80500000"] by auto
qed

definition fresh_heap :: "u32 \<Rightarrow> u32 \<Rightarrow> DynamicMemory" where
  "fresh_heap tbl heap = \<lparr>d_block_count = 0, d_blocks = tbl, d_table_size = 1, d_heap = heap, d_heap_size = 10\<rparr>"

lemma fresh_heap_regions:
  assumes "heap_state s = fresh_heap tbl heap" "unat heap + 0xA000 \<le> 0xFFFFFFFF"
  shows "heap_regions s []"
proof -
  have "unat (heap + 0xA000) = unat heap + 0xA000"
    using assms(2) by (subst unat_add_nowrap) simp_all
  then show ?thesis
    using assms(1) by (simp add: heap_regions_def heap_table_def table_def heap_end_def fresh_heap_def)
qed

text \<open>The table of the heap, one page.\<close>

lemma init_dynamic_table:
  assumes w: "space_with dir e vs s" and len: "length vs = 3" "virt_end s vs = 0x80400000"
    and inv: "paging_inv dir s bs"
  obtains tbl s1 bs1 vs1 where "alloc_virt_pages NULL (- 1) 1 0xfff s = Some (tbl, s1)" "space_kept s s1"
    "space_with dir e vs1 s1" "paging_inv dir s1 bs1" "free_pages bs1 \<subseteq> free_pages bs" "set vs1 = insert (tbl, 1) (set vs)"
    "length vs1 = 4" "virt_end s1 vs1 \<le> 0x80401000" "0x80000000 \<le> unat tbl"
    "occupied virt_len vs1 \<subseteq> {..<0x80400000} \<union> {unat tbl ..< unat tbl + 0x1000}" "early_step 2 dir s s1"
proof -
  note cur = space_withD [OF w]
  have v1: "virt_len 1 = 0x1000" by (simp add: virt_len_def)
  have occ: "occupied virt_len vs \<subseteq> {..<0x80400000}"
  proof -
    have "placed virt_len 0x80000000 0x80400000 vs"
      using cur(6) placed_append [of virt_len "0x80000000" "0xFFFFFFFF" vs "[]"] len(2) [unfolded cur(5)]
      by (simp only: append_Nil2 simp_thms)
    from placed_occupied [OF this] show ?thesis by (rule subset_trans) auto
  qed
  have l: "length vs = 3 \<or> length vs = 4" using len(1) by simp
  have c: "(0 :: u32) < 1" "unat (1 :: u32) \<le> 16" "virt_end s vs \<le> 0x80500000" "(0x80000000 :: nat) \<le> 0x80400000"
    "0x80400000 + virt_len 1 \<le> 0xFFFFFFFF" "{0x80400000 ..< 0x80400000 + virt_len 1} \<inter> occupied virt_len vs = {}"
    using len(2) occ by (simp_all add: v1) fastforce
  obtain tbl s1 bs1 vs1 where a: "alloc_virt_pages NULL (- 1) 1 0xfff s = Some (tbl, s1)" "space_kept s s1"
    "space_with dir e vs1 s1" "paging_inv dir s1 bs1" "free_pages bs1 \<subseteq> free_pages bs" "set vs1 = insert (tbl, 1) (set vs)"
    "length vs1 = Suc (length vs)" "virt_end s1 vs1 \<le> virt_end s vs + virt_len 1"
    "0x80000000 \<le> unat tbl \<and> unat tbl + virt_len 1 \<le> 0xFFFFFFFF" "early_step (2 * unat (1 :: u32)) dir s s1"
    by (rule space_with_alloc [where flags = "0xfff", OF w l inv c]) (rule that; assumption)
  have "occupied virt_len vs1 \<subseteq> {..<0x80400000} \<union> {unat tbl ..< unat tbl + 0x1000}"
    using occ a(6) by (auto simp: occupied_def cells_def virt_len_def)
  then show thesis
    using that [OF a(1-6)] a(7-10) len by (simp add: v1)
qed

text \<open>The memory of the heap, ten pages.\<close>

lemma init_dynamic_heap:
  assumes w: "space_with dir e vs s" and len: "length vs = 4" "virt_end s vs \<le> 0x80401000"
    and inv: "paging_inv dir s bs" and occ: "occupied virt_len vs \<subseteq> {..<0x80400000} \<union> {r ..< r + 0x1000}"
  obtains heap s' bs' vs' ps where "alloc_virt_pages NULL (- 1) 10 0xfff s = Some (heap, s')" "space_kept s s'"
    "space_with dir e vs' s'" "paging_inv dir s' bs'" "free_pages bs' \<subseteq> free_pages bs" "set vs' = insert (heap, 10) (set vs)"
    "0x80000000 \<le> unat heap \<and> unat heap + 0xA000 \<le> 0xFFFFFFFF" "length ps = 10" "fresh_pages ps (free_pages bs) bs'"
    "bs' \<noteq> [] \<Longrightarrow> \<forall>i < 10. pte dir s' (heap + of_nat i * PAGE_SIZE) = Some (frame (ps ! i) OR 0xfff)"
    "length vs' = 5" "virt_end s' vs' \<le> 0x8040B000" "early_step 20 dir s s'"
proof -
  have v: "virt_len 10 = 0xA000" by (simp add: virt_len_def)
  obtain c where c: "0x80500000 \<le> c" "c \<le> 0xA0000000" "{c ..< c + virt_len 10} \<inter> occupied virt_len vs = {}"
    by (rule room_beside [OF _ occ, of "virt_len 10"]) (use v in simp)
  have l: "length vs = 3 \<or> length vs = 4" using len(1) by simp
  have d: "(0 :: u32) < 10" "unat (10 :: u32) \<le> 16" "virt_end s vs \<le> 0x80500000" "0x80000000 \<le> c"
    "c + virt_len 10 \<le> 0xFFFFFFFF"
    using len(2) c(1,2) by (simp_all add: v)
  show thesis
  proof (rule space_with_alloc [where flags = "0xfff", OF w l inv d c(3)])
    fix heap s' bs' vs' ps
    assume b: "alloc_virt_pages NULL (- 1) 10 0xfff s = Some (heap, s')" "space_kept s s'" "space_with dir e vs' s'"
      "paging_inv dir s' bs'" "free_pages bs' \<subseteq> free_pages bs" "set vs' = insert (heap, 10) (set vs)"
      and h: "0x80000000 \<le> unat heap \<and> unat heap + virt_len 10 \<le> 0xFFFFFFFF" "length ps = unat (10 :: u32)"
        "fresh_pages ps (free_pages bs) bs'"
        "bs' \<noteq> [] \<Longrightarrow> \<forall>i < unat (10 :: u32). pte dir s' (heap + of_nat i * PAGE_SIZE) = Some (frame (ps ! i) OR 0xfff)"
        "length vs' = Suc (length vs)" "virt_end s' vs' \<le> virt_end s vs + virt_len 10" "early_step (2 * unat (10 :: u32)) dir s s'"
    show thesis
      using that [OF b _ _ h(3)] h(1,2,4-7) len by (simp add: v)
  qed
qed

lemma init_dynamic_regions:
  assumes w: "space_with dir e vs s" and len: "length vs = 3" "virt_end s vs = 0x80400000"
    and inv: "paging_inv dir s bs"
  obtains tbl heap s' bs' vs' ps where "init_dynamic s = Some s'" "paging_inv dir s' bs'" "free_pages bs' \<subseteq> free_pages bs"
    "space_with dir e vs' s'" "set vs' = set vs \<union> {(tbl, 1), (heap, 10)}" "heap_state s' = fresh_heap tbl heap"
    "0x80000000 \<le> unat tbl" "0x80000000 \<le> unat heap \<and> unat heap + 0xA000 \<le> 0xFFFFFFFF"
    "\<forall>x. x \<notin> bytes_at e 4096 \<longrightarrow> mem s' x = mem s x"
    "length ps = 10" "fresh_pages ps (free_pages bs) bs'"
    "bs' \<noteq> [] \<Longrightarrow> \<forall>i < 10. pte dir s' (heap + of_nat i * PAGE_SIZE) = Some (frame (ps ! i) OR 0xfff)"
    "length vs' = 5" "virt_end s' vs' \<le> 0x8040B000" "early_step 22 dir s s'"
proof -
  let ?s0 = "set_kernel_dynamic (\<lambda>d. d\<lparr>d_block_count := 0, d_table_size := 1\<rparr>) s"
  note cur = space_withD [OF w]
  note k0 = set_kernel_dynamic_keeps [OF cur(1), where f = "\<lambda>d. d\<lparr>d_block_count := 0, d_table_size := 1\<rparr>"]
  have "virt_end ?s0 vs = 0x80400000" "paging_inv dir ?s0 bs"
    using len(2) inv k0(5,9) by simp_all
  then obtain tbl s1 bs1 vs1 where a: "alloc_virt_pages NULL (- 1) 1 0xfff ?s0 = Some (tbl, s1)" "space_kept ?s0 s1"
    "space_with dir e vs1 s1" "paging_inv dir s1 bs1" "free_pages bs1 \<subseteq> free_pages bs" "set vs1 = insert (tbl, 1) (set vs)"
    "length vs1 = 4" "virt_end s1 vs1 \<le> 0x80401000" "0x80000000 \<le> unat tbl"
    "occupied virt_len vs1 \<subseteq> {..<0x80400000} \<union> {unat tbl ..< unat tbl + 0x1000}" "early_step 2 dir ?s0 s1"
    by (rule init_dynamic_table [OF space_with_dynamic [OF w] len(1)]) (rule that; assumption)
  let ?s2 = "set_kernel_dynamic (\<lambda>d. d\<lparr>d_blocks := tbl, d_heap_size := 10\<rparr>) s1"
  note c1 = space_withD [OF a(3)]
  note k2 = set_kernel_dynamic_keeps [OF c1(1), where f = "\<lambda>d. d\<lparr>d_blocks := tbl, d_heap_size := 10\<rparr>"]
  have "virt_end ?s2 vs1 \<le> 0x80401000" "paging_inv dir ?s2 bs1"
    using a(4,8) k2(5,9) by simp_all
  then obtain heap s3 bs3 vs3 ps where b: "alloc_virt_pages NULL (- 1) 10 0xfff ?s2 = Some (heap, s3)" "space_kept ?s2 s3"
    "space_with dir e vs3 s3" "paging_inv dir s3 bs3" "free_pages bs3 \<subseteq> free_pages bs1" "set vs3 = insert (heap, 10) (set vs1)"
    "0x80000000 \<le> unat heap \<and> unat heap + 0xA000 \<le> 0xFFFFFFFF" "length ps = 10" "fresh_pages ps (free_pages bs1) bs3"
    "bs3 \<noteq> [] \<Longrightarrow> \<forall>i < 10. pte dir s3 (heap + of_nat i * PAGE_SIZE) = Some (frame (ps ! i) OR 0xfff)"
    "length vs3 = 5" "virt_end s3 vs3 \<le> 0x8040B000" "early_step 20 dir ?s2 s3"
    by (rule init_dynamic_heap [OF space_with_dynamic [OF a(3)] a(7) _ _ a(10)]) (rule that; assumption)
  let ?s4 = "set_kernel_dynamic (\<lambda>d. d\<lparr>d_heap := heap\<rparr>) s3"
  note k4 = set_kernel_dynamic_keeps [OF space_withD(1) [OF b(3)], where f = "\<lambda>d. d\<lparr>d_heap := heap\<rparr>"]
  have i4: "paging_inv dir ?s4 bs3" "free_pages bs3 \<subseteq> free_pages bs" "set vs3 = set vs \<union> {(tbl, 1), (heap, 10)}"
    using b(4,5,6) a(5,6) k4(5) by auto
  have fresh: "fresh_pages ps (free_pages bs) bs3"
    using b(9) a(5) unfolding fresh_pages_def by blast
  have mem: "\<forall>x. x \<notin> bytes_at e 4096 \<longrightarrow> mem ?s4 x = mem s x"
    using a(2) b(2) k0(12,4) k2(12,4) k4(12) cur(2) c1(2) unfolding space_kept_def by metis
  have heap: "heap_state ?s4 = fresh_heap tbl heap"
    unfolding k4(1) space_kept_heap [OF b(2)] k2(1) space_kept_heap [OF a(2)] k0(1) fresh_heap_def by (cases "heap_state s") simp
  have "dynamic_memory (kernel_address_space t) = heap_state t" if "cur_address_space t = Kernel_Space" for t
    using that by (simp add: address_space_def)
  then have "init_dynamic s = Some ?s4"
    using a(1) b(1) k0(1,2) k2(1,2) by (simp add: init_dynamic_def Let_def)
  moreover have "\<forall>i < 10. pte dir ?s4 (heap + of_nat i * PAGE_SIZE) = Some (frame (ps ! i) OR 0xfff)" if "bs3 \<noteq> []"
    using b(10) [OF that] k4(6) by simp
  moreover have "virt_end ?s4 vs3 \<le> 0x8040B000"
    using b(12) k4(9) by simp
  moreover have "early_step 22 dir s ?s4"
    using early_step_trans [OF early_step_trans [OF early_step_trans [OF early_step_trans [OF k0(14) a(11)] k2(14)] b(13)] k4(14)]
    by simp
  ultimately show thesis
    using that [OF _ i4(1,2) space_with_dynamic [OF b(3)] i4(3) heap _ _ mem _ fresh] a(9) b(7,8,11) by simp
qed

section \<open>The whole of it\<close>

text \<open>
  From a sound free list and page tables that lie outside free memory, with the layout of the
  linker script, the start of the kernel's address space always returns and establishes the
  invariants of every part of the memory manager: the table of regions holds the kernel, the table
  itself, the window \<open>TEMP_PAGE\<close>, the table of the heap and the ten pages of the heap, five regions
  that do not overlap; the heap is empty; unless free memory ran out, its pages are mapped to
  distinct pages that were free. At most 25 pages are used.
\<close>

lemma init_kernel_memory_gives:
  assumes "paging_inv (kernel_page_dir s) s bs" and "kernel_layout s"
  obtains tbl heap s' bs' vs ps where "init_kernel_memory s = Some s'" "paging_inv (kernel_page_dir s) s' bs'"
    "free_pages bs' \<subseteq> free_pages bs" "space_with (kernel_page_dir s) (KERNEL_END (syms s)) vs s'"
    "set vs = set (first_regions s) \<union> {(tbl, 1), (heap, 10)}" "length vs = 5" "virt_end s' vs \<le> 0x8040B000"
    "heap_state s' = fresh_heap tbl heap" "0x80000000 \<le> unat tbl" "0x80000000 \<le> unat heap \<and> unat heap + 0xA000 \<le> 0xFFFFFFFF"
    "length ps = 10" "fresh_pages ps (free_pages bs) bs'"
    "bs' \<noteq> [] \<Longrightarrow> \<forall>i < 10. pte (kernel_page_dir s) s' (heap + of_nat i * PAGE_SIZE) = Some (frame (ps ! i) OR 0xfff)"
    "early_step 25 (kernel_page_dir s) s s'" "\<forall>x. x \<notin> bytes_at (KERNEL_END (syms s)) 4096 \<longrightarrow> mem s' x = mem s x"
proof -
  let ?dir = "kernel_page_dir s" and ?s0 = "init_kernel_space s"
  note e = init_kernel_space_empty [OF assms(2)]
  have lay: "kernel_layout ?s0" and first: "first_regions ?s0 = first_regions s"
    using assms(2) e(2) by (simp_all add: kernel_layout_def first_regions_def)
  have e0: "early_step 0 ?dir s ?s0"
    using e(5) by (intro early_step_same) (simp_all add: init_kernel_space_def)
  obtain s1 bs1 where v: "init_virtual ?s0 = Some s1" "paging_inv ?dir s1 bs1" "free_pages bs1 \<subseteq> free_pages bs"
      "space_kept ?s0 s1" "virt_regions s1 (first_regions s)" "early_step 3 ?dir ?s0 s1"
    using init_virtual_regions [OF e(1) lay assms(1) [folded e(3) [of ?dir bs]]] unfolding first by blast
  have w: "space_with ?dir (KERNEL_END (syms s)) (first_regions s) s1"
    using space_with_first [OF e(1) lay v(4)] v(5) unfolding e(2) first by blast
  have l: "length (first_regions s) = 3" "virt_end s1 (first_regions s) = 0x80400000"
    using first_regions_placed(3) [OF assms(2)] by (simp_all add: first_regions_def)
  obtain tbl heap s' bs' vs ps where d: "init_dynamic s1 = Some s'" "paging_inv ?dir s' bs'" "free_pages bs' \<subseteq> free_pages bs1"
      "space_with ?dir (KERNEL_END (syms s)) vs s'" "set vs = set (first_regions s) \<union> {(tbl, 1), (heap, 10)}"
      "heap_state s' = fresh_heap tbl heap" "0x80000000 \<le> unat tbl" "0x80000000 \<le> unat heap \<and> unat heap + 0xA000 \<le> 0xFFFFFFFF"
      "\<forall>x. x \<notin> bytes_at (KERNEL_END (syms s)) 4096 \<longrightarrow> mem s' x = mem s1 x" "length ps = 10" "fresh_pages ps (free_pages bs1) bs'"
      "bs' \<noteq> [] \<Longrightarrow> \<forall>i < 10. pte ?dir s' (heap + of_nat i * PAGE_SIZE) = Some (frame (ps ! i) OR 0xfff)"
      "length vs = 5" "virt_end s' vs \<le> 0x8040B000" "early_step 22 ?dir s1 s'"
    by (rule init_dynamic_regions [OF w l v(2)]) (rule that; assumption)
  have "init_kernel_memory s = Some s'"
    using v(1) d(1) by (simp add: init_kernel_memory_def)
  moreover have "fresh_pages ps (free_pages bs) bs'"
    using d(11) v(3) unfolding fresh_pages_def by blast
  moreover have "\<forall>x. x \<notin> bytes_at (KERNEL_END (syms s)) 4096 \<longrightarrow> mem s' x = mem s x"
    using d(9) v(4) space_emptyD(5) [OF e(1)] e(4) unfolding space_kept_def e(2) by metis
  moreover have "free_pages bs' \<subseteq> free_pages bs"
    using d(3) v(3) by blast
  moreover have "early_step 25 ?dir s s'"
    using early_step_trans [OF early_step_trans [OF e0 v(6)] d(15)] by simp
  ultimately show thesis
    using that [OF _ d(2) _ d(4,5,13,14,6,7,8,10)] d(12) by blast
qed

end
