(* ===== verification/Multiboot.thy ===== *)
theory Multiboot
  imports Machine
begin

text \<open>
  The structs of \<open>multiboot.h\<close>, as lists of fields with their sizes in the order of the declaration,
  and the layout that the C compiler gives them on i386: a field of four bytes or more starts at a
  multiple of four, one of two bytes at a multiple of two. The boot loader fills them without padding.
\<close>

section \<open>The structs\<close>

definition multiboot_header :: "(string \<times> nat) list" where
  "multiboot_header = [(''magic'', 4), (''flags'', 4), (''checksum'', 4), (''header_addr'', 4), (''load_addr'', 4),
     (''load_end_addr'', 4), (''bss_end_addr'', 4), (''entry_addr'', 4), (''mode_type'', 4), (''width'', 4),
     (''height'', 4), (''depth'', 4)]"

definition multiboot_aout_symbol_table :: "(string \<times> nat) list" where
  "multiboot_aout_symbol_table = [(''tabsize'', 4), (''strsize'', 4), (''addr'', 4), (''reserved'', 4)]"

definition multiboot_elf_section_header_table :: "(string \<times> nat) list" where
  "multiboot_elf_section_header_table = [(''num'', 4), (''size'', 4), (''addr'', 4), (''shndx'', 4)]"

text \<open>The field \<open>u\<close> is the union of the two tables above. The last union is \<open>color_info\<close> here; it has no name in the code.\<close>

definition multiboot_info :: "(string \<times> nat) list" where
  "multiboot_info = [(''flags'', 4), (''mem_lower'', 4), (''mem_upper'', 4), (''boot_device'', 4), (''cmdline'', 4),
     (''mods_count'', 4), (''mods_addr'', 4), (''u'', 16), (''mmap_length'', 4), (''mmap_addr'', 4),
     (''drives_length'', 4), (''drives_addr'', 4), (''config_table'', 4), (''boot_loader_name'', 4), (''apm_table'', 4),
     (''vbe_control_info'', 4), (''vbe_mode_info'', 4), (''vbe_mode'', 2), (''vbe_interface_seg'', 2),
     (''vbe_interface_off'', 2), (''vbe_interface_len'', 2), (''framebuffer_addr'', 8), (''framebuffer_pitch'', 4),
     (''framebuffer_width'', 4), (''framebuffer_height'', 4), (''framebuffer_bpp'', 1), (''framebuffer_type'', 1)]"

definition framebuffer_palette :: "(string \<times> nat) list" where
  "framebuffer_palette = [(''framebuffer_palette_addr'', 4), (''framebuffer_palette_num_colors'', 2)]"

definition framebuffer_rgb :: "(string \<times> nat) list" where
  "framebuffer_rgb = [(''framebuffer_red_field_position'', 1), (''framebuffer_red_mask_size'', 1),
     (''framebuffer_green_field_position'', 1), (''framebuffer_green_mask_size'', 1),
     (''framebuffer_blue_field_position'', 1), (''framebuffer_blue_mask_size'', 1)]"

definition multiboot_color :: "(string \<times> nat) list" where
  "multiboot_color = [(''red'', 1), (''green'', 1), (''blue'', 1)]"

definition multiboot_mmap_entry :: "(string \<times> nat) list" where
  "multiboot_mmap_entry = [(''size'', 4), (''addr'', 8), (''len'', 8), (''type'', 4)]"

definition multiboot_mod_list :: "(string \<times> nat) list" where
  "multiboot_mod_list = [(''mod_start'', 4), (''mod_end'', 4), (''cmdline'', 4), (''pad'', 4)]"

definition multiboot_apm_info :: "(string \<times> nat) list" where
  "multiboot_apm_info = [(''version'', 2), (''cseg'', 2), (''offset'', 4), (''cseg_16'', 2), (''dseg'', 2), (''flags'', 2),
     (''cseg_len'', 2), (''cseg_16_len'', 2), (''dseg_len'', 2)]"

section \<open>The layout of the compiler\<close>

definition alignment :: "nat \<Rightarrow> nat" where
  "alignment n = (if 4 \<le> n then 4 else n)"

definition round_up :: "nat \<Rightarrow> nat \<Rightarrow> nat" where
  "round_up k n = (n + k - 1) div k * k"

fun c_offset :: "string \<Rightarrow> (string \<times> nat) list \<Rightarrow> nat \<Rightarrow> nat option" where
  "c_offset f [] n = None"
| "c_offset f ((g, k) # fs) n =
     (let p = round_up (alignment k) n in if f = g then Some p else c_offset f fs (p + k))"

text \<open>A field stands where the boot loader puts it when every field up to it starts at a multiple of its alignment.\<close>

fun aligned_fields :: "(string \<times> nat) list \<Rightarrow> nat \<Rightarrow> bool" where
  "aligned_fields [] n = True"
| "aligned_fields ((g, k) # fs) n = (0 < k \<and> n mod alignment k = 0 \<and> aligned_fields fs (n + k))"

lemma round_up_aligned: "0 < k \<Longrightarrow> n mod k = 0 \<Longrightarrow> round_up k n = n"
proof -
  assume k: "0 < k" "n mod k = 0"
  then have "n + k - 1 = (k - 1) + (n div k) * k"
    by auto
  then have "(n + k - 1) div k = (k - 1) div k + n div k"
    using div_mult_self1 [of k "k - 1" "n div k"] k(1) by (simp add: mult.commute)
  then show ?thesis
    using k by (auto simp: round_up_def)
qed

lemma c_offset_aligned:
  assumes "aligned_fields fs n" "f \<in> fst ` set fs"
  shows "c_offset f fs n = Some (n + field_offset f fs)"
  using assms
proof (induction fs arbitrary: n)
  case (Cons r fs)
  obtain g k where r: "r = (g, k)" by (cases r)
  have "0 < alignment k" "n mod alignment k = 0"
    using Cons.prems(1) by (simp_all add: r alignment_def)
  then have "round_up (alignment k) n = n"
    by (rule round_up_aligned)
  moreover have "c_offset f fs (n + k) = Some (n + k + field_offset f fs)" if "f \<noteq> g"
    using Cons.IH [of "n + k"] Cons.prems that by (simp add: r)
  ultimately show ?case
    by (auto simp: r)
qed simp

text \<open>
  The compiler puts every field of \<open>multiboot_info\<close> that the struct names where the boot loader
  writes it, without padding, and the module entry, the header and the two tables that share the
  field \<open>u\<close> have the sizes that their comments and the union give.
\<close>

theorem multiboot_layout_unpadded:
  assumes "f \<in> fst ` set multiboot_info"
  shows "c_offset f multiboot_info 0 = Some (field_offset f multiboot_info)"
    "struct_size multiboot_mod_list = 16" "struct_size multiboot_header = 48"
    "struct_size multiboot_aout_symbol_table = 16 \<and> struct_size multiboot_elf_section_header_table = 16"
proof -
  have "aligned_fields multiboot_info 0"
    by (simp add: multiboot_info_def alignment_def)
  from c_offset_aligned [OF this assms] show "c_offset f multiboot_info 0 = Some (field_offset f multiboot_info)"
    by simp
qed (simp_all add: struct_size_def multiboot_mod_list_def multiboot_header_def multiboot_aout_symbol_table_def
    multiboot_elf_section_header_table_def)

theorem multiboot_layout_unpadded_witness:
  "c_offset ''mmap_addr'' multiboot_info 0 = Some 48"
proof -
  have "''mmap_addr'' \<in> fst ` set multiboot_info"
    by (simp add: multiboot_info_def)
  from multiboot_layout_unpadded(1) [OF this] show ?thesis
    by (simp add: multiboot_info_def)
qed

text \<open>The union after \<open>framebuffer_type\<close> is the exception: the compiler leaves two bytes before it.\<close>

lemma color_info_padded:
  "c_offset ''color_info'' (multiboot_info @ [(''color_info'', 8)]) 0 = Some (struct_size multiboot_info + 2)"
  by (simp add: multiboot_info_def struct_size_def round_up_def alignment_def)

end
