(* ===== verification/Boot.thy ===== *)
theory Boot
  imports Gdt Interrupts Terminal Task KernelSpace Multiboot
begin

text \<open>
  The start of the kernel: \<open>init_memory_manager\<close> with the memory map of the boot loader,
  \<open>clone_directory\<close>, the change of the address space, \<open>init_tty\<close> and \<open>kernel_main\<close>. What the code
  reads through a pointer into a page that shows page tables or the BIOS data is read through the
  page tables from physical memory (\<open>virtual_cell\<close> of \<open>Paging\<close>); \<open>None\<close> is a page fault there, or a loop that does not end.
  The memory map is read from \<open>mem\<close>, at the address that the boot loader gives.
\<close>

section \<open>Address spaces\<close>

definition flush_cr3 :: "u32 \<Rightarrow> kernel \<Rightarrow> kernel" where
  "flush_cr3 pd s = s\<lparr>cr3 := pd\<rparr>"

definition change_address_space :: "space \<Rightarrow> kernel \<Rightarrow> kernel" where
  "change_address_space sp s =
     (let s = s\<lparr>cur_address_space := sp\<rparr> in flush_cr3 (page_dir (cur_space s)) s)"

text \<open>
  The loop of \<open>clone_directory\<close>, over the \<open>n\<close> entries from \<open>i\<close> on. The kernel's directory is read
  through \<open>page_dir\<close>, which holds its physical address.
\<close>

fun clone_entries :: "nat \<Rightarrow> u32 \<Rightarrow> u32 \<Rightarrow> kernel \<Rightarrow> kernel option" where
  "clone_entries 0 i cloneable_dir s = Some s"
| "clone_entries (Suc n) i cloneable_dir s =
     do {
       a \<leftarrow> virtual_cell (page_dir (kernel_address_space s) + 4 * i) s;
       b \<leftarrow> virtual_cell (cloneable_dir + 4 * i) s;
       let s = (if a = b then temp_write (4 * i) b s else s);
       clone_entries n (i + 1) cloneable_dir s
     }"

definition clone_directory :: "u32 \<Rightarrow> kernel \<Rightarrow> (u32 \<times> kernel) option" where
  "clone_directory src s =
     do {
       (clone_dir, s) \<leftarrow> alloc_phys_pages 1 s;
       (cloneable_dir, s) \<leftarrow> alloc_virt_pages NULL src 1 0xfff s;
       let s = temp_map_page clone_dir s;
       let s = for_up 1024 (\<lambda>i. temp_write (4 * of_nat i) 0) s;
       s \<leftarrow> clone_entries 1024 0 cloneable_dir s;
       let (_, s) = del_virt_block cloneable_dir s;
       (_, s) \<leftarrow> unmap_pages cloneable_dir 1 s;
       Some (clone_dir, s)
     }"

section \<open>The memory map\<close>

type_synonym u64 = "64 word"

definition load64 :: "mem \<Rightarrow> u32 \<Rightarrow> u64" where
  "load64 m p = ucast (load32 m p) OR push_bit 32 (ucast (load32 m (p + 4)))"

definition store64 :: "u32 \<Rightarrow> u64 \<Rightarrow> mem \<Rightarrow> mem" where
  "store64 p v m = store32 (p + 4) (ucast (drop_bit 32 v)) (store32 p (ucast v) m)"

abbreviation entry_field :: "string \<Rightarrow> u32" where
  "entry_field f \<equiv> of_nat (field_offset f multiboot_mmap_entry)"

lemma multiboot_layout [simp]:
  "field_offset ''mmap_addr'' multiboot_info = 48" "entry_field ''addr'' = 4" "entry_field ''len'' = 12"
  "entry_field ''type'' = 20" "struct_size multiboot_mmap_entry = 24"
  by (simp_all add: multiboot_info_def multiboot_mmap_entry_def struct_size_def)

definition mmap_addr :: "mem \<Rightarrow> u32 \<Rightarrow> u64" where "mmap_addr m entry = load64 m (entry + entry_field ''addr'')"
definition mmap_len :: "mem \<Rightarrow> u32 \<Rightarrow> u64" where "mmap_len m entry = load64 m (entry + entry_field ''len'')"
definition mmap_type :: "mem \<Rightarrow> u32 \<Rightarrow> u32" where "mmap_type m entry = load32 m (entry + entry_field ''type'')"

text \<open>The body of the loop for an entry of available memory from 1 MB on.\<close>

definition add_region :: "u32 \<Rightarrow> kernel \<Rightarrow> kernel option" where
  "add_region entry s =
     (let s = (if mmap_addr (mem s) entry = ucast KERNEL_BASE_LMA
               then s\<lparr>mem := store64 (entry + entry_field ''addr'') (mmap_addr (mem s) entry + ucast (KERNEL_END (syms s) - KERNEL_BASE_VMA)) (mem s)\<rparr>
               else s)
      in do {
        s \<leftarrow> free_phys_pages (ucast (mmap_addr (mem s) entry)) (ucast (drop_bit PAGE_OFFSET_BITS (mmap_len (mem s) entry))) s;
        Some (s\<lparr>memory_size := memory_size s + ucast (mmap_len (mem s) entry)\<rparr>)
      })"

partial_function (option) map_loop :: "u32 \<Rightarrow> kernel \<Rightarrow> kernel option" where
  "map_loop entry s =
     (if mmap_type (mem s) entry \<noteq> 0 then
        do {
          s \<leftarrow> (if mmap_type (mem s) entry = 1 \<and> mmap_addr (mem s) entry \<ge> 0x100000 then add_region entry s else Some s);
          map_loop (entry + of_nat (struct_size multiboot_mmap_entry)) s
        }
      else Some s)"

section \<open>\<open>init_memory_manager\<close>\<close>

definition init_physical :: "u32 \<Rightarrow> kernel \<Rightarrow> kernel option" where
  "init_physical memory_map s =
     map_loop memory_map (s\<lparr>kernel_page_dir := cr3 s, memory_size := 0x100000, free_page_count := 0,
       free_phys_memory_pointer := - 1\<rparr>)"

definition init_user_space :: "kernel \<Rightarrow> kernel option" where
  "init_user_space s =
     do {
       (dir, s) \<leftarrow> clone_directory (page_dir (kernel_address_space s)) s;
       Some (s\<lparr>user_address_space := \<lparr>page_dir = dir, as_start = USER_ADDRESS_SPACE_START, as_end = USER_ADDRESS_SPACE_END,
         virt_memory = virt_memory (kernel_address_space s), dynamic_memory = dynamic_memory (kernel_address_space s)\<rparr>\<rparr>)
     }"

definition init_memory_manager :: "u32 \<Rightarrow> kernel \<Rightarrow> kernel option" where
  "init_memory_manager memory_map s =
     do {
       s \<leftarrow> init_physical memory_map s;
       s \<leftarrow> init_kernel_memory s;
       init_user_space s
     }"

section \<open>\<open>init_tty\<close> and \<open>kernel_main\<close>\<close>

definition init_tty :: "kernel \<Rightarrow> kernel option" where
  "init_tty s =
     do {
       (buffer, s) \<leftarrow> alloc_virt_pages NULL 0xb8000 1 0xfff s;
       let s = s\<lparr>tty_state := (tty_state s)\<lparr>tty_buffer := buffer\<rparr>\<rparr>;
       (vaddr, s) \<leftarrow> alloc_virt_pages NULL 0 1 0xfff s;
       width \<leftarrow> virtual_load16 (0x44A + vaddr) s;
       let s = s\<lparr>tty_state := (tty_state s)\<lparr>tty_width := ucast width, tty_height := 25\<rparr>\<rparr>;
       io_port \<leftarrow> virtual_load16 (0x463 + vaddr) s;
       row \<leftarrow> virtual_load8 (0x451 + vaddr) s;
       column \<leftarrow> virtual_load8 (0x450 + vaddr) s;
       let s = s\<lparr>tty_state := (tty_state s)\<lparr>tty_io_port := io_port,
         cursor := ucast row * tty_width (tty_state s) + ucast column, text_attr := 7\<rparr>\<rparr>;
       let s = s\<lparr>kbd := (kbd s)\<lparr>key_buffer_head := 0, key_buffer_tail := 0\<rparr>\<rparr>;
       set_int_handler (0x20 + 1) 8 (keyboard_int_handler_addr (syms s)) 0x8E s
     }"

definition kernel_main :: "u32 \<Rightarrow> kernel \<Rightarrow> kernel option" where
  "kernel_main mbd s =
     do {
       s \<leftarrow> init_memory_manager (load32 (mem s) (mbd + of_nat (field_offset ''mmap_addr'' multiboot_info))) s;
       s \<leftarrow> gdt_install s;
       s \<leftarrow> init_interrupts s;
       s \<leftarrow> init_tty s;
       let s = clear_screen s;
       let s = change_address_space User_Space s;
       enter_usermode s
     }"

section \<open>Properties of the memory map\<close>

text \<open>
  The map at \<open>p\<close> with \<open>n\<close> entries, ended by an entry of type 0; \<open>k\<close> is the size of the kernel.
\<close>

definition available :: "mem \<Rightarrow> u32 \<Rightarrow> bool" where
  "available m p \<longleftrightarrow> mmap_type m p = 1 \<and> mmap_addr m p \<ge> 0x100000"

definition region_of :: "u32 \<Rightarrow> mem \<Rightarrow> u32 \<Rightarrow> run" where
  "region_of k m p = (ucast (if mmap_addr m p = 0x100000 then mmap_addr m p + ucast k else mmap_addr m p),
     ucast (drop_bit PAGE_OFFSET_BITS (mmap_len m p)))"

fun mmap_ends :: "mem \<Rightarrow> u32 \<Rightarrow> nat \<Rightarrow> bool" where
  "mmap_ends m p 0 = (mmap_type m p = 0)"
| "mmap_ends m p (Suc n) = (mmap_type m p \<noteq> 0 \<and> mmap_ends m (p + 24) n)"

fun mmap_regions :: "u32 \<Rightarrow> mem \<Rightarrow> u32 \<Rightarrow> nat \<Rightarrow> run list" where
  "mmap_regions k m p 0 = []"
| "mmap_regions k m p (Suc n) =
     (if available m p then [region_of k m p] else []) @ mmap_regions k m (p + 24) n"

fun mmap_size :: "mem \<Rightarrow> u32 \<Rightarrow> nat \<Rightarrow> u32" where
  "mmap_size m p 0 = 0"
| "mmap_size m p (Suc n) = (if available m p then ucast (mmap_len m p) else 0) + mmap_size m (p + 24) n"

lemma entry_cong:
  assumes "\<And>x. x \<in> bytes_at p 24 \<Longrightarrow> m x = m' x"
  shows "mmap_type m p = mmap_type m' p" "mmap_addr m p = mmap_addr m' p" "mmap_len m p = mmap_len m' p"
    "available m p = available m' p" "region_of k m p = region_of k m' p"
proof -
  have "load32 m (p + of_nat c) = load32 m' (p + of_nat c)" if "c + 4 \<le> 24" for c
    using bytes_at_sub [of c 4 24 p] that assms by (intro cell32.ld_cong) auto
  from this [of 4] this [of 8] this [of 12] this [of 16] this [of 20]
  show e: "mmap_type m p = mmap_type m' p" "mmap_addr m p = mmap_addr m' p" "mmap_len m p = mmap_len m' p"
    by (simp_all add: mmap_type_def mmap_addr_def mmap_len_def load64_def add.assoc)
  show "available m p = available m' p" "region_of k m p = region_of k m' p"
    by (simp_all add: available_def region_of_def e)
qed

lemma map_cong:
  assumes "\<And>x. x \<in> bytes_at p (24 * Suc n) \<Longrightarrow> m x = m' x" and "24 * Suc n \<le> 2 ^ 32"
  shows "mmap_ends m p n = mmap_ends m' p n \<and> mmap_regions k m p n = mmap_regions k m' p n
    \<and> mmap_size m p n = mmap_size m' p n"
  using assms
proof (induction n arbitrary: p)
  case 0
  then show ?case using entry_cong(1) [of p m m'] by simp
next
  case (Suc n)
  have "bytes_at p 24 \<subseteq> bytes_at p (24 * Suc (Suc n))"
    by (rule bytes_at_mono) simp
  then have hd: "m x = m' x" if "x \<in> bytes_at p 24" for x
    using that Suc.prems(1) by blast
  have "bytes_at (p + of_nat 24) (24 * Suc n) \<subseteq> bytes_at p (24 * Suc (Suc n))"
    using Suc.prems(2) by (intro bytes_at_sub) simp_all
  then have "m x = m' x" if "x \<in> bytes_at (p + 24) (24 * Suc n)" for x
    using that Suc.prems(1) by auto
  from Suc.IH [OF this] show ?case
    using entry_cong [OF hd] Suc.prems(2) by simp
qed

lemma load64_store64: "load64 (store64 p v m) p = v"
proof -
  have "bytes_at p 4 \<inter> bytes_at (p + 4) 4 = {}"
    using bytes_at_offset [of 4 4 _ p] by (auto simp: bytes_at_def)
  then have "load32 (store64 p v m) p = ucast v" "load32 (store64 p v m) (p + 4) = ucast (drop_bit 32 v)"
    unfolding store64_def by (subst cell32.ld_st_disjoint; simp add: load32_store32_same) (rule load32_store32_same)
  moreover have "ucast (ucast v :: u32) OR push_bit 32 (ucast (ucast (drop_bit 32 v) :: u32)) = v"
  proof (rule bit_word_eqI)
    fix i assume "i < LENGTH(64)"
    then show "bit (ucast (ucast v :: u32) OR push_bit 32 (ucast (ucast (drop_bit 32 v) :: u32)) :: u64) i = bit v i"
      by (cases "i < 32") (simp_all add: bit_simps less_diff_conv2)
  qed
  ultimately show ?thesis
    by (simp add: load64_def)
qed

lemma store64_other: "x \<notin> bytes_at p 8 \<Longrightarrow> store64 p v m x = m x"
proof -
  assume "x \<notin> bytes_at p 8"
  then have "x \<notin> bytes_at p 4" "x \<notin> bytes_at (p + 4) 4"
    using bytes_at_sub [of 0 4 8 p] bytes_at_sub [of 4 4 8 p] by auto
  then show ?thesis
    by (simp add: store64_def cell32.st_other)
qed

lemma load64_other:
  assumes "bytes_at q 8 \<inter> bytes_at p 8 = {}"
  shows "load64 (store64 p v m) q = load64 m q"
proof -
  have "load32 (store64 p v m) (q + of_nat c) = load32 m (q + of_nat c)" if "c + 4 \<le> 8" for c
    using bytes_at_sub [of c 4 8 q] that assms by (intro cell32.ld_cong store64_other) auto
  from this [of 0] this [of 4] show ?thesis
    by (simp add: load64_def)
qed

text \<open>Physical memory is kept outside the pages \<open>F\<close>.\<close>

definition phys_beside :: "nat set \<Rightarrow> kernel \<Rightarrow> kernel \<Rightarrow> bool" where
  "phys_beside F s s' \<longleftrightarrow> cr3 s' = cr3 s \<and> (\<forall>a. page_no a \<notin> F \<longrightarrow> phys s' a = phys s a)"

text \<open>One available entry: its run becomes free, and only the entry itself may change in memory.\<close>

lemma add_region_step:
  defines "reg \<equiv> \<lambda>s p. region_of (KERNEL_END (syms s) - KERNEL_BASE_VMA) (mem s) p"
  assumes inv: "phys_inv s bs" and reg: "run_ok (reg s p)"
    and below: "free_pages bs \<subseteq> {..<M}" "M * 4096 \<le> unat (fst (reg s p))"
  obtains s' bs' where "add_region p s = Some s'" "phys_inv s' bs'" "free_pages bs' = free_pages bs \<union> run_pages (reg s p)"
    "syms s' = syms s" "memory_size s' = memory_size s + ucast (mmap_len (mem s) p)"
    "\<And>x. x \<notin> bytes_at p 24 \<Longrightarrow> mem s' x = mem s x" "kernel_page_dir s' = kernel_page_dir s" "phys_beside (free_pages bs') s s'"
proof -
  let ?k = "KERNEL_END (syms s) - KERNEL_BASE_VMA"
  define s1 where "s1 = (if mmap_addr (mem s) p = 0x100000
    then s\<lparr>mem := store64 (p + 4) (mmap_addr (mem s) p + ucast ?k) (mem s)\<rparr> else s)"
  have "bytes_at (p + 12) 8 \<inter> bytes_at (p + 4) 8 = {}"
    using bytes_at_offset [of 12 8 _ p] bytes_at_offset [of 4 8 _ p] by (auto simp: bytes_at_def)
  then have len: "mmap_len (mem s1) p = mmap_len (mem s) p"
    by (simp add: s1_def mmap_len_def load64_other)
  have addr: "mmap_addr (mem s1) p = (if mmap_addr (mem s) p = 0x100000 then mmap_addr (mem s) p + ucast ?k else mmap_addr (mem s) p)"
    by (simp add: s1_def mmap_addr_def load64_store64)
  obtain b n where bn: "reg s p = (b, n)" by (cases "reg s p")
  have b: "b = ucast (mmap_addr (mem s1) p)" and n: "n = ucast (drop_bit 12 (mmap_len (mem s1) p))"
    using bn unfolding reg_def region_of_def addr len by simp_all
  have "unat c + unat l * 4096 \<le> unat b" if q: "(c, l) \<in> set bs" for c l
  proof -
    have ok: "run_ok (c, l)" and "run_pages (c, l) \<subseteq> free_pages bs"
      using inv q by (auto simp: phys_inv_def free_list_def runs_ok_def free_pages_def)
    then have "0 < unat l" "4096 dvd unat c" "unat c div 4096 + unat l - 1 \<in> free_pages bs"
      by (auto simp: run_pages_def page_aligned_dvd word_less_nat_alt)
    then have "unat c div 4096 + unat l \<le> M" "4096 dvd unat c"
      using below(1) by auto
    then show ?thesis
      using below(2) bn by (auto elim!: dvdE)
  qed
  then have "\<forall>q \<in> set bs. apart q (b, n)" "placeable b n bs"
    by (fastforce simp: placeable_def neq_Nil_conv)+
  moreover have "phys_inv s1 bs"
    using inv by (simp add: s1_def phys_inv_def free_list_def)
  ultimately obtain s2 bs' where s2: "free_phys_pages b n s1 = Some s2" "phys_inv s2 bs'"
    "free_pages bs' = free_pages bs \<union> run_pages (b, n)" "phys_step ((b, n) # bs) s1 s2"
    using free_phys_pages_adds [of s1 bs b n] reg bn by metis
  then have po: "phys_only s1 s2" by (simp add: phys_step_def)
  note f = phys_only_fields [OF po]
  have ms: "memory_size s2 = memory_size s" "kernel_page_dir s2 = kernel_page_dir s"
    using po unfolding phys_only_def s1_def by (cases s2; auto)+
  have "runs_ok bs" "runs_ok [(b, n)]"
    using phys_inv_runs_ok [OF inv] reg bn by (simp_all add: runs_ok_def)
  then have "hdr_cells ((b, n) # bs) \<subseteq> {a. page_no a \<in> free_pages bs'}"
    using hdr_cell_free [of bs] hdr_cell_free [of "[(b, n)]"] unfolding s2(3)
    by (auto simp: hdr_cells_def free_pages_def simp del: run_pages_simp)
  then have ph: "phys_beside (free_pages bs') s s2"
    using s2(4) f(5) by (auto simp: phys_beside_def phys_step_def s1_def)
  define s' where "s' = s2\<lparr>memory_size := memory_size s2 + ucast (mmap_len (mem s2) p)\<rparr>"
  have "add_region p s = do {
      t \<leftarrow> free_phys_pages (ucast (mmap_addr (mem s1) p)) (ucast (drop_bit 12 (mmap_len (mem s1) p))) s1;
      Some (t\<lparr>memory_size := memory_size t + ucast (mmap_len (mem t) p)\<rparr>) }"
    by (simp add: add_region_def s1_def)
  then have "add_region p s = Some s'"
    using s2(1) b n by (simp add: s'_def)
  moreover have "phys_inv s' bs'"
    using s2(2) by (simp add: s'_def phys_inv_def free_list_def)
  moreover have "mem s' x = mem s x" if "x \<notin> bytes_at p 24" for x
    using that bytes_at_sub [of 4 8 24 p] f(2) by (auto simp: s'_def s1_def intro!: store64_other)
  ultimately show thesis
    using that s2(3) f(2,7) ms ph len bn by (simp add: s'_def s1_def phys_beside_def)
qed

abbreviation kernel_size :: "kernel \<Rightarrow> u32" where
  "kernel_size s \<equiv> KERNEL_END (syms s) - KERNEL_BASE_VMA"

abbreviation run_before :: "run \<Rightarrow> run \<Rightarrow> bool" where
  "run_before q r \<equiv> unat (fst q) + unat (snd q) * 4096 \<le> unat (fst r)"

lemma map_loop_step:
  assumes "mmap_type (mem s) p \<noteq> 0"
  shows "map_loop p s = do {
    t \<leftarrow> (if available (mem s) p then add_region p s else Some s); map_loop (p + 24) t }"
  using assms by (subst map_loop.simps) (simp add: available_def)

lemma run_pages_below:
  assumes "run_ok (b, n)" "F \<subseteq> {..<M}" "M * 4096 \<le> unat b"
  shows "F \<union> run_pages (b, n) \<subseteq> {..<unat b div 4096 + unat n}"
    "(unat b div 4096 + unat n) * 4096 = unat b + unat n * 4096"
proof -
  have "4096 dvd unat b" using assms(1) by (simp add: page_aligned_dvd)
  then show "(unat b div 4096 + unat n) * 4096 = unat b + unat n * 4096" by auto
  have "M \<le> unat b div 4096" using assms(3) by linarith
  then show "F \<union> run_pages (b, n) \<subseteq> {..<unat b div 4096 + unat n}"
    using assms(2) by (auto simp: run_pages_def)
qed

text \<open>
  The loop frees the runs of the available entries, when these come in ascending order and above
  the pages that are free already.
\<close>

lemma map_loop_frees:
  assumes "phys_inv s bs" "mmap_ends (mem s) p n" "24 * Suc n \<le> 2 ^ 32"
    and "\<forall>r \<in> set (mmap_regions (kernel_size s) (mem s) p n). run_ok r \<and> M * 4096 \<le> unat (fst r)"
    and "sorted_wrt run_before (mmap_regions (kernel_size s) (mem s) p n)" "free_pages bs \<subseteq> {..<M}"
  shows "\<exists>s' bs'. map_loop p s = Some s' \<and> phys_inv s' bs'
    \<and> free_pages bs' = free_pages bs \<union> free_pages (mmap_regions (kernel_size s) (mem s) p n)
    \<and> memory_size s' = memory_size s + mmap_size (mem s) p n
    \<and> (\<forall>x. x \<notin> bytes_at p (24 * n) \<longrightarrow> mem s' x = mem s x)
    \<and> syms s' = syms s \<and> kernel_page_dir s' = kernel_page_dir s \<and> phys_beside (free_pages bs') s s'"
  using assms
proof (induction n arbitrary: s p bs M)
  case 0
  have "map_loop p s = Some s"
    using 0(2) by (subst map_loop.simps) simp
  then show ?case using 0(1) by (auto simp: phys_beside_def)
next
  case (Suc n)
  let ?k = "kernel_size s" and ?rs = "mmap_regions (kernel_size s) (mem s) (p + 24) n"
  have sub: "bytes_at p 24 \<subseteq> bytes_at p (24 * Suc n)"
    by (rule bytes_at_mono) simp
  have rest: "bytes_at (p + 24) (24 * n) \<subseteq> bytes_at p (24 * Suc n)"
    using bytes_at_sub [of 24 "24 * n" "24 * Suc n" p] Suc.prems(3) by simp
  have away: "x \<notin> bytes_at p 24" if "x \<in> bytes_at (p + 24) (24 * Suc n)" for x
    using bytes_at_offset [of 24 "24 * Suc n" x p] that Suc.prems(3) by (simp add: bytes_at_def)
  note step = map_loop_step [of s p]
  show ?case
  proof (cases "available (mem s) p")
    case False
    then have "mmap_regions ?k (mem s) p (Suc n) = ?rs" "mmap_size (mem s) p (Suc n) = mmap_size (mem s) (p + 24) n"
      by simp_all
    moreover have "map_loop p s = map_loop (p + 24) s"
      using step Suc.prems(2) False by simp
    moreover obtain s' bs' where "map_loop (p + 24) s = Some s'" "phys_inv s' bs'" "free_pages bs' = free_pages bs \<union> free_pages ?rs"
        "memory_size s' = memory_size s + mmap_size (mem s) (p + 24) n"
        "\<forall>x. x \<notin> bytes_at (p + 24) (24 * n) \<longrightarrow> mem s' x = mem s x"
        "syms s' = syms s" "kernel_page_dir s' = kernel_page_dir s" "phys_beside (free_pages bs') s s'"
      using Suc.IH [of s bs "p + 24" M] Suc.prems False by auto
    ultimately show ?thesis
      using rest by (intro exI [of _ s'] exI [of _ bs']) auto
  next
    case True
    let ?r = "region_of ?k (mem s) p"
    obtain b c where r: "?r = (b, c)" by (cases ?r)
    have regs: "mmap_regions ?k (mem s) p (Suc n) = (b, c) # ?rs"
      using True r by simp
    have ok: "run_ok (b, c)" "M * 4096 \<le> unat b"
      using Suc.prems(4) unfolding regs by simp_all
    obtain s1 bs1 where s1: "add_region p s = Some s1" "phys_inv s1 bs1" "free_pages bs1 = free_pages bs \<union> run_pages (b, c)"
      "syms s1 = syms s" "memory_size s1 = memory_size s + ucast (mmap_len (mem s) p)"
      "\<And>x. x \<notin> bytes_at p 24 \<Longrightarrow> mem s1 x = mem s x" "kernel_page_dir s1 = kernel_page_dir s" "phys_beside (free_pages bs1) s s1"
      by (rule add_region_step [OF Suc.prems(1), of p M]) (use ok r Suc.prems(6) in auto)
    have eq: "mmap_ends (mem s1) (p + 24) n = mmap_ends (mem s) (p + 24) n"
      "mmap_regions ?k (mem s1) (p + 24) n = ?rs" "mmap_size (mem s1) (p + 24) n = mmap_size (mem s) (p + 24) n"
      using map_cong [of "p + 24" n "mem s1" "mem s" ?k] s1(6) away Suc.prems(3) by simp_all
    note top = run_pages_below [OF ok(1) Suc.prems(6) ok(2)]
    obtain s' bs' where "map_loop (p + 24) s1 = Some s'" "phys_inv s' bs'" "free_pages bs' = free_pages bs1 \<union> free_pages ?rs"
        "memory_size s' = memory_size s1 + mmap_size (mem s) (p + 24) n"
        and frame: "\<forall>x. x \<notin> bytes_at (p + 24) (24 * n) \<longrightarrow> mem s' x = mem s1 x"
        and same: "syms s' = syms s1" "kernel_page_dir s' = kernel_page_dir s1" "phys_beside (free_pages bs') s1 s'"
      using Suc.IH [of s1 bs1 "p + 24" "unat b div 4096 + unat c"] s1(2-4) eq top Suc.prems(2-5)
      unfolding regs by (auto simp del: free_pages_simps)
    moreover have "map_loop p s = map_loop (p + 24) s1"
      using step Suc.prems(2) True s1(1) by simp
    moreover have "mem s' x = mem s x" if "x \<notin> bytes_at p (24 * Suc n)" for x
    proof -
      have "x \<notin> bytes_at p 24" "x \<notin> bytes_at (p + 24) (24 * n)"
        using that sub rest by blast+
      then show ?thesis
        using s1(6) frame by simp
    qed
    moreover have "phys_beside (free_pages bs') s s'"
      using s1(8) same(3) calculation(3) by (simp add: phys_beside_def)
    ultimately show ?thesis
      using s1(3-5,7) same(1,2) True r unfolding regs
      by (intro exI [of _ s'] exI [of _ bs']) (simp add: Un_assoc)
  qed
qed

text \<open>\<open>init_physical\<close> clears the counters and runs the loop.\<close>

lemma init_physical_gives:
  assumes "mmap_ends (mem s) p n" "24 * Suc n \<le> 2 ^ 32"
    and "\<forall>r \<in> set (mmap_regions (kernel_size s) (mem s) p n). run_ok r"
    and "sorted_wrt run_before (mmap_regions (kernel_size s) (mem s) p n)"
  obtains s' bs where "init_physical p s = Some s'" "phys_inv s' bs"
    "free_pages bs = free_pages (mmap_regions (kernel_size s) (mem s) p n)"
    "memory_size s' = 0x100000 + mmap_size (mem s) p n" "\<forall>x. x \<notin> bytes_at p (24 * n) \<longrightarrow> mem s' x = mem s x"
    "syms s' = syms s" "kernel_page_dir s' = cr3 s" "phys_beside (free_pages bs) s s'"
proof -
  define t where "t = s\<lparr>kernel_page_dir := cr3 s, memory_size := 0x100000, free_page_count := 0,
       free_phys_memory_pointer := - 1\<rparr>"
  have "phys_inv t []"
    by (simp add: t_def phys_inv_def free_list_def circ_def)
  from map_loop_frees [OF this, of p n 0] assms obtain s' bs where m: "map_loop p t = Some s'" "phys_inv s' bs"
    "free_pages bs = free_pages (mmap_regions (kernel_size s) (mem s) p n)"
    "memory_size s' = 0x100000 + mmap_size (mem s) p n" "\<forall>x. x \<notin> bytes_at p (24 * n) \<longrightarrow> mem s' x = mem s x"
    "syms s' = syms s" "kernel_page_dir s' = cr3 s" "phys_beside (free_pages bs) t s'"
    by (auto simp: t_def)
  have "init_physical p s = Some s'"
    using m(1) by (simp add: init_physical_def t_def)
  moreover have "phys_beside (free_pages bs) s s'"
    using m(8) by (simp add: phys_beside_def t_def)
  ultimately show thesis
    using that m(2-7) by blast
qed

text \<open>
  With a memory map whose available regions are in ascending order, the start of the memory
  manager returns, the free list is sound, and the free pages are the pages of these regions, where
  the region at 1 MB is moved up by the size of the kernel; \<open>memory_size\<close> is the first megabyte and
  the lengths of the regions, and only the map itself may change in memory.
\<close>

theorem init_physical_frees_map:
  assumes "mmap_ends (mem s) p n" and "24 * Suc n \<le> 2 ^ 32"
    and "\<forall>r \<in> set (mmap_regions (kernel_size s) (mem s) p n). run_ok r"
    and "sorted_wrt run_before (mmap_regions (kernel_size s) (mem s) p n)"
  shows "\<exists>s' bs. init_physical p s = Some s' \<and> phys_inv s' bs
    \<and> free_pages bs = free_pages (mmap_regions (kernel_size s) (mem s) p n)
    \<and> memory_size s' = 0x100000 + mmap_size (mem s) p n
    \<and> (\<forall>x. x \<notin> bytes_at p (24 * n) \<longrightarrow> mem s' x = mem s x)"
  by (rule init_physical_gives [OF assms]) blast

lemma ucast_sum: "ucast (x + ucast y :: u64) = (ucast x + y :: u32)"
proof -
  have "take_bit 32 (x + take_bit 32 y) = take_bit 32 (take_bit 64 x + y)" for x y :: int
  proof -
    have "x mod 2 ^ 64 mod 2 ^ 32 = x mod 2 ^ 32"
      by (rule mod_mod_cancel) simp
    then show ?thesis
      unfolding take_bit_eq_mod by (metis mod_add_left_eq mod_add_right_eq)
  qed
  then show ?thesis by transfer simp
qed

text \<open>
  Two entries at \<open>0x9000\<close>: the memory below 640 KB, and 2 MB from 1 MB on. The kernel takes 64 KB.
\<close>

definition with_map :: kernel where
  "with_map = zero_kernel\<lparr>mem := store32 0x902C 1 (store32 0x9024 0x200000 (store32 0x901C 0x100000
     (store32 0x9014 1 (store32 0x900C 0x9F000 (\<lambda>_. 0)))))\<rparr>"

lemma with_map_loads:
  "load32 (mem with_map) 0x9004 = 0" "load32 (mem with_map) 0x9008 = 0" "load32 (mem with_map) 0x900C = 0x9F000"
  "load32 (mem with_map) 0x9010 = 0" "load32 (mem with_map) 0x9014 = 1" "load32 (mem with_map) 0x901C = 0x100000"
  "load32 (mem with_map) 0x9020 = 0" "load32 (mem with_map) 0x9024 = 0x200000" "load32 (mem with_map) 0x9028 = 0"
  "load32 (mem with_map) 0x902C = 1" "load32 (mem with_map) 0x9044 = 0"
  by (simp_all add: with_map_def load32_store32_apart load32_store32_same load32_zero)

lemma with_map_entries:
  "mmap_type (mem with_map) 0x9000 = 1" "mmap_addr (mem with_map) 0x9000 = 0" "mmap_type (mem with_map) 0x9018 = 1"
  "mmap_addr (mem with_map) 0x9018 = 0x100000" "mmap_len (mem with_map) 0x9018 = 0x200000" "mmap_type (mem with_map) 0x9030 = 0"
  by (simp_all add: mmap_type_def mmap_addr_def mmap_len_def load64_def with_map_loads)

lemma with_map_ok:
  "mmap_ends (mem with_map) 0x9000 2" "mmap_regions (kernel_size with_map) (mem with_map) 0x9000 2 = [(0x110000, 0x200)]"
  "region_of (kernel_size with_map) (mem with_map) 0x9018 = (0x110000, 0x200)" 
  "kernel_size with_map = 0x10000"
  "mmap_size (mem with_map) 0x9000 2 = 0x200000"
proof -
  show k: "kernel_size with_map = 0x10000"
    by (simp add: with_map_def zero_kernel_def)
  show r: "region_of (kernel_size with_map) (mem with_map) 0x9018 = (0x110000, 0x200)"
    unfolding k by (simp add: region_of_def with_map_entries)
  show "mmap_ends (mem with_map) 0x9000 2" "mmap_regions (kernel_size with_map) (mem with_map) 0x9000 2 = [(0x110000, 0x200)]"
    "mmap_size (mem with_map) 0x9000 2 = 0x200000"
    using r unfolding k numeral_2_eq_2 by (simp_all add: available_def with_map_entries)
qed

theorem init_physical_frees_map_witness:
  "\<exists>s' bs. init_physical 0x9000 with_map = Some s' \<and> phys_inv s' bs \<and> free_pages bs = {0x110 ..< 0x310}
    \<and> memory_size s' = 0x300000"
proof -
  have "\<forall>r \<in> set (mmap_regions (kernel_size with_map) (mem with_map) 0x9000 2). run_ok r"
    "sorted_wrt run_before (mmap_regions (kernel_size with_map) (mem with_map) 0x9000 2)"
    unfolding with_map_ok(2) by (simp_all add: page_aligned_def)
  from init_physical_frees_map [OF with_map_ok(1) _ this] show ?thesis
    unfolding with_map_ok(2,5) by (auto simp: run_pages_def)
qed

text \<open>
  C17: let the map end with an entry of type 0 and its available regions from 1 MB on, the one at 1 MB
  moved up by the \<open>k\<close> pages of the kernel and no shorter than these, be page aligned, ascending and apart. Then \<open>init_physical\<close>
  returns with a sound free list of exactly the pages of these regions; but the move leaves the length
  of the region at 1 MB as it was, so the \<open>k\<close> page numbers after its reported end, which the boot
  loader did not report as memory of the region, become free pages too.
\<close>

theorem init_physical_frees_past_end:
  assumes "mmap_ends (mem s) p n" and "24 * Suc n \<le> 2 ^ 32"
    and "\<forall>r \<in> set (mmap_regions (kernel_size s) (mem s) p n). run_ok r"
    and "sorted_wrt run_before (mmap_regions (kernel_size s) (mem s) p n)"
    and "region_of (kernel_size s) (mem s) e = (b, count)" and "(b, count) \<in> set (mmap_regions (kernel_size s) (mem s) p n)"
    and "mmap_addr (mem s) e = 0x100000" and "unat (kernel_size s) + 0x100000 < 2 ^ 32"
    and "unat (kernel_size s) = 4096 * k" and "k \<le> unat count"
  shows "\<exists>s' bs. init_physical p s = Some s' \<and> phys_inv s' bs
    \<and> free_pages bs = free_pages (mmap_regions (kernel_size s) (mem s) p n)
    \<and> {0x100 + unat count ..< 0x100 + unat count + k} \<subseteq> free_pages bs"
proof -
  obtain s' bs where i: "init_physical p s = Some s'" "phys_inv s' bs"
      "free_pages bs = free_pages (mmap_regions (kernel_size s) (mem s) p n)"
    by (rule init_physical_gives [OF assms(1-4)]) (rule that; assumption)
  have "b = ucast (0x100000 + ucast (kernel_size s) :: u64)"
    using assms(5,7) by (simp add: region_of_def)
  then have b: "b = 0x100000 + kernel_size s"
    unfolding ucast_sum by simp
  then have "unat b = 0x100000 + 4096 * k"
    using assms(8,9) by (subst b, subst unat_add_nowrap) simp_all
  then have "run_pages (b, count) = {0x100 + k ..< 0x100 + k + unat count}"
    by (simp add: run_pages_def)
  moreover have "run_pages (b, count) \<subseteq> free_pages bs"
    by (subst i(3), unfold free_pages_def) (rule Union_upper [OF imageI [OF assms(6)]])
  ultimately have "{0x100 + unat count ..< 0x100 + unat count + k} \<subseteq> free_pages bs"
    using assms(10) by (auto simp: subset_iff)
  with i show ?thesis by blast
qed

theorem init_physical_frees_past_end_witness:
  "\<exists>s' bs. init_physical 0x9000 with_map = Some s' \<and> phys_inv s' bs \<and> free_pages bs = {0x110 ..< 0x310} \<and> {0x300 ..< 0x310} \<subseteq> free_pages bs"
proof -
  have "\<forall>r \<in> set (mmap_regions (kernel_size with_map) (mem with_map) 0x9000 2). run_ok r"
    "sorted_wrt run_before (mmap_regions (kernel_size with_map) (mem with_map) 0x9000 2)"
    "(0x110000, 0x200) \<in> set (mmap_regions (kernel_size with_map) (mem with_map) 0x9000 2)"
    unfolding with_map_ok(2) by (simp_all add: page_aligned_def)
  from init_physical_frees_past_end [OF with_map_ok(1) _ this(1,2) with_map_ok(3) this(3) with_map_entries(4), of 16]
  show ?thesis unfolding with_map_ok(2) unfolding with_map_ok(4) by (auto simp: run_pages_def)
qed

section \<open>The page tables while the free list is built\<close>

lemma tables_beside:
  assumes "tables_ok dir s F" "phys_beside F s s'"
  shows "tables_ok dir s' F" "translate dir s' va = translate dir s va"
proof -
  have pde: "pde dir s' i = pde dir s i" if "i < 1024" for i
    using assms that by (simp add: pde_def tables_ok_def phys_beside_def)
  then show "tables_ok dir s' F"
    using assms(1) by (simp add: tables_ok_def)
  have "pte dir s' va = pte dir s va"
    using assms pde [of "pd_index va"] by (simp add: pte_eq tables_ok_def phys_beside_def)
  then show "translate dir s' va = translate dir s va"
    by (simp add: translate_def)
qed

end
