(* ===== verification/VirtFree.thy ===== *)
theory VirtFree
  imports VirtMem
begin

text \<open>
  \<open>free_virt_pages\<close> of \<open>memory_manager.c\<close> on a region of mapped pages: the region leaves the table, its
  frames go back to the free list one by one, found through the page tables while the free list
  already changes, and then the entries are cleared.
\<close>

section \<open>Giving frames back under the invariant of the page tables\<close>

text \<open>The frames of the directory and of its tables.\<close>

definition table_pages :: "u32 \<Rightarrow> kernel \<Rightarrow> nat set" where
  "table_pages dir s = insert (page_no (frame dir)) {page_no (frame (pde dir s i)) | i. i < 1024 \<and> present (pde dir s i)}"

lemma table_pagesI: "page_no (frame dir) \<in> table_pages dir s"
  "i < 1024 \<Longrightarrow> present (pde dir s i) \<Longrightarrow> page_no (frame (pde dir s i)) \<in> table_pages dir s"
  by (auto simp: table_pages_def)

lemma table_pages_not_free: "tables_ok dir s F \<Longrightarrow> table_pages dir s \<inter> F = {}"
  by (auto simp: table_pages_def tables_ok_def)

lemma hdr_cells_Cons: "hdr_cells (r # bs) = hdr_cells [r] \<union> hdr_cells bs"
  by (auto simp: hdr_cells_def)

lemma tables_given:
  assumes inv: "paging_inv dir s bs" and st: "phys_step (r # bs) s s'" and r: "run_ok r" "table_pages dir s \<inter> run_pages r = {}"
    and new: "phys_inv s' bs'" "free_pages bs' = free_pages bs \<union> run_pages r"
  shows "paging_inv dir s' bs'" "pte dir s' va = pte dir s va" "table_pages dir s' = table_pages dir s"
proof -
  have ok: "runs_ok bs" "runs_ok [r]" and tab: "tables_ok dir s (free_pages bs)"
    using inv r(1) phys_inv_runs_ok by (auto simp: paging_inv_def runs_ok_def)
  have one: "free_pages [r] = run_pages r"
    by (simp add: free_pages_def del: run_pages_simp)
  note tabs = table_pages_not_free [OF tab]
  have keep: "phys s' a = phys s a" if "page_no a \<in> table_pages dir s" for a
  proof -
    have "a \<notin> hdr_cells bs" "a \<notin> hdr_cells [r]"
      using hdr_cell_free [OF ok(1)] hdr_cell_free [OF ok(2)] tabs r(2) that unfolding one by blast+
    then show ?thesis
      using st unfolding phys_step_def hdr_cells_Cons [of r bs] by blast
  qed
  have pde: "pde dir s' i = pde dir s i" if "i < 1024" for i
    using that keep table_pagesI(1) by (simp add: pde_def)
  show "pte dir s' va = pte dir s va"
    using pde [of "pd_index va"] keep table_pagesI(2) by (simp add: pte_eq)
  show "table_pages dir s' = table_pages dir s"
    unfolding table_pages_def using pde by (intro arg_cong2 [where f = insert] refl Collect_cong) metis
  have "page_no (frame dir) \<notin> free_pages bs'"
    using table_pagesI(1) tabs r(2) unfolding new(2) by blast
  moreover have "page_no (frame (pde dir s i)) \<notin> free_pages bs'" if "i < 1024" "present (pde dir s i)" for i
    using table_pagesI(2) [OF that] tabs r(2) unfolding new(2) by blast
  ultimately show "paging_inv dir s' bs'"
    using tab new(1) pde unfolding paging_inv_def tables_ok_def by simp
qed

lemma one_page: "run_ok (p, 1) \<Longrightarrow> run_pages (p, 1) = {page_no p}"
  by (auto simp: run_pages_def page_no_def)

text \<open>A page that is not free lies apart from the free runs, and above the ones that are below it.\<close>

lemma page_outside:
  assumes "run_ok (b, n)" "run_ok (p, 1)" "page_no p \<notin> run_pages (b, n)"
  shows "apart (b, n) (p, 1)" "q \<in> run_pages (b, n) \<Longrightarrow> q < page_no p \<Longrightarrow> unat b + unat n * 4096 \<le> unat p"
proof -
  obtain i j where ij: "unat b = 4096 * i" "unat p = 4096 * j"
    using assms(1,2) by (auto simp: page_aligned_dvd elim!: dvdE)
  have "j < i \<or> i + unat n \<le> j"
    using assms(3) ij by (auto simp: run_pages_def page_no_def simp del: run_pages_simp)
  then show "apart (b, n) (p, 1)"
    using ij by auto
  assume "q \<in> run_pages (b, n)" "q < page_no p"
  then have "i \<le> q" "q < j"
    using ij by (auto simp: run_pages_def page_no_def simp del: run_pages_simp)
  with \<open>j < i \<or> i + unat n \<le> j\<close> show "unat b + unat n * 4096 \<le> unat p"
    using ij by auto
qed

lemma free_one_page:
  assumes inv: "paging_inv dir s bs" and p: "run_ok (p, 1)" "page_no p \<notin> free_pages bs" "page_no p \<notin> table_pages dir s"
    and low: "q \<in> free_pages bs" "q < page_no p"
  obtains s' bs' where "free_phys_pages p 1 s = Some s'" "phys_only s s'" "paging_inv dir s' bs'"
    "free_pages bs' = insert (page_no p) (free_pages bs)" "\<And>va. pte dir s' va = pte dir s va" "table_pages dir s' = table_pages dir s"
proof -
  have ph: "phys_inv s bs" using inv by (simp add: paging_inv_def)
  have ok: "run_ok (b, n)" if "(b, n) \<in> set bs" for b n
    using phys_inv_runs_ok [OF ph] that unfolding runs_ok_def by blast
  have out: "page_no p \<notin> run_pages (b, n)" if "(b, n) \<in> set bs" for b n
    using p(2) that unfolding free_pages_def by blast
  have "\<forall>r \<in> set bs. apart r (p, 1)"
    using page_outside(1) [OF ok p(1) out] by auto
  moreover have "placeable p 1 bs"
  proof -
    obtain b n where "(b, n) \<in> set bs" "q \<in> run_pages (b, n)"
      using low(1) by (auto simp: free_pages_def simp del: run_pages_simp)
    then show ?thesis
      using page_outside(2) [OF ok p(1) out _ low(2)] unfolding placeable_def by blast
  qed
  ultimately obtain s' bs' where f: "free_phys_pages p 1 s = Some s'" "phys_inv s' bs'"
      "free_pages bs' = free_pages bs \<union> run_pages (p, 1)" "phys_step ((p, 1) # bs) s s'"
    using free_phys_pages_adds [OF ph p(1)] by blast
  note t = tables_given [OF inv f(4) p(1) _ f(2,3)]
  have "table_pages dir s \<inter> run_pages (p, 1) = {}"
    using p(3) unfolding one_page [OF p(1)] by simp
  note t = t [OF this]
  show thesis
    using that [OF f(1) _ t(1) _ t(2,3)] f(3,4) unfolding one_page [OF p(1)] by (simp add: phys_step_def)
qed

section \<open>The loops\<close>

text \<open>The frames \<open>ps\<close> of the region are mapped, are in use, and serve no page table; a free page lies below them.\<close>

definition region_frames :: "u32 \<Rightarrow> kernel \<Rightarrow> run list \<Rightarrow> u32 \<Rightarrow> u32 list \<Rightarrow> bool" where
  "region_frames dir s bs va ps \<longleftrightarrow> (\<forall>i < length ps. translate dir s (va + of_nat i * PAGE_SIZE) = Some (ps ! i))
     \<and> (\<forall>p \<in> set ps. run_ok (p, 1)) \<and> distinct (map page_no ps)
     \<and> page_no ` set ps \<inter> (free_pages bs \<union> table_pages dir s) = {}
     \<and> (\<exists>q \<in> free_pages bs. \<forall>p \<in> set ps. q < page_no p)"

lemma free_mapped_pages_gives:
  assumes inv: "paging_inv dir s bs" "page_dir (cur_space s) = dir" and fr: "region_frames dir s bs va ps" and len: "length ps = unat count"
  obtains t bs' where "free_mapped_pages va count s = Some t" "phys_only s t" "paging_inv dir t bs'"
    "free_pages bs' = free_pages bs \<union> page_no ` set ps" "\<And>vb. pte dir t vb = pte dir s vb"
proof -
  let ?P = "\<lambda>i t. \<exists>bs'. phys_only s t \<and> paging_inv dir t bs' \<and> free_pages bs' = free_pages bs \<union> page_no ` set (take i ps)
    \<and> (\<forall>vb. pte dir t vb = pte dir s vb) \<and> table_pages dir t = table_pages dir s"
  obtain q where q: "q \<in> free_pages bs" "\<forall>p \<in> set ps. q < page_no p"
    using fr by (auto simp: region_frames_def)
  have "\<exists>t. for_opt (unat count) (\<lambda>i s. let (page, s) = get_physaddr (va + of_nat i * PAGE_SIZE) s in free_phys_pages page 1 s) s
      = Some t \<and> ?P (unat count) t"
  proof (rule for_opt_rule [where P = ?P])
    show "?P 0 s"
      using inv by (auto simp: phys_only_def intro!: exI [of _ bs])
    fix i t assume i: "i < unat count" and "?P i t"
    then obtain bs1 where b: "phys_only s t" "paging_inv dir t bs1" "free_pages bs1 = free_pages bs \<union> page_no ` set (take i ps)"
        "\<forall>vb. pte dir t vb = pte dir s vb" "table_pages dir t = table_pages dir s"
      by blast
    let ?p = "ps ! i"
    have tr: "translate dir s (va + of_nat i * PAGE_SIZE) = Some ?p" and in_ps: "?p \<in> set ps"
      using fr i len by (simp_all add: region_frames_def)
    have p: "run_ok (?p, 1)" "page_no ?p \<notin> table_pages dir s" "page_no ?p \<notin> free_pages bs"
      using fr in_ps unfolding region_frames_def by blast+
    have "page_no ?p \<notin> page_no ` set (take i ps)"
    proof
      assume "page_no ?p \<in> page_no ` set (take i ps)"
      then obtain j where "j < i" "page_no ?p = page_no (ps ! j)"
        using i len by (auto simp: in_set_conv_nth)
      then show False
        using fr i len nth_eq_iff_index_eq [of "map page_no ps" i j] by (simp add: region_frames_def)
    qed
    with p(3) b(3) have nf: "page_no ?p \<notin> free_pages bs1" by blast
    have dir: "page_dir (cur_space t) = dir"
      using inv(2) phys_only_fields(1) [OF b(1)] by simp
    have "translate (page_dir (cur_space t)) t (va + of_nat i * PAGE_SIZE) = Some ?p"
      using tr b(4) unfolding dir translate_def by simp
    then obtain w where w: "get_physaddr (va + of_nat i * PAGE_SIZE) t = (?p, temp_map_page w t)"
      using get_physaddr_value by blast
    have inv': "paging_inv dir (temp_map_page w t) bs1" using b(2) by simp
    have tp: "table_pages dir (temp_map_page w t) = table_pages dir s"
      using b(5) by (simp add: table_pages_def)
    obtain t' bs2 where f: "free_phys_pages ?p 1 (temp_map_page w t) = Some t'" "phys_only (temp_map_page w t) t'" "paging_inv dir t' bs2"
        "free_pages bs2 = insert (page_no ?p) (free_pages bs1)" "\<And>vb. pte dir t' vb = pte dir (temp_map_page w t) vb"
        "table_pages dir t' = table_pages dir (temp_map_page w t)"
      by (rule free_one_page [OF inv' p(1) nf, of q]) (use in_ps p(2) q b(3) tp in auto)
    have "phys_only s t'"
      using phys_only_trans [OF b(1) phys_only_trans [OF temp_map_simps(4) f(2)]] .
    moreover have "free_pages bs2 = free_pages bs \<union> page_no ` set (take (Suc i) ps)"
      using f(4) b(3) i len by (simp add: take_Suc_conv_app_nth)
    moreover have "\<forall>vb. pte dir t' vb = pte dir s vb"
      using f(5) b(4) by simp
    ultimately show "\<exists>t'. (let (page, s) = get_physaddr (va + of_nat i * PAGE_SIZE) t in free_phys_pages page 1 s) = Some t' \<and> ?P (Suc i) t'"
      using f(1,3,6) w tp by auto
  qed
  then show thesis
    using that len by (auto simp: free_mapped_pages_def)
qed

text \<open>Clearing entries allocates nothing.\<close>

lemma unmap_loop_inv:
  assumes "paging_inv dir s bs" "page_loop (unmap_page dir) adv n va s = Some (ok, s')"
  shows "paging_inv dir s' bs"
  using assms
proof (induction n arbitrary: va s)
  case (Suc n)
  obtain ok1 s1 where "unmap_page dir va s = Some (ok1, s1)" "paging_inv dir s1 bs"
    using unmap_page_step [OF Suc.prems(1), of va] by blast
  then show ?case
    using Suc by (auto split: if_splits)
qed simp

text \<open>A region of the table is removed by its base address.\<close>

lemma del_virt_block_entry:
  assumes "virt_regions s vs" "virt_room 0 s vs" "2 \<le> length vs" "(r, n) \<in> set vs"
  obtains s1 vs' where "del_virt_block r s = (n, s1)" "virt_regions s1 vs'" "virt_step (length vs) s s1"
    "occupied virt_len vs' = occupied virt_len vs - cells virt_len (r, n)" "Suc (length vs') = length vs"
    "set vs' = set vs - {(r, n)}"
  using assms(1-3)
proof (cases rule: del_virt_block_cases [of s vs r])
  case absent
  then show thesis using assms(4) by force
next
  case (removed k s1 xs ys)
  have pl: "placed virt_len (unat (as_start (cur_space s))) (unat (as_end (cur_space s))) vs" "\<forall>(b, n) \<in> set vs. 0 < n"
    using assms(1) by (simp_all add: virt_regions_def)
  have "\<forall>(b, n) \<in> set vs. 0 < virt_len n"
    using pl(2) by (auto simp: virt_len_def word_less_nat_alt)
  then have k: "k = n"
    using placed_base_unique [OF pl(1) _ _ assms(4), of k] removed(2) by simp
  have "occupied virt_len (xs @ ys) = occupied virt_len vs - cells virt_len (r, n)"
    using placed_disjoint [OF pl(1)] removed(2) k by (fastforce simp: sorted_wrt_append occupied_def)
  moreover have "set (xs @ ys) = set vs - {(r, n)}"
  proof -
    have "cells virt_len (r, n) \<noteq> {}"
      using pl(2) assms(4) by (auto simp: virt_len_def cells_def word_less_nat_alt)
    moreover have "cells virt_len (r, n) \<inter> cells virt_len q = {}" if "q \<in> set (xs @ ys)" for q
      using placed_disjoint [OF pl(1)] removed(2) k that by (fastforce simp: sorted_wrt_append)
    ultimately have "(r, n) \<notin> set (xs @ ys)" by blast
    then show ?thesis using removed(2) k by auto
  qed
  ultimately show thesis
    using that removed k by simp
qed

lemma region_frames_step:
  assumes "virt_step k s s'" "region_frames dir s bs va ps"
  shows "region_frames dir s' bs va ps"
proof -
  have "pde dir s' = pde dir s" "pte dir s' = pte dir s"
    using virt_step_fields(8) [OF assms(1)] virt_step_paging(2) [OF assms(1)] by (auto simp: pde_def)
  then show ?thesis
    using assms(2) by (simp add: region_frames_def translate_def table_pages_def)
qed

text \<open>\<open>unmap_pages\<close> on pages that all have an entry, for a given list of free runs.\<close>

lemma unmap_pages_keeps_free:
  assumes inv: "paging_inv dir s bs" "page_dir (cur_space s) = dir" "unat count \<le> 2 ^ 20"
    and has: "\<forall>i < unat count. pte dir s (va + of_nat i * PAGE_SIZE) \<noteq> None"
  obtains s' where "unmap_pages va count s = Some (True, s')" "phys_only s s'" "paging_inv dir s' bs"
    "\<forall>i < unat count. translate dir s' (va + of_nat i * PAGE_SIZE) = None"
    "\<forall>vb. (\<forall>i < unat count. drop_bit 12 vb \<noteq> drop_bit 12 (va + of_nat i * PAGE_SIZE)) \<longrightarrow>
       pte dir s vb \<noteq> None \<longrightarrow> pte dir s' vb = pte dir s vb"
proof -
  have "\<exists>bs. paging_inv dir s bs" using inv(1) by blast
  from unmapping.loop_correct [OF this inv(3), of va]
  obtain ok s' where l: "page_loop (unmap_page dir) (\<lambda>va. va + PAGE_SIZE) (unat count) va s = Some (ok, s')"
      "paging_keeps dir s s'"
      "ok \<longrightarrow> (\<forall>i < unat count. pte dir s' (va + of_nat i * PAGE_SIZE) = Some 0)"
      "\<forall>vb. (\<forall>i < unat count. drop_bit 12 vb \<noteq> drop_bit 12 (va + of_nat i * PAGE_SIZE)) \<longrightarrow>
         pte dir s vb \<noteq> None \<longrightarrow> pte dir s' vb = pte dir s vb"
      "\<not> ok \<longrightarrow> (\<exists>i < unat count. \<exists>s1. (\<forall>vb. pte dir s vb \<noteq> None \<longrightarrow> pte dir s1 vb \<noteq> None)
         \<and> pte dir s1 (((\<lambda>va. va + PAGE_SIZE) ^^ i) va) = None)"
    by auto
  have ok using l(5) has unfolding unmapping.va_of_advance by blast
  moreover have "\<forall>i < unat count. translate dir s' (va + of_nat i * PAGE_SIZE) = None"
    using l(3) \<open>ok\<close> by (simp add: translate_def present_def)
  moreover have "phys_only s s'"
    using l(2) inv(1) by (auto simp: paging_keeps_def)
  ultimately show thesis
    using that l(1,4) unmap_loop_inv [OF inv(1) l(1)] inv(2) by (simp add: unmap_pages_def)
qed

section \<open>Property\<close>

text \<open>
  C23: \<open>free_virt_pages\<close> of a region (at most \<open>2^20\<close> pages) of a sound table with at least one other region
  and whose pages need not shrink: let every page of the region be translated, to distinct frames that
  are neither free nor page tables and that all lie above some free page. Then the call answers the
  size of the region, the region leaves the table, exactly its frames join the free pages, none of its
  pages is translated any more, and the entries of all other pages and the invariants are kept.
  (Frames below every free page are lost, \<open>free_phys_pages_loses_low_run\<close>.)
\<close>

theorem free_virt_pages_correct:
  assumes inv: "paging_inv dir s bs" "page_dir (cur_space s) = dir"
    and reg: "virt_regions s vs" "virt_room 0 s vs" "2 \<le> length vs" "(r, n) \<in> set vs"
    and fr: "region_frames dir s bs r ps" "length ps = unat n" "unat n \<le> 2 ^ 20"
    and small: "page_bytes (virt_table_size s) - of_nat (length vs - 1) * 8 < PAGE_SIZE"
  shows "\<exists>s' bs' vs'. free_virt_pages r s = Some (n, s')
    \<and> virt_regions s' vs' \<and> occupied virt_len vs' = occupied virt_len vs - cells virt_len (r, n)
    \<and> paging_inv dir s' bs' \<and> free_pages bs' = free_pages bs \<union> page_no ` set ps
    \<and> (\<forall>i < unat n. translate dir s' (r + of_nat i * PAGE_SIZE) = None)
    \<and> (\<forall>vb. (\<forall>i < unat n. drop_bit 12 vb \<noteq> drop_bit 12 (r + of_nat i * PAGE_SIZE)) \<longrightarrow>
         pte dir s vb \<noteq> None \<longrightarrow> pte dir s' vb = pte dir s vb)"
proof -
  obtain s1 vs' where d: "del_virt_block r s = (n, s1)" "virt_regions s1 vs'" "virt_step (length vs) s s1"
      "occupied virt_len vs' = occupied virt_len vs - cells virt_len (r, n)" "Suc (length vs') = length vs"
    by (rule del_virt_block_entry [OF reg]) (rule that; assumption)
  note v = virt_step_paging [OF d(3)] virt_step_fields [OF d(3)]
  have i1: "paging_inv dir s1 bs" "page_dir (cur_space s1) = dir"
    using inv v by simp_all
  obtain t bs' where f: "free_mapped_pages r n s1 = Some t" "phys_only s1 t" "paging_inv dir t bs'"
      "free_pages bs' = free_pages bs \<union> page_no ` set ps" "\<And>vb. pte dir t vb = pte dir s1 vb"
    by (rule free_mapped_pages_gives [OF i1 region_frames_step [OF d(3) fr(1)] fr(2)]) (rule that; assumption)
  have dir: "page_dir (cur_space t) = dir"
    using i1(2) phys_only_fields(1) [OF f(2)] by simp
  have "pte dir s (r + of_nat i * PAGE_SIZE) \<noteq> None" if "i < unat n" for i
  proof -
    have "translate dir s (r + of_nat i * PAGE_SIZE) = Some (ps ! i)"
      using fr(1,2) that by (simp add: region_frames_def)
    then show ?thesis by (cases "pte dir s (r + of_nat i * PAGE_SIZE)") (simp_all add: translate_def)
  qed
  then have has: "\<forall>i < unat n. pte dir t (r + of_nat i * PAGE_SIZE) \<noteq> None"
    unfolding f(5) v(2) by blast
  obtain u where u: "unmap_pages r n t = Some (True, u)" "phys_only t u" "paging_inv dir u bs'"
      "\<forall>i < unat n. translate dir u (r + of_nat i * PAGE_SIZE) = None"
      "\<forall>vb. (\<forall>i < unat n. drop_bit 12 vb \<noteq> drop_bit 12 (r + of_nat i * PAGE_SIZE)) \<longrightarrow>
         pte dir t vb \<noteq> None \<longrightarrow> pte dir u vb = pte dir t vb"
    by (rule unmap_pages_keeps_free [OF f(3) dir fr(3) has])
  have keep: "phys_only s1 u" using phys_only_trans [OF f(2) u(2)] .
  have "virt_regions u vs'"
    using d(2) phys_only_virt(1) [OF keep] by simp
  moreover have "v_block_count (virt_memory (cur_space u)) = of_nat (length vs - 1)" "virt_table_size u = virt_table_size s"
    using d(2,5) phys_only_fields(1) [OF keep] v(8) v(11) by (auto simp: virt_regions_def virt_table_def simp: d(5) [symmetric])
  then have "free_virt_pages r s = Some (n, u)"
    using d(1) f(1) u(1) small by (auto simp: free_virt_pages_def)
  ultimately show ?thesis
    using d(4) f(4,5) v(2) u(3,4,5) by (intro exI [of _ u] exI [of _ bs'] exI [of _ vs']) simp
qed

text \<open>The page at \<open>0x80020000\<close> of \<open>booted\<close>, mapped to the frame \<open>0x400000\<close>.\<close>

definition held :: kernel where
  "held = booted\<lparr>phys := (phys booted)(0x2080 := 0x400007)\<rparr>"

lemma held_same: "kernel_address_space held = kernel_address_space two_regions" "mem held = mem two_regions"
  "cur_space held = cur_space two_regions" "phys held = (phys paged)(0x2080 := 0x400007)"
  "free_page_count held = free_page_count paged" "free_phys_memory_pointer held = free_phys_memory_pointer paged"
  unfolding held_def by (simp_all add: booted_def address_space_def two_regions_def paged_def two_runs_def zero_kernel_def)

lemma held_pde: "i < 1024 \<Longrightarrow> pde 0x1000 held i = (if i = 0x200 then 0x2007 else 0)"
proof -
  assume i: "i < 1024"
  have "frame 0x1000 + 4 * i \<noteq> 0x2080"
    using table_cell_eq [of "0x1000" "0x2000" i "0x20"] frame_of_aligned [of "0x1000"] i by (auto simp: page_aligned_def)
  then have "pde 0x1000 held i = pde 0x1000 paged i"
    by (simp add: pde_def held_same)
  then show ?thesis using paged_pde [OF i] by simp
qed

lemma held_pages: "table_pages 0x1000 held = {1, 2}"
proof -
  have "{page_no (frame (pde 0x1000 held i)) | i. i < 1024 \<and> present (pde 0x1000 held i)} = {2}"
    using frame_0x2007 held_pde [of "0x200"]
    by (auto simp: held_pde page_no_def present_def split: if_splits intro!: exI [of _ "0x200"])
  then show ?thesis
    using frame_of_aligned [of "0x1000"] by (simp add: table_pages_def page_aligned_def page_no_def)
qed

lemma held_inv: "paging_inv 0x1000 held [(0x300000, 4), (0x200000, 2)]"
proof -
  have "phys_inv held [(0x300000, 4), (0x200000, 2)]"
    by (rule phys_inv_frame [of paged]) (use paged_inv in \<open>auto simp: paging_inv_def held_same hdr_cells_def\<close>)
  moreover have "tables_ok 0x1000 held (free_pages [(0x300000, 4), (0x200000, 2)])"
    using frame_of_aligned [of "0x1000"] frame_0x2007
    by (auto simp: tables_ok_def held_pde page_aligned_def page_no_def present_def split: if_splits)
  ultimately show ?thesis
    by (simp add: paging_inv_def)
qed

lemma held_translate: "translate 0x1000 held 0x80020000 = Some 0x400000"
proof -
  have "pte 0x1000 held 0x80020000 = Some 0x400007"
    using frame_0x2007 by (simp add: pte_eq pd_index_def pt_index_def held_pde present_def held_same)
  then show ?thesis
    by (simp add: translate_def present_def frame_def del: frame_fold)
qed

theorem free_virt_pages_correct_witness:
  "\<exists>s' bs'. free_virt_pages 0x80020000 held = Some (1, s')
    \<and> free_pages bs' = {0x300, 0x301, 0x302, 0x303, 0x200, 0x201, 0x400}
    \<and> translate 0x1000 s' 0x80020000 = None"
proof -
  have r: "virt_regions held [(0x80000000, 16), (0x80020000, 1)]" "virt_room 0 held [(0x80000000, 16), (0x80020000, 1)]"
    "2 \<le> length [(0x80000000 :: u32, 16 :: u32), (0x80020000, 1)]"
    "(0x80020000 :: u32, 1 :: u32) \<in> set [(0x80000000, 16), (0x80020000, 1)]"
    using two_regions_ok unfolding virt_regions_def virt_room_def virt_table_def virt_ptr_def held_same by simp_all
  have fp: "free_pages [(0x300000, 4), (0x200000, 2)] = {0x300, 0x301, 0x302, 0x303, 0x200, 0x201}"
    by (auto simp: free_pages_def run_pages_def)
  have f: "region_frames 0x1000 held [(0x300000, 4), (0x200000, 2)] 0x80020000 [0x400000]"
    unfolding region_frames_def fp held_pages
    by (auto simp: held_translate page_aligned_def page_no_def)
  have d: "page_dir (cur_space held) = 0x1000"
    using booted_ok(2) unfolding held_same booted_space .
  from free_virt_pages_correct [OF held_inv d r f] show ?thesis
    unfolding fp by (auto simp: held_same page_no_def)
qed

end
