(* ===== verification/Clone.thy ===== *)
theory Clone
  imports Boot VirtFree
begin

text \<open>
  \<open>clone_directory\<close> of \<open>memory_manager.c\<close> makes a copy of a page directory. The code reads the directory
  twice, through a mapping of its own and at its physical address, and copies the entries that
  agree; with the boot code's mapping of low memory onto itself both are the same page, so all do.
\<close>

section \<open>The pages of the tables when a page is mapped\<close>

lemma table_pages_cong:
  assumes "\<And>i. i < 1024 \<Longrightarrow> pde dir s' i = pde dir s i"
  shows "table_pages dir s' = table_pages dir s"
  unfolding table_pages_def using assms by (intro arg_cong2 [where f = insert] refl Collect_cong) metis

lemma set_cell_pde:
  assumes "frame e \<noteq> frame dir" "i < 1024" "j < 1024"
  shows "pde dir (set_cell e i v t s) j = pde dir s j"
  using assms set_cell_phys [of i j e v t s dir] by (simp add: pde_def)

lemma ensure_table_pages:
  assumes inv: "paging_inv dir s bs" and e: "map_ensure_table dir va s = Some (True, s')"
  shows "table_pages dir s' \<subseteq> table_pages dir s \<union> free_pages bs"
proof (cases "present (pde dir s (pd_index va))")
  case True
  then have "s' = temp_map_page dir s"
    using e by (simp add: map_ensure_table_def temp_read_map pde_def present_def)
  then have "table_pages dir s' = table_pages dir s" by (simp add: table_pages_def)
  then show ?thesis by blast
next
  case False
  have tab: "tables_ok dir s (free_pages bs)" and ok: "runs_ok bs"
    using inv phys_inv_runs_ok by (auto simp: paging_inv_def)
  obtain r where r: "frame (pde dir s' (pd_index va)) = r" "page_no r \<in> free_pages bs"
      and ph: "\<forall>a. a \<notin> hdr_cells bs \<longrightarrow> a \<noteq> frame dir + 4 * pd_index va \<longrightarrow> phys s' a = phys s a"
    using ensure_absent [OF inv False] e by auto
  have "pde dir s' i = pde dir s i" if i: "i < 1024" "i \<noteq> pd_index va" for i
  proof -
    have "frame dir + 4 * i \<notin> hdr_cells bs"
      using hdr_cell_free [OF ok, of "frame dir + 4 * i"] tab i(1) by (auto simp: tables_ok_def)
    moreover have "frame dir + 4 * i \<noteq> frame dir + 4 * pd_index va"
      using table_cell_eq [of "frame dir" "frame dir" i "pd_index va"] i by simp
    ultimately show ?thesis using ph by (simp add: pde_def)
  qed
  then have "page_no (frame (pde dir s' i)) \<in> table_pages dir s \<union> free_pages bs"
    if "i < 1024" "present (pde dir s' i)" for i
    using r that table_pagesI(2) [of i dir s] by (cases "i = pd_index va") auto
  then show ?thesis
    using table_pagesI(1) unfolding table_pages_def [of dir s'] by blast
qed

text \<open>One page mapped: a table that was added is a page that was free.\<close>

lemma map_one_tables:
  assumes inv: "paging_inv dir s bs" "page_dir (cur_space s) = dir" and m: "map_pages va pa 1 flags s = Some (True, s')"
  shows "table_pages dir s' \<subseteq> table_pages dir s \<union> free_pages bs"
proof -
  have "map_page dir flags (va, pa) s = Some (True, s')"
    using m inv(2) by (cases "map_page dir flags (va, pa) s") (auto simp: map_pages_def split: if_splits)
  then obtain s1 where e: "map_ensure_table dir va s = Some (True, s1)" "s' = map_set_entry va pa flags s1"
    by (auto simp: map_page_def split: bind_splits if_splits)
  from ensure_table [OF inv(1), of va] e(1) obtain bs' where t: "paging_inv dir s1 bs'"
      "present (pde dir s1 (pd_index va))" "temp_frame s1 = frame dir"
    by auto
  let ?e = "pde dir s1 (pd_index va)"
  have s': "s' = set_cell ?e (pt_index va) (frame pa OR flags) (temp_pte (temp_map_page ?e s1)) s1"
    using e(2) t(3) by (simp add: map_set_entry_def temp_read_def temp_write_map pde_def)
  have "frame ?e \<noteq> frame dir"
    using t(1,2) pd_index_less unfolding paging_inv_def tables_ok_def by blast
  then have "pde dir s' i = pde dir s1 i" if "i < 1024" for i
    unfolding s' using set_cell_pde pt_index_less that by blast
  then have "table_pages dir s' = table_pages dir s1"
    by (rule table_pages_cong)
  then show ?thesis
    using ensure_table_pages [OF inv(1) e(1)] by simp
qed

section \<open>Writing to a page that belongs to nobody\<close>

definition page_written :: "u32 \<Rightarrow> kernel \<Rightarrow> kernel \<Rightarrow> bool" where
  "page_written c s s' \<longleftrightarrow> phys_only s s' \<and> free_page_count s' = free_page_count s
     \<and> free_phys_memory_pointer s' = free_phys_memory_pointer s \<and> temp_frame s' = temp_frame s
     \<and> (\<forall>a. page_no a \<noteq> page_no c \<longrightarrow> phys s' a = phys s a)"

lemma page_written_refl: "page_written c s s"
  by (simp add: page_written_def)

lemma page_written_trans: "page_written c s t \<Longrightarrow> page_written c t u \<Longrightarrow> page_written c s u"
  unfolding page_written_def using phys_only_trans by metis

lemma page_written_cell:
  assumes "temp_frame s = frame c" "i < 1024"
  shows "page_written (frame c) s (temp_write (4 * i) v s)"
  using assms by (auto simp: page_written_def temp_write_def temp_frame_def phys_only_def simp del: frame_fold)

lemma page_written_tables:
  assumes w: "page_written c s s'" and c: "page_no c \<notin> table_pages dir s"
  shows "i < 1024 \<Longrightarrow> pde dir s' i = pde dir s i" "pte dir s' va = pte dir s va" "translate dir s' va = translate dir s va"
    "table_pages dir s' = table_pages dir s"
    "paging_inv dir s bs \<Longrightarrow> page_no c \<notin> free_pages bs \<Longrightarrow> paging_inv dir s' bs"
proof -
  have keep: "phys s' a = phys s a" if "page_no a \<in> table_pages dir s" for a
  proof -
    have "page_no a \<noteq> page_no c" using c that by metis
    then show ?thesis using w by (simp add: page_written_def)
  qed
  show pde: "pde dir s' i = pde dir s i" if "i < 1024" for i
    using that keep table_pagesI(1) by (simp add: pde_def)
  show pte: "pte dir s' va = pte dir s va" for va
    using pde [of "pd_index va"] keep table_pagesI(2) by (simp add: pte_eq)
  then show "translate dir s' va = translate dir s va"
    by (simp add: translate_def)
  show "table_pages dir s' = table_pages dir s"
    by (rule table_pages_cong [OF pde])
  assume inv: "paging_inv dir s bs" and free: "page_no c \<notin> free_pages bs"
  have "phys_inv s' bs"
  proof (rule phys_inv_frame [of s])
    show "phys_inv s bs" using inv by (simp add: paging_inv_def)
    then have "runs_ok bs" by (rule phys_inv_runs_ok)
    fix a assume "a \<in> hdr_cells bs"
    then have "page_no a \<noteq> page_no c"
      using hdr_cell_free [OF \<open>runs_ok bs\<close>] free by metis
    then show "phys s' a = phys s a"
      using w by (simp add: page_written_def)
  qed (use w in \<open>simp_all add: page_written_def\<close>)
  then show "paging_inv dir s' bs"
    using inv pde by (simp add: paging_inv_def tables_ok_def)
qed

section \<open>The loops\<close>

lemma page_written_space:
  assumes "page_written c s s'"
  shows "cr3 s' = cr3 s" "cur_space s' = cur_space s" "cur_address_space s' = cur_address_space s" "mem s' = mem s"
    "kernel_address_space s' = kernel_address_space s"
proof -
  have p: "phys_only s s'" using assms by (simp add: page_written_def)
  from phys_only_fields [OF p] show "cr3 s' = cr3 s" "cur_space s' = cur_space s" "cur_address_space s' = cur_address_space s" "mem s' = mem s"
    by simp_all
  show "kernel_address_space s' = kernel_address_space s"
    using phys_only_fields(4) [OF p, of Kernel_Space] by (simp add: address_space_def)
qed

text \<open>The page of the copy is cleared first.\<close>

lemma clear_page_written:
  assumes "temp_frame s = frame c" "n \<le> 1024"
  shows "page_written (frame c) s (for_up n (\<lambda>i. temp_write (4 * of_nat i) 0) s)"
  using assms(2)
proof (induction n)
  case (Suc n)
  let ?t = "for_up n (\<lambda>i. temp_write (4 * of_nat i) 0) s"
  have "temp_frame ?t = frame c"
    using Suc assms(1) by (simp add: page_written_def)
  moreover have "(of_nat n :: u32) < 1024"
    using Suc.prems by (simp add: word_less_nat_alt unat_of_nat)
  ultimately show ?case
    using Suc page_written_cell page_written_trans by (auto simp del: frame_fold)
qed (simp add: page_written_refl)

text \<open>
  Both reads of an entry reach the directory itself, so every entry is copied.
\<close>

definition reads_directory :: "u32 \<Rightarrow> u32 \<Rightarrow> kernel \<Rightarrow> bool" where
  "reads_directory dir va s \<longleftrightarrow> (\<forall>k < 1024. translate dir s (va + 4 * k) = Some (frame dir + 4 * k))"

lemma clone_entries_copies:
  assumes "unat i + n = 1024" "temp_frame s = frame c" "page_no (frame c) \<notin> table_pages dir s"
    and "cr3 s = dir" "page_dir (kernel_address_space s) = dir" "reads_directory dir dir s" "reads_directory dir r s"
  shows "\<exists>s'. clone_entries n i r s = Some s' \<and> page_written (frame c) s s'
    \<and> (\<forall>k. k < 1024 \<longrightarrow> phys s' (frame c + 4 * k) = (if i \<le> k then phys s (frame dir + 4 * k) else phys s (frame c + 4 * k)))"
  using assms
proof (induction n arbitrary: i s)
  case 0
  then have "\<not> i \<le> k" if "k < 1024" for k
    using that by (simp add: word_le_nat_alt word_less_nat_alt)
  then show ?case
    by (auto simp: page_written_refl)
next
  case (Suc n)
  have i: "i < 1024" "unat (i + 1) + n = 1024"
    using Suc.prems(1) unat_add_nowrap [of i 1] by (simp_all add: word_less_nat_alt)
  let ?e = "phys s (frame dir + 4 * i)" and ?s1 = "temp_write (4 * i) (phys s (frame dir + 4 * i)) s"
  have "virtual_cell (dir + 4 * i) s = Some ?e" "virtual_cell (r + 4 * i) s = Some ?e"
    using Suc.prems(4,6,7) i(1) by (simp_all add: virtual_cell_def reads_directory_def)
  then have step: "clone_entries (Suc n) i r s = clone_entries n (i + 1) r ?s1"
    using Suc.prems(5) by simp
  have w: "page_written (frame c) s ?s1"
    by (rule page_written_cell [OF Suc.prems(2) i(1)])
  note t = page_written_tables [OF w Suc.prems(3)] and sp = page_written_space [OF w]
  have "temp_frame ?s1 = frame c" "page_no (frame c) \<notin> table_pages dir ?s1" "cr3 ?s1 = dir"
    "page_dir (kernel_address_space ?s1) = dir" "reads_directory dir dir ?s1" "reads_directory dir r ?s1"
    using Suc.prems w t(3,4) sp(1,5) unfolding page_written_def reads_directory_def by simp_all
  from Suc.IH [OF i(2) this] obtain s' where s': "clone_entries n (i + 1) r ?s1 = Some s'" "page_written (frame c) ?s1 s'"
    "\<forall>k. k < 1024 \<longrightarrow> phys s' (frame c + 4 * k) = (if i + 1 \<le> k then phys ?s1 (frame dir + 4 * k) else phys ?s1 (frame c + 4 * k))"
    by blast
  have dir: "phys ?s1 (frame dir + 4 * k) = phys s (frame dir + 4 * k)" if "k < 1024" for k
    using t(1) [OF that] by (simp add: pde_def)
  have cell: "phys ?s1 (frame c + 4 * k) = (if k = i then ?e else phys s (frame c + 4 * k))" if "k < 1024" for k
    using table_cell_eq [of "frame c" "frame c" k i] that i(1) Suc.prems(2) by (simp add: temp_write_def del: frame_fold)
  have "phys s' (frame c + 4 * k) = (if i \<le> k then phys s (frame dir + 4 * k) else phys s (frame c + 4 * k))" if "k < 1024" for k
  proof -
    have "unat (i + 1) = unat i + 1"
      using i(2) Suc.prems(1) by simp
    then have "i + 1 \<le> k \<longleftrightarrow> i \<le> k \<and> k \<noteq> i"
      unfolding word_le_nat_alt word_unat_eq_iff by auto
    then show ?thesis
      using s'(3) [rule_format, OF that] dir [OF that] cell [OF that] by (cases "k = i") simp_all
  qed
  then show ?case
    using step s'(1) page_written_trans [OF w s'(2)] by auto
qed

section \<open>The pages of the copy and of the mapping\<close>

definition clone_ready :: "u32 \<Rightarrow> kernel \<Rightarrow> run list \<Rightarrow> run list \<Rightarrow> bool" where
  "clone_ready dir s bs vs \<longleftrightarrow> paging_inv dir s bs \<and> page_dir (cur_space s) = dir \<and> 2 \<le> card (free_pages bs)
     \<and> virt_regions s vs \<and> virt_room 1 s vs \<and> \<not> virt_table_full s \<and> length vs \<le> 500
     \<and> virt_end s vs + virt_len 1 < 2 ^ 32 \<and> page_aligned (as_start (cur_space s)) \<and> (\<forall>(b, n) \<in> set vs. page_aligned b)
     \<and> (\<exists>a. unat (as_start (cur_space s)) \<le> a \<and> a + virt_len 1 \<le> unat (as_end (cur_space s))
          \<and> {a ..< a + virt_len 1} \<inter> occupied virt_len vs = {})
     \<and> page_aligned dir \<and> unat dir < unat (as_start (cur_space s)) \<and> reads_directory dir dir s"

lemma alloc_one_free_page:
  assumes inv: "paging_inv dir s bs" and two: "2 \<le> card (free_pages bs)"
  obtains c s' bs' where "alloc_phys_pages 1 s = Some (c, s')" "phys_only s s'" "paging_inv dir s' bs'" "bs' \<noteq> []"
    "page_aligned c" "page_no c \<in> free_pages bs" "page_no c \<notin> free_pages bs'" "free_pages bs' \<subseteq> free_pages bs"
    "\<And>va. pte dir s' va = pte dir s va" "table_pages dir s' = table_pages dir s"
proof -
  have ph: "phys_inv s bs" using inv by (simp add: paging_inv_def)
  have one: "(0 :: u32) < 1" by simp
  from ph one show thesis
  proof (cases rule: alloc_phys_pages_cases)
    case (none s')
    have "bs = []"
    proof (rule ccontr)
      assume "bs \<noteq> []"
      then obtain b n where bn: "(b, n) \<in> set bs" by (cases bs) auto
      then have "run_ok (b, n)" "n < 1"
        using none(4) phys_inv_runs_ok [OF ph] unfolding runs_ok_def by blast+
      then show False by simp
    qed
    then show thesis using two by (simp add: free_pages_def)
  next
    case (run c s' bs')
    note t = tables_step [OF inv run(4)]
    have c: "page_aligned c" "run_pages (c, 1) = {page_no c}"
      using run(5) one_page by auto
    have "free_pages bs' \<noteq> {}"
    proof
      assume "free_pages bs' = {}"
      then have "free_pages bs \<subseteq> {page_no c}" using run(7) c(2) by blast
      then have "card (free_pages bs) \<le> 1" using card_mono [of "{page_no c}"] by simp
      then show False using two by simp
    qed
    then have "bs' \<noteq> []" by (auto simp: free_pages_def)
    moreover have "table_pages dir s' = table_pages dir s"
      by (rule table_pages_cong [OF t(1)])
    moreover have "phys_only s s'" using run(4) by (simp add: phys_step_def)
    moreover have "free_pages bs' \<subseteq> free_pages bs" "page_no c \<in> free_pages bs" "page_no c \<notin> free_pages bs'"
      using run(6,7) c(2) by auto
    ultimately show thesis
      using that [OF run(1)] t(2) t(3) [OF run(3)] c(1) by blast
  qed
qed

lemma reads_directory_mapped:
  assumes "pte dir s r = Some (frame dir OR 0xfff)" "page_aligned r"
  shows "reads_directory dir r s"
  unfolding reads_directory_def
proof (intro allI impI)
  fix k :: u32 assume "k < 1024"
  then have "4 * k < 4096" by (simp add: word_less_nat_alt unat_word_ariths)
  then show "translate dir s (r + 4 * k) = Some (frame dir + 4 * k)"
    using translate_mapped [OF assms(1) _ _ assms(2)] by (simp del: frame_fold)
qed

lemma reads_directory_kept:
  assumes "reads_directory dir dir s" "page_aligned dir"
    and "\<And>vb. drop_bit 12 vb = drop_bit 12 dir \<Longrightarrow> pte dir s vb \<noteq> None \<Longrightarrow> pte dir s' vb = pte dir s vb"
  shows "reads_directory dir dir s'"
  unfolding reads_directory_def
proof (intro allI impI)
  fix k :: u32 assume k: "k < 1024"
  then have "4 * k < 4096" by (simp add: word_less_nat_alt unat_word_ariths)
  then have "drop_bit 12 (dir + 4 * k) = drop_bit 12 dir"
    using page_offset(2) [OF assms(2)] by simp
  moreover have t: "translate dir s (dir + 4 * k) = Some (frame dir + 4 * k)"
    using assms(1) k by (simp add: reads_directory_def)
  then have "pte dir s (dir + 4 * k) \<noteq> None"
    by (cases "pte dir s (dir + 4 * k)") (simp_all add: translate_def)
  ultimately have "pte dir s' (dir + 4 * k) = pte dir s (dir + 4 * k)"
    using assms(3) by blast
  then show "translate dir s' (dir + 4 * k) = Some (frame dir + 4 * k)"
    using t by (simp add: translate_def)
qed

lemma same_page_above:
  assumes "page_aligned r" "drop_bit 12 va = drop_bit 12 (r :: u32)"
  shows "unat r \<le> unat va"
proof -
  have "unat va div 4096 = unat r div 4096"
    using assms(2) drop_bit_12_unat by metis
  then show ?thesis using assms(1) by (auto simp: page_aligned_dvd elim!: dvdE)
qed

lemma same_page_within:
  assumes "page_aligned r" "drop_bit 12 va = drop_bit 12 (r :: u32)"
  shows "unat va \<in> {unat r ..< unat r + 4096}"
proof -
  have "unat va div 4096 = unat r div 4096"
    using assms(2) drop_bit_12_unat by metis
  then show ?thesis using assms(1) by (auto simp: page_aligned_dvd elim!: dvdE)
qed

lemma same_page_below:
  assumes "page_aligned dir" "page_aligned a" "drop_bit 12 va = drop_bit 12 (dir :: u32)" "unat dir < unat a"
  shows "unat va < unat a"
proof -
  have "unat va div 4096 = unat dir div 4096"
    using assms(3) drop_bit_12_unat by metis
  then have "unat va < unat dir + 4096"
    using assms(1) by (auto simp: page_aligned_dvd elim!: dvdE)
  moreover have "unat dir + 4096 \<le> unat a"
    using assms(1,2,4) by (auto simp: page_aligned_dvd elim!: dvdE)
  ultimately show ?thesis by simp
qed

text \<open>The region through which the directory is read: one page, mapped to the directory.\<close>

lemma map_directory:
  assumes inv: "paging_inv dir s bs" "page_dir (cur_space s) = dir" "bs \<noteq> []"
    and reg: "virt_regions s vs" "virt_room 1 s vs" "\<not> virt_table_full s" "length vs \<le> 500" "virt_end s vs + virt_len 1 < 2 ^ 32"
    and al: "page_aligned (as_start (cur_space s))" "\<forall>(b, n) \<in> set vs. page_aligned b" "page_aligned dir"
    and fit: "unat (as_start (cur_space s)) \<le> a" "a + virt_len 1 \<le> unat (as_end (cur_space s))"
      "{a ..< a + virt_len 1} \<inter> occupied virt_len vs = {}"
    and low: "unat dir < unat (as_start (cur_space s))" "reads_directory dir dir s"
  obtains r s' bs' vs' where "alloc_virt_pages NULL dir 1 0xfff s = Some (r, s')" "space_kept s s'" "cr3 s' = cr3 s"
    "paging_inv dir s' bs'" "free_pages bs' \<subseteq> free_pages bs" "table_pages dir s' \<subseteq> table_pages dir s \<union> free_pages bs"
    "virt_regions s' vs'" "set vs' = insert (r, 1) (set vs)" "length vs' = Suc (length vs)"
    "cells virt_len (r, 1) \<inter> occupied virt_len vs = {}" "pte dir s' r \<noteq> None" "reads_directory dir dir s'" "reads_directory dir r s'"
    "page_aligned r" "unat (as_start (cur_space s)) \<le> unat r"
    "\<And>va. drop_bit 12 va \<noteq> drop_bit 12 r \<Longrightarrow> pte dir s va \<noteq> None \<Longrightarrow> pte dir s' va = pte dir s va"
proof -
  have one: "(0 :: u32) < 1" by simp
  from reg(1,2) one reg(5) show thesis
  proof (cases rule: add_virt_block_cases [of s vs 1])
    case full
    then show thesis using fit by blast
  next
    case (added r s1 vs')
    note v = virt_step_paging [OF added(8)] virt_step_fields [OF added(8)]
    have i1: "paging_inv dir s1 bs" "page_dir (cur_space s1) = dir"
      using inv v by simp_all
    have tp: "table_pages dir s1 = table_pages dir s"
      using v(10) by (simp add: table_pages_def pde_def)
    have r: "page_aligned r" by (rule add_virt_block_aligned [OF reg(1,2) added(1) al(1,2)])
    have high: "unat (as_start (cur_space s)) \<le> unat r"
      using cells_within [OF added(7)] by (simp add: virt_len_def)
    obtain t bs' where m: "map_pages r dir 1 0xfff s1 = Some (True, t)" "phys_only s1 t" "paging_inv dir t bs'"
      "free_pages bs' \<subseteq> free_pages bs" "pte dir t r = Some (frame dir OR 0xfff)"
      "\<forall>vb. drop_bit 12 vb \<noteq> drop_bit 12 r \<longrightarrow> pte dir s1 vb \<noteq> None \<longrightarrow> pte dir t vb = pte dir s1 vb"
      using map_one [OF i1, of r dir "0xfff"] inv(3) by blast
    have "alloc_virt_pages NULL dir 1 0xfff s = Some (r, t)"
      using alloc_virt_pages_no_growth [OF reg(3) added(1)] m(1) al(3) by (auto simp: map_given_pages_def)
    moreover have kept: "pte dir t vb = pte dir s vb" if "drop_bit 12 vb \<noteq> drop_bit 12 r" "pte dir s vb \<noteq> None" for vb
      using m(6) v(2) that by simp
    have "drop_bit 12 vb \<noteq> drop_bit 12 r" if "drop_bit 12 vb = drop_bit 12 dir" for vb
      using same_page_below [OF al(3,1) that low(1)] same_page_above [OF r, of vb] high by auto
    then have "reads_directory dir dir t"
      using kept by (intro reads_directory_kept [OF low(2) al(3)]) blast
    moreover have "space_kept s t" "cr3 t = cr3 s"
      using space_kept_trans [OF space_kept_virt [OF added(8)] space_kept_phys [OF m(2)]] reg(4) phys_only_fields(5) [OF m(2)] added(8)
      by (auto simp: virt_step_def set_cur_virt_def)
    moreover have "virt_regions t vs'"
      using added(2) phys_only_virt(1) [OF m(2)] by simp
    ultimately show thesis
      using that kept r high m(3,4,5) map_one_tables [OF i1 m(1)] tp added(3,4,6) reads_directory_mapped [OF m(5) r] by simp
  qed
qed

text \<open>The mapping is taken away again: one entry of one table.\<close>

lemma unmap_one:
  assumes "page_dir (cur_space s) = dir" "pte dir s va \<noteq> None"
  shows "\<exists>t. unmap_pages va 1 s = Some (True, set_cell (pde dir s (pd_index va)) (pt_index va) 0 t s)"
proof -
  let ?e = "pde dir s (pd_index va)"
  have "present ?e" using assms(2) by (auto simp: pte_eq split: if_splits)
  moreover have "temp_map_page ?e (temp_map_page dir s) = temp_map_page ?e s"
    by (simp add: temp_map_page_def)
  ultimately have "unmap_page dir va s = Some (True, set_cell ?e (pt_index va) 0 (temp_pte (temp_map_page ?e s)) s)"
    by (simp add: unmap_page_def temp_read_map pde_def present_def temp_write_map Let_def)
  then show ?thesis
    using assms(1) by (auto simp: unmap_pages_def)
qed

text \<open>After the copy the region leaves the table and its page loses its entry.\<close>

lemma release_directory:
  assumes reg: "virt_regions s vs" "virt_room 0 s vs" "2 \<le> length vs" "(r, 1) \<in> set vs"
    and inv: "paging_inv dir s bs" "page_dir (cur_space s) = dir" "pte dir s r \<noteq> None" "length vs \<le> 512"
  obtains s1 s2 vs' where "del_virt_block r s = (1, s1)" "unmap_pages r 1 s1 = Some (True, s2)" "virt_regions s2 vs'"
    "set vs' = set vs - {(r, 1)}" "paging_inv dir s2 bs" "space_kept s s2" "cr3 s2 = cr3 s"
    "\<And>c k. page_no (frame c) \<notin> table_pages dir s \<Longrightarrow> k < 1024 \<Longrightarrow> pde c s2 k = pde c s k"
    "\<And>k. k < 1024 \<Longrightarrow> pde dir s2 k = pde dir s k"
    "\<And>va. drop_bit 12 va \<noteq> drop_bit 12 r \<Longrightarrow> pte dir s va \<noteq> None \<Longrightarrow> pte dir s2 va = pte dir s va"
proof -
  obtain s1 vs' where d: "del_virt_block r s = (1, s1)" "virt_regions s1 vs'" "virt_step (length vs) s s1"
      "occupied virt_len vs' = occupied virt_len vs - cells virt_len (r, 1)" "Suc (length vs') = length vs"
      "set vs' = set vs - {(r, 1)}"
    by (rule del_virt_block_entry [OF reg]) (rule that; assumption)
  note v = virt_step_paging [OF d(3)] virt_step_fields [OF d(3)]
  have i1: "paging_inv dir s1 bs" "page_dir (cur_space s1) = dir" "pte dir s1 r \<noteq> None"
    using inv v by simp_all
  let ?e = "pde dir s1 (pd_index r)"
  obtain t where u: "unmap_pages r 1 s1 = Some (True, set_cell ?e (pt_index r) 0 t s1)" (is "_ = Some (_, ?u)")
    using unmap_one [OF i1(2,3)] by blast
  have one: "unat (1 :: u32) \<le> 2 ^ 20" "\<forall>i < unat (1 :: u32). pte dir s1 (r + of_nat i * PAGE_SIZE) \<noteq> None"
    using i1(3) by simp_all
  obtain u' where k: "unmap_pages r 1 s1 = Some (True, u')" "paging_inv dir u' bs"
      "\<forall>vb. (\<forall>i < unat (1 :: u32). drop_bit 12 vb \<noteq> drop_bit 12 (r + of_nat i * PAGE_SIZE)) \<longrightarrow>
         pte dir s1 vb \<noteq> None \<longrightarrow> pte dir u' vb = pte dir s1 vb"
    by (rule unmap_pages_keeps_free [OF i1(1,2) one])
  have same: "u' = ?u" using k(1) u by simp
  have pr: "present ?e" using i1(3) by (auto simp: pte_eq split: if_splits)
  have e: "?e = pde dir s (pd_index r)" "\<And>c k. pde c s1 k = pde c s k"
    using v(10) by (simp_all add: pde_def)
  have dir: "frame ?e \<noteq> frame dir"
    using i1(1) pr pd_index_less unfolding paging_inv_def tables_ok_def by blast
  have "frame ?e \<noteq> frame c" if "page_no (frame c) \<notin> table_pages dir s" for c
    using that table_pagesI(2) [of "pd_index r" dir s] pr e(1) pd_index_less by metis
  then have "pde c ?u k = pde c s k" if "page_no (frame c) \<notin> table_pages dir s" "k < 1024" for c k
    using set_cell_pde that pt_index_less e(2) by metis
  moreover have "pde dir ?u k = pde dir s k" if "k < 1024" for k
    using set_cell_pde [OF dir pt_index_less that] e(2) by metis
  moreover have "virt_regions ?u vs'"
    using d(2) phys_only_virt(1) [OF phys_only_set_cell] by simp
  moreover have "space_kept s ?u" "cr3 ?u = cr3 s"
    using space_kept_trans [OF space_kept_virt [OF d(3) inv(4)] space_kept_phys [OF phys_only_set_cell]]
      early_step_virt [OF d(3), of dir] by (simp_all add: set_cell_def early_step_def)
  ultimately show thesis
    using that d(1,6) u k(2,3) same v(2) by simp
qed

text \<open>The page of the copy, cleared and filled.\<close>

lemma copy_page:
  assumes inv: "paging_inv dir s bs" "cr3 s = dir" "page_dir (kernel_address_space s) = dir"
    and c: "page_no (frame c) \<notin> free_pages bs" "page_no (frame c) \<notin> table_pages dir s"
    and reads: "reads_directory dir dir s" "reads_directory dir r s"
  obtains s' where "clone_entries 1024 0 r (for_up 1024 (\<lambda>i. temp_write (4 * of_nat i) 0) (temp_map_page c s)) = Some s'"
    "phys_only s s'" "paging_inv dir s' bs" "table_pages dir s' = table_pages dir s"
    "\<And>k. k < 1024 \<Longrightarrow> pde c s' k = pde dir s' k" "\<And>va. pte dir s' va = pte dir s va"
proof -
  let ?w = "temp_map_page c s"
  have regs: "cr3 ?w = dir" "page_dir (kernel_address_space ?w) = dir"
    using inv(2,3) by (simp_all add: temp_map_page_def)
  have w: "paging_inv dir ?w bs" "phys_only s ?w"
    "temp_frame ?w = frame c" "\<And>va. pte dir ?w va = pte dir s va" "\<And>i. pde dir ?w i = pde dir s i"
    using inv(1) by (simp_all add: pte_eq pde_def)
  have tp: "table_pages dir ?w = table_pages dir s" by (simp add: table_pages_def w(5))
  have pc: "page_no (frame c) \<notin> table_pages dir ?w" using c(2) tp by simp
  let ?z = "for_up 1024 (\<lambda>i. temp_write (4 * of_nat i) 0) ?w"
  have z: "page_written (frame c) ?w ?z" using clear_page_written [OF w(3)] by blast
  note t = page_written_tables [OF z pc] and sp = page_written_space [OF z]
  have zr: "reads_directory dir va ?z" if "reads_directory dir va s" for va
    using that t(3) w(4) by (simp add: reads_directory_def translate_def)
  have zc: "page_no (frame c) \<notin> table_pages dir ?z" using pc t(4) by simp
  have zt: "temp_frame ?z = frame c" using z w(3) by (simp add: page_written_def)
  have "unat (0 :: u32) + 1024 = 1024" by simp
  from clone_entries_copies [OF this zt zc _ _ zr [OF reads(1)] zr [OF reads(2)]] sp(1,5) regs
  obtain s' where s': "clone_entries 1024 0 r ?z = Some s'" "page_written (frame c) ?z s'"
      "\<forall>k. k < 1024 \<longrightarrow> phys s' (frame c + 4 * k) = phys ?z (frame dir + 4 * k)"
    by auto
  note t' = page_written_tables [OF s'(2) zc]
  have "pde c s' k = pde dir s' k" if "k < 1024" for k
    using s'(3) t'(1) that by (simp add: pde_def)
  moreover have "phys_only s s'"
    using phys_only_trans [OF w(2)] page_written_trans [OF z s'(2)] by (simp add: page_written_def)
  moreover have "paging_inv dir s' bs"
    using t'(5) t(5) w(1) c(1) by blast
  ultimately show thesis
    using that s'(1) t'(2,4) t(2,4) tp w(4) by simp
qed

text \<open>What holds when the directory is mapped for the copy.\<close>

lemma map_clone_source:
  assumes "clone_ready dir s bs vs" "phys_only s s1" "paging_inv dir s1 bs1" "bs1 \<noteq> []" "\<And>va. pte dir s1 va = pte dir s va"
  obtains r s' bs' vs' where "alloc_virt_pages NULL dir 1 0xfff s1 = Some (r, s')" "space_kept s s'" "cr3 s' = cr3 s"
    "paging_inv dir s' bs'" "free_pages bs' \<subseteq> free_pages bs1" "table_pages dir s' \<subseteq> table_pages dir s1 \<union> free_pages bs1"
    "virt_regions s' vs'" "set vs' = insert (r, 1) (set vs)" "length vs' = Suc (length vs)"
    "cells virt_len (r, 1) \<inter> occupied virt_len vs = {}" "pte dir s' r \<noteq> None" "reads_directory dir dir s'" "reads_directory dir r s'"
    "page_aligned r" "unat (as_start (cur_space s)) \<le> unat r"
    "\<And>va. drop_bit 12 va \<noteq> drop_bit 12 r \<Longrightarrow> pte dir s va \<noteq> None \<Longrightarrow> pte dir s' va = pte dir s va"
proof -
  note R = assms(1) [unfolded clone_ready_def]
  note k = phys_only_fields [OF assms(2)] phys_only_virt [OF assms(2)]
  obtain a where a: "unat (as_start (cur_space s)) \<le> a" "a + virt_len 1 \<le> unat (as_end (cur_space s))"
      "{a ..< a + virt_len 1} \<inter> occupied virt_len vs = {}"
    using R by blast
  have full: "\<not> virt_table_full s1" "page_dir (cur_space s1) = dir"
    using R k(1) by (simp_all add: virt_table_full_def)
  have reg: "virt_regions s1 vs" "virt_room 1 s1 vs" "length vs \<le> 500" "virt_end s1 vs + virt_len 1 < 2 ^ 32"
    using R k by simp_all
  have al: "page_aligned (as_start (cur_space s1))" "\<forall>(b, n) \<in> set vs. page_aligned b" "page_aligned dir"
    using R k(1) by simp_all
  have low: "unat dir < unat (as_start (cur_space s1))" "reads_directory dir dir s1"
    using R k(1) assms(5) by (simp_all add: reads_directory_def translate_def)
  obtain r s' bs' vs' where m: "alloc_virt_pages NULL dir 1 0xfff s1 = Some (r, s')" "space_kept s1 s'" "cr3 s' = cr3 s1"
    "paging_inv dir s' bs'" "free_pages bs' \<subseteq> free_pages bs1" "table_pages dir s' \<subseteq> table_pages dir s1 \<union> free_pages bs1"
    "virt_regions s' vs'" "set vs' = insert (r, 1) (set vs)" "length vs' = Suc (length vs)"
    "cells virt_len (r, 1) \<inter> occupied virt_len vs = {}" "pte dir s' r \<noteq> None" "reads_directory dir dir s'" "reads_directory dir r s'"
    "page_aligned r" "unat (as_start (cur_space s1)) \<le> unat r"
    "\<And>va. drop_bit 12 va \<noteq> drop_bit 12 r \<Longrightarrow> pte dir s1 va \<noteq> None \<Longrightarrow> pte dir s' va = pte dir s1 va"
    by (rule map_directory [OF assms(3) full(2) assms(4) reg(1,2) full(1) reg(3,4) al a [folded k(1)] low]) (rule that; assumption)
  show thesis
  proof (rule that [OF m(1) space_kept_trans [OF space_kept_phys [OF assms(2)] m(2)] _ m(4-14)])
    show "cr3 s' = cr3 s" using m(3) k(5) by simp
    show "unat (as_start (cur_space s)) \<le> unat r" using m(15) k(1) by simp
    show "pte dir s' va = pte dir s va" if "drop_bit 12 va \<noteq> drop_bit 12 r" "pte dir s va \<noteq> None" for va
      using m(16) [of va] that k(1) assms(5) by simp
  qed
qed

text \<open>The copy, and the mapping taken away after it.\<close>

lemma copy_and_release:
  assumes inv: "paging_inv dir s2 bs2" "cr3 s2 = dir" "cur_address_space s2 = Kernel_Space" "page_dir (cur_space s2) = dir"
    and c2: "page_no (frame c) \<notin> free_pages bs2" "page_no (frame c) \<notin> table_pages dir s2"
    and reads: "reads_directory dir dir s2" "reads_directory dir r s2"
    and reg: "virt_regions s2 vs2" "virt_room 0 s2 vs2" "2 \<le> length vs2" "(r, 1) \<in> set vs2" "pte dir s2 r \<noteq> None" "length vs2 \<le> 512"
  obtains s3 s4 s5 vs5 where "clone_entries 1024 0 r (for_up 1024 (\<lambda>i. temp_write (4 * of_nat i) 0) (temp_map_page c s2)) = Some s3"
    "del_virt_block r s3 = (1, s4)" "unmap_pages r 1 s4 = Some (True, s5)" "virt_regions s5 vs5"
    "set vs5 = set vs2 - {(r, 1)}" "paging_inv dir s5 bs2" "space_kept s2 s5" "cr3 s5 = cr3 s2"
    "\<And>k. k < 1024 \<Longrightarrow> pde c s5 k = pde dir s5 k" "table_pages dir s5 = table_pages dir s2"
    "\<And>va. drop_bit 12 va \<noteq> drop_bit 12 r \<Longrightarrow> pte dir s2 va \<noteq> None \<Longrightarrow> pte dir s5 va = pte dir s2 va"
proof -
  have ks: "page_dir (kernel_address_space s2) = dir"
    using inv(3,4) by (simp add: address_space_def)
  obtain s3 where p: "clone_entries 1024 0 r (for_up 1024 (\<lambda>i. temp_write (4 * of_nat i) 0) (temp_map_page c s2)) = Some s3"
      "phys_only s2 s3" "paging_inv dir s3 bs2" "table_pages dir s3 = table_pages dir s2"
      "\<And>k. k < 1024 \<Longrightarrow> pde c s3 k = pde dir s3 k" "\<And>va. pte dir s3 va = pte dir s2 va"
    by (rule copy_page [OF inv(1,2) ks c2 reads]) (rule that; assumption)
  have reg3: "virt_regions s3 vs2" "virt_room 0 s3 vs2"
    using phys_only_virt [OF p(2)] reg(1,2) by simp_all
  have i3: "page_dir (cur_space s3) = dir" "pte dir s3 r \<noteq> None"
    using phys_only_fields(1) [OF p(2)] inv(4) reg(5) p(6) by simp_all
  obtain s4 s5 vs5 where u: "del_virt_block r s3 = (1, s4)" "unmap_pages r 1 s4 = Some (True, s5)" "virt_regions s5 vs5"
      "set vs5 = set vs2 - {(r, 1)}" "paging_inv dir s5 bs2" "space_kept s3 s5" "cr3 s5 = cr3 s3"
      "\<And>c k. page_no (frame c) \<notin> table_pages dir s3 \<Longrightarrow> k < 1024 \<Longrightarrow> pde c s5 k = pde c s3 k"
      "\<And>k. k < 1024 \<Longrightarrow> pde dir s5 k = pde dir s3 k"
      "\<And>va. drop_bit 12 va \<noteq> drop_bit 12 r \<Longrightarrow> pte dir s3 va \<noteq> None \<Longrightarrow> pte dir s5 va = pte dir s3 va"
    by (rule release_directory [OF reg3 reg(3,4) p(3) i3 reg(6)]) (rule that; assumption)
  have "pde c s5 k = pde dir s5 k" if "k < 1024" for k
    using u(8,9) p(4,5) c2(2) that by simp
  moreover have "table_pages dir s5 = table_pages dir s2"
    unfolding p(4) [symmetric] by (rule table_pages_cong [OF u(9)])
  moreover have "space_kept s2 s5" "cr3 s5 = cr3 s2"
    using space_kept_trans [OF space_kept_phys [OF p(2)] u(6)] u(7) phys_only_fields(5) [OF p(2)] by simp_all
  ultimately show thesis
    using that [OF p(1) u(1-5)] u(10) p(6) by simp
qed

lemma clone_directory_gives:
  assumes ready: "clone_ready dir s bs vs" and at: "cr3 s = dir" "cur_address_space s = Kernel_Space"
  obtains c s' bs' vs' where "clone_directory dir s = Some (c, s')" "page_aligned c" "page_no c \<in> free_pages bs - free_pages bs'"
    "page_no c \<notin> table_pages dir s'" "\<And>k. k < 1024 \<Longrightarrow> pde c s' k = pde dir s' k" "paging_inv dir s' bs'"
    "free_pages bs' \<subseteq> free_pages bs" "virt_regions s' vs'" "set vs' = set vs" "space_kept s s'" "cr3 s' = dir"
    "\<And>va. unat va < unat (as_start (cur_space s)) \<or> unat va \<in> occupied virt_len vs \<Longrightarrow> pte dir s va \<noteq> None \<Longrightarrow> pte dir s' va = pte dir s va"
proof -
  note R = ready [unfolded clone_ready_def]
  have R1: "paging_inv dir s bs" "2 \<le> card (free_pages bs)" using R by blast+
  obtain c s1 bs1 where a: "alloc_phys_pages 1 s = Some (c, s1)" "phys_only s s1" "paging_inv dir s1 bs1" "bs1 \<noteq> []"
      "page_aligned c" "page_no c \<in> free_pages bs" "page_no c \<notin> free_pages bs1" "free_pages bs1 \<subseteq> free_pages bs"
      "\<And>va. pte dir s1 va = pte dir s va" "table_pages dir s1 = table_pages dir s"
    by (rule alloc_one_free_page [OF R1]) (rule that; assumption)
  obtain r s2 bs2 vs2 where m: "alloc_virt_pages NULL dir 1 0xfff s1 = Some (r, s2)" "space_kept s s2" "cr3 s2 = cr3 s"
      "paging_inv dir s2 bs2" "free_pages bs2 \<subseteq> free_pages bs1" "table_pages dir s2 \<subseteq> table_pages dir s1 \<union> free_pages bs1"
      "virt_regions s2 vs2" "set vs2 = insert (r, 1) (set vs)" "length vs2 = Suc (length vs)"
      "cells virt_len (r, 1) \<inter> occupied virt_len vs = {}" "pte dir s2 r \<noteq> None" "reads_directory dir dir s2" "reads_directory dir r s2"
      "page_aligned r" "unat (as_start (cur_space s)) \<le> unat r"
      "\<And>va. drop_bit 12 va \<noteq> drop_bit 12 r \<Longrightarrow> pte dir s va \<noteq> None \<Longrightarrow> pte dir s2 va = pte dir s va"
    by (rule map_clone_source [OF ready a(2,3,4,9)]) (rule that; assumption)
  have k2: "page_dir (cur_space s2) = dir" "cur_address_space s2 = Kernel_Space"
    using m(2) R at(2) unfolding space_kept_def by metis+
  have c2: "page_no (frame c) \<notin> free_pages bs2" "page_no (frame c) \<notin> table_pages dir s2"
    using a(5,6,7) m(5,6) a(10) table_pages_not_free [of dir s "free_pages bs"] R1(1) frame_of_aligned [OF a(5)]
    unfolding paging_inv_def by auto
  have ne: "virt_regions s vs" "virt_room 1 s vs" "vs \<noteq> []" using R by (auto simp: virt_regions_def)
  have reg: "virt_room 0 s2 vs2" "2 \<le> length vs2" "(r, 1) \<in> set vs2" "length vs2 \<le> 512"
    using m(8,9) ne(3) R virt_room_kept [OF m(2) ne(2), of vs2 0] by (simp_all add: Suc_le_eq)
  have c3: "cr3 s2 = dir" using m(3) at(1) by simp
  obtain s3 s4 s5 vs5 where u: "clone_entries 1024 0 r (for_up 1024 (\<lambda>i. temp_write (4 * of_nat i) 0) (temp_map_page c s2)) = Some s3"
    "del_virt_block r s3 = (1, s4)" "unmap_pages r 1 s4 = Some (True, s5)" "virt_regions s5 vs5"
    "set vs5 = set vs2 - {(r, 1)}" "paging_inv dir s5 bs2" "space_kept s2 s5" "cr3 s5 = cr3 s2"
    "\<And>k. k < 1024 \<Longrightarrow> pde c s5 k = pde dir s5 k" "table_pages dir s5 = table_pages dir s2"
    "\<And>va. drop_bit 12 va \<noteq> drop_bit 12 r \<Longrightarrow> pte dir s2 va \<noteq> None \<Longrightarrow> pte dir s5 va = pte dir s2 va"
    by (rule copy_and_release [OF m(4) c3 k2(2,1) c2 m(12,13) m(7) reg(1-3) m(11) reg(4)]) (rule that; assumption)
  have page: "{unat r ..< unat r + 4096} \<inter> occupied virt_len vs = {}"
    using m(10) by (simp add: cells_def virt_len_def)
  have off: "drop_bit 12 va \<noteq> drop_bit 12 r" if "unat va < unat (as_start (cur_space s)) \<or> unat va \<in> occupied virt_len vs" for va
    using that same_page_within [OF m(14), of va] m(15) page by auto
  have kept: "pte dir s5 va = pte dir s va" if "unat va < unat (as_start (cur_space s)) \<or> unat va \<in> occupied virt_len vs" "pte dir s va \<noteq> None" for va
    using u(11) [of va] m(16) [of va] off [OF that(1)] that(2) by simp
  have "unat r \<in> cells virt_len (r, 1)"
    by (simp add: cells_def virt_len_def)
  then have new: "(r, 1) \<notin> set vs"
    using m(10) unfolding occupied_def by blast
  have sets: "set vs5 = set vs"
    using u(5) m(8) new by auto
  have run: "clone_directory dir s = Some (c, s5)"
    using a(1) m(1) u(1,2,3) by (simp add: clone_directory_def del: clone_entries.simps)
  have c5: "page_no c \<in> free_pages bs - free_pages bs2" "page_no c \<notin> table_pages dir s5" "free_pages bs2 \<subseteq> free_pages bs"
    using a(6,7,8) m(5) c2(2) u(10) frame_of_aligned [OF a(5)] by auto
  show thesis
    using that [OF run a(5) c5(1,2) u(9) u(6) c5(3) u(4) sets space_kept_trans [OF m(2) u(7)] _ kept] u(8) c3 by simp
qed

section \<open>Property\<close>

text \<open>
  C24: \<open>clone_directory\<close> of the directory in use, when the boot code's mapping of low memory shows the
  directory at its own address, two free pages are left and a page of the kernel's addresses is not
  taken: it returns a page that was free and belongs to no table; entry by entry this page equals
  the directory, so as a directory it translates every address in the same way; the region for the
  copy is given back, the mappings below the kernel's addresses stay, and the invariants of the free
  list, the page tables and the table of regions hold again.
\<close>

theorem clone_directory_copies:
  assumes ready: "clone_ready dir s bs vs" and at: "cr3 s = dir" "cur_address_space s = Kernel_Space"
  shows "\<exists>c s' bs' vs'. clone_directory dir s = Some (c, s')
    \<and> page_aligned c \<and> page_no c \<in> free_pages bs - free_pages bs' \<and> page_no c \<notin> table_pages dir s'
    \<and> (\<forall>k < 1024. pde c s' k = pde dir s' k) \<and> (\<forall>va. translate c s' va = translate dir s' va)
    \<and> (\<forall>va. unat va < unat (as_start (cur_space s)) \<longrightarrow> pte dir s va \<noteq> None \<longrightarrow> pte dir s' va = pte dir s va)
    \<and> paging_inv dir s' bs' \<and> free_pages bs' \<subseteq> free_pages bs
    \<and> virt_regions s' vs' \<and> occupied virt_len vs' = occupied virt_len vs"
proof -
  obtain c s' bs' vs' where c: "clone_directory dir s = Some (c, s')" "page_aligned c" "page_no c \<in> free_pages bs - free_pages bs'"
    "page_no c \<notin> table_pages dir s'" "\<And>k. k < 1024 \<Longrightarrow> pde c s' k = pde dir s' k" "paging_inv dir s' bs'"
    "free_pages bs' \<subseteq> free_pages bs" "virt_regions s' vs'" "set vs' = set vs"
    "\<And>va. unat va < unat (as_start (cur_space s)) \<or> unat va \<in> occupied virt_len vs \<Longrightarrow> pte dir s va \<noteq> None \<Longrightarrow> pte dir s' va = pte dir s va"
    by (rule clone_directory_gives [OF assms]) (rule that; assumption)
  have tr: "translate c s' va = translate dir s' va" for va
    using c(5) [OF pd_index_less [of va]] by (simp add: translate_def pte_eq)
  have "occupied virt_len vs' = occupied virt_len vs"
    using c(9) by (simp add: occupied_def)
  then show ?thesis
    using c tr by (intro exI [of _ c] exI [of _ s'] exI [of _ bs'] exI [of _ vs']) simp
qed

text \<open>
  \<open>booted\<close> with a table at \<open>0x5000\<close> that maps the page of the directory onto itself, in use by the
  processor.
\<close>

definition mirrored :: kernel where
  "mirrored = booted\<lparr>cr3 := 0x1000, phys := (phys booted)(0x1000 := 0x5007, 0x5004 := 0x1007)\<rparr>"

lemma mirrored_same: "cur_space mirrored = cur_space two_regions" "mem mirrored = mem two_regions"
  "phys mirrored = (phys paged)(0x1000 := 0x5007, 0x5004 := 0x1007)" "cr3 mirrored = 0x1000"
  "free_page_count mirrored = free_page_count paged" "free_phys_memory_pointer mirrored = free_phys_memory_pointer paged"
  "cur_address_space mirrored = Kernel_Space"
  unfolding mirrored_def by (simp_all add: booted_def address_space_def two_regions_def paged_def two_runs_def zero_kernel_def)

lemma frame_0x1000: "frame 0x1000 = 0x1000" "frame 0x1007 = 0x1000" "frame 0x5007 = 0x5000" "frame 7 = 0"
  by (simp_all add: frame_def del: frame_fold)

lemma mirrored_pde: "i < 1024 \<Longrightarrow> pde 0x1000 mirrored i = (if i = 0 then 0x5007 else if i = 0x200 then 0x2007 else 0)"
proof -
  assume i: "i < 1024"
  have "0x1000 + 4 * i \<noteq> 0x5004" "0x1000 + 4 * i = 0x1000 \<longleftrightarrow> i = 0"
    using table_cell_eq [of "0x1000" "0x5000" i 1] table_cell_eq [of "0x1000" "0x1000" i 0] i by (simp_all add: page_aligned_def)
  then show ?thesis
    using paged_pde [OF i] by (simp add: pde_def mirrored_same frame_0x1000)
qed

lemma mirrored_free: "free_pages [(0x300000, 4), (0x200000, 2)] = {0x300, 0x301, 0x302, 0x303, 0x200, 0x201}"
  by (auto simp: free_pages_def run_pages_def)

lemma mirrored_inv: "paging_inv 0x1000 mirrored [(0x300000, 4), (0x200000, 2)]"
proof -
  have "phys_inv mirrored [(0x300000, 4), (0x200000, 2)]"
    by (rule phys_inv_frame [of paged]) (use paged_inv in \<open>auto simp: paging_inv_def mirrored_same hdr_cells_def\<close>)
  moreover have "tables_ok 0x1000 mirrored (free_pages [(0x300000, 4), (0x200000, 2)])"
    using frame_0x1000 frame_0x2007
    unfolding mirrored_free by (auto simp: tables_ok_def mirrored_pde page_no_def present_def split: if_splits)
  ultimately show ?thesis
    by (simp add: paging_inv_def)
qed

lemma mirrored_pte: "pte 0x1000 mirrored 0x1000 = Some 0x1007"
  by (simp add: pte_eq pd_index_def pt_index_def mirrored_pde present_def frame_0x1000 mirrored_same)

lemma mirrored_reads: "reads_directory 0x1000 0x1000 mirrored"
  unfolding reads_directory_def
proof (intro allI impI)
  fix k :: u32 assume "k < 1024"
  then have "4 * k < 4096" by (simp add: word_less_nat_alt unat_word_ariths)
  moreover have "pte 0x1000 mirrored 0x1000 = Some (frame 0x1000 OR 7)"
    using mirrored_pte by (simp add: frame_0x1000)
  ultimately show "translate 0x1000 mirrored (0x1000 + 4 * k) = Some (frame 0x1000 + 4 * k)"
    using translate_mapped [of "0x1000" mirrored "0x1000" "0x1000" 7 "4 * k"] by (simp add: page_aligned_def frame_0x1000)
qed

lemma mirrored_ready: "clone_ready 0x1000 mirrored [(0x300000, 4), (0x200000, 2)] [(0x80000000, 16), (0x80020000, 1)]"
proof -
  have vs: "virt_regions mirrored [(0x80000000, 16), (0x80020000, 1)]" "virt_room 1 mirrored [(0x80000000, 16), (0x80020000, 1)]"
    using two_regions_ok unfolding virt_regions_def virt_room_def virt_table_def virt_ptr_def mirrored_same(1,2) by simp_all
  have dir: "page_dir (cur_space mirrored) = 0x1000"
    using booted_ok(2) unfolding mirrored_same(1) booted_space .
  have "{0x90000000 ..< 0x90000000 + virt_len 1} \<inter> occupied virt_len [(0x80000000, 16), (0x80020000, 1)] = {}"
    by (auto simp: occupied_def cells_def virt_len_def)
  then have fit: "\<exists>a. unat (as_start (cur_space mirrored)) \<le> a \<and> a + virt_len 1 \<le> unat (as_end (cur_space mirrored))
      \<and> {a ..< a + virt_len 1} \<inter> occupied virt_len [(0x80000000, 16), (0x80020000, 1)] = {}"
    unfolding mirrored_same(1) by (intro exI [of _ "0x90000000"]) (simp add: virt_len_def)
  have full: "\<not> virt_table_full mirrored"
    unfolding virt_table_full_def mirrored_same(1) by simp
  show ?thesis
    unfolding clone_ready_def
    using mirrored_inv dir vs fit full mirrored_reads unfolding mirrored_free mirrored_same(1)
    by (simp add: page_aligned_def virt_len_def)
qed

theorem clone_directory_copies_witness:
  "\<exists>c s'. clone_directory 0x1000 mirrored = Some (c, s') \<and> translate c s' 0x1000 = Some 0x1000
    \<and> (\<forall>va. translate c s' va = translate 0x1000 s' va)"
proof -
  have low: "unat (0x1000 :: u32) < unat (as_start (cur_space mirrored))"
    using mirrored_ready by (simp add: clone_ready_def)
  from clone_directory_copies [OF mirrored_ready mirrored_same(4,7)] show ?thesis
    apply (elim exE conjE)
    subgoal for c s' bs' vs'
      using low mirrored_pte frame_0x1000(2)
      by (intro exI [of _ c] exI [of _ s']) (simp add: translate_def present_def)
    done
qed

end
