(* ===== verification/Startup.thy ===== *)
theory Startup
  imports Clone
begin

text \<open>
  \<open>init_memory_manager\<close> of \<open>memory_manager.c\<close> from the point where the free list is built to its end: the
  address space of the kernel with its regions and its heap, and the address space of the user with
  a copy of the kernel's directory.
\<close>

section \<open>The user's address space after the kernel's\<close>

lemma space_with_room:
  assumes w: "space_with dir e vs s" and len: "length vs = 5" "virt_end s vs \<le> 0x8040B000"
  shows "virt_room 1 s vs" "\<not> virt_table_full s" "virt_end s vs + virt_len 1 < 2 ^ 32"
    "\<exists>a. unat (as_start (cur_space s)) \<le> a \<and> a + virt_len 1 \<le> unat (as_end (cur_space s)) \<and> {a ..< a + virt_len 1} \<inter> occupied virt_len vs = {}"
proof -
  note d = space_withD [OF w]
  have sp: "unat (virt_ptr s) \<le> 0x80400000" "virt_table_size s = 1"
    and bounds: "unat (as_start (cur_space s)) = 0x80000000" "unat (as_end (cur_space s)) = 0xFFFFFFFF"
    using w by (auto simp: space_with_def)
  have "v_block_count (virt_memory (cur_space s)) = of_nat (length vs)"
    using d(4) by (simp add: virt_regions_def virt_table_def)
  then show "virt_room 1 s vs" "\<not> virt_table_full s" "virt_end s vs + virt_len 1 < 2 ^ 32"
    using len sp by (auto simp: virt_room_def virt_table_full_def virt_len_def)
  have "end_of virt_len 0x80000000 vs \<le> 0x8040B000"
    using len(2) unfolding bounds .
  moreover have "placed virt_len 0x80000000 (end_of virt_len 0x80000000 vs) vs"
    using d(6) placed_append [of virt_len "0x80000000" "0xFFFFFFFF" vs "[]"] by (simp only: append_Nil2 simp_thms)
  from placed_occupied [OF this] have "occupied virt_len vs \<subseteq> {0x80000000 ..< end_of virt_len 0x80000000 vs}" .
  ultimately have "occupied virt_len vs \<subseteq> {..<0x90000000}"
    by (auto simp: subset_iff)
  then have "{0x90000000 ..< 0x90000000 + virt_len 1} \<inter> occupied virt_len vs = {}"
    by fastforce
  then show "\<exists>a. unat (as_start (cur_space s)) \<le> a \<and> a + virt_len 1 \<le> unat (as_end (cur_space s)) \<and> {a ..< a + virt_len 1} \<inter> occupied virt_len vs = {}"
    unfolding bounds by (intro exI [of _ "0x90000000"]) (simp add: virt_len_def)
qed

lemma reads_directory_early:
  assumes "early_step k dir s s'" "reads_directory dir dir s" "page_aligned dir" "unat dir < 0x80000000"
  shows "reads_directory dir dir s'"
proof (rule reads_directory_kept [OF assms(2,3)])
  fix vb assume "drop_bit 12 vb = drop_bit 12 dir" "pte dir s vb \<noteq> None"
  moreover have "unat vb < unat (0x80000000 :: u32)"
    using same_page_below [of dir "0x80000000", OF assms(3) _ calculation(1)] assms(4) by (simp add: page_aligned_def)
  ultimately show "pte dir s' vb = pte dir s vb"
    using assms(1) by (simp add: early_step_def)
qed

lemma space_with_clone_ready:
  assumes w: "space_with dir e vs s" and len: "length vs = 5" "virt_end s vs \<le> 0x8040B000"
    and inv: "paging_inv dir s bs" "2 \<le> card (free_pages bs)"
    and low: "page_aligned dir" "unat dir < 0x80000000" "reads_directory dir dir s"
  shows "clone_ready dir s bs vs"
proof -
  note d = space_withD [OF w]
  have start0: "as_start (cur_space s) = 0x80000000" and al: "\<forall>(b, n) \<in> set vs. page_aligned b"
    using w unfolding space_with_def by blast+
  have al0: "page_aligned (as_start (cur_space s))"
    unfolding start0 by (simp add: page_aligned_def)
  have start: "unat dir < unat (as_start (cur_space s))" "length vs \<le> 500"
    using low(2) d(5) len(1) by simp_all
  show ?thesis
    unfolding clone_ready_def
    using inv d(3,4) space_with_room [OF w len] start al al0 low(1,3) by blast
qed

lemma heap_page_occupied:
  assumes "(h, 10) \<in> set vs" "unat h + 0xA000 \<le> 0xFFFFFFFF" "i < 10"
  shows "unat (h + of_nat i * PAGE_SIZE) \<in> occupied virt_len vs"
proof -
  have "unat (h + of_nat i * PAGE_SIZE) = unat h + i * 4096"
    using assms(2,3) by (simp add: unat_word_ariths unat_of_nat)
  then have "unat (h + of_nat i * PAGE_SIZE) \<in> cells virt_len (h, 10)"
    using assms(3) by (simp add: cells_def virt_len_def)
  then show ?thesis
    using assms(1) unfolding occupied_def by blast
qed

text \<open>Only the record of the user's address space is filled in after the copy.\<close>

lemma set_user_space_keeps:
  fixes a :: AddressSpace
  assumes "cur_address_space t = Kernel_Space"
  defines "u \<equiv> t\<lparr>user_address_space := a\<rparr>"
  shows "cur_address_space u = Kernel_Space" "cur_space u = cur_space t" "user_address_space u = a" "mem u = mem t" "cr3 u = cr3 t"
    "paging_inv dir u bs = paging_inv dir t bs" "pte dir u va = pte dir t va" "virt_regions u vs = virt_regions t vs"
    "table_pages dir u = table_pages dir t" "pde dir u i = pde dir t i"
proof -
  show k: "cur_address_space u = Kernel_Space" "cur_space u = cur_space t" "user_address_space u = a" "mem u = mem t" "cr3 u = cr3 t"
    using assms(1) by (simp_all add: u_def address_space_def)
  then show "virt_regions u vs = virt_regions t vs"
    unfolding virt_regions_def virt_table_def virt_ptr_def by simp
  show "paging_inv dir u bs = paging_inv dir t bs" "pte dir u va = pte dir t va" "pde dir u i = pde dir t i"
    using paging_inv_cong [of u t] by (simp_all add: u_def pde_def)
  show "table_pages dir u = table_pages dir t"
    by (simp add: table_pages_def pde_def u_def)
qed

text \<open>What the start of the memory manager leaves: \<open>s\<close> is the state before it, with the free runs \<open>bs\<close>, \<open>s'\<close> the one after it.\<close>

definition spaces_ready :: "kernel \<Rightarrow> run list \<Rightarrow> kernel \<Rightarrow> bool" where
  "spaces_ready s bs s' \<longleftrightarrow> (\<exists>tbl heap c bs' vs ps. cur_address_space s' = Kernel_Space \<and> page_dir (cur_space s') = kernel_page_dir s
    \<and> paging_inv (kernel_page_dir s) s' bs' \<and> free_pages bs' \<subseteq> free_pages bs
    \<and> virt_regions s' vs \<and> set vs = set (first_regions s) \<union> {(tbl, 1), (heap, 10)}
    \<and> heap_state s' = fresh_heap tbl heap \<and> heap_regions s' []
    \<and> length ps = 10 \<and> distinct (map page_no ps) \<and> page_no ` set ps \<subseteq> free_pages bs - free_pages bs'
    \<and> (\<forall>i < 10. pte (kernel_page_dir s) s' (heap + of_nat i * PAGE_SIZE) = Some (frame (ps ! i) OR 0xfff))
    \<and> user_address_space s' = \<lparr>page_dir = c, as_start = USER_ADDRESS_SPACE_START, as_end = USER_ADDRESS_SPACE_END,
         virt_memory = virt_memory (cur_space s'), dynamic_memory = heap_state s'\<rparr>
    \<and> page_aligned c \<and> page_no c \<in> free_pages bs - free_pages bs' \<and> page_no c \<notin> table_pages (kernel_page_dir s) s'
    \<and> (\<forall>va. translate c s' va = translate (kernel_page_dir s) s' va))"

lemma spaces_hold:
  assumes inv: "paging_inv (kernel_page_dir s) s bs" "kernel_layout s" "cr3 s = kernel_page_dir s"
    and low: "page_aligned (kernel_page_dir s)" "unat (kernel_page_dir s) < 0x80000000"
      "reads_directory (kernel_page_dir s) (kernel_page_dir s) s"
    and room: "27 \<le> card (free_pages bs)"
  shows "\<exists>s'. init_kernel_memory s \<bind> init_user_space = Some s' \<and> spaces_ready s bs s'"
proof -
  let ?dir = "kernel_page_dir s"
  obtain tbl heap s1 bs1 vs ps where k: "init_kernel_memory s = Some s1" "paging_inv ?dir s1 bs1" "free_pages bs1 \<subseteq> free_pages bs"
      "space_with ?dir (KERNEL_END (syms s)) vs s1" "set vs = set (first_regions s) \<union> {(tbl, 1), (heap, 10)}" "length vs = 5"
      "virt_end s1 vs \<le> 0x8040B000" "heap_state s1 = fresh_heap tbl heap"
      "0x80000000 \<le> unat heap \<and> unat heap + 0xA000 \<le> 0xFFFFFFFF" "length ps = 10" "fresh_pages ps (free_pages bs) bs1"
      "bs1 \<noteq> [] \<Longrightarrow> \<forall>i < 10. pte ?dir s1 (heap + of_nat i * PAGE_SIZE) = Some (frame (ps ! i) OR 0xfff)"
      "early_step 25 ?dir s s1"
    by (rule init_kernel_memory_gives [OF inv(1,2)]) (rule that; assumption)
  have two: "2 \<le> card (free_pages bs1)"
    using k(13) room free_count_card [OF inv(1)] free_count_card [OF k(2)] by (simp add: early_step_def pages_used_def)
  then have ne: "bs1 \<noteq> []" by auto
  have at: "cr3 s1 = ?dir" "cur_address_space s1 = Kernel_Space"
    using k(13) inv(3) space_withD(1) [OF k(4)] by (simp_all add: early_step_def)
  have rd: "clone_ready ?dir s1 bs1 vs"
    by (rule space_with_clone_ready [OF k(4,6,7,2) two low(1,2) reads_directory_early [OF k(13) low(3,1,2)]])
  obtain c t bs' vs' where c: "clone_directory ?dir s1 = Some (c, t)" "page_aligned c" "page_no c \<in> free_pages bs1 - free_pages bs'"
      "page_no c \<notin> table_pages ?dir t" "\<And>k. k < 1024 \<Longrightarrow> pde c t k = pde ?dir t k" "paging_inv ?dir t bs'"
      "free_pages bs' \<subseteq> free_pages bs1" "virt_regions t vs'" "set vs' = set vs" "space_kept s1 t"
      "\<And>va. unat va < unat (as_start (cur_space s1)) \<or> unat va \<in> occupied virt_len vs \<Longrightarrow> pte ?dir s1 va \<noteq> None \<Longrightarrow> pte ?dir t va = pte ?dir s1 va"
    by (rule clone_directory_gives [OF rd at]) (rule that; assumption)
  have st: "cur_address_space t = Kernel_Space" "page_dir (cur_space t) = ?dir" "heap_state t = fresh_heap tbl heap"
    using c(10) at(2) space_withD(3) [OF k(4)] k(8) unfolding space_kept_def by metis+
  let ?a = "\<lparr>page_dir = c, as_start = USER_ADDRESS_SPACE_START, as_end = USER_ADDRESS_SPACE_END,
    virt_memory = virt_memory (cur_space t), dynamic_memory = heap_state t\<rparr>"
  define s' where "s' = t\<lparr>user_address_space := ?a\<rparr>"
  note u = set_user_space_keeps [OF st(1), where a = ?a, folded s'_def]
  have "kernel_address_space q = cur_space q" if "cur_address_space q = Kernel_Space" for q
    using that by (simp add: address_space_def)
  then have "init_user_space s1 = Some s'"
    using c(1) at(2) st(1) space_withD(3) [OF k(4)] by (simp add: init_user_space_def s'_def)
  then have run: "init_kernel_memory s \<bind> init_user_space = Some s'"
    using k(1) by simp
  have pages: "distinct (map page_no ps)" "page_no ` set ps \<subseteq> free_pages bs - free_pages bs'"
      "page_no c \<in> free_pages bs - free_pages bs'" "free_pages bs' \<subseteq> free_pages bs"
    using k(3,11) ne c(3,7) unfolding fresh_pages_def by blast+
  have "(heap, 10) \<in> set vs" using k(5) by blast
  from heap_page_occupied [OF this conjunct2 [OF k(9)]]
  have heap: "\<forall>i < 10. pte ?dir s' (heap + of_nat i * PAGE_SIZE) = Some (frame (ps ! i) OR 0xfff)"
    unfolding u(7) using k(12) [OF ne] c(11) [of "heap + of_nat i * PAGE_SIZE" for i] by simp
  have tr: "\<forall>va. translate c s' va = translate ?dir s' va"
    using c(5) pd_index_less u(10) by (simp add: translate_def pte_eq)
  have hr: "heap_state s' = fresh_heap tbl heap" "heap_regions s' []"
    using fresh_heap_regions [of s' tbl heap] st(3) k(9) unfolding u(2) by simp_all
  have rest: "page_dir (cur_space s') = ?dir" "paging_inv ?dir s' bs'" "virt_regions s' vs'" "page_no c \<notin> table_pages ?dir s'"
      "set vs' = set (first_regions s) \<union> {(tbl, 1), (heap, 10)}"
    unfolding u(2,6,8,9) using st(2) c(4,6,8,9) k(5) by simp_all
  note facts = run u(1) rest(1,2) pages(4) rest(3,5) hr k(10) pages(1,2) heap u(3) [folded u(2)] c(2) pages(3) rest(4) tr
  show ?thesis
    unfolding spaces_ready_def by (intro exI conjI) (rule facts)+
qed

section \<open>Property\<close>

text \<open>
  C4: the start of the memory manager behind the memory map (\<open>init_kernel_memory\<close> and
  \<open>init_user_space\<close>, which \<open>init_memory_manager\<close> runs one after the other). If the free list is sound with
  at least 27 free pages, the page tables in use lie outside them, the directory is shown by the boot
  code's mapping of low memory at its own address, and the linker script places the table of regions
  after the kernel and below the window, then it returns, and the free list, the page tables, the table of
  regions and the heap all satisfy their invariants: five regions that do not overlap (kernel, table
  of regions, window, table of the heap, heap), an empty heap whose ten pages are mapped to distinct
  pages that were free, and an address space of the user that shares both tables and whose directory
  is a fresh page that translates every address as the kernel's does.
\<close>

theorem spaces_established:
  assumes inv: "paging_inv (kernel_page_dir s) s bs" "kernel_layout s" "cr3 s = kernel_page_dir s"
    and low: "page_aligned (kernel_page_dir s)" "unat (kernel_page_dir s) < 0x80000000"
      "reads_directory (kernel_page_dir s) (kernel_page_dir s) s"
    and room: "27 \<le> card (free_pages bs)"
  shows "\<exists>tbl heap c s' bs' vs ps. init_kernel_memory s \<bind> init_user_space = Some s'
    \<and> cur_address_space s' = Kernel_Space \<and> page_dir (cur_space s') = kernel_page_dir s
    \<and> paging_inv (kernel_page_dir s) s' bs' \<and> free_pages bs' \<subseteq> free_pages bs
    \<and> virt_regions s' vs \<and> set vs = set (first_regions s) \<union> {(tbl, 1), (heap, 10)}
    \<and> heap_state s' = fresh_heap tbl heap \<and> heap_regions s' []
    \<and> length ps = 10 \<and> distinct (map page_no ps) \<and> page_no ` set ps \<subseteq> free_pages bs - free_pages bs'
    \<and> (\<forall>i < 10. pte (kernel_page_dir s) s' (heap + of_nat i * PAGE_SIZE) = Some (frame (ps ! i) OR 0xfff))
    \<and> user_address_space s' = \<lparr>page_dir = c, as_start = USER_ADDRESS_SPACE_START, as_end = USER_ADDRESS_SPACE_END,
         virt_memory = virt_memory (cur_space s'), dynamic_memory = heap_state s'\<rparr>
    \<and> page_aligned c \<and> page_no c \<in> free_pages bs - free_pages bs' \<and> page_no c \<notin> table_pages (kernel_page_dir s) s'
    \<and> (\<forall>va. translate c s' va = translate (kernel_page_dir s) s' va)"
  using spaces_hold [OF assms] unfolding spaces_ready_def by (elim exE conjE) (intro exI conjI, assumption+)

text \<open>
  64 free pages from \<open>0x300000\<close> on, the directory at \<open>0x1000\<close> and a table at \<open>0x5000\<close> that maps its page onto
  itself.
\<close>

definition early :: kernel where
  "early = zero_kernel\<lparr>phys := (\<lambda>_. 0)(0x1000 := 0x5007, 0x5004 := 0x1007, 0x300000 := 0x300000, 0x300004 := 0x300000,
       0x300008 := 64), free_page_count := 64, free_phys_memory_pointer := 0x300000, cr3 := 0x1000, kernel_page_dir := 0x1000\<rparr>"

lemma early_fields: "cr3 early = 0x1000" "kernel_page_dir early = 0x1000" "syms early = syms zero_kernel"
  "phys early = (\<lambda>_. 0)(0x1000 := 0x5007, 0x5004 := 0x1007, 0x300000 := 0x300000, 0x300004 := 0x300000, 0x300008 := 64)"
  by (simp_all add: early_def)

lemma early_pde: "i < 1024 \<Longrightarrow> pde 0x1000 early i = (if i = 0 then 0x5007 else 0)"
proof -
  assume i: "i < 1024"
  have cell: "0x1000 + 4 * i \<noteq> c + 4 * j" if "page_aligned c" "c \<noteq> 0x1000" "j < 1024" for c j
    using table_cell_eq [of "0x1000" c i j] i that by (simp add: page_aligned_def)
  have "0x1000 + 4 * i = 0x1000 \<longleftrightarrow> i = 0"
    using table_cell_eq [of "0x1000" "0x1000" i 0] i by (simp add: page_aligned_def)
  then show ?thesis
    using cell [of "0x5000" 1] cell [of "0x300000" 0] cell [of "0x300000" 1] cell [of "0x300000" 2]
    by (simp add: pde_def early_fields frame_0x1000 page_aligned_def)
qed

lemma early_inv: "paging_inv 0x1000 early [(0x300000, 64)]"
proof -
  have "phys_inv early [(0x300000, 64)]"
    by (simp add: phys_inv_def free_list_def early_def circ_Cons page_aligned_def)
  moreover have "tables_ok 0x1000 early (free_pages [(0x300000, 64)])"
    using frame_0x1000 by (auto simp: tables_ok_def early_pde page_no_def present_def run_pages_def split: if_splits)
  ultimately show ?thesis
    by (simp add: paging_inv_def)
qed

lemma early_reads: "reads_directory 0x1000 0x1000 early"
proof -
  have "pte 0x1000 early 0x1000 = Some 0x1007"
    by (simp add: pte_eq pd_index_def pt_index_def early_pde present_def frame_0x1000 early_fields)
  then have p: "pte 0x1000 early 0x1000 = Some (frame 0x1000 OR 7)"
    by (simp add: frame_0x1000)
  show ?thesis
    unfolding reads_directory_def
  proof (intro allI impI)
    fix k :: u32 assume "k < 1024"
    then have "4 * k < 4096" by (simp add: word_less_nat_alt unat_word_ariths)
    then show "translate 0x1000 early (0x1000 + 4 * k) = Some (frame 0x1000 + 4 * k)"
      using translate_mapped [OF p, of "4 * k"] by (simp add: page_aligned_def frame_0x1000)
  qed
qed

theorem spaces_established_witness:
  "\<exists>s' vs tbl heap c. init_kernel_memory early \<bind> init_user_space = Some s' \<and> virt_regions s' vs
    \<and> set vs = {(0x80000000, 16), (0x80010000, 1), (0x803FF000, 1), (tbl, 1), (heap, 10)} \<and> heap_regions s' []
    \<and> page_dir (user_address_space s') = c \<and> (\<forall>va. translate c s' va = translate 0x1000 s' va)"
proof -
  have l: "kernel_layout early"
    unfolding kernel_layout_def early_fields by (simp add: zero_kernel_def page_aligned_def TEMP_PAGE_value)
  have f: "first_regions early = [(0x80000000, 16), (0x80010000, 1), (0x803FF000, 1)]"
    unfolding first_regions_def early_fields by (simp add: zero_kernel_def TEMP_PAGE_value)
  have c: "page_aligned 0x1000" "unat (0x1000 :: u32) < 0x80000000" "27 \<le> card (free_pages [(0x300000, 64)])"
    "(0x1000 :: u32) = 0x1000"
    by (simp_all add: page_aligned_def run_pages_def)
  from spaces_established [of early, unfolded early_fields(1,2), OF early_inv l c(4,1,2) early_reads c(3)] show ?thesis
    unfolding f by (elim exE conjE) (intro exI conjI, assumption, assumption, simp add: insert_commute, assumption, simp, assumption)
qed

text \<open>
  With the loop over the memory map before it, this is all of \<open>init_memory_manager\<close>: it returns for every
  map that ends with an entry of type 0 and has its regions at page boundaries in ascending order, if
  the pages that it frees are 27 at least and keep clear of the page tables in use.
\<close>

theorem init_memory_manager_returns:
  assumes "mmap_ends (mem s) p n" and "24 * Suc n \<le> 2 ^ 32"
    and "\<forall>r \<in> set (mmap_regions (kernel_size s) (mem s) p n). run_ok r"
    and "sorted_wrt run_before (mmap_regions (kernel_size s) (mem s) p n)"
    and tab: "tables_ok (cr3 s) s (free_pages (mmap_regions (kernel_size s) (mem s) p n))" and lay: "kernel_layout s"
    and low: "page_aligned (cr3 s)" "unat (cr3 s) < 0x80000000" "reads_directory (cr3 s) (cr3 s) s"
    and room: "27 \<le> card (free_pages (mmap_regions (kernel_size s) (mem s) p n))"
  shows "\<exists>s' bs vs. init_memory_manager p s = Some s' \<and> paging_inv (cr3 s) s' bs \<and> virt_regions s' vs \<and> heap_regions s' []"
proof -
  obtain t bs where t: "init_physical p s = Some t" "phys_inv t bs"
    "free_pages bs = free_pages (mmap_regions (kernel_size s) (mem s) p n)"
    "syms t = syms s" "kernel_page_dir t = cr3 s" "phys_beside (free_pages bs) s t"
    by (rule init_physical_gives [OF assms(1-4)]) (rule that; assumption)
  note same = tables_beside [OF tab [folded t(3)] t(6)]
  have inv: "paging_inv (kernel_page_dir t) t bs"
    using t(2,5) same(1) by (simp add: paging_inv_def)
  have rest: "kernel_layout t" "cr3 t = kernel_page_dir t" "27 \<le> card (free_pages bs)"
    using lay t(3,4,5,6) room by (simp_all add: kernel_layout_def phys_beside_def)
  have "reads_directory (kernel_page_dir t) (kernel_page_dir t) t"
    using low(3) same(2) t(5) by (simp add: reads_directory_def)
  then obtain s' where "init_kernel_memory t \<bind> init_user_space = Some s'" "spaces_ready t bs s'"
    using spaces_hold [OF inv rest(1,2) _ _ _ rest(3)] low(1,2) t(5) by auto
  then have "init_memory_manager p s = Some s'" "spaces_ready t bs s'"
    using t(1) by (simp_all add: init_memory_manager_def)
  then show ?thesis
    unfolding spaces_ready_def t(5) by (elim exE conjE) (intro exI conjI, assumption+)
qed

end
