(* ===== verification/Spec2Isabelle.thy ===== *)
theory Spec2Isabelle
  imports Session KeyEvents LinkedList ATA Tss Startup
begin

text \<open>
  A verification development for the kernel of sandor_os, a small operating system for 32-bit x86.

  \<^bold>\<open>The program.\<close> \<open>startup.asm\<close> turns paging on and calls \<open>kernel_main\<close> (\<open>main.cpp\<close>), which sets up memory
  (\<open>memory_manager.c\<close>), segments (\<open>gdt.c\<close>), interrupts (\<open>interrupts.c\<close>, \<open>PIC.c\<close>, \<open>PIT.c\<close>) and the
  screen and keyboard (\<open>tty.c\<close>), and leaves ring 0 (\<open>task.c\<close>). The shell (\<open>shell.c\<close>) reads lines from the keyboard and dumps memory;
  \<open>ATA.c\<close> drives disks; \<open>stdlib.c\<close> has the memory and string functions all of them use;
  \<open>List.hpp\<close> is a list on the kernel heap that nothing uses yet. All state is in global variables, in the tables the code keeps in memory, and in the devices.

  \<^bold>\<open>The theories.\<close>
  \<^item> \<open>Prelude\<close>: the words \<open>u8\<close>, \<open>u16\<close>, \<open>u32\<close>, counting loops with their rule, facts on \<open>unat\<close>, the
    collection \<open>step_simps\<close>.
  \<^item> \<open>Memory\<close>: byte memory with loads and stores; locale \<open>cell_store\<close> (a load after a store), interpreted
    for the three widths.
  \<^item> \<open>Stdlib\<close>: \<open>stdlib.c\<close>. \<open>memcpy\<close> is proved to move its source whatever the overlap, the string
    functions on NUL-terminated strings.
  \<^item> \<open>Machine\<close>: the record \<open>kernel\<close> with one field per global, the structs as records, the ports. Reads
    of ports come from the environment \<open>port_in\<close>, writes go to \<open>out_log\<close>.
  \<^item> \<open>Cpu\<close>: the stack, the interrupt flag and \<open>iretl\<close>, for the code that drives them by inline assembly.
  \<^item> \<open>Allocator\<close>: locale \<open>allocator\<close>, the contract that the three allocators of the kernel share (a grant
    is new, and what is left is the rest); sequences of requests are proved disjoint once.
  \<^item> \<open>PhysMem\<close>, \<open>PhysAlloc\<close>: \<open>alloc_phys_pages\<close> and \<open>free_phys_pages\<close>, a circular list of headers inside
    the free pages, reached through the window \<open>TEMP_PAGE\<close>; refined to first fit on a list of runs.
  \<^item> \<open>Paging\<close>: \<open>get_physaddr\<close>, \<open>map_pages\<close>, \<open>unmap_pages\<close> against the translation of the MMU; locale
    \<open>page_edit\<close> for the two loops over pages.
  \<^item> \<open>BlockTable\<close>: the sorted table of blocks of regions and of the heap; locale \<open>region_unit\<close> for its
    two units, pages and bytes.
  \<^item> \<open>VirtTable\<close>, \<open>VirtMem\<close>: \<open>add_virt_block\<close>, \<open>del_virt_block\<close>, \<open>alloc_virt_pages\<close>, \<open>free_virt_pages\<close>.
  \<^item> \<open>Budget\<close>: how many physical pages the operations use up at most.
  \<^item> \<open>VirtFree\<close>: \<open>free_virt_pages\<close> gives the frames and the region back, while the free list that the loop
    changes lives in the same physical memory as the page tables that it reads.
  \<^item> \<open>Heap\<close>: \<open>kmalloc\<close>, \<open>kfree\<close>; the heap that a client sees, as a set of disjoint blocks (\<open>heap_space\<close>).
  \<^item> \<open>LinkedList\<close>: \<open>List.hpp\<close> for a type of \<open>n\<close> bytes, refined to the list of its values.
  \<^item> \<open>Terminal\<close>: the screen half of \<open>tty.c\<close>, refined to an abstract screen; locale \<open>char_sink\<close>.
  \<^item> \<open>Keyboard\<close>: the keyboard half of \<open>tty.c\<close> and \<open>scancodes.h\<close>; locale \<open>fifo\<close> for the ring between
    interrupt and reader. Interleaving is a schedule: the codes that arrive before each poll.
  \<^item> \<open>KeyEvents\<close>: the same ring as a step relation of interrupts and reads in any order.
  \<^item> \<open>Interrupts\<close>: \<open>interrupts.c\<close>, \<open>PIC.c\<close>, \<open>PIT.c\<close>, and the way of an interrupt through its gate to the handler.
  \<^item> \<open>Gdt\<close>: \<open>gdt.c\<close>, with what the processor checks when it loads the table, the segment registers and the
    task register. \<open>Tss\<close>: \<open>tss.c\<close>, a copy of two of its functions that the makefile does not link.
  \<^item> \<open>ATA\<close>: \<open>ATA.c\<close>.
  \<^item> \<open>Shell\<close>, \<open>CommandLine\<close>, \<open>Dump\<close>: \<open>shell.c\<close>; the parser of lines on a sound heap, the text of the dumps.
  \<^item> \<open>Frame\<close>: what operations on the heap, the screen and the keys leave alone.
  \<^item> \<open>LineInput\<close>: \<open>in_string\<close> with the growth of its buffer, against the line that the scan codes spell.
  \<^item> \<open>Session\<close>: the whole shell, composed of all these, against a dialogue of prompt, line and answer.
  \<^item> \<open>Task\<close>: \<open>enter_usermode\<close>, instruction by instruction.
  \<^item> \<open>Multiboot\<close>: the structs of \<open>multiboot.h\<close> and their layout.
  \<^item> \<open>KernelSpace\<close>: the part of \<open>init_memory_manager\<close> that sets up the kernel's address space and its heap; it
    establishes the invariants that \<open>Paging\<close>, \<open>VirtTable\<close> and \<open>Heap\<close> keep. And \<open>alloc_virt_pages\<close> where memory
    is enough.
  \<^item> \<open>Boot\<close>: the memory map of the boot loader, \<open>init_memory_manager\<close>, \<open>clone_directory\<close>,
    \<open>change_address_space\<close>, \<open>init_tty\<close>, \<open>kernel_main\<close>, composed of the operations above.
  \<^item> \<open>Clone\<close>: the copy of a directory is the directory, entry by entry.
  \<^item> \<open>Startup\<close>: the start of the memory manager from the free list to the address space of the user.

  \<^bold>\<open>Memory twice.\<close> Physical memory (\<open>phys\<close>) is a function from the addresses of 32-bit cells: only the
  headers of the free list and the page tables live there, always accessed as aligned cells through
  the window. The byte memory \<open>mem\<close> holds what the kernel reaches at its own virtual addresses.
  The two do not alias in the model: the page table entry of the window is the field \<open>temp_pte\<close>, and
  its copy in \<open>phys\<close> is not followed, so a theorem on \<open>map_pages\<close> or \<open>get_physaddr\<close> says nothing of the
  page of the window itself; and \<open>physdump\<close> of memory that the kernel also writes through \<open>mem\<close> shows the
  old bytes, for which its theorem excludes the pages that the printing writes. Every address of
  \<open>phys\<close> is memory, also past the end that the boot loader reported, and so is every address of \<open>mem\<close>: an access to
  \<open>mem\<close> never faults, not even \<open>virtdump\<close> of an address that is not mapped. Only what is read
  through the page tables does (\<open>virtual_cell\<close>, \<open>virtual_load8\<close>, \<open>virtual_load16\<close> in \<open>Paging\<close>): page tables and BIOS
  data that \<open>Boot\<close> reads through a mapping, and what the segment instructions of \<open>Gdt\<close> read.

  \<^bold>\<open>Errors and loops.\<close> A result \<open>None\<close> is a fault of one of those accesses, a protection fault of an
  instruction that \<open>Gdt\<close> or \<open>Interrupts\<close> models, a division by zero, an index outside a table or a
  loop that does not end. Loops that need not end are \<open>partial_function\<close>s; every theorem that an
  operation returns states \<open>= Some\<close>. There is no fuel, except that \<open>shell\<close> is run for a number of
  rounds, since its loop never ends, and that polling is bounded by the 6000 of the code.

  \<^bold>\<open>Conditions.\<close> Several operations are right only under conditions that the code does not check; they
  are hypotheses, and where the code goes wrong without them a theorem shows it: the first block of an
  empty heap (\<open>kmalloc_first_unchecked\<close>), sizes that wrap around (\<open>add_virt_block_wraps\<close>), page tables
  that are not cleared (\<open>map_pages_table_not_cleared\<close>), runs below every free page
  or just below the only one (\<open>free_phys_pages_loses_low_run\<close>), lines without arguments or with
  leading spaces (\<open>pars_input_keeps_old_arguments\<close>, \<open>pars_input_leading_spaces\<close>), a full address space
  (\<open>alloc_virt_pages_maps_null_page\<close>). The theorems on the memory map take a map that ends with an entry
  of type 0 and whose regions are page aligned and ascending, which the boot loader does not promise.
  Where memory has to be enough, the bounds are 27 free pages for the start (two for each of the twelve pages mapped
  and three for the copy of the directory), \<open>2 * count + 1\<close> for \<open>alloc_virt_pages\<close>, one frame and at most one
  page table for each page, and 257 stubs for the interrupt table.

  \<^bold>\<open>Not modelled.\<close> \<open>startup.asm\<close> and \<open>interrupts.asm\<close> (assembly; the wrapper is a template of bytes at a
  symbolic address), the translation cache beyond the flushes the code makes, and concurrency other
  than the keyboard interrupt. What is left of the C files is no code: \<open>create_address_space\<close> has an
  empty body, the end of \<open>memory_manager.c\<close> is commented out, and the headers hold prototypes, include
  guards and constants and macros that nothing uses. \<open>get_free_memory_size\<close> is declared and never
  defined. \<open>virt_grow_table\<close>, \<open>virt_shrink_table\<close> and \<open>heap_grow_table\<close> are modelled
  and composed, but the properties are about the calls that do not need them.
\<close>

end
